(* ===== verification/Xv6_Prelude.thy ===== *)
theory Xv6_Prelude
  imports Main "HOL-Library.Word" "HOL-Library.Monad_Syntax"
begin

text \<open>
  Shared vocabulary of the development: the machine integer types of
  \<^verbatim>\<open>kernel/types.h\<close>, the reading of C's \<^verbatim>\<open>int\<close> conversions, the loop combinators the
  kernel's array scans are written with, and the collections of simplification rules
  that the component theories extend.

  A kernel function that may not return is a function into \<^typ>\<open>'a option\<close>: \<^term>\<open>None\<close>
  is a run that does not come back to its caller, that is a \<^verbatim>\<open>panic\<close> (the machine
  halts), a spin that never ends, or a caller that is suspended.  A C error return
  (\<^verbatim>\<open>-1\<close>, a null pointer) is an ordinary value.
\<close>

unbundle bit_operations_syntax

type_synonym u8 = "8 word"
type_synonym u16 = "16 word"
type_synonym u32 = "32 word"
type_synonym u64 = "64 word"
type_synonym bytes = "u8 list"

named_theorems lock_simps "evaluation of the lock discipline"
named_theorems mem_simps "loads and stores on physical memory"
named_theorems frame_simps "what an operation leaves alone"

text \<open>\<^verbatim>\<open>if(b) panic(...)\<close>.\<close>

definition panic_if :: "bool \<Rightarrow> unit option" where
  "panic_if b = (if b then None else Some ())"

lemma panic_if_simps [simp]: "panic_if True = None" "panic_if False = Some ()"
  by (simp_all add: panic_if_def)

lemma panic_if_eq_Some [simp]: "panic_if b = Some u \<longleftrightarrow> \<not> b"
  by (simp add: panic_if_def)

lemma option_eqI: "(\<And>i. a = Some i \<longleftrightarrow> b = Some i) \<Longrightarrow> a = b"
  by (cases a; cases b) auto

subsection \<open>Words of 32 bits without overflow\<close>

lemma unat_of_nat32: "n < 2 ^ 32 \<Longrightarrow> unat (of_nat n :: u32) = n"
  by (simp add: unsigned_of_nat take_bit_nat_eq_self)

lemma unat_add_small: "unat (x :: u32) + unat y < 2 ^ 32 \<Longrightarrow> unat (x + y) = unat x + unat y"
  by (simp add: unat_word_ariths)

subsection \<open>Loops over index ranges\<close>

text \<open>\<^verbatim>\<open>for(i = ...)\<close> without an early exit; the loop stops where the body does not return.\<close>

primrec for_each :: "'i list \<Rightarrow> ('i \<Rightarrow> 's \<Rightarrow> 's option) \<Rightarrow> 's \<Rightarrow> 's option" where
  "for_each [] body s = Some s"
| "for_each (i # is) body s = do { s \<leftarrow> body i s; for_each is body s }"

lemma for_each_append:
  "for_each (xs @ ys) body s = do { s \<leftarrow> for_each xs body s; for_each ys body s }"
  by (induction xs arbitrary: s) (auto split: bind_splits)

lemma for_each_invariant:
  assumes "for_each is body s = Some t" and "I s"
    and "\<And>i s t. i \<in> set is \<Longrightarrow> I s \<Longrightarrow> body i s = Some t \<Longrightarrow> I t"
  shows "I t"
  using assms
proof (induction "is" arbitrary: s)
  case Nil
  then show ?case by simp
next
  case (Cons i "is")
  from Cons.prems(1) obtain u where u: "body i s = Some u" "for_each is body u = Some t"
    by (auto simp: bind_eq_Some_conv)
  have "I u" using Cons.prems u(1) by auto
  from Cons.IH [OF u(2) this] Cons.prems(3) show ?case by auto
qed

text \<open>A loop whose body always returns runs to its end.\<close>

lemma for_each_total:
  assumes "I s"
    and "\<And>i s. i \<in> set is \<Longrightarrow> I s \<Longrightarrow> \<exists>t. body i s = Some t \<and> I t"
  shows "\<exists>t. for_each is body s = Some t \<and> I t"
  using assms
proof (induction "is" arbitrary: s)
  case Nil
  then show ?case by simp
next
  case (Cons i "is")
  from Cons.prems obtain u where u: "body i s = Some u" "I u"
    by (meson list.set_intros(1))
  from Cons.IH [OF u(2)] Cons.prems(2) obtain t
    where "for_each is body u = Some t" "I t" by auto
  with u show ?case by auto
qed

text \<open>Counting up, with an invariant indexed by the count.\<close>

lemma for_each_upt:
  assumes "I 0 s" and "\<And>i s. i < n \<Longrightarrow> I i s \<Longrightarrow> \<exists>t. body i s = Some t \<and> I (Suc i) t"
  shows "\<exists>t. for_each [0..<n] body s = Some t \<and> I n t"
  using assms(2)
proof (induction n)
  case 0
  then show ?case using assms(1) by simp
next
  case (Suc n)
  then obtain u where u: "for_each [0..<n] body s = Some u" "I n u" by (meson less_SucI)
  then obtain t where "body n u = Some t" "I (Suc n) t" using Suc.prems by blast
  with u show ?case by (auto simp: for_each_append)
qed

lemma for_each_cong_fun:
  "(\<And>i s. i \<in> set is \<Longrightarrow> body i s = body' i s) \<Longrightarrow> for_each is body s = for_each is body' s"
  by (induction "is" arbitrary: s) (auto split: bind_splits)

text \<open>The first index of a scan that satisfies a test (\<^verbatim>\<open>goto found\<close>, \<^verbatim>\<open>return i\<close>)
  is the library's \<^const>\<open>List.find\<close> on the range.\<close>

lemma find_upt:
  "List.find P [0..<n] = Some i \<longleftrightarrow> i < n \<and> P i \<and> (\<forall>j<i. \<not> P j)"
  by (auto simp: find_Some_iff)

lemma find_upt_None: "List.find P [0..<n] = None \<longleftrightarrow> (\<forall>i<n. \<not> P i)"
  by (auto simp: find_None_iff)

end
