(* ===== verification/Spinlock.thy ===== *)
theory Spinlock
  imports Xv6_Prelude
begin

text \<open>
  \<^verbatim>\<open>kernel/spinlock.c\<close> and the per-CPU state of \<^verbatim>\<open>kernel/proc.h\<close>.  The state holds one
  \<^verbatim>\<open>struct cpu\<close> per hart, the supervisor interrupt-enable bit of each hart and every
  spin lock of the kernel.  A function takes the hart that executes it (\<^verbatim>\<open>r_tp()\<close>).

  The second part is the contract the other components rely on: on the hart that runs
  a kernel path, a lock is held or not (\<open>held\<close>), acquiring a held lock and releasing one
  that is not held do not return.  The last part runs the instructions of
  \<^verbatim>\<open>acquire\<close> and \<^verbatim>\<open>release\<close> of all harts interleaved.
\<close>

subsection \<open>The locks of the kernel\<close>

datatype sleeplock_id = BufLock nat | InodeLock nat

datatype lock =
    PidLock | WaitLock | ProcLock nat | KmemLock | TicksLock | LogLock | BcacheLock
  | ItableLock | FtableLock | PipeLock u64 | ConsLock | UartTxLock | VdiskLock
  | SleepLk sleeplock_id | PrLock

record spinlock =
  lk_name :: string
  lk_locked :: u32
  lk_cpu :: "nat option"

record cpu =
  c_proc :: "nat option"
  noff :: int
  intena :: bool

record lkstate =
  cpus :: "nat \<Rightarrow> cpu"
  sie :: "nat \<Rightarrow> bool"
  locks :: "lock \<Rightarrow> spinlock"

subsection \<open>Operations\<close>

definition intr_get :: "nat \<Rightarrow> lkstate \<Rightarrow> bool" where
  "intr_get h s = sie s h"

definition intr_off :: "nat \<Rightarrow> lkstate \<Rightarrow> lkstate" where
  "intr_off h s = s\<lparr>sie := (sie s)(h := False)\<rparr>"

definition intr_on :: "nat \<Rightarrow> lkstate \<Rightarrow> lkstate" where
  "intr_on h s = s\<lparr>sie := (sie s)(h := True)\<rparr>"

definition initlock :: "lock \<Rightarrow> string \<Rightarrow> lkstate \<Rightarrow> lkstate" where
  "initlock l name s = s\<lparr>locks := (locks s)(l := \<lparr>lk_name = name, lk_locked = 0, lk_cpu = None\<rparr>)\<rparr>"

definition push_off :: "nat \<Rightarrow> lkstate \<Rightarrow> lkstate" where
  "push_off h s =
     (let old = intr_get h s;
          s = intr_off h s;
          s = (if noff (cpus s h) = 0
               then s\<lparr>cpus := (cpus s)(h := (cpus s h)\<lparr>intena := old\<rparr>)\<rparr> else s)
      in s\<lparr>cpus := (cpus s)(h := (cpus s h)\<lparr>noff := noff (cpus s h) + 1\<rparr>)\<rparr>)"

definition pop_off :: "nat \<Rightarrow> lkstate \<Rightarrow> lkstate option" where
  "pop_off h s =
     (if intr_get h s then None
      else if noff (cpus s h) < 1 then None
      else let s = s\<lparr>cpus := (cpus s)(h := (cpus s h)\<lparr>noff := noff (cpus s h) - 1\<rparr>)\<rparr>
           in if noff (cpus s h) = 0 \<and> intena (cpus s h) then Some (intr_on h s) else Some s)"

definition holding :: "nat \<Rightarrow> lock \<Rightarrow> lkstate \<Rightarrow> bool" where
  "holding h l s \<longleftrightarrow> lk_locked (locks s l) \<noteq> 0 \<and> lk_cpu (locks s l) = Some h"

text \<open>\<^verbatim>\<open>__sync_lock_test_and_set(&lk->locked, 1)\<close>: an atomic swap with 1.\<close>

definition test_and_set :: "lock \<Rightarrow> lkstate \<Rightarrow> u32 \<times> lkstate" where
  "test_and_set l s =
     (lk_locked (locks s l), s\<lparr>locks := (locks s)(l := (locks s l)\<lparr>lk_locked := 1\<rparr>)\<rparr>)"

partial_function (option) spin :: "lock \<Rightarrow> lkstate \<Rightarrow> lkstate option" where
  "spin l s = (case test_and_set l s of (old, s) \<Rightarrow> if old \<noteq> 0 then spin l s else Some s)"

definition set_lk_cpu :: "lock \<Rightarrow> nat option \<Rightarrow> lkstate \<Rightarrow> lkstate" where
  "set_lk_cpu l c s = s\<lparr>locks := (locks s)(l := (locks s l)\<lparr>lk_cpu := c\<rparr>)\<rparr>"

definition clear_locked :: "lock \<Rightarrow> lkstate \<Rightarrow> lkstate" where
  "clear_locked l s = s\<lparr>locks := (locks s)(l := (locks s l)\<lparr>lk_locked := 0\<rparr>)\<rparr>"

definition acquire :: "nat \<Rightarrow> lock \<Rightarrow> lkstate \<Rightarrow> lkstate option" where
  "acquire h l s =
     (let s = push_off h s
      in if holding h l s then None
         else do { s \<leftarrow> spin l s; Some (set_lk_cpu l (Some h) s) })"

definition release :: "nat \<Rightarrow> lock \<Rightarrow> lkstate \<Rightarrow> lkstate option" where
  "release h l s =
     (if \<not> holding h l s then None
      else pop_off h (clear_locked l (set_lk_cpu l None s)))"

subsection \<open>Interrupt nesting\<close>

lemmas lk_defs = intr_get_def intr_off_def intr_on_def push_off_def pop_off_def holding_def
  set_lk_cpu_def clear_locked_def test_and_set_def Let_def

lemma sie_push_off [simp]: "sie (push_off h s) h = False"
  and noff_push_off [simp]: "noff (cpus (push_off h s) h) = noff (cpus s h) + 1"
  and locks_push_off [simp]: "locks (push_off h s) = locks s"
  by (auto simp: lk_defs)

text \<open>Nested \<^verbatim>\<open>push_off\<close>/\<^verbatim>\<open>pop_off\<close> restore the interrupt bit and the depth they found.\<close>

primrec push_offs :: "nat \<Rightarrow> nat \<Rightarrow> lkstate \<Rightarrow> lkstate" where
  "push_offs 0 h s = s"
| "push_offs (Suc n) h s = push_off h (push_offs n h s)"

primrec pop_offs :: "nat \<Rightarrow> nat \<Rightarrow> lkstate \<Rightarrow> lkstate option" where
  "pop_offs 0 h s = Some s"
| "pop_offs (Suc n) h s = do { s \<leftarrow> pop_off h s; pop_offs n h s }"

lemma push_offs_state:
  assumes "noff (cpus s h) = 0" and "0 < n"
  shows "push_offs n h s =
    s\<lparr>sie := (sie s)(h := False),
      cpus := (cpus s)(h := (cpus s h)\<lparr>intena := sie s h, noff := int n\<rparr>)\<rparr>"
proof -
  obtain m where n: "n = Suc m" using assms(2) by (cases n) auto
  have "push_offs (Suc m) h s =
    s\<lparr>sie := (sie s)(h := False),
      cpus := (cpus s)(h := (cpus s h)\<lparr>intena := sie s h, noff := int (Suc m)\<rparr>)\<rparr>"
    using assms(1) by (induct m) (simp_all add: lk_defs fun_upd_same del: fun_upd_apply)
  with n show ?thesis by simp
qed

lemma pop_off_Some_iff:
  "pop_off h s = Some t \<longleftrightarrow>
     \<not> sie s h \<and> 1 \<le> noff (cpus s h) \<and>
     t = s\<lparr>cpus := (cpus s)(h := (cpus s h)\<lparr>noff := noff (cpus s h) - 1\<rparr>),
           sie := (sie s)(h := noff (cpus s h) = 1 \<and> intena (cpus s h))\<rparr>"
  by (auto simp: lk_defs fun_upd_idem)

lemma pop_offs_state:
  assumes "\<not> sie s h" and "noff (cpus s h) = int (Suc n)"
  shows "\<exists>t. pop_offs (Suc n) h s = Some t \<and> sie t = (sie s)(h := intena (cpus s h)) \<and>
    cpus t = (cpus s)(h := (cpus s h)\<lparr>noff := 0\<rparr>) \<and> locks t = locks s"
  using assms
proof (induct n arbitrary: s)
  case 0
  then show ?case
    using pop_off_Some_iff [of h s] by auto
next
  case (Suc n)
  let ?t = "s\<lparr>cpus := (cpus s)(h := (cpus s h)\<lparr>noff := int (Suc n)\<rparr>)\<rparr>"
  have t: "pop_off h s = Some ?t"
    using Suc.prems by (simp add: lk_defs)
  have "\<exists>u. pop_offs (Suc n) h ?t = Some u \<and> sie u = (sie ?t)(h := intena (cpus ?t h)) \<and>
    cpus u = (cpus ?t)(h := (cpus ?t h)\<lparr>noff := 0\<rparr>) \<and> locks u = locks ?t"
    by (rule Suc.hyps) (use Suc.prems in simp_all)
  with t show ?case by (auto simp del: pop_offs.simps(2) simp add: pop_offs.simps(2) [of "Suc n"])
qed

subsection \<open>Acquire and release\<close>

lemma spin_free:
  "lk_locked (locks s l) = 0 \<Longrightarrow>
     spin l s = Some (s\<lparr>locks := (locks s)(l := (locks s l)\<lparr>lk_locked := 1\<rparr>)\<rparr>)"
  by (subst spin.simps) (simp add: test_and_set_def)

text \<open>A lock that is taken is spun on forever: within one hart nothing clears it.\<close>

lemma spin_taken: "lk_locked (locks s l) \<noteq> 0 \<Longrightarrow> spin l s = None"
proof -
  have "spin l s = Some t \<Longrightarrow> lk_locked (locks s l) = 0" for t
  proof (rule spin.raw_induct [where P = "\<lambda>l s t. lk_locked (locks s l) = 0"])
    fix f l s t
    assume IH: "\<And>l s t. f l s = Some t \<Longrightarrow> lk_locked (locks s l) = (0 :: u32)"
      and eq: "(case test_and_set l s of (old, s) \<Rightarrow> if old \<noteq> 0 then f l s else Some s) = Some t"
    show "lk_locked (locks s l) = 0"
    proof (rule ccontr)
      assume "lk_locked (locks s l) \<noteq> 0"
      with eq have "f l (s\<lparr>locks := (locks s)(l := (locks s l)\<lparr>lk_locked := 1\<rparr>)\<rparr>) = Some t"
        by (simp add: test_and_set_def)
      from IH [OF this] show False by simp
    qed
  qed
  then show "lk_locked (locks s l) \<noteq> 0 \<Longrightarrow> spin l s = None"
    by (cases "spin l s") auto
qed

lemma acquire_Some_iff:
  "acquire h l s = Some t \<longleftrightarrow>
     lk_locked (locks s l) = 0 \<and>
     t = (push_off h s)\<lparr>locks := (locks s)(l := (locks s l)\<lparr>lk_locked := 1, lk_cpu := Some h\<rparr>)\<rparr>"
proof (cases "lk_locked (locks s l) = 0")
  case True
  then have "spin l (push_off h s) =
      Some ((push_off h s)\<lparr>locks := (locks s)(l := (locks s l)\<lparr>lk_locked := 1\<rparr>)\<rparr>)"
    by (subst spin_free) simp_all
  with True show ?thesis
    by (auto simp: acquire_def holding_def set_lk_cpu_def Let_def)
next
  case False
  then show ?thesis
    by (auto simp: acquire_def Let_def spin_taken)
qed

lemma release_Some_iff:
  "release h l s = Some t \<longleftrightarrow>
     holding h l s \<and> \<not> sie s h \<and> 1 \<le> noff (cpus s h) \<and>
     t = s\<lparr>locks := (locks s)(l := (locks s l)\<lparr>lk_cpu := None, lk_locked := 0\<rparr>),
           cpus := (cpus s)(h := (cpus s h)\<lparr>noff := noff (cpus s h) - 1\<rparr>),
           sie := (sie s)(h := noff (cpus s h) = 1 \<and> intena (cpus s h))\<rparr>"
  by (auto simp: release_def pop_off_Some_iff clear_locked_def set_lk_cpu_def)

subsection \<open>The contract: which locks the running hart holds\<close>

record lockst =
  held :: "lock set"

definition acq :: "lock \<Rightarrow> 'a lockst_scheme \<Rightarrow> 'a lockst_scheme option" where
  "acq l s = (if l \<in> held s then None else Some (s\<lparr>held := insert l (held s)\<rparr>))"

definition rel :: "lock \<Rightarrow> 'a lockst_scheme \<Rightarrow> 'a lockst_scheme option" where
  "rel l s = (if l \<in> held s then Some (s\<lparr>held := held s - {l}\<rparr>) else None)"

lemma acq_Some [lock_simps]: "l \<notin> held s \<Longrightarrow> acq l s = Some (s\<lparr>held := insert l (held s)\<rparr>)"
  by (simp add: acq_def)

lemma rel_Some [lock_simps]: "l \<in> held s \<Longrightarrow> rel l s = Some (s\<lparr>held := held s - {l}\<rparr>)"
  by (simp add: rel_def)

lemma acq_eq_Some: "acq l s = Some t \<longleftrightarrow> l \<notin> held s \<and> t = s\<lparr>held := insert l (held s)\<rparr>"
  by (auto simp: acq_def)

lemma rel_eq_Some: "rel l s = Some t \<longleftrightarrow> l \<in> held s \<and> t = s\<lparr>held := held s - {l}\<rparr>"
  by (auto simp: rel_def)

lemma held_section [lock_simps]: "l \<notin> H \<Longrightarrow> insert l H - {l} = H"
  by auto

text \<open>What every client may use of a lock implementation, and what follows from it alone.\<close>

locale lock_discipline =
  fixes lock_op :: "lock \<Rightarrow> 's \<Rightarrow> 's option"
    and unlock_op :: "lock \<Rightarrow> 's \<Rightarrow> 's option"
    and holds :: "'s \<Rightarrow> lock set"
  assumes lock_op_holds: "lock_op l s = Some t \<Longrightarrow> l \<notin> holds s \<and> holds t = insert l (holds s)"
    and unlock_op_holds: "unlock_op l s = Some t \<Longrightarrow> l \<in> holds s \<and> holds t = holds s - {l}"
begin

lemma no_relock: "lock_op l s = Some t \<Longrightarrow> lock_op l t = None"
  by (metis insertI1 lock_op_holds not_None_eq)

lemma no_double_unlock: "unlock_op l s = Some t \<Longrightarrow> unlock_op l t = None"
  by (metis Diff_iff insertI1 not_None_eq unlock_op_holds)

text \<open>A critical section whose body leaves the lock set alone is balanced.\<close>

lemma section_balanced:
  assumes "lock_op l s = Some t" and "holds u = holds t" and "unlock_op l u = Some v"
  shows "holds v = holds s"
  using lock_op_holds [OF assms(1)] unlock_op_holds [OF assms(3)] assms(2) by auto

text \<open>Locks may be released in another order than they were taken.\<close>

lemma sections_overlap:
  assumes "lock_op l s = Some t" and "lock_op k t = Some u" and "unlock_op l u = Some v"
    and "unlock_op k v = Some w"
  shows "holds w = holds s \<and> l \<noteq> k"
  using lock_op_holds [OF assms(1)] lock_op_holds [OF assms(2)]
    unlock_op_holds [OF assms(3)] unlock_op_holds [OF assms(4)] by auto

end

interpretation held_set: lock_discipline acq rel held
  by unfold_locales (auto simp: acq_eq_Some rel_eq_Some)

interpretation spin_impl: lock_discipline "acquire h" "release h" "\<lambda>s. {l. holding h l s}" for h
  by unfold_locales (auto simp: acquire_Some_iff release_Some_iff holding_def split: if_splits)

text \<open>The spin locks implement the contract on a hart whose locks no other hart holds; the
  nesting depth \<^verbatim>\<open>noff\<close> is the number of locks held.\<close>

definition lock_refines :: "nat \<Rightarrow> lkstate \<Rightarrow> lockst \<Rightarrow> bool" where
  "lock_refines h c a \<longleftrightarrow>
     held a = {l. holding h l c} \<and>
     (\<forall>l. lk_locked (locks c l) \<noteq> 0 \<longrightarrow> lk_cpu (locks c l) = Some h) \<and>
     finite (held a) \<and> noff (cpus c h) = int (card (held a)) \<and>
     (held a \<noteq> {} \<longrightarrow> \<not> sie c h)"

lemma lock_refines_acquire:
  assumes "lock_refines h c a"
  shows "rel_option (lock_refines h) (acquire h l c) (acq l a)"
proof (cases "lk_locked (locks c l) = 0")
  case True
  let ?c = "(push_off h c)\<lparr>locks := (locks c)(l := (locks c l)\<lparr>lk_locked := 1, lk_cpu := Some h\<rparr>)\<rparr>"
  have l: "l \<notin> held a" using True assms by (auto simp: lock_refines_def holding_def)
  have "lock_refines h ?c (a\<lparr>held := insert l (held a)\<rparr>)"
    using assms l by (auto simp: lock_refines_def holding_def)
  moreover have "acquire h l c = Some ?c" using True by (simp add: acquire_Some_iff)
  ultimately show ?thesis using l by (simp add: acq_def)
next
  case False
  then have "acquire h l c = None" by (metis acquire_Some_iff not_None_eq)
  moreover have "l \<in> held a" using False assms by (auto simp: lock_refines_def holding_def)
  ultimately show ?thesis by (simp add: acq_def)
qed

lemma lock_refines_release:
  assumes "lock_refines h c a"
  shows "rel_option (lock_refines h) (release h l c) (rel l a)"
proof (cases "holding h l c")
  case True
  then have l: "l \<in> held a" and si: "\<not> sie c h" and fin: "finite (held a)"
    and nf: "noff (cpus c h) = int (card (held a))"
    using assms by (auto simp: lock_refines_def)
  have pos: "0 < card (held a)" using l fin card_gt_0_iff by blast
  let ?c = "c\<lparr>locks := (locks c)(l := (locks c l)\<lparr>lk_cpu := None, lk_locked := 0\<rparr>),
           cpus := (cpus c)(h := (cpus c h)\<lparr>noff := noff (cpus c h) - 1\<rparr>),
           sie := (sie c)(h := noff (cpus c h) = 1 \<and> intena (cpus c h))\<rparr>"
  have ne: "card (held a) \<noteq> Suc 0" if "held a - {l} \<noteq> {}"
    using that l by (auto simp: card_Suc_eq)
  have "lock_refines h ?c (a\<lparr>held := held a - {l}\<rparr>)"
    using assms l pos nf fin ne
    by (auto simp: lock_refines_def holding_def card_Diff_singleton of_nat_diff)
  moreover have "release h l c = Some ?c"
    using True si nf pos by (simp add: release_Some_iff)
  ultimately show ?thesis using l by (simp add: rel_def)
next
  case False
  then have "release h l c = None" by (simp add: release_def)
  moreover have "l \<notin> held a" using False assms by (auto simp: lock_refines_def)
  ultimately show ?thesis by (simp add: rel_def)
qed

subsection \<open>All harts, instruction by instruction\<close>

text \<open>
  Each hart is outside the lock code, or at one of its instructions: spinning on the swap,
  past a swap that returned 0, past the store \<^verbatim>\<open>lk->cpu = 0\<close>, or past the store that clears
  \<^verbatim>\<open>locked\<close>.  \<open>own\<close> records the locks whose swap a hart won and whose \<^verbatim>\<open>locked\<close> it has not
  cleared: its critical sections.
\<close>

datatype lkpc = LIdle | LSpin lock | LGot lock | LRel lock | LPop

record lkmach =
  lkm :: lkstate
  lpc :: "nat \<Rightarrow> lkpc"
  own :: "nat \<Rightarrow> lock set"

definition lk_init :: "lkmach \<Rightarrow> bool" where
  "lk_init m \<longleftrightarrow> (\<forall>l. lk_locked (locks (lkm m) l) = 0 \<and> lk_cpu (locks (lkm m) l) = None) \<and>
     (\<forall>h. noff (cpus (lkm m) h) = 0 \<and> lpc m h = LIdle \<and> own m h = {})"

inductive lk_step :: "lkmach \<Rightarrow> lkmach \<Rightarrow> bool" where
  irq: "lpc m h = LIdle \<Longrightarrow> noff (cpus (lkm m) h) = 0 \<Longrightarrow>
    lk_step m (m\<lparr>lkm := (lkm m)\<lparr>sie := (sie (lkm m))(h := b)\<rparr>\<rparr>)"
| enter: "lpc m h = LIdle \<Longrightarrow> \<not> holding h l (push_off h (lkm m)) \<Longrightarrow>
    lk_step m (m\<lparr>lkm := push_off h (lkm m), lpc := (lpc m)(h := LSpin l)\<rparr>)"
| swap_lost: "lpc m h = LSpin l \<Longrightarrow> test_and_set l (lkm m) = (old, s) \<Longrightarrow> old \<noteq> 0 \<Longrightarrow>
    lk_step m (m\<lparr>lkm := s\<rparr>)"
| swap_won: "lpc m h = LSpin l \<Longrightarrow> test_and_set l (lkm m) = (0, s) \<Longrightarrow>
    lk_step m (m\<lparr>lkm := s, lpc := (lpc m)(h := LGot l), own := (own m)(h := insert l (own m h))\<rparr>)"
| record_cpu: "lpc m h = LGot l \<Longrightarrow>
    lk_step m (m\<lparr>lkm := set_lk_cpu l (Some h) (lkm m), lpc := (lpc m)(h := LIdle)\<rparr>)"
| leave: "lpc m h = LIdle \<Longrightarrow> holding h l (lkm m) \<Longrightarrow>
    lk_step m (m\<lparr>lkm := set_lk_cpu l None (lkm m), lpc := (lpc m)(h := LRel l)\<rparr>)"
| clear: "lpc m h = LRel l \<Longrightarrow>
    lk_step m (m\<lparr>lkm := clear_locked l (lkm m), lpc := (lpc m)(h := LPop),
      own := (own m)(h := own m h - {l})\<rparr>)"
| pop: "lpc m h = LPop \<Longrightarrow> pop_off h (lkm m) = Some s \<Longrightarrow>
    lk_step m (m\<lparr>lkm := s, lpc := (lpc m)(h := LIdle)\<rparr>)"

inductive lk_reach :: "lkmach \<Rightarrow> lkmach \<Rightarrow> bool" for m where
  lkr_refl: "lk_reach m m"
| lkr_step: "lk_reach m n \<Longrightarrow> lk_step n k \<Longrightarrow> lk_reach m k"

text \<open>\<open>pending\<close> counts the \<^verbatim>\<open>push_off\<close> that belongs to no owned lock.\<close>

definition pending :: "lkpc \<Rightarrow> nat" where
  "pending p = (case p of LSpin _ \<Rightarrow> 1 | LPop \<Rightarrow> 1 | _ \<Rightarrow> 0)"

lemma pending_simps [simp]:
  "pending LIdle = 0" "pending (LSpin l) = 1" "pending (LGot l) = 0" "pending (LRel l) = 0"
  "pending LPop = 1"
  by (simp_all add: pending_def)

text \<open>A lock is free, or it belongs to exactly one hart.\<close>

definition lock_free :: "lkmach \<Rightarrow> lock \<Rightarrow> bool" where
  "lock_free m l \<longleftrightarrow> lk_locked (locks (lkm m) l) = 0 \<and> lk_cpu (locks (lkm m) l) = None \<and>
     (\<forall>h. l \<notin> own m h \<and> lpc m h \<noteq> LGot l \<and> lpc m h \<noteq> LRel l)"

definition lock_owned :: "lkmach \<Rightarrow> lock \<Rightarrow> nat \<Rightarrow> bool" where
  "lock_owned m l h \<longleftrightarrow> lk_locked (locks (lkm m) l) \<noteq> 0 \<and> (\<forall>k. l \<in> own m k \<longleftrightarrow> k = h) \<and>
     (\<forall>k. lk_cpu (locks (lkm m) l) = Some k \<longrightarrow> k = h) \<and>
     (\<forall>k. lpc m k = LGot l \<or> lpc m k = LRel l \<longrightarrow> k = h \<and> lk_cpu (locks (lkm m) l) = None)"

definition own_ok :: "lkmach \<Rightarrow> bool" where
  "own_ok m \<longleftrightarrow> (\<forall>l. lock_free m l \<or> (\<exists>h. lock_owned m l h))"

definition nest_ok :: "lkmach \<Rightarrow> bool" where
  "nest_ok m \<longleftrightarrow> (\<forall>h. finite (own m h) \<and>
     noff (cpus (lkm m) h) = int (card (own m h) + pending (lpc m h)) \<and>
     (0 < noff (cpus (lkm m) h) \<longrightarrow> \<not> sie (lkm m) h))"

lemma lk_init_ok: "lk_init m \<Longrightarrow> own_ok m \<and> nest_ok m"
  by (auto simp: lk_init_def own_ok_def lock_free_def nest_ok_def)

lemma push_off_other [simp]:
  "k \<noteq> h \<Longrightarrow> cpus (push_off h s) k = cpus s k" "k \<noteq> h \<Longrightarrow> sie (push_off h s) k = sie s k"
  by (auto simp: lk_defs)

text \<open>A step that touches neither the words of a lock nor its owners keeps its status.\<close>

lemma lock_status_frame:
  assumes "locks (lkm n) l = locks (lkm m) l" and "\<And>k. l \<in> own n k \<longleftrightarrow> l \<in> own m k"
    and "\<And>k. lpc n k = LGot l \<longleftrightarrow> lpc m k = LGot l" and "\<And>k. lpc n k = LRel l \<longleftrightarrow> lpc m k = LRel l"
  shows "lock_free n l = lock_free m l" and "lock_owned n l h = lock_owned m l h"
  using assms by (simp_all add: lock_free_def lock_owned_def)

lemma own_okI:
  assumes "own_ok m"
    and "\<And>l. l \<noteq> l0 \<Longrightarrow> locks (lkm n) l = locks (lkm m) l \<and> (\<forall>k. l \<in> own n k \<longleftrightarrow> l \<in> own m k) \<and>
      (\<forall>k. (lpc n k = LGot l \<longleftrightarrow> lpc m k = LGot l) \<and> (lpc n k = LRel l \<longleftrightarrow> lpc m k = LRel l))"
    and "lock_free n l0 \<or> (\<exists>h. lock_owned n l0 h)"
  shows "own_ok n"
  unfolding own_ok_def
proof
  fix l
  show "lock_free n l \<or> (\<exists>h. lock_owned n l h)"
  proof (cases "l = l0")
    case True
    then show ?thesis using assms(3) by simp
  next
    case False
    then have "lock_free n l = lock_free m l" "\<And>h. lock_owned n l h = lock_owned m l h"
      using assms(2) lock_status_frame [of n l m] by auto
    then show ?thesis using assms(1) by (simp add: own_ok_def)
  qed
qed

lemma own_okE:
  assumes "own_ok m"
  obtains (free) "lock_free m l" | (owned) h where "lock_owned m l h"
  using assms by (auto simp: own_ok_def)

lemma own_ok_step: "lk_step m n \<Longrightarrow> own_ok m \<Longrightarrow> own_ok n"
proof (induction rule: lk_step.induct)
  case (irq m h b)
  then show ?case by (simp add: own_ok_def lock_free_def lock_owned_def)
next
  case (enter m h l)
  have "lock_free (m\<lparr>lkm := push_off h (lkm m), lpc := (lpc m)(h := LSpin l)\<rparr>) x = lock_free m x"
    and "lock_owned (m\<lparr>lkm := push_off h (lkm m), lpc := (lpc m)(h := LSpin l)\<rparr>) x k = lock_owned m x k"
    for x k
    by (rule lock_status_frame; simp add: enter.hyps)+
  with enter.prems show ?case by (simp add: own_ok_def)
next
  case (swap_lost m h l old s)
  from swap_lost.prems obtain k where "lock_owned m l k"
    by (rule own_okE [of m l]) (use swap_lost.hyps in \<open>auto simp: lock_free_def test_and_set_def\<close>)
  then have "lock_owned (m\<lparr>lkm := s\<rparr>) l k"
    using swap_lost.hyps by (auto simp: lock_owned_def test_and_set_def)
  then show ?case using swap_lost.hyps
    by (intro own_okI [OF swap_lost.prems, of l]) (auto simp: test_and_set_def)
next
  case (swap_won m h l s)
  from swap_won.prems have "lock_free m l"
    by (rule own_okE [of m l]) (use swap_won.hyps in \<open>auto simp: lock_owned_def test_and_set_def\<close>)
  then have "lock_owned (m\<lparr>lkm := s, lpc := (lpc m)(h := LGot l), own := (own m)(h := insert l (own m h))\<rparr>) l h"
    using swap_won.hyps by (auto simp: lock_free_def lock_owned_def test_and_set_def)
  then show ?case using swap_won.hyps
    by (intro own_okI [OF swap_won.prems, of l]) (auto simp: test_and_set_def)
next
  case (record_cpu m h l)
  from record_cpu.prems have "lock_owned m l h"
    by (rule own_okE [of m l]) (use record_cpu.hyps in \<open>auto simp: lock_free_def lock_owned_def\<close>)
  then have "lock_owned (m\<lparr>lkm := set_lk_cpu l (Some h) (lkm m), lpc := (lpc m)(h := LIdle)\<rparr>) l h"
    by (auto simp: lock_owned_def set_lk_cpu_def)
  then show ?case using record_cpu.hyps
    by (intro own_okI [OF record_cpu.prems, of l]) (auto simp: set_lk_cpu_def)
next
  case (leave m h l)
  from leave.prems have "lock_owned m l h"
    by (rule own_okE [of m l]) (use leave.hyps in \<open>auto simp: lock_free_def lock_owned_def holding_def\<close>)
  then have "lock_owned (m\<lparr>lkm := set_lk_cpu l None (lkm m), lpc := (lpc m)(h := LRel l)\<rparr>) l h"
    by (auto simp: lock_owned_def set_lk_cpu_def)
  then show ?case using leave.hyps
    by (intro own_okI [OF leave.prems, of l]) (auto simp: set_lk_cpu_def)
next
  case (clear m h l)
  from clear.prems have "lock_owned m l h"
    by (rule own_okE [of m l]) (use clear.hyps in \<open>auto simp: lock_free_def lock_owned_def\<close>)
  then have "\<And>k. k \<noteq> h \<Longrightarrow> l \<notin> own m k \<and> lpc m k \<noteq> LGot l \<and> lpc m k \<noteq> LRel l"
    and "lk_cpu (locks (lkm m) l) = None"
    using clear.hyps unfolding lock_owned_def by blast+
  then have "lock_free (m\<lparr>lkm := clear_locked l (lkm m), lpc := (lpc m)(h := LPop),
      own := (own m)(h := own m h - {l})\<rparr>) l"
    by (simp add: lock_free_def clear_locked_def)
  then show ?case using clear.hyps
    by (intro own_okI [OF clear.prems, of l]) (auto simp: clear_locked_def)
next
  case (pop m h s)
  then have eq: "locks s = locks (lkm m)" by (auto simp: pop_off_Some_iff)
  have "lock_free (m\<lparr>lkm := s, lpc := (lpc m)(h := LIdle)\<rparr>) x = lock_free m x"
    and "lock_owned (m\<lparr>lkm := s, lpc := (lpc m)(h := LIdle)\<rparr>) x k = lock_owned m x k" for x k
    by (rule lock_status_frame; simp add: eq pop.hyps)+
  with pop.prems show ?case by (simp add: own_ok_def)
qed

lemma nest_ok_step: "lk_step m n \<Longrightarrow> own_ok m \<Longrightarrow> nest_ok m \<Longrightarrow> nest_ok n"
proof (induction rule: lk_step.induct)
  case (enter m h l)
  then show ?case by (auto simp: nest_ok_def)
next
  case (swap_won m h l s)
  then have "l \<notin> own m h"
    by (auto simp: test_and_set_def lock_free_def lock_owned_def elim: own_okE [of m l])
  with swap_won show ?case by (auto simp: nest_ok_def test_and_set_def)
next
  case (clear m h l)
  then have l: "l \<in> own m h" and fin: "finite (own m h)"
    by (auto simp: nest_ok_def lock_free_def lock_owned_def elim: own_okE [of m l])
  have "card (own m h) = Suc (card (own m h - {l}))" by (rule card.remove [OF fin l])
  with clear show ?case by (auto simp: nest_ok_def clear_locked_def)
next
  case (pop m h s)
  then show ?case by (auto simp: nest_ok_def pop_off_Some_iff)
qed (auto simp: nest_ok_def test_and_set_def set_lk_cpu_def)

lemma lk_reach_ok:
  assumes "lk_init m" and "lk_reach m n"
  shows "own_ok n \<and> nest_ok n"
  using assms(2)
proof (induction rule: lk_reach.induct)
  case lkr_refl
  show ?case using assms(1) by (rule lk_init_ok)
next
  case (lkr_step n k)
  then show ?case using own_ok_step nest_ok_step by blast
qed

subsection \<open>Properties\<close>

text \<open>C2: mutual exclusion.  However the instructions of \<^verbatim>\<open>acquire\<close> and \<^verbatim>\<open>release\<close> of all harts
  interleave, a lock that hart \<open>h\<close> is inside of is inside of no other hart, its \<^verbatim>\<open>locked\<close> word is
  set, and interrupts are off on \<open>h\<close>, so no handler on \<open>h\<close> can deadlock on it.\<close>

theorem lock_mutual_exclusion:
  assumes "lk_init m" and "lk_reach m n" and "l \<in> own n h"
  shows "(\<forall>k. l \<in> own n k \<longrightarrow> k = h) \<and> lk_locked (locks (lkm n) l) \<noteq> 0 \<and> \<not> sie (lkm n) h"
proof -
  have ok: "own_ok n" "nest_ok n" using lk_reach_ok [OF assms(1,2)] by simp_all
  have "lock_owned n l h"
    using ok(1) assms(3) by (auto simp: lock_free_def lock_owned_def elim: own_okE [of n l])
  moreover have "\<not> sie (lkm n) h"
    using ok(2) assms(3) card_gt_0_iff [of "own n h"] unfolding nest_ok_def
    by (metis add_pos_nonneg empty_iff le0 of_nat_0_less_iff)
  ultimately show ?thesis by (auto simp: lock_owned_def)
qed

definition lk_boot :: lkmach where
  "lk_boot = \<lparr>lkm = \<lparr>cpus = (\<lambda>_. \<lparr>c_proc = None, noff = 0, intena = False\<rparr>), sie = (\<lambda>_. True),
      locks = (\<lambda>_. \<lparr>lk_name = [], lk_locked = 0, lk_cpu = None\<rparr>)\<rparr>,
    lpc = (\<lambda>_. LIdle), own = (\<lambda>_. {})\<rparr>"

lemma lk_boot_init: "lk_init lk_boot"
  by (simp add: lk_init_def lk_boot_def)

lemma lk_boot_acquires: "\<exists>n. lk_reach lk_boot n \<and> KmemLock \<in> own n 2"
proof -
  let ?s = "push_off 2 (lkm lk_boot)"
  let ?m = "lk_boot\<lparr>lkm := ?s, lpc := (lpc lk_boot)(2 := LSpin KmemLock)\<rparr>"
  let ?n = "?m\<lparr>lkm := snd (test_and_set KmemLock ?s), lpc := (lpc ?m)(2 := LGot KmemLock),
      own := (own ?m)(2 := insert KmemLock (own ?m 2))\<rparr>"
  have "lk_step lk_boot ?m"
    by (rule lk_step.enter) (simp_all add: lk_boot_def lk_defs)
  moreover have "lk_step ?m ?n"
    by (rule lk_step.swap_won) (simp_all add: lk_boot_def lk_defs)
  ultimately have "lk_reach lk_boot ?n" by (blast intro: lk_reach.intros)
  then show ?thesis by (intro exI [of _ ?n]) simp
qed

theorem lock_mutual_exclusion_witness:
  "\<exists>n. lk_reach lk_boot n \<and> KmemLock \<in> own n 2 \<and> (\<forall>k. KmemLock \<in> own n k \<longrightarrow> k = 2) \<and>
    \<not> sie (lkm n) 2"
  using lk_boot_acquires lock_mutual_exclusion [OF lk_boot_init] by blast

text \<open>\<^verbatim>\<open>push_off\<close> and \<^verbatim>\<open>pop_off\<close> are matched: from depth 0, after \<open>n\<close> calls of the one interrupts
  are off, and \<open>n\<close> calls of the other all return, restore the interrupt-enable bit, whatever it was,
  and touch no lock.\<close>

theorem push_pop_balanced:
  assumes "noff (cpus s h) = 0" and "0 < n"
  shows "\<not> sie (push_offs n h s) h \<and> (\<exists>t. pop_offs n h (push_offs n h s) = Some t \<and>
    sie t = sie s \<and> noff (cpus t h) = 0 \<and> locks t = locks s)"
proof -
  obtain m where n: "n = Suc m" using assms(2) by (cases n) auto
  note st = push_offs_state [OF assms]
  have "\<exists>t. pop_offs (Suc m) h (push_offs n h s) = Some t \<and>
      sie t = (sie (push_offs n h s))(h := intena (cpus (push_offs n h s) h)) \<and>
      cpus t = (cpus (push_offs n h s))(h := (cpus (push_offs n h s) h)\<lparr>noff := 0\<rparr>) \<and>
      locks t = locks (push_offs n h s)"
    by (rule pop_offs_state) (simp_all only: st, simp_all add: n)
  then show ?thesis unfolding n st [unfolded n] by auto
qed

theorem push_pop_balanced_witness:
  "\<exists>t. pop_offs 3 0 (push_offs 3 0 (lkm lk_boot)) = Some t \<and> sie t 0"
  using push_pop_balanced [of "lkm lk_boot" 0 3] by (force simp: lk_boot_def)



end
