(* ===== verification/Cstring.thy ===== *)
theory Cstring
  imports Xv6_Prelude
begin

text \<open>
  Byte-addressed memory and \<^verbatim>\<open>kernel/string.c\<close>.

  Physical memory is a function from 64-bit addresses to bytes; addresses wrap.  A region is
  the set of addresses whose offset from its base is below its length, which is exact also at
  the end of the address space.  The functions that may be called on overlapping objects
  (\<^verbatim>\<open>memmove\<close>) and those that write (\<^verbatim>\<open>memset\<close>) work on memory; the string functions read
  through a pointer and are written over the bytes seen through it, a function from offsets.
\<close>

type_synonym memory = "u64 \<Rightarrow> u8"
type_synonym buf = "nat \<Rightarrow> u8"

subsection \<open>Regions\<close>

definition in_rng :: "u64 \<Rightarrow> u64 \<Rightarrow> nat \<Rightarrow> bool" where
  "in_rng a base n \<longleftrightarrow> unat (a - base) < n"

lemma in_rng_0 [simp]: "\<not> in_rng a base 0"
  by (simp add: in_rng_def)

lemma u64_bound: "unat (a :: u64) < 2 ^ 64"
  using unsigned_less [of a] by simp

lemma in_rng_full [simp]: "2 ^ 64 \<le> n \<Longrightarrow> in_rng a base n"
  using u64_bound [of "a - base"] by (simp add: in_rng_def)

lemma unat_of_nat_64: "i < 2 ^ 64 \<Longrightarrow> unat (of_nat i :: u64) = i"
  by (simp add: unat_of_nat take_bit_nat_eq_self_iff)

lemma in_rng_offset: "i < n \<Longrightarrow> n \<le> 2 ^ 64 \<Longrightarrow> in_rng (base + of_nat i) base n"
  by (simp add: in_rng_def unat_of_nat_64)

lemma in_rng_iff: "n \<le> 2 ^ 64 \<Longrightarrow> in_rng a base n \<longleftrightarrow> (\<exists>i<n. a = base + of_nat i)"
proof
  assume "in_rng a base n"
  then show "\<exists>i<n. a = base + of_nat i"
    by (intro exI [of _ "unat (a - base)"]) (simp add: in_rng_def)
qed (auto simp: in_rng_offset)

lemma offset_eq_iff:
  "i < 2 ^ 64 \<Longrightarrow> a = base + of_nat i \<longleftrightarrow> unat (a - base) = i" for a base :: u64
proof
  assume i: "i < 2 ^ 64" and "unat (a - base) = i"
  then have "of_nat i = a - base" by auto
  then show "a = base + of_nat i" by simp
qed (simp add: unat_of_nat_64)

lemma offset_inj:
  "i < 2 ^ 64 \<Longrightarrow> j < 2 ^ 64 \<Longrightarrow> (base + of_nat i :: u64) = base + of_nat j \<longleftrightarrow> i = j"
  by (metis add_left_cancel unat_of_nat_64)

lemma in_rng_nowrap:
  "unat base + n \<le> 2 ^ 64 \<Longrightarrow> in_rng a base n \<longleftrightarrow> unat base \<le> unat a \<and> unat a < unat base + n"
  unfolding in_rng_def unat_sub_if' using u64_bound [of base] u64_bound [of a] by auto

subsection \<open>Loads and stores\<close>

definition bytes_at :: "memory \<Rightarrow> u64 \<Rightarrow> nat \<Rightarrow> bytes" where
  "bytes_at m a n = map (\<lambda>i. m (a + of_nat i)) [0..<n]"

lemma length_bytes_at [simp]: "length (bytes_at m a n) = n"
  by (simp add: bytes_at_def)

lemma nth_bytes_at [simp]: "i < n \<Longrightarrow> bytes_at m a n ! i = m (a + of_nat i)"
  by (simp add: bytes_at_def)

lemma bytes_at_cong: "(\<And>i. i < n \<Longrightarrow> m (a + of_nat i) = m' (a + of_nat i)) \<Longrightarrow> bytes_at m a n = bytes_at m' a n"
  by (simp add: bytes_at_def)

definition ld64 :: "memory \<Rightarrow> u64 \<Rightarrow> u64" where
  "ld64 m a = ucast (m a) OR push_bit 8 (ucast (m (a + 1))) OR push_bit 16 (ucast (m (a + 2))) OR
     push_bit 24 (ucast (m (a + 3))) OR push_bit 32 (ucast (m (a + 4))) OR
     push_bit 40 (ucast (m (a + 5))) OR push_bit 48 (ucast (m (a + 6))) OR
     push_bit 56 (ucast (m (a + 7)))"

definition st64 :: "u64 \<Rightarrow> u64 \<Rightarrow> memory \<Rightarrow> memory" where
  "st64 a v m = m(a := ucast v, a + 1 := ucast (drop_bit 8 v), a + 2 := ucast (drop_bit 16 v),
     a + 3 := ucast (drop_bit 24 v), a + 4 := ucast (drop_bit 32 v), a + 5 := ucast (drop_bit 40 v),
     a + 6 := ucast (drop_bit 48 v), a + 7 := ucast (drop_bit 56 v))"

lemma bit_byte_at:
  "bit (push_bit k (ucast (ucast (drop_bit k v) :: u8)) :: u64) n \<longleftrightarrow> k \<le> n \<and> n < k + 8 \<and> bit v n" for v :: u64
  by (auto simp: bit_simps dest: bit_imp_le_length)

lemma bit_byte_0: "bit (ucast (ucast v :: u8) :: u64) n \<longleftrightarrow> n < 8 \<and> bit v n" for v :: u64
  by (auto simp: bit_simps dest: bit_imp_le_length)

lemma bytes_join: "ucast (ucast v :: u8) OR push_bit 8 (ucast (ucast (drop_bit 8 v) :: u8)) OR
     push_bit 16 (ucast (ucast (drop_bit 16 v) :: u8)) OR push_bit 24 (ucast (ucast (drop_bit 24 v) :: u8)) OR
     push_bit 32 (ucast (ucast (drop_bit 32 v) :: u8)) OR push_bit 40 (ucast (ucast (drop_bit 40 v) :: u8)) OR
     push_bit 48 (ucast (ucast (drop_bit 48 v) :: u8)) OR push_bit 56 (ucast (ucast (drop_bit 56 v) :: u8)) = v"
  for v :: u64
proof (rule bit_word_eqI)
  fix n assume "n < LENGTH(64)"
  then show "bit ((ucast (ucast v :: u8) :: u64) OR push_bit 8 (ucast (ucast (drop_bit 8 v) :: u8)) OR
     push_bit 16 (ucast (ucast (drop_bit 16 v) :: u8)) OR push_bit 24 (ucast (ucast (drop_bit 24 v) :: u8)) OR
     push_bit 32 (ucast (ucast (drop_bit 32 v) :: u8)) OR push_bit 40 (ucast (ucast (drop_bit 40 v) :: u8)) OR
     push_bit 48 (ucast (ucast (drop_bit 48 v) :: u8)) OR push_bit 56 (ucast (ucast (drop_bit 56 v) :: u8))) n =
     bit v n"
    by (cases "bit v n") (simp_all only: bit_or_iff bit_byte_at bit_byte_0, simp_all, linarith)
qed

lemma ld64_st64_same [mem_simps]: "ld64 (st64 a v m) a = v"
proof -
  have "ld64 (st64 a v m) a = ucast (ucast v :: u8) OR push_bit 8 (ucast (ucast (drop_bit 8 v) :: u8)) OR
     push_bit 16 (ucast (ucast (drop_bit 16 v) :: u8)) OR push_bit 24 (ucast (ucast (drop_bit 24 v) :: u8)) OR
     push_bit 32 (ucast (ucast (drop_bit 32 v) :: u8)) OR push_bit 40 (ucast (ucast (drop_bit 40 v) :: u8)) OR
     push_bit 48 (ucast (ucast (drop_bit 48 v) :: u8)) OR push_bit 56 (ucast (ucast (drop_bit 56 v) :: u8))"
    by (simp add: ld64_def st64_def)
  then show ?thesis by (simp only: bytes_join)
qed

lemma st64_other [mem_simps]: "\<not> in_rng b a 8 \<Longrightarrow> st64 a v m b = m b"
proof -
  assume "\<not> in_rng b a 8"
  then have "b \<noteq> a + of_nat i" if "i < 8" for i using that in_rng_offset [of i 8 a] by auto
  from this [of 0] this [of 1] this [of 2] this [of 3] this [of 4] this [of 5] this [of 6] this [of 7]
  show ?thesis by (simp add: st64_def)
qed

lemma ld64_cong: "(\<And>b. in_rng b a 8 \<Longrightarrow> m b = m' b) \<Longrightarrow> ld64 m a = ld64 m' a"
proof -
  assume "\<And>b. in_rng b a 8 \<Longrightarrow> m b = m' b"
  then have "m (a + of_nat i) = m' (a + of_nat i)" if "i < 8" for i using that by (simp add: in_rng_offset)
  from this [of 0] this [of 1] this [of 2] this [of 3] this [of 4] this [of 5] this [of 6] this [of 7]
  show ?thesis by (simp add: ld64_def)
qed

subsection \<open>\<^verbatim>\<open>memset\<close> and \<^verbatim>\<open>memmove\<close>\<close>

definition memset :: "u64 \<Rightarrow> u8 \<Rightarrow> nat \<Rightarrow> memory \<Rightarrow> memory" where
  "memset dst c n m = fold (\<lambda>i m. m(dst + of_nat i := c)) [0..<n] m"

fun copy_up :: "u64 \<Rightarrow> u64 \<Rightarrow> nat \<Rightarrow> memory \<Rightarrow> memory" where
  "copy_up d s 0 m = m"
| "copy_up d s (Suc n) m = copy_up (d + 1) (s + 1) n (m(d := m s))"

fun copy_down :: "u64 \<Rightarrow> u64 \<Rightarrow> nat \<Rightarrow> memory \<Rightarrow> memory" where
  "copy_down d s 0 m = m"
| "copy_down d s (Suc n) m = copy_down (d - 1) (s - 1) n (m(d - 1 := m (s - 1)))"

definition memmove :: "u64 \<Rightarrow> u64 \<Rightarrow> nat \<Rightarrow> memory \<Rightarrow> memory" where
  "memmove dst src n m =
     (if n = 0 then m
      else if src < dst \<and> src + of_nat n > dst
      then copy_down (dst + of_nat n) (src + of_nat n) n m
      else copy_up dst src n m)"

lemma memset_apply:
  "n \<le> 2 ^ 64 \<Longrightarrow> memset dst c n m a = (if in_rng a dst n then c else m a)"
proof (induction n)
  case 0
  then show ?case by (simp add: memset_def)
next
  case (Suc n)
  then show ?case
    using offset_eq_iff [of n a dst] by (auto simp: memset_def in_rng_def)
qed

text \<open>Each copy loop is right when no source byte is overwritten before it is read.\<close>

lemma copy_up_apply:
  assumes "n \<le> 2 ^ 64" and "\<And>i j. j < n \<Longrightarrow> i < j \<Longrightarrow> s + of_nat j \<noteq> d + of_nat i"
  shows "copy_up d s n m a = (if in_rng a d n then m (s + (a - d)) else m a)"
  using assms
proof (induction n arbitrary: d s m)
  case 0
  then show ?case by simp
next
  case (Suc n)
  have ih: "copy_up (d + 1) (s + 1) n (m(d := m s)) a =
      (if in_rng a (d + 1) n then (m(d := m s)) (s + 1 + (a - (d + 1))) else (m(d := m s)) a)"
  proof (rule Suc.IH)
    fix i j assume "j < n" "i < j"
    then show "s + 1 + of_nat j \<noteq> d + 1 + of_nat i"
      using Suc.prems(2) [of "Suc j" "Suc i"] by (simp add: add.commute add.left_commute)
  qed (use Suc.prems in simp)
  have d: "a = d \<longleftrightarrow> unat (a - d) = 0" using unat_eq_0 [of "a - d"] by simp
  have step: "in_rng a (d + 1) n \<longleftrightarrow> a \<noteq> d \<and> in_rng a d (Suc n)"
  proof (cases "a = d")
    case True
    have "unat (- 1 :: u64) = 2 ^ 64 - 1" by (simp add: unsigned_minus_1_eq_mask mask_eq_exp_minus_1)
    then show ?thesis using True Suc.prems(1) by (simp add: in_rng_def)
  next
    case False
    then have "unat (a - d - 1) = unat (a - d) - 1"
      by (metis right_minus_eq unat_minus_one)
    then show ?thesis using False d by (auto simp: in_rng_def diff_diff_add)
  qed
  have src: "s + (a - d) \<noteq> d" if "in_rng a d (Suc n)" "a \<noteq> d"
    using that Suc.prems(2) [of "unat (a - d)" 0] d by (simp add: in_rng_def)
  show ?case
  proof (cases "a = d")
    case True
    then show ?thesis using ih step by (simp add: in_rng_def)
  next
    case False
    then show ?thesis using ih step src by (auto simp: algebra_simps)
  qed
qed

lemma copy_down_apply:
  assumes "n \<le> 2 ^ 64" and "\<And>i j. i < n \<Longrightarrow> j < i \<Longrightarrow> s + of_nat j \<noteq> d + of_nat i"
  shows "copy_down (d + of_nat n) (s + of_nat n) n m a =
    (if in_rng a d n then m (s + (a - d)) else m a)"
  using assms
proof (induction n arbitrary: m)
  case 0
  then show ?case by simp
next
  case (Suc n)
  let ?m = "m(d + of_nat n := m (s + of_nat n))"
  have "copy_down (d + of_nat (Suc n)) (s + of_nat (Suc n)) (Suc n) m a =
      copy_down (d + of_nat n) (s + of_nat n) n ?m a"
    by (simp add: algebra_simps)
  also have "\<dots> = (if in_rng a d n then ?m (s + (a - d)) else ?m a)"
    using Suc by simp
  also have "\<dots> = (if in_rng a d (Suc n) then m (s + (a - d)) else m a)"
  proof (cases "in_rng a d n")
    case True
    then have "s + (a - d) \<noteq> d + of_nat n"
      using Suc.prems(2) [of n "unat (a - d)"] by (simp add: in_rng_def)
    with True show ?thesis by (simp add: in_rng_def)
  next
    case False
    then show ?thesis
      using Suc.prems(1) offset_eq_iff [of n a d] by (auto simp: in_rng_def)
  qed
  finally show ?case .
qed

text \<open>\<^verbatim>\<open>memmove\<close> copies the bytes the source had on entry, however the two objects overlap.\<close>

lemma memmove_apply:
  assumes "unat src + n \<le> 2 ^ 64" and "unat dst + n \<le> 2 ^ 64"
  shows "memmove dst src n m a = (if in_rng a dst n then m (src + (a - dst)) else m a)"
proof (cases "n = 0")
  case True
  then show ?thesis by (simp add: memmove_def)
next
  case False
  have le: "n \<le> 2 ^ 64" using assms(1) by simp
  have un: "unat (b + of_nat i) = unat b + i" if "i < n" "unat b + n \<le> 2 ^ 64" for b :: u64 and i
    using that by (simp add: unat_word_ariths unat_of_nat_64)
  have cell: "src + of_nat j = dst + of_nat i \<longleftrightarrow> unat src + j = unat dst + i" if "i < n" "j < n" for i j
    using un [OF that(1) assms(2)] un [OF that(2) assms(1)] by (metis word_unat_eq_iff)
  have dir: "src < dst \<and> src + of_nat n > dst \<longrightarrow> unat src < unat dst"
    by (simp add: word_less_nat_alt)
  have top: "unat (src + of_nat n) = (if unat src + n = 2 ^ 64 then 0 else unat src + n)"
    using assms(1) False by (cases "n = 2 ^ 64") (auto simp: unat_word_ariths unat_of_nat_64)
  show ?thesis
  proof (cases "src < dst \<and> src + of_nat n > dst")
    case True
    have "src + of_nat j \<noteq> dst + of_nat i" if "i < n" "j < i" for i j
      using that cell [of i j] True by (simp add: word_less_nat_alt)
    then show ?thesis using True False copy_down_apply [OF le, of src dst m a] by (simp add: memmove_def)
  next
    case no: False
    have "src + of_nat j \<noteq> dst + of_nat i" if "j < n" "i < j" for i j
      using that cell [of i j] no top assms by (auto simp: word_less_nat_alt split: if_splits)
    then show ?thesis using no False copy_up_apply [OF le, of src dst m a] by (auto simp: memmove_def)
  qed
qed

subsection \<open>Comparison and copying of strings\<close>

primrec memcmp_from :: "buf \<Rightarrow> buf \<Rightarrow> nat \<Rightarrow> nat \<Rightarrow> int" where
  "memcmp_from s1 s2 i 0 = 0"
| "memcmp_from s1 s2 i (Suc n) =
     (if s1 i \<noteq> s2 i then int (unat (s1 i)) - int (unat (s2 i)) else memcmp_from s1 s2 (Suc i) n)"

definition memcmp :: "buf \<Rightarrow> buf \<Rightarrow> nat \<Rightarrow> int" where
  "memcmp v1 v2 n = memcmp_from v1 v2 0 n"

primrec strncmp_from :: "buf \<Rightarrow> buf \<Rightarrow> nat \<Rightarrow> nat \<Rightarrow> int" where
  "strncmp_from p q i 0 = 0"
| "strncmp_from p q i (Suc n) =
     (if p i \<noteq> 0 \<and> p i = q i then strncmp_from p q (Suc i) n
      else int (unat (p i)) - int (unat (q i)))"

definition strncmp :: "buf \<Rightarrow> buf \<Rightarrow> nat \<Rightarrow> int" where
  "strncmp p q n = strncmp_from p q 0 n"

primrec zero_from :: "nat \<Rightarrow> nat \<Rightarrow> buf \<Rightarrow> buf" where
  "zero_from i 0 s = s"
| "zero_from i (Suc n) s = zero_from (Suc i) n (s(i := 0))"

primrec strncpy_from :: "nat \<Rightarrow> nat \<Rightarrow> buf \<Rightarrow> buf \<Rightarrow> buf" where
  "strncpy_from i 0 t s = s"
| "strncpy_from i (Suc n) t s =
     (if t i \<noteq> 0 then strncpy_from (Suc i) n t (s(i := t i)) else zero_from (Suc i) n (s(i := t i)))"

definition strncpy :: "buf \<Rightarrow> buf \<Rightarrow> int \<Rightarrow> buf" where
  "strncpy s t n = strncpy_from 0 (nat n) t s"

text \<open>\<open>n\<close> is the value of the counter before \<^verbatim>\<open>--n\<close>.  A source byte that ends the loop has been
  stored, so the final \<^verbatim>\<open>*s = 0\<close> falls on the byte after it.\<close>

fun safestrcpy_from :: "nat \<Rightarrow> nat \<Rightarrow> buf \<Rightarrow> buf \<Rightarrow> buf" where
  "safestrcpy_from i n t s =
     (if n \<le> 1 then s(i := 0)
      else if t i \<noteq> 0 then safestrcpy_from (Suc i) (n - 1) t (s(i := t i))
      else s(i := 0, Suc i := 0))"

declare safestrcpy_from.simps [simp del]

definition safestrcpy :: "buf \<Rightarrow> buf \<Rightarrow> int \<Rightarrow> buf" where
  "safestrcpy s t n = (if n \<le> 0 then s else safestrcpy_from 0 (nat n) t s)"

partial_function (option) strlen_from :: "buf \<Rightarrow> nat \<Rightarrow> nat option" where
  "strlen_from s n = (if s n \<noteq> 0 then strlen_from s (Suc n) else Some n)"

declare strlen_from.simps [code]

definition strlen :: "buf \<Rightarrow> nat option" where
  "strlen s = strlen_from s 0"

text \<open>The string a pointer denotes: the bytes before the first null byte.\<close>

definition is_str :: "buf \<Rightarrow> bytes \<Rightarrow> bool" where
  "is_str s xs \<longleftrightarrow> (\<forall>i<length xs. s i = xs ! i \<and> xs ! i \<noteq> 0) \<and> s (length xs) = 0"

lemma strlen_from_str: "is_str s xs \<Longrightarrow> i \<le> length xs \<Longrightarrow> strlen_from s i = Some (length xs)"
proof (induction "length xs - i" arbitrary: i)
  case 0
  then show ?case by (subst strlen_from.simps) (simp add: is_str_def)
next
  case (Suc k)
  then have "s i \<noteq> 0" "strlen_from s (Suc i) = Some (length xs)" by (auto simp: is_str_def)
  then show ?case by (subst strlen_from.simps) simp
qed

lemma strlen_str: "is_str s xs \<Longrightarrow> strlen s = Some (length xs)"
  by (simp add: strlen_def strlen_from_str)

lemma all_less_Suc_split: "(\<forall>k<Suc n. P k) \<longleftrightarrow> P 0 \<and> (\<forall>k<n. P (Suc k))"
  by (metis less_Suc_eq_0_disj)

lemma strncmp_from_0:
  "strncmp_from p q i n = 0 \<longleftrightarrow>
     (\<forall>k<n. (\<forall>j<k. p (i + j) \<noteq> 0) \<longrightarrow> p (i + k) = q (i + k))"
proof (induction n arbitrary: i)
  case 0
  then show ?case by simp
next
  case (Suc n)
  have "int (unat (p i)) - int (unat (q i)) = 0 \<longleftrightarrow> p i = q i" by (simp add: word_uint_eq_iff)
  then show ?case by (cases "p i = 0"; cases "p i = q i") (simp_all add: Suc.IH all_less_Suc_split)
qed

lemma memcmp_from_0: "memcmp_from p q i n = 0 \<longleftrightarrow> (\<forall>k<n. p (i + k) = q (i + k))"
proof (induction n arbitrary: i)
  case 0
  then show ?case by simp
next
  case (Suc n)
  have "int (unat (p i)) - int (unat (q i)) = 0 \<longleftrightarrow> p i = q i" by (simp add: word_uint_eq_iff)
  then show ?case by (cases "p i = q i") (simp_all add: Suc.IH all_less_Suc_split)
qed

text \<open>\<^verbatim>\<open>strncpy\<close> and \<^verbatim>\<open>safestrcpy\<close> write only within the first \<open>n\<close> bytes.\<close>

lemma zero_from_apply: "zero_from i n s k = (if i \<le> k \<and> k < i + n then 0 else s k)"
  by (induction n arbitrary: i s) auto

lemma strncpy_from_apply:
  assumes "\<forall>j<l. t (i + j) \<noteq> 0" and "l \<le> n" and "l < n \<Longrightarrow> t (i + l) = 0"
  shows "strncpy_from i n t s k =
    (if i \<le> k \<and> k < i + n then (if k < i + l then t k else 0) else s k)"
  using assms
proof (induction n arbitrary: i l s)
  case 0
  then show ?case by auto
next
  case (Suc n)
  show ?case
  proof (cases l)
    case 0
    then show ?thesis using Suc.prems by (auto simp: zero_from_apply)
  next
    case l: (Suc l')
    then have "t i \<noteq> 0" using Suc.prems(1) by force
    moreover have "strncpy_from (Suc i) n t (s(i := t i)) k =
        (if Suc i \<le> k \<and> k < Suc i + n then (if k < Suc i + l' then t k else 0) else (s(i := t i)) k)"
      by (rule Suc.IH) (use Suc.prems l in \<open>force+\<close>)
    ultimately show ?thesis using l by auto
  qed
qed

lemma strncpy_apply:
  assumes "is_str t xs"
  shows "strncpy s t (int n) k =
    (if k < n then (if k < length xs then xs ! k else 0) else s k)"
proof (cases "length xs \<le> n")
  case True
  have "strncpy_from 0 n t s k = (if 0 \<le> k \<and> k < 0 + n then (if k < 0 + length xs then t k else 0) else s k)"
    by (rule strncpy_from_apply) (use assms True in \<open>auto simp: is_str_def\<close>)
  then show ?thesis using assms by (auto simp: strncpy_def is_str_def)
next
  case False
  have "strncpy_from 0 n t s k = (if 0 \<le> k \<and> k < 0 + n then (if k < 0 + n then t k else 0) else s k)"
    by (rule strncpy_from_apply) (use assms False in \<open>auto simp: is_str_def\<close>)
  then show ?thesis using assms False by (auto simp: strncpy_def is_str_def)
qed

lemma safestrcpy_from_str:
  assumes "is_str t xs" and "i \<le> length xs" and "1 \<le> n" and "\<forall>j<i. s j = xs ! j"
  shows "is_str (safestrcpy_from i n t s) (take (i + n - 1) xs) \<and>
    (\<forall>k\<ge>i + n. safestrcpy_from i n t s k = s k)"
  using assms
proof (induction "n" arbitrary: i s)
  case 0
  then show ?case by simp
next
  case (Suc n)
  show ?case
  proof (cases "n = 0 \<or> i = length xs")
    case True
    then show ?thesis using Suc.prems
      by (subst (1 2) safestrcpy_from.simps) (auto simp: is_str_def min_def)
  next
    case False
    then have ti: "t i \<noteq> 0" "t i = xs ! i" "i < length xs" using Suc.prems by (auto simp: is_str_def)
    have "is_str (safestrcpy_from (Suc i) n t (s(i := t i))) (take (Suc i + n - 1) xs) \<and>
        (\<forall>k\<ge>Suc i + n. safestrcpy_from (Suc i) n t (s(i := t i)) k = (s(i := t i)) k)"
      by (rule Suc.IH) (use Suc.prems False ti in \<open>auto simp: less_Suc_eq\<close>)
    moreover have "safestrcpy_from i (Suc n) t s = safestrcpy_from (Suc i) n t (s(i := t i))"
      using ti False by (subst safestrcpy_from.simps) simp
    ultimately show ?thesis by simp
  qed
qed

subsection \<open>Properties\<close>

text \<open>C37: \<^verbatim>\<open>memmove\<close> is a correct copy for every overlap of its arguments.  For objects that do not
  run past the end of the address space, each destination byte holds the byte that was at the same
  offset of the source when the call was made, and every other byte of memory keeps its value.\<close>

theorem memmove_correct:
  assumes "unat src + n \<le> 2 ^ 64" and "unat dst + n \<le> 2 ^ 64"
  shows "bytes_at (memmove dst src n m) dst n = bytes_at m src n \<and>
    (\<forall>a. \<not> in_rng a dst n \<longrightarrow> memmove dst src n m a = m a)"
proof (intro conjI allI impI)
  have "n \<le> 2 ^ 64" using assms(1) by simp
  then show "bytes_at (memmove dst src n m) dst n = bytes_at m src n"
    by (auto simp: bytes_at_def memmove_apply [OF assms] in_rng_offset)
qed (simp add: memmove_apply [OF assms])

theorem memmove_correct_witness:
  "bytes_at (memmove 2 1 3 (\<lambda>a. ucast a)) 2 3 = [1, 2, 3]"
  using memmove_correct [of 1 3 2 "\<lambda>a. ucast a"] by (simp add: bytes_at_def upt_rec)

text \<open>\<^verbatim>\<open>safestrcpy\<close> always leaves a terminated string.  For a buffer of \<open>n > 0\<close> bytes the destination
  denotes the longest prefix of the source string that fits with its terminator, \<open>n - 1\<close> bytes at
  most, and no byte outside the buffer is written.\<close>

theorem safestrcpy_terminates_string:
  assumes "is_str t xs" and "0 < n"
  shows "is_str (safestrcpy s t (int n)) (take (n - 1) xs) \<and> (\<forall>k\<ge>n. safestrcpy s t (int n) k = s k)"
  using safestrcpy_from_str [OF assms(1), of 0 n s] assms(2) by (auto simp: safestrcpy_def)

theorem safestrcpy_terminates_string_witness:
  "is_str (safestrcpy (\<lambda>_. 7) (\<lambda>i. if i < 5 then 65 else 0) 4) [65, 65, 65]"
proof -
  have "is_str (\<lambda>i. if i < 5 then 65 else 0) (replicate 5 65)" by (simp add: is_str_def)
  from safestrcpy_terminates_string [OF this, of 4 "\<lambda>_. 7"] show ?thesis
    by (simp add: eval_nat_numeral)
qed

end
