(* ===== verification/Kalloc.thy ===== *)
theory Kalloc
  imports Spinlock Cstring
begin

text \<open>
  The physical page allocator, \<^verbatim>\<open>kernel/kalloc.c\<close>.

  The free list is threaded through the free pages themselves: the first eight bytes of a free
  page hold the address of the next one.  The state adds to the held locks the physical memory,
  the head of the list and the addresses the linker script defines (\<^verbatim>\<open>end\<close>, \<^verbatim>\<open>etext\<close> and the
  trampoline page), which no operation changes.  \<open>kalloc_inv\<close> is the invariant: the list in
  memory is exactly a given list of distinct, aligned pages inside the allocator's range.
\<close>

subsection \<open>Pages\<close>

abbreviation PGSIZE :: u64 where "PGSIZE \<equiv> 4096"
abbreviation PHYSTOP :: u64 where "PHYSTOP \<equiv> 0x88000000"

definition PGROUNDUP :: "u64 \<Rightarrow> u64" where
  "PGROUNDUP sz = (sz + PGSIZE - 1) AND NOT (PGSIZE - 1)"

definition PGROUNDDOWN :: "u64 \<Rightarrow> u64" where
  "PGROUNDDOWN a = a AND NOT (PGSIZE - 1)"

definition page_al :: "u64 \<Rightarrow> bool" where
  "page_al p \<longleftrightarrow> p mod PGSIZE = 0"

definition page_of :: "u64 \<Rightarrow> nat" where
  "page_of a = unat a div 4096"

lemma page_al_unat: "page_al p \<longleftrightarrow> unat p mod 4096 = 0"
proof -
  have "unat (p mod PGSIZE) = unat p mod 4096" by (simp add: unat_mod)
  then show ?thesis by (metis page_al_def unat_eq_0)
qed

lemma page_al_0 [simp]: "page_al 0"
  by (simp add: page_al_def)

lemma page_al_room: "page_al p \<Longrightarrow> unat p + 4096 \<le> 2 ^ 64"
  using u64_bound [of p] by (auto simp: page_al_unat)

lemma in_page_iff: "page_al p \<Longrightarrow> in_rng a p 4096 \<longleftrightarrow> page_of a = page_of p"
proof -
  assume p: "page_al p"
  then have "in_rng a p 4096 \<longleftrightarrow> unat p \<le> unat a \<and> unat a < unat p + 4096"
    by (intro in_rng_nowrap page_al_room)
  also have "\<dots> \<longleftrightarrow> unat a div 4096 = unat p div 4096"
    using p by (auto simp: page_al_unat)
  finally show ?thesis by (simp add: page_of_def)
qed

lemma page_of_inj: "page_al p \<Longrightarrow> page_al q \<Longrightarrow> page_of p = page_of q \<longleftrightarrow> p = q"
  by (auto simp: page_al_unat page_of_def word_unat_eq_iff)

lemma pages_disjoint:
  "page_al p \<Longrightarrow> page_al q \<Longrightarrow> p \<noteq> q \<Longrightarrow> in_rng a p 4096 \<Longrightarrow> \<not> in_rng a q 4096"
  by (simp add: in_page_iff page_of_inj)

lemma and_m4096: "a AND - 4096 = push_bit 12 (drop_bit 12 a)" for a :: u64
proof -
  have m: "(- 4096 :: u64) = NOT (mask 12)" by (simp add: mask_eq_exp_minus_1)
  show ?thesis unfolding m by (auto intro!: bit_word_eqI simp: bit_simps simp del: push_bit_numeral)
qed

lemma unat_and_m4096 [simp]: "unat (a AND - 4096) = unat a div 4096 * 4096" for a :: u64
proof -
  have "unat (push_bit 12 (drop_bit 12 a)) = take_bit 64 (push_bit 12 (drop_bit 12 (unat a)))"
    using u64_bound [of a]
    by (simp add: unsigned_push_bit_eq unsigned_drop_bit_eq take_bit_nat_eq_self_iff [THEN iffD2])
  also have "\<dots> = unat a div 4096 * 4096"
    using u64_bound [of a]
    by (subst take_bit_nat_eq_self_iff [THEN iffD2]) (auto simp: push_bit_eq_mult drop_bit_eq_div)
  finally show ?thesis by (simp only: and_m4096)
qed

lemma PGROUNDDOWN_unat: "unat (PGROUNDDOWN a) = unat a div 4096 * 4096"
  by (simp add: PGROUNDDOWN_def)

lemma PGROUNDDOWN_al [simp]: "page_al (PGROUNDDOWN a)"
  by (simp add: page_al_unat PGROUNDDOWN_unat)

lemma page_of_PGROUNDDOWN [simp]: "page_of (PGROUNDDOWN a) = page_of a"
  by (simp add: page_of_def PGROUNDDOWN_unat)

lemma PGROUNDUP_unat:
  "unat a + 4095 < 2 ^ 64 \<Longrightarrow> unat (PGROUNDUP a) = (unat a + 4095) div 4096 * 4096"
  by (simp add: PGROUNDUP_def unat_word_ariths)

lemma PGROUNDUP_al [simp]: "page_al (PGROUNDUP a)"
  by (simp add: page_al_unat PGROUNDUP_def)

subsection \<open>State and operations\<close>

record kmem_st = lockst +
  mem :: memory
  freelist :: u64
  kend :: u64
  etext :: u64
  trampoline :: u64

definition kfree :: "u64 \<Rightarrow> 'a kmem_st_scheme \<Rightarrow> 'a kmem_st_scheme option" where
  "kfree pa s = do {
     _ \<leftarrow> panic_if (pa mod PGSIZE \<noteq> 0 \<or> pa < kend s \<or> pa \<ge> PHYSTOP);
     let s = s\<lparr>mem := memset pa 1 4096 (mem s)\<rparr>;
     s \<leftarrow> acq KmemLock s;
     let s = s\<lparr>mem := st64 pa (freelist s) (mem s)\<rparr>;
     let s = s\<lparr>freelist := pa\<rparr>;
     rel KmemLock s }"

definition kalloc :: "'a kmem_st_scheme \<Rightarrow> (u64 \<times> 'a kmem_st_scheme) option" where
  "kalloc s = do {
     s \<leftarrow> acq KmemLock s;
     let r = freelist s;
     let s = (if r \<noteq> 0 then s\<lparr>freelist := ld64 (mem s) r\<rparr> else s);
     s \<leftarrow> rel KmemLock s;
     let s = (if r \<noteq> 0 then s\<lparr>mem := memset r 5 4096 (mem s)\<rparr> else s);
     Some (r, s) }"

partial_function (option) freerange_loop :: "u64 \<Rightarrow> u64 \<Rightarrow> 'a kmem_st_scheme \<Rightarrow> 'a kmem_st_scheme option" where
  "freerange_loop p pa_end s =
     (if p + PGSIZE \<le> pa_end
      then do { s \<leftarrow> kfree p s; freerange_loop (p + PGSIZE) pa_end s }
      else Some s)"

definition freerange :: "u64 \<Rightarrow> u64 \<Rightarrow> 'a kmem_st_scheme \<Rightarrow> 'a kmem_st_scheme option" where
  "freerange pa_start pa_end s = freerange_loop (PGROUNDUP pa_start) pa_end s"

text \<open>\<^verbatim>\<open>initlock\<close> leaves \<^verbatim>\<open>kmem.lock\<close> free, which is the state \<open>held\<close> starts in.\<close>

definition kinit :: "'a kmem_st_scheme \<Rightarrow> 'a kmem_st_scheme option" where
  "kinit s = freerange (kend s) PHYSTOP s"

subsection \<open>The free list\<close>

fun fl_chain :: "memory \<Rightarrow> u64 \<Rightarrow> u64 list \<Rightarrow> bool" where
  "fl_chain m r [] \<longleftrightarrow> r = 0"
| "fl_chain m r (p # ps) \<longleftrightarrow> r = p \<and> p \<noteq> 0 \<and> fl_chain m (ld64 m p) ps"

definition page_ok :: "'a kmem_st_scheme \<Rightarrow> u64 \<Rightarrow> bool" where
  "page_ok s p \<longleftrightarrow> page_al p \<and> kend s \<le> p \<and> p < PHYSTOP \<and> p \<noteq> 0"

definition kalloc_inv :: "'a kmem_st_scheme \<Rightarrow> u64 list \<Rightarrow> bool" where
  "kalloc_inv s fs \<longleftrightarrow>
     fl_chain (mem s) (freelist s) fs \<and> distinct fs \<and> (\<forall>p\<in>set fs. page_ok s p)"

lemma kalloc_invD: "kalloc_inv s fs \<Longrightarrow> p \<in> set fs \<Longrightarrow> page_ok s p"
  by (simp add: kalloc_inv_def)

lemma fl_chain_cong:
  "(\<And>p. p \<in> set ps \<Longrightarrow> ld64 m p = ld64 m' p) \<Longrightarrow> fl_chain m r ps = fl_chain m' r ps"
  by (induction ps arbitrary: r) auto

lemma in_rng_8_page: "in_rng a p 8 \<Longrightarrow> in_rng a p 4096"
  by (simp add: in_rng_def)

lemma st64_memset_frame: "\<not> in_rng a p 4096 \<Longrightarrow> st64 p v (memset p c 4096 m) a = m a"
  using in_rng_8_page [of a p] by (cases "in_rng a p 8") (simp_all add: st64_other memset_apply)

text \<open>Writing outside the free pages keeps the list.\<close>

lemma kalloc_inv_frame:
  assumes "kalloc_inv s fs" and "freelist t = freelist s" and "kend t = kend s"
    and "\<And>p a. p \<in> set fs \<Longrightarrow> in_rng a p 4096 \<Longrightarrow> mem t a = mem s a"
  shows "kalloc_inv t fs"
proof -
  have "fl_chain (mem t) (freelist s) fs = fl_chain (mem s) (freelist s) fs"
    by (intro fl_chain_cong ld64_cong assms(4)) (auto intro: in_rng_8_page)
  then show ?thesis using assms by (simp add: kalloc_inv_def page_ok_def)
qed

lemma held_insert_remove [lock_simps]:
  "l \<notin> held s \<Longrightarrow> s\<lparr>held := insert l (held s) - {l}\<rparr> = (s :: 'a lockst_scheme)"
  by simp

lemma kfree_eq:
  assumes "page_ok s p" and "KmemLock \<notin> held s"
  shows "kfree p s = Some (s\<lparr>mem := st64 p (freelist s) (memset p 1 4096 (mem s)), freelist := p\<rparr>)"
  using assms
  by (auto simp: kfree_def page_ok_def page_al_def acq_def rel_def panic_if_def)

lemma kalloc_eq_nil:
  assumes "kalloc_inv s []" and "KmemLock \<notin> held s"
  shows "kalloc s = Some (0, s)"
  using assms by (simp add: kalloc_def kalloc_inv_def acq_def rel_def)

lemma kalloc_eq_cons:
  assumes "kalloc_inv s (p # fs)" and "KmemLock \<notin> held s"
  shows "kalloc s = Some (p, s\<lparr>mem := memset p 5 4096 (mem s), freelist := ld64 (mem s) p\<rparr>)"
  using assms by (auto simp: kalloc_def kalloc_inv_def acq_def rel_def)

lemma kfree_inv:
  assumes "kalloc_inv s fs" and "page_ok s p" and "p \<notin> set fs"
  shows "kalloc_inv (s\<lparr>mem := st64 p (freelist s) (memset p 1 4096 (mem s)), freelist := p\<rparr>) (p # fs)"
proof -
  let ?m = "st64 p (freelist s) (memset p 1 4096 (mem s))"
  have "ld64 ?m q = ld64 (mem s) q" if q: "q \<in> set fs" for q
  proof (rule ld64_cong)
    fix a assume "in_rng a q 8"
    moreover have "page_al q" "page_al p" "q \<noteq> p"
      using q assms kalloc_invD [OF assms(1) q] by (auto simp: page_ok_def)
    ultimately have "\<not> in_rng a p 4096" "\<not> in_rng a p 8"
      using pages_disjoint in_rng_8_page by blast+
    then show "?m a = mem s a" by (simp add: st64_other memset_apply)
  qed
  then have "fl_chain ?m (freelist s) fs"
    using assms(1) fl_chain_cong [of fs ?m "mem s"] by (simp add: kalloc_inv_def)
  then show ?thesis using assms
    by (auto simp: kalloc_inv_def page_ok_def ld64_st64_same)
qed

lemma kalloc_inv_tail:
  assumes "kalloc_inv s (p # fs)"
  shows "kalloc_inv (s\<lparr>mem := memset p 5 4096 (mem s), freelist := ld64 (mem s) p\<rparr>) fs"
proof -
  have "kalloc_inv (s\<lparr>freelist := ld64 (mem s) p\<rparr>) fs"
    using assms by (simp add: kalloc_inv_def page_ok_def)
  then show ?thesis
  proof (rule kalloc_inv_frame)
    fix q a assume "q \<in> set fs" "in_rng a q 4096"
    moreover from this(1) have "page_al q" "page_al p" "q \<noteq> p"
      using assms by (auto simp: kalloc_inv_def page_ok_def)
    ultimately show "mem (s\<lparr>mem := memset p 5 4096 (mem s), freelist := ld64 (mem s) p\<rparr>) a =
        mem (s\<lparr>freelist := ld64 (mem s) p\<rparr>) a"
      using pages_disjoint by (simp add: memset_apply)
  qed simp_all
qed

text \<open>The contract of the allocator: it owns the pages of the list, an allocation moves the first
  one to the caller, a release adds one.  \<open>rest\<close> is the part of the state the allocator must not
  touch: all memory outside the pages it owns.\<close>

locale page_allocator =
  fixes owns :: "'s \<Rightarrow> u64 list \<Rightarrow> bool"
    and alloc :: "'s \<Rightarrow> (u64 \<times> 's) option"
    and release_page :: "u64 \<Rightarrow> 's \<Rightarrow> 's option"
    and valid_page :: "'s \<Rightarrow> u64 \<Rightarrow> bool"
    and ready :: "'s \<Rightarrow> bool"
    and ram :: "'s \<Rightarrow> memory"
  assumes owns_pages: "owns s fs \<Longrightarrow> distinct fs \<and> (\<forall>p\<in>set fs. valid_page s p \<and> p \<noteq> 0)"
    and alloc_none: "owns s [] \<Longrightarrow> ready s \<Longrightarrow> alloc s = Some (0, s)"
    and alloc_one: "owns s (p # fs) \<Longrightarrow> ready s \<Longrightarrow>
      \<exists>t. alloc s = Some (p, t) \<and> owns t fs \<and> ready t \<and> valid_page t = valid_page s \<and>
        (\<forall>a. \<not> in_rng a p 4096 \<longrightarrow> ram t a = ram s a)"
    and release_one: "owns s fs \<Longrightarrow> ready s \<Longrightarrow> valid_page s p \<Longrightarrow> p \<notin> set fs \<Longrightarrow>
      \<exists>t. release_page p s = Some t \<and> owns t (p # fs) \<and> ready t \<and> valid_page t = valid_page s \<and>
        (\<forall>a. \<not> in_rng a p 4096 \<longrightarrow> ram t a = ram s a)"
begin

primrec alloc_n :: "nat \<Rightarrow> 's \<Rightarrow> (u64 list \<times> 's) option" where
  "alloc_n 0 s = Some ([], s)"
| "alloc_n (Suc n) s = do { (p, s) \<leftarrow> alloc s; (ps, s) \<leftarrow> alloc_n n s; Some (p # ps, s) }"

text \<open>Allocation hands out the list in order and stops at its end with null pointers.\<close>

lemma alloc_n_owned:
  assumes "owns s fs" and "ready s"
  shows "\<exists>t. alloc_n n s = Some (take n fs @ replicate (n - length fs) 0, t) \<and>
    owns t (drop n fs) \<and> ready t \<and> valid_page t = valid_page s"
  using assms
proof (induction n arbitrary: s fs)
  case 0
  then show ?case by simp
next
  case (Suc n)
  show ?case
  proof (cases fs)
    case Nil
    with Suc.IH [of s "[]"] Suc.prems alloc_none [of s] show ?thesis by auto
  next
    case (Cons p ps)
    with alloc_one [of s p ps] Suc.prems obtain u where u: "alloc s = Some (p, u)" "owns u ps" "ready u"
      "valid_page u = valid_page s" by auto
    with Suc.IH [OF u(2,3)] Cons show ?thesis by auto
  qed
qed

lemma alloc_distinct:
  assumes "owns s fs" and "ready s" and "n \<le> length fs"
  shows "\<exists>ps t. alloc_n n s = Some (ps, t) \<and> distinct ps \<and> length ps = n \<and>
    (\<forall>p\<in>set ps. p \<noteq> 0 \<and> valid_page s p) \<and> owns t (drop n fs) \<and> set ps \<inter> set (drop n fs) = {}"
proof -
  have "set (take n fs) \<inter> set (drop n fs) = {}"
    using owns_pages [OF assms(1)] by (simp add: set_take_disj_set_drop_if_distinct)
  moreover have "\<forall>p\<in>set (take n fs). p \<noteq> 0 \<and> valid_page s p"
    using owns_pages [OF assms(1)] by (meson in_set_takeD)
  ultimately show ?thesis
    using alloc_n_owned [OF assms(1,2), of n] owns_pages [OF assms(1)] assms(3) by auto
qed

text \<open>A page that is released is the next one handed out.\<close>

lemma release_alloc:
  assumes "owns s fs" and "ready s" and "valid_page s p" and "p \<notin> set fs"
  shows "\<exists>t u. release_page p s = Some t \<and> alloc t = Some (p, u) \<and> owns u fs \<and>
    (\<forall>a. \<not> in_rng a p 4096 \<longrightarrow> ram u a = ram s a)"
proof -
  obtain t where t: "release_page p s = Some t" "owns t (p # fs)" "ready t"
    "\<forall>a. \<not> in_rng a p 4096 \<longrightarrow> ram t a = ram s a"
    using release_one [OF assms] by blast
  from alloc_one [OF t(2,3)] t show ?thesis by fastforce
qed

end

interpretation kmem: page_allocator kalloc_inv kalloc kfree page_ok "\<lambda>s. KmemLock \<notin> held s" mem
proof
  fix s :: "'a kmem_st_scheme" and p fs
  show "kalloc_inv s fs \<Longrightarrow> distinct fs \<and> (\<forall>p\<in>set fs. page_ok s p \<and> p \<noteq> 0)"
    by (auto simp: kalloc_inv_def page_ok_def)
  show "kalloc_inv s [] \<Longrightarrow> KmemLock \<notin> held s \<Longrightarrow> kalloc s = Some (0, s)"
    by (rule kalloc_eq_nil)
  show "\<exists>t. kalloc s = Some (p, t) \<and> kalloc_inv t fs \<and> KmemLock \<notin> held t \<and> page_ok t = page_ok s \<and>
      (\<forall>a. \<not> in_rng a p 4096 \<longrightarrow> mem t a = mem s a)"
    if "kalloc_inv s (p # fs)" "KmemLock \<notin> held s"
    using kalloc_eq_cons [OF that] kalloc_inv_tail [OF that(1)] that(2)
    by (auto simp: page_ok_def fun_eq_iff memset_apply)
  show "\<exists>t. kfree p s = Some t \<and> kalloc_inv t (p # fs) \<and> KmemLock \<notin> held t \<and> page_ok t = page_ok s \<and>
      (\<forall>a. \<not> in_rng a p 4096 \<longrightarrow> mem t a = mem s a)"
    if "kalloc_inv s fs" "KmemLock \<notin> held s" "page_ok s p" "p \<notin> set fs"
    using kfree_eq [OF that(3,2)] kfree_inv [OF that(1,3,4)] that(2)
    by (auto simp: page_ok_def fun_eq_iff st64_memset_frame)
qed

subsection \<open>Filling the list\<close>

definition pages_from :: "u64 \<Rightarrow> nat \<Rightarrow> u64 list" where
  "pages_from p n = map (\<lambda>i. p + of_nat i * PGSIZE) [0..<n]"

lemma pages_from_0 [simp]: "pages_from p 0 = []"
  by (simp add: pages_from_def)

lemma pages_from_Suc: "pages_from p (Suc n) = p # pages_from (p + PGSIZE) n"
  unfolding pages_from_def upt_rec [of 0 "Suc n"] map_Suc_upt [symmetric]
  by (simp add: algebra_simps comp_def)

lemma freerange_loop_fills:
  assumes "kalloc_inv s fs" and "KmemLock \<notin> held s" and "page_al p" and "kend s \<le> p" and "0 < kend s"
    and "unat p + n * 4096 = unat PHYSTOP" and "\<forall>q\<in>set fs. q < p"
  shows "\<exists>t. freerange_loop p PHYSTOP s = Some t \<and> kalloc_inv t (rev (pages_from p n) @ fs) \<and>
    held t = held s \<and> kend t = kend s"
  using assms
proof (induction n arbitrary: p s fs)
  case 0
  then have "p = PHYSTOP" by (simp add: word_unat_eq_iff)
  then show ?case using 0 by (subst freerange_loop.simps) simp
next
  case (Suc n)
  have up: "unat p + 4096 \<le> 0x88000000" using Suc.prems(6) by simp
  have next_p: "unat (p + PGSIZE) = unat p + 4096"
    using up by (simp add: unat_word_ariths)
  have lt: "p < PHYSTOP" "p + PGSIZE \<le> PHYSTOP" "p < p + PGSIZE" "0 < p"
    using up next_p Suc.prems(4,5) by (auto simp: word_less_nat_alt word_le_nat_alt)
  have ok: "page_ok s p" using Suc.prems lt by (auto simp: page_ok_def)
  have p: "p \<notin> set fs" using Suc.prems(7) by auto
  let ?t = "s\<lparr>mem := st64 p (freelist s) (memset p 1 4096 (mem s)), freelist := p\<rparr>"
  have "\<exists>t. freerange_loop (p + PGSIZE) PHYSTOP ?t = Some t \<and>
      kalloc_inv t (rev (pages_from (p + PGSIZE) n) @ p # fs) \<and> held t = held ?t \<and> kend t = kend ?t"
  proof (rule Suc.IH)
    show "kalloc_inv ?t (p # fs)" using Suc.prems(1) ok p by (rule kfree_inv)
    show "page_al (p + PGSIZE)" using Suc.prems(3) next_p by (simp add: page_al_unat mod_add_self2)
    show "\<forall>q\<in>set (p # fs). q < p + PGSIZE" using Suc.prems(7) lt(3) by auto
  qed (use Suc.prems lt next_p in \<open>auto simp: less_imp_le intro: order.trans\<close>)
  then show ?case
    using lt(2) kfree_eq [OF ok Suc.prems(2)] Suc.prems(2)
    by (subst freerange_loop.simps) (simp add: pages_from_Suc)
qed

subsection \<open>Properties\<close>

text \<open>C34: \<^verbatim>\<open>kinit\<close> returns and puts every whole page between the end of the kernel image and
  \<^verbatim>\<open>PHYSTOP\<close> on the free list, each once, the highest first.\<close>

theorem kinit_frees_all_ram:
  assumes "freelist s = 0" and "KmemLock \<notin> held s" and "0 < kend s" and "kend s \<le> PHYSTOP"
  shows "\<exists>t. kinit s = Some t \<and> kalloc_inv t
    (rev (pages_from (PGROUNDUP (kend s)) ((unat PHYSTOP - unat (PGROUNDUP (kend s))) div 4096)))"
proof -
  have b: "unat (kend s) \<le> 0x88000000" using assms(4) by (simp add: word_le_nat_alt)
  have u: "unat (PGROUNDUP (kend s)) = (unat (kend s) + 4095) div 4096 * 4096"
    by (rule PGROUNDUP_unat) (use b in simp)
  have le: "kend s \<le> PGROUNDUP (kend s)" by (simp add: word_le_nat_alt u)
  have room: "unat (PGROUNDUP (kend s)) \<le> 0x88000000" unfolding u using b by simp
  have "unat (PGROUNDUP (kend s)) mod 4096 = 0" by (simp add: u)
  then have n: "unat (PGROUNDUP (kend s)) + (unat PHYSTOP - unat (PGROUNDUP (kend s))) div 4096 * 4096 = unat PHYSTOP"
    using room by auto
  have "kalloc_inv s []" using assms(1) by (simp add: kalloc_inv_def)
  from freerange_loop_fills [OF this assms(2) PGROUNDUP_al le assms(3) n]
  show ?thesis by (auto simp: kinit_def freerange_def)
qed

text \<open>C35: the pages handed out by consecutive calls of \<^verbatim>\<open>kalloc\<close> are non-null, distinct, aligned and
  inside RAM, and none of them stays on the free list: no page is given to two owners.\<close>

theorem kalloc_distinct_pages:
  assumes "kalloc_inv s fs" and "KmemLock \<notin> held s" and "n \<le> length fs"
  shows "\<exists>ps t. kmem.alloc_n n s = Some (ps, t) \<and> distinct ps \<and> length ps = n \<and>
    (\<forall>p\<in>set ps. p \<noteq> 0 \<and> page_ok s p) \<and> kalloc_inv t (drop n fs) \<and> set ps \<inter> set (drop n fs) = {}"
  using assms by (rule kmem.alloc_distinct)

text \<open>\<^verbatim>\<open>kfree\<close> followed by \<^verbatim>\<open>kalloc\<close> gives the freed page back, leaves the rest of the free list as
  it was, and changes no byte of memory outside that page.\<close>

theorem kfree_kalloc_roundtrip:
  assumes "kalloc_inv s fs" and "KmemLock \<notin> held s" and "page_ok s p" and "p \<notin> set fs"
  shows "\<exists>t u. kfree p s = Some t \<and> kalloc t = Some (p, u) \<and> kalloc_inv u fs \<and>
    (\<forall>a. \<not> in_rng a p 4096 \<longrightarrow> mem u a = mem s a)"
  using assms by (rule kmem.release_alloc)

definition kmem_boot :: kmem_st where
  "kmem_boot = \<lparr>held = {}, mem = (\<lambda>_. 0), freelist = 0, kend = 0x87ffe000, etext = 0x80008000,
     trampoline = 0x80007000\<rparr>"

lemma kmem_boot_page: "page_ok kmem_boot 0x87fff000"
  by (simp add: kmem_boot_def page_ok_def page_al_def)

theorem kinit_frees_all_ram_witness:
  "\<exists>t. kinit kmem_boot = Some t \<and> kalloc_inv t [0x87fff000, 0x87ffe000]"
proof -
  have "PGROUNDUP 0x87ffe000 = 0x87ffe000" by (simp add: PGROUNDUP_def)
  then show ?thesis using kinit_frees_all_ram [of kmem_boot]
    by (simp add: kmem_boot_def pages_from_def upt_rec)
qed

theorem kfree_kalloc_roundtrip_witness:
  "\<exists>t u. kfree 0x87fff000 kmem_boot = Some t \<and> kalloc t = Some (0x87fff000, u) \<and> kalloc_inv u []"
proof -
  have "kalloc_inv kmem_boot []" "KmemLock \<notin> held kmem_boot"
    by (simp_all add: kmem_boot_def kalloc_inv_def)
  from kfree_kalloc_roundtrip [OF this kmem_boot_page] show ?thesis by auto
qed

theorem kalloc_distinct_pages_witness:
  "\<exists>(s :: kmem_st) ps t. kalloc_inv s [0x87fff000] \<and> kmem.alloc_n 1 s = Some (ps, t) \<and> length ps = 1 \<and> (\<forall>p\<in>set ps. p \<noteq> 0)"
proof -
  define s where "s = kmem_boot\<lparr>mem := st64 0x87fff000 (freelist kmem_boot) (memset 0x87fff000 1 4096 (mem kmem_boot)),
    freelist := 0x87fff000\<rparr>"
  have "kalloc_inv kmem_boot []" by (simp add: kmem_boot_def kalloc_inv_def)
  from kfree_inv [OF this kmem_boot_page] have inv: "kalloc_inv s [0x87fff000]" by (simp add: s_def)
  have "KmemLock \<notin> held s" by (simp add: s_def kmem_boot_def)
  then obtain ps t where "kmem.alloc_n 1 s = Some (ps, t)" "length ps = 1" "\<forall>p\<in>set ps. p \<noteq> 0"
    using kalloc_distinct_pages [OF inv, of 1] by fastforce
  then show ?thesis using inv by blast
qed

end
