(* ===== verification/Vm.thy ===== *)
theory Vm
  imports Kalloc
begin

text \<open>
  Virtual memory, \<^verbatim>\<open>kernel/vm.c\<close> and the Sv39 macros of \<^verbatim>\<open>kernel/riscv.h\<close>.

  Page tables live in physical memory: a table is a page of 512 eight-byte entries, read and
  written with \<^const>\<open>ld64\<close> and \<^const>\<open>st64\<close>, and \<open>walk\<close> follows them from the root as the
  code does, allocating missing tables from the free list.  A \<^verbatim>\<open>char *\<close> argument that points
  to kernel data is the list of bytes it points to; the C return codes 0 and -1 are integers.
\<close>

subsection \<open>Page-table entries\<close>

abbreviation MAXVA :: u64 where "MAXVA \<equiv> 0x4000000000"
abbreviation TRAMPOLINE :: u64 where "TRAMPOLINE \<equiv> MAXVA - PGSIZE"
abbreviation TRAPFRAME :: u64 where "TRAPFRAME \<equiv> TRAMPOLINE - PGSIZE"
abbreviation KERNBASE :: u64 where "KERNBASE \<equiv> 0x80000000"
abbreviation UART0 :: u64 where "UART0 \<equiv> 0x10000000"
abbreviation VIRTIO0 :: u64 where "VIRTIO0 \<equiv> 0x10001000"
abbreviation PLIC :: u64 where "PLIC \<equiv> 0x0c000000"
abbreviation NPROC :: nat where "NPROC \<equiv> 64"

abbreviation PTE_V :: u64 where "PTE_V \<equiv> 1"
abbreviation PTE_R :: u64 where "PTE_R \<equiv> 2"
abbreviation PTE_W :: u64 where "PTE_W \<equiv> 4"
abbreviation PTE_X :: u64 where "PTE_X \<equiv> 8"
abbreviation PTE_U :: u64 where "PTE_U \<equiv> 16"

definition PA2PTE :: "u64 \<Rightarrow> u64" where
  "PA2PTE pa = push_bit 10 (drop_bit 12 pa)"

definition PTE2PA :: "u64 \<Rightarrow> u64" where
  "PTE2PA pte = push_bit 12 (drop_bit 10 pte)"

definition PTE_FLAGS :: "u64 \<Rightarrow> u64" where
  "PTE_FLAGS pte = pte AND 0x3FF"

definition PX :: "nat \<Rightarrow> u64 \<Rightarrow> nat" where
  "PX level va = unat (drop_bit (12 + 9 * level) va AND 0x1FF)"

definition KSTACK :: "nat \<Rightarrow> u64" where
  "KSTACK p = TRAMPOLINE - (of_nat p + 1) * 2 * PGSIZE"

text \<open>\<^verbatim>\<open>&pagetable[i]\<close>.\<close>

definition slot :: "u64 \<Rightarrow> nat \<Rightarrow> u64" where
  "slot pt i = pt + of_nat (8 * i)"

definition pte_v :: "u64 \<Rightarrow> bool" where
  "pte_v e \<longleftrightarrow> e AND PTE_V \<noteq> 0"

record vm_st = kmem_st +
  kernel_pagetable :: u64

subsection \<open>Walking and mapping\<close>

primrec walk_from :: "nat \<Rightarrow> u64 \<Rightarrow> u64 \<Rightarrow> bool \<Rightarrow> 'a kmem_st_scheme \<Rightarrow> (u64 \<times> 'a kmem_st_scheme) option" where
  "walk_from 0 pt va alloc s = Some (slot pt (PX 0 va), s)"
| "walk_from (Suc l) pt va alloc s =
     (let a = slot pt (PX (Suc l) va); pte = ld64 (mem s) a in
      if pte_v pte then walk_from l (PTE2PA pte) va alloc s
      else if \<not> alloc then Some (0, s)
      else do {
        (p, s) \<leftarrow> kalloc s;
        if p = 0 then Some (0, s)
        else do {
          let s = s\<lparr>mem := memset p 0 4096 (mem s)\<rparr>;
          let s = s\<lparr>mem := st64 a (PA2PTE p OR PTE_V) (mem s)\<rparr>;
          walk_from l p va alloc s } })"

definition walk :: "u64 \<Rightarrow> u64 \<Rightarrow> bool \<Rightarrow> 'a kmem_st_scheme \<Rightarrow> (u64 \<times> 'a kmem_st_scheme) option" where
  "walk pt va alloc s = do { _ \<leftarrow> panic_if (va \<ge> MAXVA); walk_from 2 pt va alloc s }"

definition walkaddr :: "u64 \<Rightarrow> u64 \<Rightarrow> 'a kmem_st_scheme \<Rightarrow> u64 option" where
  "walkaddr pt va s =
     (if va \<ge> MAXVA then Some 0
      else do {
        (pte, s) \<leftarrow> walk pt va False s;
        if pte = 0 then Some 0
        else if \<not> pte_v (ld64 (mem s) pte) then Some 0
        else if ld64 (mem s) pte AND PTE_U = 0 then Some 0
        else Some (PTE2PA (ld64 (mem s) pte)) })"

partial_function (option) mappages_loop ::
    "u64 \<Rightarrow> u64 \<Rightarrow> u64 \<Rightarrow> u64 \<Rightarrow> u64 \<Rightarrow> 'a kmem_st_scheme \<Rightarrow> (int \<times> 'a kmem_st_scheme) option" where
  "mappages_loop pt a lst pa perm s = do {
     (pte, s) \<leftarrow> walk pt a True s;
     if pte = 0 then Some (- 1, s)
     else do {
       _ \<leftarrow> panic_if (pte_v (ld64 (mem s) pte));
       let s = s\<lparr>mem := st64 pte (PA2PTE pa OR perm OR PTE_V) (mem s)\<rparr>;
       if a = lst then Some (0, s)
       else mappages_loop pt (a + PGSIZE) lst (pa + PGSIZE) perm s } }"

definition mappages ::
    "u64 \<Rightarrow> u64 \<Rightarrow> u64 \<Rightarrow> u64 \<Rightarrow> u64 \<Rightarrow> 'a kmem_st_scheme \<Rightarrow> (int \<times> 'a kmem_st_scheme) option" where
  "mappages pt va sz pa perm s = do {
     _ \<leftarrow> panic_if (sz = 0);
     mappages_loop pt (PGROUNDDOWN va) (PGROUNDDOWN (va + sz - 1)) pa perm s }"

definition kvmmap ::
    "u64 \<Rightarrow> u64 \<Rightarrow> u64 \<Rightarrow> u64 \<Rightarrow> u64 \<Rightarrow> 'a kmem_st_scheme \<Rightarrow> 'a kmem_st_scheme option" where
  "kvmmap kpgtbl va pa sz perm s = do {
     (r, s) \<leftarrow> mappages kpgtbl va sz pa perm s;
     _ \<leftarrow> panic_if (r \<noteq> 0);
     Some s }"

partial_function (option) uvmunmap_loop ::
    "u64 \<Rightarrow> u64 \<Rightarrow> u64 \<Rightarrow> bool \<Rightarrow> 'a kmem_st_scheme \<Rightarrow> 'a kmem_st_scheme option" where
  "uvmunmap_loop pt a stop do_free s =
     (if a < stop then do {
        (pte, s) \<leftarrow> walk pt a False s;
        _ \<leftarrow> panic_if (pte = 0);
        _ \<leftarrow> panic_if (\<not> pte_v (ld64 (mem s) pte));
        _ \<leftarrow> panic_if (PTE_FLAGS (ld64 (mem s) pte) = PTE_V);
        s \<leftarrow> (if do_free then kfree (PTE2PA (ld64 (mem s) pte)) s else Some s);
        let s = s\<lparr>mem := st64 pte 0 (mem s)\<rparr>;
        uvmunmap_loop pt (a + PGSIZE) stop do_free s }
      else Some s)"

definition uvmunmap :: "u64 \<Rightarrow> u64 \<Rightarrow> u64 \<Rightarrow> bool \<Rightarrow> 'a kmem_st_scheme \<Rightarrow> 'a kmem_st_scheme option" where
  "uvmunmap pt va npages do_free s = do {
     _ \<leftarrow> panic_if (va mod PGSIZE \<noteq> 0);
     uvmunmap_loop pt va (va + npages * PGSIZE) do_free s }"

definition uvmcreate :: "'a kmem_st_scheme \<Rightarrow> (u64 \<times> 'a kmem_st_scheme) option" where
  "uvmcreate s = do {
     (pt, s) \<leftarrow> kalloc s;
     if pt = 0 then Some (0, s)
     else Some (pt, s\<lparr>mem := memset pt 0 4096 (mem s)\<rparr>) }"

text \<open>A copy between a page and kernel data: the bytes are given, or returned, as a list.\<close>

definition put_bytes :: "u64 \<Rightarrow> bytes \<Rightarrow> memory \<Rightarrow> memory" where
  "put_bytes a xs m = fold (\<lambda>i m. m(a + of_nat i := xs ! i)) [0..<length xs] m"

definition uvminit :: "u64 \<Rightarrow> bytes \<Rightarrow> 'a kmem_st_scheme \<Rightarrow> 'a kmem_st_scheme option" where
  "uvminit pt src s = do {
     _ \<leftarrow> panic_if (length src \<ge> 4096);
     (p, s) \<leftarrow> kalloc s;
     let s = s\<lparr>mem := memset p 0 4096 (mem s)\<rparr>;
     (_, s) \<leftarrow> mappages pt 0 PGSIZE p (PTE_W OR PTE_R OR PTE_X OR PTE_U) s;
     Some (s\<lparr>mem := put_bytes p src (mem s)\<rparr>) }"

text \<open>\<^verbatim>\<open>npages\<close> is an \<^verbatim>\<open>int\<close>: the quotient is truncated to 32 bits and sign-extended again by the call.\<close>

definition uvmdealloc :: "u64 \<Rightarrow> u64 \<Rightarrow> u64 \<Rightarrow> 'a kmem_st_scheme \<Rightarrow> (u64 \<times> 'a kmem_st_scheme) option" where
  "uvmdealloc pt oldsz newsz s =
     (if newsz \<ge> oldsz then Some (oldsz, s)
      else do {
        s \<leftarrow> (if PGROUNDUP newsz < PGROUNDUP oldsz
              then uvmunmap pt (PGROUNDUP newsz)
                (scast (ucast ((PGROUNDUP oldsz - PGROUNDUP newsz) div PGSIZE) :: u32)) True s
              else Some s);
        Some (newsz, s) })"

partial_function (option) uvmalloc_loop ::
    "u64 \<Rightarrow> u64 \<Rightarrow> u64 \<Rightarrow> u64 \<Rightarrow> 'a kmem_st_scheme \<Rightarrow> (u64 \<times> 'a kmem_st_scheme) option" where
  "uvmalloc_loop pt a oldsz newsz s =
     (if a < newsz then do {
        (p, s) \<leftarrow> kalloc s;
        if p = 0 then do { (_, s) \<leftarrow> uvmdealloc pt a oldsz s; Some (0, s) }
        else do {
          let s = s\<lparr>mem := memset p 0 4096 (mem s)\<rparr>;
          (r, s) \<leftarrow> mappages pt a PGSIZE p (PTE_W OR PTE_X OR PTE_R OR PTE_U) s;
          if r \<noteq> 0 then do {
            s \<leftarrow> kfree p s;
            (_, s) \<leftarrow> uvmdealloc pt a oldsz s;
            Some (0, s) }
          else uvmalloc_loop pt (a + PGSIZE) oldsz newsz s } }
      else Some (newsz, s))"

definition uvmalloc :: "u64 \<Rightarrow> u64 \<Rightarrow> u64 \<Rightarrow> 'a kmem_st_scheme \<Rightarrow> (u64 \<times> 'a kmem_st_scheme) option" where
  "uvmalloc pt oldsz newsz s =
     (if newsz < oldsz then Some (oldsz, s)
      else uvmalloc_loop pt (PGROUNDUP oldsz) (PGROUNDUP oldsz) newsz s)"

text \<open>\<open>freewalk_at pt i\<close> is the loop of \<^verbatim>\<open>freewalk(pt)\<close> from entry \<open>i\<close> on.\<close>

partial_function (option) freewalk_at :: "u64 \<Rightarrow> nat \<Rightarrow> 'a kmem_st_scheme \<Rightarrow> 'a kmem_st_scheme option" where
  "freewalk_at pt i s =
     (if i < 512 then
        (let pte = ld64 (mem s) (slot pt i) in
         if pte_v pte \<and> pte AND (PTE_R OR PTE_W OR PTE_X) = 0 then do {
           s \<leftarrow> freewalk_at (PTE2PA pte) 0 s;
           freewalk_at pt (Suc i) (s\<lparr>mem := st64 (slot pt i) 0 (mem s)\<rparr>) }
         else if pte_v pte then None
         else freewalk_at pt (Suc i) s)
      else kfree pt s)"

definition freewalk :: "u64 \<Rightarrow> 'a kmem_st_scheme \<Rightarrow> 'a kmem_st_scheme option" where
  "freewalk pt s = freewalk_at pt 0 s"

definition uvmfree :: "u64 \<Rightarrow> u64 \<Rightarrow> 'a kmem_st_scheme \<Rightarrow> 'a kmem_st_scheme option" where
  "uvmfree pt sz s = do {
     s \<leftarrow> (if sz > 0 then uvmunmap pt 0 (PGROUNDUP sz div PGSIZE) True s else Some s);
     freewalk pt s }"

partial_function (option) uvmcopy_loop ::
    "u64 \<Rightarrow> u64 \<Rightarrow> u64 \<Rightarrow> u64 \<Rightarrow> 'a kmem_st_scheme \<Rightarrow> (int \<times> 'a kmem_st_scheme) option" where
  "uvmcopy_loop old new i sz s =
     (if i < sz then do {
        (pte, s) \<leftarrow> walk old i False s;
        _ \<leftarrow> panic_if (pte = 0);
        _ \<leftarrow> panic_if (\<not> pte_v (ld64 (mem s) pte));
        let pa = PTE2PA (ld64 (mem s) pte);
        let flags = PTE_FLAGS (ld64 (mem s) pte);
        (p, s) \<leftarrow> kalloc s;
        if p = 0 then do { s \<leftarrow> uvmunmap new 0 (i div PGSIZE) True s; Some (- 1, s) }
        else do {
          let s = s\<lparr>mem := memmove p pa 4096 (mem s)\<rparr>;
          (r, s) \<leftarrow> mappages new i PGSIZE p flags s;
          if r \<noteq> 0 then do {
            s \<leftarrow> kfree p s;
            s \<leftarrow> uvmunmap new 0 (i div PGSIZE) True s;
            Some (- 1, s) }
          else uvmcopy_loop old new (i + PGSIZE) sz s } }
      else Some (0, s))"

definition uvmcopy :: "u64 \<Rightarrow> u64 \<Rightarrow> u64 \<Rightarrow> 'a kmem_st_scheme \<Rightarrow> (int \<times> 'a kmem_st_scheme) option" where
  "uvmcopy old new sz s = uvmcopy_loop old new 0 sz s"

definition uvmclear :: "u64 \<Rightarrow> u64 \<Rightarrow> 'a kmem_st_scheme \<Rightarrow> 'a kmem_st_scheme option" where
  "uvmclear pt va s = do {
     (pte, s) \<leftarrow> walk pt va False s;
     _ \<leftarrow> panic_if (pte = 0);
     Some (s\<lparr>mem := st64 pte (ld64 (mem s) pte AND NOT PTE_U) (mem s)\<rparr>) }"

subsection \<open>Copying between user and kernel\<close>

text \<open>The bytes of the page that holds \<open>va\<close>, from \<open>va\<close> to its end.\<close>

definition page_room :: "u64 \<Rightarrow> nat" where
  "page_room va = unat (PGSIZE - (va - PGROUNDDOWN va))"

lemma page_room_eq: "page_room va = 4096 - unat va mod 4096"
proof -
  have "unat (va - PGROUNDDOWN va) = unat va mod 4096"
    by (simp add: unat_sub_if' PGROUNDDOWN_unat modulo_nat_def)
  moreover have "unat va mod 4096 < 4096" by simp
  ultimately show ?thesis
    by (simp add: page_room_def unat_sub_if' del: mod_less_divisor)
qed

lemma page_room_pos [simp]: "0 < page_room va"
  by (simp add: page_room_eq)

function copyout :: "u64 \<Rightarrow> u64 \<Rightarrow> bytes \<Rightarrow> 'a kmem_st_scheme \<Rightarrow> (int \<times> 'a kmem_st_scheme) option" where
  "copyout pt dstva src s =
     (if src = [] then Some (0, s)
      else do {
        let va0 = PGROUNDDOWN dstva;
        pa0 \<leftarrow> walkaddr pt va0 s;
        if pa0 = 0 then Some (- 1, s)
        else do {
          let n = page_room dstva;
          let n = (if n > length src then length src else n);
          let s = s\<lparr>mem := put_bytes (pa0 + (dstva - va0)) (take n src) (mem s)\<rparr>;
          copyout pt (va0 + PGSIZE) (drop n src) s } })"
  by pat_completeness auto
termination
  by (relation "measure (\<lambda>(pt, va, src, s). length src)") (auto simp: Let_def)

function copyin :: "u64 \<Rightarrow> u64 \<Rightarrow> nat \<Rightarrow> 'a kmem_st_scheme \<Rightarrow> (int \<times> bytes) option" where
  "copyin pt srcva len s =
     (if len = 0 then Some (0, [])
      else do {
        let va0 = PGROUNDDOWN srcva;
        pa0 \<leftarrow> walkaddr pt va0 s;
        if pa0 = 0 then Some (- 1, [])
        else do {
          let n = page_room srcva;
          let n = (if n > len then len else n);
          (r, rest) \<leftarrow> copyin pt (va0 + PGSIZE) (len - n) s;
          Some (r, bytes_at (mem s) (pa0 + (srcva - va0)) n @ rest) } })"
  by pat_completeness auto
termination
  by (relation "measure (\<lambda>(pt, va, len, s). len)") auto

text \<open>The inner loop: the bytes stored at \<^verbatim>\<open>dst\<close> before a null byte, and whether one was found.\<close>

primrec copystr_page :: "memory \<Rightarrow> u64 \<Rightarrow> nat \<Rightarrow> bytes \<times> bool" where
  "copystr_page m p 0 = ([], False)"
| "copystr_page m p (Suc n) =
     (if m p = 0 then ([], True)
      else (let (xs, nul) = copystr_page m (p + 1) n in (m p # xs, nul)))"

lemma copystr_page_len: "copystr_page m p n = (xs, nul) \<Longrightarrow> length xs \<le> n \<and> (\<not> nul \<longrightarrow> length xs = n)"
  by (induction n arbitrary: p xs) (auto split: if_splits prod.splits)

text \<open>On success the result is the string before its terminator; \<^verbatim>\<open>dst\<close> also receives the null byte.\<close>

function copyinstr :: "u64 \<Rightarrow> u64 \<Rightarrow> nat \<Rightarrow> 'a kmem_st_scheme \<Rightarrow> (int \<times> bytes) option" where
  "copyinstr pt srcva mx s =
     (if mx = 0 then Some (- 1, [])
      else do {
        let va0 = PGROUNDDOWN srcva;
        pa0 \<leftarrow> walkaddr pt va0 s;
        if pa0 = 0 then Some (- 1, [])
        else do {
          let n = page_room srcva;
          let n = (if n > mx then mx else n);
          let (xs, got_null) = copystr_page (mem s) (pa0 + (srcva - va0)) n;
          if got_null then Some (0, xs)
          else do {
            (r, rest) \<leftarrow> copyinstr pt (va0 + PGSIZE) (mx - n) s;
            Some (r, xs @ rest) } } })"
  by pat_completeness auto
termination
  by (relation "measure (\<lambda>(pt, va, mx, s). mx)") auto

declare copyout.simps [simp del] copyin.simps [simp del] copyinstr.simps [simp del]

subsection \<open>The kernel's own page table\<close>

definition proc_mapstacks :: "u64 \<Rightarrow> 'a kmem_st_scheme \<Rightarrow> 'a kmem_st_scheme option" where
  "proc_mapstacks kpgtbl s =
     for_each [0..<NPROC] (\<lambda>i s. do {
       (pa, s) \<leftarrow> kalloc s;
       _ \<leftarrow> panic_if (pa = 0);
       kvmmap kpgtbl (KSTACK i) pa PGSIZE (PTE_R OR PTE_W) s }) s"

definition kvmmake :: "'a kmem_st_scheme \<Rightarrow> (u64 \<times> 'a kmem_st_scheme) option" where
  "kvmmake s = do {
     (kpgtbl, s) \<leftarrow> kalloc s;
     let s = s\<lparr>mem := memset kpgtbl 0 4096 (mem s)\<rparr>;
     s \<leftarrow> kvmmap kpgtbl UART0 UART0 PGSIZE (PTE_R OR PTE_W) s;
     s \<leftarrow> kvmmap kpgtbl VIRTIO0 VIRTIO0 PGSIZE (PTE_R OR PTE_W) s;
     s \<leftarrow> kvmmap kpgtbl PLIC PLIC 0x400000 (PTE_R OR PTE_W) s;
     s \<leftarrow> kvmmap kpgtbl KERNBASE KERNBASE (etext s - KERNBASE) (PTE_R OR PTE_X) s;
     s \<leftarrow> kvmmap kpgtbl (etext s) (etext s) (PHYSTOP - etext s) (PTE_R OR PTE_W) s;
     s \<leftarrow> kvmmap kpgtbl TRAMPOLINE (trampoline s) PGSIZE (PTE_R OR PTE_X) s;
     s \<leftarrow> proc_mapstacks kpgtbl s;
     Some (kpgtbl, s) }"

definition kvminit :: "'a vm_st_scheme \<Rightarrow> 'a vm_st_scheme option" where
  "kvminit s = do {
     (kpgtbl, s) \<leftarrow> kvmmake s;
     Some (s\<lparr>kernel_pagetable := kpgtbl\<rparr>) }"

end
