(* ===== verification/Vm_Laws.thy ===== *)
theory Vm_Laws
  imports Vm
begin

text \<open>
  What the page-table code does to address spaces.

  \<open>pt_lookup\<close> reads the mapping a page table in memory represents: the valid leaf entry of each
  virtual page.  \<open>pt_wf\<close> is the shape invariant: a set \<open>T\<close> of table pages and, for each of them,
  its place in the tree (the list of indices on the way from the root), so that no table is
  shared between two places.  Under it, \<open>walk\<close>, \<open>mappages\<close> and \<open>uvmunmap\<close> are updates of that
  mapping.
\<close>

subsection \<open>Indices and slots\<close>

lemma PX_unat: "PX l va = unat va div 2 ^ (12 + 9 * l) mod 512"
proof -
  have "drop_bit (12 + 9 * l) va AND 0x1FF = take_bit 9 (drop_bit (12 + 9 * l) va)"
    by (simp add: take_bit_eq_mask mask_eq_exp_minus_1)
  moreover have "unat (take_bit 9 (drop_bit (12 + 9 * l) va)) = take_bit 9 (drop_bit (12 + 9 * l) (unat va))"
    using u64_bound [of va]
    by (simp add: unsigned_take_bit_eq unsigned_drop_bit_eq take_bit_nat_eq_self_iff [THEN iffD2])
  ultimately show ?thesis by (simp only: PX_def) (simp add: take_bit_eq_mod drop_bit_eq_div)
qed

lemma PX_less [simp]: "PX l va < 512"
  by (simp add: PX_unat)

lemma MAXVA_unat: "va < MAXVA \<longleftrightarrow> unat va < 2 ^ 38"
  by (simp add: word_less_nat_alt)

lemma PX_inj:
  assumes "va < MAXVA" and "wa < MAXVA"
  shows "PX 2 va = PX 2 wa \<and> PX 1 va = PX 1 wa \<and> PX 0 va = PX 0 wa \<longleftrightarrow> page_of va = page_of wa"
proof -
  have split: "unat x div 4096 = (PX 2 x * 512 + PX 1 x) * 512 + PX 0 x" if "x < MAXVA" for x :: u64
  proof -
    have "unat x div 4096 div 512 div 512 < 512" using that by (simp add: MAXVA_unat)
    moreover have "PX 2 x = unat x div 4096 div 512 div 512 mod 512"
      "PX 1 x = unat x div 4096 div 512 mod 512" "PX 0 x = unat x div 4096 mod 512"
      by (simp_all add: PX_unat div_mult2_eq [symmetric])
    ultimately show ?thesis by (simp add: div_mult_mod_eq)
  qed
  have px: "PX l x = page_of x div 512 ^ l mod 512" for l x
    by (simp add: PX_unat page_of_def power_add power_mult div_mult2_eq)
  show ?thesis using split [OF assms(1)] split [OF assms(2)] by (auto simp: px page_of_def)
qed

lemma slot_unat: "page_al t \<Longrightarrow> i < 512 \<Longrightarrow> unat (slot t i) = unat t + 8 * i"
  using page_al_room [of t] by (simp add: slot_def unat_word_ariths unat_of_nat_64)

lemma slot_in_page: "page_al t \<Longrightarrow> i < 512 \<Longrightarrow> in_rng a (slot t i) 8 \<Longrightarrow> in_rng a t 4096"
  using page_al_room [of t] by (simp add: in_rng_nowrap slot_unat)

lemma slots_disjoint:
  assumes "page_al t" and "page_al u" and "i < 512" and "j < 512" and "t \<noteq> u \<or> i \<noteq> j"
    and "in_rng a (slot t i) 8"
  shows "\<not> in_rng a (slot u j) 8"
proof (cases "t = u")
  case True
  then show ?thesis using assms page_al_room [of t] by (auto simp: in_rng_nowrap slot_unat)
next
  case False
  then show ?thesis using assms slot_in_page pages_disjoint by metis
qed

lemma slot_nonzero: "page_al t \<Longrightarrow> i < 512 \<Longrightarrow> t \<noteq> 0 \<Longrightarrow> slot t i \<noteq> 0"
proof -
  assume "page_al t" "i < 512" "t \<noteq> 0"
  then have "0 < unat (slot t i)" using unat_gt_0 [of t] by (simp add: slot_unat)
  then show ?thesis by auto
qed

lemma PTE2PA_al [simp]: "page_al (PTE2PA e)"
proof -
  have "PTE2PA e = PGROUNDDOWN (PTE2PA e)"
    unfolding PTE2PA_def PGROUNDDOWN_def
    by (auto simp: and_m4096 intro!: bit_word_eqI simp: bit_simps simp del: push_bit_numeral)
  then show ?thesis by (metis PGROUNDDOWN_al)
qed

text \<open>An entry made for an aligned address below 2 to the 54 decodes to it, whatever the flags are.\<close>

lemma PTE2PA_PA2PTE:
  assumes "page_al p" and "p < 0x40000000000000" and "perm < 0x400"
  shows "PTE2PA (PA2PTE p OR perm OR PTE_V) = p"
proof -
  have perm: "\<not> bit perm n" if "10 \<le> n" for n
  proof -
    have "take_bit 10 perm = perm"
      using assms(3) by (simp add: take_bit_eq_mod mod_word_less)
    then show ?thesis using that by (metis bit_take_bit_iff leD)
  qed
  have high: "\<not> bit p n" if "54 \<le> n" for n
  proof -
    have "take_bit 54 p = p" using assms(2) by (simp add: take_bit_eq_mod mod_word_less)
    then show ?thesis using that by (metis bit_take_bit_iff leD)
  qed
  have low: "12 \<le> n" if "bit p n" for n
  proof -
    have "take_bit 12 p = 0" using assms(1) by (simp add: take_bit_eq_mod page_al_def)
    then show ?thesis using that by (metis bit_take_bit_iff bit_0_eq bot_apply bot_bool_def not_less)
  qed
  show ?thesis
    unfolding PTE2PA_def PA2PTE_def
    by (rule bit_word_eqI) (use low in \<open>auto simp: bit_simps perm high bit_1_iff simp del: push_bit_numeral\<close>)
qed

lemma pte_v_iff: "pte_v e \<longleftrightarrow> bit e 0"
  by (simp add: pte_v_def and_one_eq odd_iff_mod_2_eq_one [symmetric] bit_0)

lemma pte_v_mk [simp]: "pte_v (x OR PTE_V)" "pte_v (x OR y OR PTE_V)" "\<not> pte_v 0"
  by (simp_all add: pte_v_iff bit_simps bit_1_iff)

subsection \<open>The mapping a page table represents\<close>

primrec leaf_from :: "nat \<Rightarrow> memory \<Rightarrow> u64 \<Rightarrow> u64 \<Rightarrow> u64 option" where
  "leaf_from 0 m t va = Some (slot t (PX 0 va))"
| "leaf_from (Suc l) m t va =
     (let e = ld64 m (slot t (PX (Suc l) va)) in if pte_v e then leaf_from l m (PTE2PA e) va else None)"

primrec lookup_from :: "nat \<Rightarrow> memory \<Rightarrow> u64 \<Rightarrow> u64 \<Rightarrow> u64 option" where
  "lookup_from 0 m t va = (let e = ld64 m (slot t (PX 0 va)) in if pte_v e then Some e else None)"
| "lookup_from (Suc l) m t va =
     (let e = ld64 m (slot t (PX (Suc l) va)) in if pte_v e then lookup_from l m (PTE2PA e) va else None)"

definition pt_lookup :: "memory \<Rightarrow> u64 \<Rightarrow> u64 \<Rightarrow> u64 option" where
  "pt_lookup m pt va = lookup_from 2 m pt va"

lemma lookup_leaf:
  "lookup_from l m t va =
     (case leaf_from l m t va of None \<Rightarrow> None | Some a \<Rightarrow> if pte_v (ld64 m a) then Some (ld64 m a) else None)"
  by (induction l arbitrary: t) (auto simp: Let_def)

lemma leaf_PX: "(\<And>i. i \<le> l \<Longrightarrow> PX i va = PX i wa) \<Longrightarrow> leaf_from l m t va = leaf_from l m t wa"
  by (induction l arbitrary: t) (auto simp: Let_def)

lemma walk_from_noalloc:
  "walk_from l t va False s = Some (case leaf_from l (mem s) t va of None \<Rightarrow> 0 | Some a \<Rightarrow> a, s)"
  by (induction l arbitrary: t) (auto simp: Let_def)

text \<open>The place, as indices from the root, of the table that translates \<open>va\<close> at level \<open>l\<close>.\<close>

definition vpath :: "u64 \<Rightarrow> nat \<Rightarrow> nat list" where
  "vpath va l = map (\<lambda>i. PX i va) (rev [Suc l..<3])"

lemma vpath_root [simp]: "vpath va 2 = []"
  by (simp add: vpath_def)

lemma vpath_0: "vpath va 0 = [PX 2 va, PX 1 va]"
  by (simp add: vpath_def upt_rec numeral_2_eq_2)

lemma vpath_Suc: "l < 2 \<Longrightarrow> vpath va l = vpath va (Suc l) @ [PX (Suc l) va]"
  by (simp add: vpath_def upt_rec [of "Suc l" 3])

lemma length_vpath: "length (vpath va l) = 2 - l"
  by (simp add: vpath_def)

definition pt_wf :: "memory \<Rightarrow> u64 \<Rightarrow> u64 set \<Rightarrow> (u64 \<Rightarrow> nat list) \<Rightarrow> bool" where
  "pt_wf m pt T loc \<longleftrightarrow> pt \<in> T \<and> loc pt = [] \<and> (\<forall>t\<in>T. page_al t \<and> t \<noteq> 0 \<and> length (loc t) \<le> 2) \<and>
     (\<forall>t\<in>T. length (loc t) < 2 \<longrightarrow> (\<forall>i<512. pte_v (ld64 m (slot t i)) \<longrightarrow>
        PTE2PA (ld64 m (slot t i)) \<in> T \<and> loc (PTE2PA (ld64 m (slot t i))) = loc t @ [i]))"

lemma pt_wf_table: "pt_wf m pt T loc \<Longrightarrow> t \<in> T \<Longrightarrow> page_al t \<and> t \<noteq> 0 \<and> length (loc t) \<le> 2"
  and pt_wf_root: "pt_wf m pt T loc \<Longrightarrow> pt \<in> T \<and> loc pt = []"
  and pt_wf_child: "pt_wf m pt T loc \<Longrightarrow> t \<in> T \<Longrightarrow> length (loc t) < 2 \<Longrightarrow> i < 512 \<Longrightarrow>
    pte_v (ld64 m (slot t i)) \<Longrightarrow>
    PTE2PA (ld64 m (slot t i)) \<in> T \<and> loc (PTE2PA (ld64 m (slot t i))) = loc t @ [i]"
  by (simp_all add: pt_wf_def)

lemma pt_wf_step:
  assumes "pt_wf m pt T loc" and "t \<in> T" and "loc t = vpath va (Suc l)" and "Suc l \<le> 2"
    and "pte_v (ld64 m (slot t (PX (Suc l) va)))"
  shows "PTE2PA (ld64 m (slot t (PX (Suc l) va))) \<in> T \<and>
    loc (PTE2PA (ld64 m (slot t (PX (Suc l) va)))) = vpath va l"
  using pt_wf_child [OF assms(1,2) _ PX_less assms(5)] assms(3,4)
  by (simp add: length_vpath vpath_Suc)

lemma leaf_wf:
  assumes "pt_wf m pt T loc" and "t \<in> T" and "loc t = vpath va l" and "l \<le> 2"
    and "leaf_from l m t va = Some a"
  shows "\<exists>t0\<in>T. loc t0 = vpath va 0 \<and> a = slot t0 (PX 0 va)"
  using assms(2-)
proof (induction l arbitrary: t)
  case 0
  then show ?case by auto
next
  case (Suc l)
  then have v: "pte_v (ld64 m (slot t (PX (Suc l) va)))"
    and lf: "leaf_from l m (PTE2PA (ld64 m (slot t (PX (Suc l) va)))) va = Some a"
    by (auto simp: Let_def split: if_splits)
  from pt_wf_step [OF assms(1) Suc.prems(1-3) v] Suc.IH [OF _ _ _ lf] Suc.prems(3) show ?case by simp
qed

text \<open>The invariant the operations keep: the tables and the free pages are disjoint pages of the
  allocator's range.\<close>

definition vm_ok :: "'a kmem_st_scheme \<Rightarrow> u64 \<Rightarrow> u64 set \<Rightarrow> (u64 \<Rightarrow> nat list) \<Rightarrow> u64 list \<Rightarrow> bool" where
  "vm_ok s pt T loc fs \<longleftrightarrow> pt_wf (mem s) pt T loc \<and> kalloc_inv s fs \<and> T \<inter> set fs = {} \<and>
     (\<forall>t\<in>T. page_ok s t) \<and> KmemLock \<notin> held s"

lemma page_ok_small: "page_ok s p \<Longrightarrow> p < 0x40000000000000"
  by (auto simp: page_ok_def word_less_nat_alt)

lemma PTE2PA_table: "page_ok s p \<Longrightarrow> PTE2PA (PA2PTE p OR PTE_V) = p"
  using PTE2PA_PA2PTE [of p 0] page_ok_small [of s p] by (auto simp: page_ok_def)

subsection \<open>Adding a table\<close>

text \<open>A page table is determined by the bytes of its tables.\<close>

lemma pt_frame:
  assumes wf: "pt_wf m pt T loc" and same: "\<And>t a. t \<in> T \<Longrightarrow> in_rng a t 4096 \<Longrightarrow> m' a = m a"
  shows "pt_wf m' pt T loc" and "leaf_from 2 m' pt va = leaf_from 2 m pt va"
    and "pt_lookup m' pt va = pt_lookup m pt va"
proof -
  have ld: "ld64 m' (slot t i) = ld64 m (slot t i)" if "t \<in> T" "i < 512" for t i
    using that same slot_in_page pt_wf_table [OF wf] by (intro ld64_cong) blast
  have lk: "lookup_from l m' u va = lookup_from l m u va \<and> leaf_from l m' u va = leaf_from l m u va"
    if "u \<in> T" "loc u = vpath va l" "l \<le> 2" for l u
    using that
  proof (induction l arbitrary: u)
    case 0
    then show ?case by (simp add: ld)
  next
    case (Suc l)
    then show ?case using pt_wf_step [OF wf Suc.prems] by (auto simp: ld Let_def)
  qed
  show "pt_wf m' pt T loc" using wf ld unfolding pt_wf_def by auto
  show "leaf_from 2 m' pt va = leaf_from 2 m pt va" "pt_lookup m' pt va = pt_lookup m pt va"
    using lk [of pt 2] pt_wf_root [OF wf] by (simp_all add: pt_lookup_def)
qed

lemma ld64_frame:
  assumes "page_al t" and "page_al p" and "t \<noteq> p" and "i < 512"
    and "\<And>a. \<not> in_rng a p 4096 \<Longrightarrow> m' a = m a"
  shows "ld64 m' (slot t i) = ld64 m (slot t i)"
  using assms slot_in_page pages_disjoint by (intro ld64_cong) blast

lemma ld64_slot_other:
  assumes "page_al t" and "page_al u" and "i < 512" and "j < 512" and "t \<noteq> u \<or> i \<noteq> j"
  shows "ld64 (st64 (slot u j) v m) (slot t i) = ld64 m (slot t i)"
  using assms slots_disjoint by (intro ld64_cong st64_other) blast

lemma ld64_zeroed: "page_al p \<Longrightarrow> i < 512 \<Longrightarrow> ld64 (memset p 0 4096 m) (slot p i) = 0"
proof -
  assume "page_al p" "i < 512"
  then have "ld64 (memset p 0 4096 m) (slot p i) = ld64 (\<lambda>_. 0) (slot p i)"
    using slot_in_page by (intro ld64_cong) (simp add: memset_apply)
  then show ?thesis by (simp add: ld64_def)
qed

definition add_table :: "u64 \<Rightarrow> nat \<Rightarrow> u64 \<Rightarrow> memory \<Rightarrow> memory" where
  "add_table t i p m = st64 (slot t i) (PA2PTE p OR PTE_V) (memset p 0 4096 m)"

lemma add_table_entry:
  assumes "page_al u" and "page_al t" and "page_al p" and "t \<noteq> p" and "i < 512" and "j < 512"
  shows "ld64 (add_table t i p m) (slot u j) =
    (if u = t \<and> j = i then PA2PTE p OR PTE_V else if u = p then 0 else ld64 m (slot u j))"
proof -
  have "ld64 (memset p 0 4096 m) (slot u j) = ld64 m (slot u j)" if "u \<noteq> p"
    by (rule ld64_frame [OF assms(1,3) that assms(6)]) (simp add: memset_apply)
  then show ?thesis
    using assms by (auto simp: add_table_def ld64_st64_same ld64_slot_other ld64_zeroed)
qed

lemma add_table_wf:
  assumes wf: "pt_wf m pt T loc" and t: "t \<in> T" "length (loc t) < 2" and i: "i < 512"
    and free: "\<not> pte_v (ld64 m (slot t i))"
    and p: "p \<notin> T" "page_al p" "p \<noteq> 0" "PTE2PA (PA2PTE p OR PTE_V) = p"
  shows "pt_wf (add_table t i p m) pt (insert p T) (loc(p := loc t @ [i]))"
proof -
  let ?loc = "loc(p := loc t @ [i])"
  have al: "page_al u" if "u \<in> insert p T" for u using that pt_wf_table [OF wf] p by auto
  have tp: "t \<noteq> p" using t p by auto
  have "PTE2PA (ld64 (add_table t i p m) (slot u j)) \<in> insert p T \<and>
      ?loc (PTE2PA (ld64 (add_table t i p m) (slot u j))) = ?loc u @ [j]"
    if u: "u \<in> insert p T" "length (?loc u) < 2" and j: "j < 512"
      and v: "pte_v (ld64 (add_table t i p m) (slot u j))" for u j
  proof -
    note e = add_table_entry [OF al [OF u(1)] al p(2) tp i j, of m]
    have e: "ld64 (add_table t i p m) (slot u j) =
      (if u = t \<and> j = i then PA2PTE p OR PTE_V else if u = p then 0 else ld64 m (slot u j))"
      using e t(1) by simp
    show ?thesis
    proof (cases "u = t \<and> j = i")
      case True
      then show ?thesis using e p(4) tp by simp
    next
      case False
      then have "u \<noteq> p" "u \<in> T" using e v u(1) by (auto split: if_splits)
      moreover from this have "pte_v (ld64 m (slot u j))" "length (loc u) < 2"
        using v e False u by auto
      ultimately show ?thesis using pt_wf_child [OF wf _ _ j, of u] p(1) e False by auto
    qed
  qed
  then show ?thesis
    using pt_wf_root [OF wf] pt_wf_table [OF wf] p t unfolding pt_wf_def by auto
qed

lemma add_table_lookup:
  assumes wf: "pt_wf m pt T loc" and t: "t \<in> T" "length (loc t) < 2" and i: "i < 512"
    and free: "\<not> pte_v (ld64 m (slot t i))"
    and p: "p \<notin> T" "page_al p" "p \<noteq> 0" "PTE2PA (PA2PTE p OR PTE_V) = p"
    and u: "u \<in> T" "loc u = vpath va l" "l \<le> 2"
  shows "lookup_from l (add_table t i p m) u va = lookup_from l m u va"
  using u
proof (induction l arbitrary: u)
  case 0
  have al: "page_al u" "page_al t" and ne: "t \<noteq> p" "u \<noteq> p" "u \<noteq> t"
    using 0 t p pt_wf_table [OF wf] by (auto simp: length_vpath)
  then show ?case using add_table_entry [OF al p(2) ne(1) i PX_less] by simp
next
  case (Suc l)
  have al: "page_al u" "page_al t" and ne: "t \<noteq> p" "u \<noteq> p"
    using Suc.prems t p pt_wf_table [OF wf] by auto
  note e = add_table_entry [OF al p(2) ne(1) i PX_less, of m "Suc l" va]
  have new: "lookup_from k (add_table t i p m) p va = None" for k
    using add_table_entry [OF p(2) al(2) p(2) ne(1) i PX_less, of m k va] ne(1)
    by (cases k) (auto simp: Let_def)
  show ?case
  proof (cases "u = t \<and> PX (Suc l) va = i")
    case True
    then show ?thesis using e free new p(4) by (auto simp: Let_def)
  next
    case False
    then show ?thesis
      using e ne pt_wf_step [OF wf Suc.prems] Suc.IH Suc.prems(3) by (auto simp: Let_def)
  qed
qed

subsection \<open>\<^verbatim>\<open>walk\<close>\<close>

lemma walk_below: "va < MAXVA \<Longrightarrow> walk pt va alloc s = walk_from 2 pt va alloc s"
  by (simp add: walk_def linorder_not_less [symmetric])

lemma mem_freelist_commute: "s\<lparr>freelist := r, mem := m\<rparr> = s\<lparr>mem := m, freelist := r\<rparr>"
  by simp

text \<open>\<open>vm_step\<close> relates the states before and after an operation that may take tables from the free
  list: the invariant holds again, the pages of the tables and of the list are the same ones, and
  nothing outside them was written.\<close>

definition vm_step :: "u64 \<Rightarrow> 'a kmem_st_scheme \<Rightarrow> u64 set \<Rightarrow> u64 list \<Rightarrow> 'a kmem_st_scheme \<Rightarrow> u64 set \<Rightarrow>
    (u64 \<Rightarrow> nat list) \<Rightarrow> u64 list \<Rightarrow> bool" where
  "vm_step pt s T fs s' T' loc' fs' \<longleftrightarrow> vm_ok s' pt T' loc' fs' \<and> T \<subseteq> T' \<and> T' \<union> set fs' = T \<union> set fs \<and>
     (\<exists>m r. s' = s\<lparr>mem := m, freelist := r\<rparr>) \<and>
     (\<forall>a. (\<forall>p\<in>T \<union> set fs. \<not> in_rng a p 4096) \<longrightarrow> mem s' a = mem s a)"

lemma vm_step_refl: "vm_ok s pt T loc fs \<Longrightarrow> vm_step pt s T fs s T loc fs"
  by (auto simp: vm_step_def intro!: exI [of _ "mem s"] exI [of _ "freelist s"])

lemma kmem_upd_trans:
  assumes "\<exists>m r. s1 = s\<lparr>mem := m, freelist := r\<rparr>" and "\<exists>m r. s2 = s1\<lparr>mem := m, freelist := r\<rparr>"
  shows "\<exists>m r. s2 = s\<lparr>mem := m, freelist := r\<rparr>"
proof -
  obtain m r where "s1 = s\<lparr>mem := m, freelist := r\<rparr>" using assms(1) by blast
  moreover obtain m' r' where "s2 = s1\<lparr>mem := m', freelist := r'\<rparr>" using assms(2) by blast
  ultimately have "s2 = s\<lparr>mem := m', freelist := r'\<rparr>" by simp
  then show ?thesis by blast
qed

lemma vm_step_trans:
  assumes "vm_step pt s T fs s1 T1 loc1 fs1" and "vm_step pt s1 T1 fs1 s2 T2 loc2 fs2"
  shows "vm_step pt s T fs s2 T2 loc2 fs2"
proof -
  have "\<exists>m r. s2 = s\<lparr>mem := m, freelist := r\<rparr>"
    using assms kmem_upd_trans [of s1 s s2] by (simp add: vm_step_def)
  moreover have "T \<subseteq> T2" "T2 \<union> set fs2 = T \<union> set fs" "vm_ok s2 pt T2 loc2 fs2"
    using assms by (auto simp: vm_step_def)
  moreover have "mem s2 a = mem s a" if "\<forall>p\<in>T \<union> set fs. \<not> in_rng a p 4096" for a
    using assms that unfolding vm_step_def by metis
  ultimately show ?thesis unfolding vm_step_def by blast
qed

lemma vm_step_alloc:
  assumes ok: "vm_ok s pt T loc (p # fs)" and t: "t \<in> T" "length (loc t) < 2" and i: "i < 512"
    and free: "\<not> pte_v (ld64 (mem s) (slot t i))"
  defines "s' \<equiv> s\<lparr>mem := add_table t i p (memset p 5 4096 (mem s)), freelist := ld64 (mem s) p\<rparr>"
  shows "vm_step pt s T (p # fs) s' (insert p T) (loc(p := loc t @ [i])) fs"
    and "pt_lookup (mem s') pt va = pt_lookup (mem s) pt va"
    and "\<And>u j. u \<in> T \<Longrightarrow> j < 512 \<Longrightarrow> ld64 (mem s') (slot u j) =
      (if u = t \<and> j = i then PA2PTE p OR PTE_V else ld64 (mem s) (slot u j))"
proof -
  let ?m = "memset p 5 4096 (mem s)"
  have wf: "pt_wf (mem s) pt T loc" and inv: "kalloc_inv s (p # fs)" and pT: "p \<notin> T"
    and tok: "\<forall>t\<in>T. page_ok s t" and Tfs: "T \<inter> set fs = {}" and lk: "KmemLock \<notin> held s"
    using ok by (auto simp: vm_ok_def)
  have p: "page_ok s p" using kalloc_invD [OF inv] by simp
  have pal: "page_al p" "p \<noteq> 0" using p by (auto simp: page_ok_def)
  have bytes: "?m a = mem s a" if "u \<in> T" "in_rng a u 4096" for u a
    using that pages_disjoint [of u p a] pt_wf_table [OF wf that(1)] pal pT by (auto simp: memset_apply)
  have same: "ld64 ?m (slot u j) = ld64 (mem s) (slot u j)" if "u \<in> T" "j < 512" for u j
    by (rule ld64_frame [OF _ pal(1) _ that(2)]) (use that(1) pt_wf_table [OF wf] pT in \<open>auto simp: memset_apply\<close>)
  note frame = pt_frame [OF wf bytes]
  have wf5: "pt_wf ?m pt T loc" by (rule frame(1))
  have free5: "\<not> pte_v (ld64 ?m (slot t i))" using free same t i by simp
  note add = wf5 t i free5 pT pal PTE2PA_table [OF p]
  show "pt_lookup (mem s') pt va = pt_lookup (mem s) pt va"
    using add_table_lookup [OF add, of pt va 2] frame(3) [where va = va] pt_wf_root [OF wf]
    by (simp add: pt_lookup_def s'_def)
  show "ld64 (mem s') (slot u j) = (if u = t \<and> j = i then PA2PTE p OR PTE_V else ld64 (mem s) (slot u j))"
    if "u \<in> T" "j < 512" for u j
  proof -
    have "t \<noteq> p" "u \<noteq> p" "page_al u" "page_al t" using that t pT pt_wf_table [OF wf] by auto
    then show ?thesis using that add_table_entry [of u t p i j ?m] i pal same by (simp add: s'_def)
  qed
  have out: "add_table t i p ?m a = mem s a" if "\<not> in_rng a t 4096" "\<not> in_rng a p 4096" for a
  proof -
    have "\<not> in_rng a (slot t i) 8" using that slot_in_page [of t i a] pt_wf_table [OF wf t(1)] i by blast
    then show ?thesis using that by (simp add: add_table_def memset_apply st64_other)
  qed
  have "kalloc_inv (s\<lparr>mem := ?m, freelist := ld64 (mem s) p\<rparr>) fs" using inv by (rule kalloc_inv_tail)
  then have "kalloc_inv s' fs"
  proof (rule kalloc_inv_frame)
    fix q a assume q: "q \<in> set fs" "in_rng a q 4096"
    then have "page_al q" "q \<noteq> p" "q \<noteq> t"
      using kalloc_invD [OF inv, of q] inv t Tfs by (auto simp: page_ok_def kalloc_inv_def)
    then have "\<not> in_rng a t 4096" "\<not> in_rng a p 4096"
      using q(2) pages_disjoint pal pt_wf_table [OF wf t(1)] by blast+
    then show "mem s' a = mem (s\<lparr>mem := ?m, freelist := ld64 (mem s) p\<rparr>) a"
      by (simp add: s'_def out memset_apply)
  qed (simp_all add: s'_def)
  moreover have "pt_wf (mem s') pt (insert p T) (loc(p := loc t @ [i]))"
    using add_table_wf [OF add] by (simp add: s'_def)
  moreover have "p \<notin> set fs" using inv by (simp add: kalloc_inv_def)
  ultimately have "vm_ok s' pt (insert p T) (loc(p := loc t @ [i])) fs"
    using tok p Tfs lk by (auto simp: vm_ok_def s'_def page_ok_def)
  moreover have "mem s' a = mem s a" if "\<forall>q\<in>T \<union> set (p # fs). \<not> in_rng a q 4096" for a
    using that t by (simp add: s'_def out)
  ultimately show "vm_step pt s T (p # fs) s' (insert p T) (loc(p := loc t @ [i])) fs"
    unfolding vm_step_def s'_def by auto
qed

text \<open>Allocating tables never changes a valid entry of a table that was there before.\<close>

definition entries_kept :: "u64 set \<Rightarrow> memory \<Rightarrow> memory \<Rightarrow> bool" where
  "entries_kept T m m' \<longleftrightarrow>
     (\<forall>u\<in>T. \<forall>j<512. pte_v (ld64 m (slot u j)) \<longrightarrow> ld64 m' (slot u j) = ld64 m (slot u j))"

lemma entries_kept_trans:
  "entries_kept T m m' \<Longrightarrow> entries_kept T' m' m'' \<Longrightarrow> T \<subseteq> T' \<Longrightarrow> entries_kept T m m''"
  unfolding entries_kept_def by (metis subsetD)

lemma walk_from_alloc:
  assumes "vm_ok s pt T loc fs" and "t \<in> T" and "loc t = vpath va l" and "l \<le> 2"
  shows "\<exists>r s' T' loc' fs'. walk_from l t va True s = Some (r, s') \<and> vm_step pt s T fs s' T' loc' fs' \<and>
    (\<forall>v. pt_lookup (mem s') pt v = pt_lookup (mem s) pt v) \<and>
    (\<forall>u\<in>T. loc' u = loc u) \<and> entries_kept T (mem s) (mem s') \<and>
    (if r = 0 then fs' = [] else leaf_from l (mem s') t va = Some r)"
  using assms
proof (induction l arbitrary: t s T loc fs)
  case 0
  have "slot t (PX 0 va) \<noteq> 0"
    using 0 pt_wf_table [of "mem s" pt T loc t] by (intro slot_nonzero) (auto simp: vm_ok_def)
  then show ?case using vm_step_refl [OF 0(1)] by (auto simp: entries_kept_def)
next
  case (Suc l)
  let ?i = "PX (Suc l) va"
  let ?e = "ld64 (mem s) (slot t ?i)"
  have wf: "pt_wf (mem s) pt T loc" using Suc.prems(1) by (simp add: vm_ok_def)
  have lk: "KmemLock \<notin> held s" and inv: "kalloc_inv s fs" using Suc.prems(1) by (auto simp: vm_ok_def)
  have len: "length (loc t) < 2" using Suc.prems by (simp add: length_vpath)
  show ?case
  proof (cases "pte_v ?e")
    case True
    from pt_wf_step [OF wf Suc.prems(2-4) True]
    have c: "PTE2PA ?e \<in> T" "loc (PTE2PA ?e) = vpath va l" by auto
    from Suc.IH [OF Suc.prems(1) c] Suc.prems(4) obtain r s' T' loc' fs' where
      *: "walk_from l (PTE2PA ?e) va True s = Some (r, s')" "vm_step pt s T fs s' T' loc' fs'"
      "\<forall>v. pt_lookup (mem s') pt v = pt_lookup (mem s) pt v" "\<forall>u\<in>T. loc' u = loc u"
      "entries_kept T (mem s) (mem s')"
      "if r = 0 then fs' = [] else leaf_from l (mem s') (PTE2PA ?e) va = Some r" by auto
    have "ld64 (mem s') (slot t ?i) = ?e"
      using *(5) Suc.prems(2) True PX_less unfolding entries_kept_def by blast
    then show ?thesis using True * by (intro exI [of _ r] exI [of _ s'] exI [of _ T'] exI [of _ loc'] exI [of _ fs']) simp
  next
    case False
    show ?thesis
    proof (cases fs)
      case Nil
      then have "walk_from (Suc l) t va True s = Some (0, s)"
        using False kalloc_eq_nil [of s] inv lk by (simp add: Let_def)
      then show ?thesis using vm_step_refl [OF Suc.prems(1)] Nil by (auto simp: entries_kept_def)
    next
      case (Cons p ps)
      let ?s = "s\<lparr>mem := add_table t ?i p (memset p 5 4096 (mem s)), freelist := ld64 (mem s) p\<rparr>"
      let ?loc = "loc(p := loc t @ [?i])"
      note add = vm_step_alloc [OF Suc.prems(1) [unfolded Cons] Suc.prems(2) len PX_less False]
      have pT: "p \<notin> T" and p: "page_ok s p" using Suc.prems(1) Cons by (auto simp: vm_ok_def kalloc_inv_def)
      have ok: "vm_ok ?s pt (insert p T) ?loc ps" using add(1) by (simp add: vm_step_def)
      have walk: "walk_from (Suc l) t va True s = walk_from l p va True ?s"
        using False kalloc_eq_cons [of s p ps] inv lk Cons p by (simp add: Let_def page_ok_def add_table_def mem_freelist_commute)
      have path: "?loc p = vpath va l" using Suc.prems(3,4) vpath_Suc [of l va] by simp
      from Suc.IH [OF ok insertI1 path] Suc.prems(4) obtain r s' T' loc' fs' where
        *: "walk_from l p va True ?s = Some (r, s')" "vm_step pt ?s (insert p T) ps s' T' loc' fs'"
        "\<forall>v. pt_lookup (mem s') pt v = pt_lookup (mem ?s) pt v" "\<forall>u\<in>insert p T. loc' u = ?loc u"
        "entries_kept (insert p T) (mem ?s) (mem s')"
        "if r = 0 then fs' = [] else leaf_from l (mem s') p va = Some r" by auto
      have e: "ld64 (mem ?s) (slot t ?i) = PA2PTE p OR PTE_V"
        using add(3) [OF Suc.prems(2) PX_less] by simp
      then have "ld64 (mem s') (slot t ?i) = PA2PTE p OR PTE_V"
        using *(5) Suc.prems(2) PX_less unfolding entries_kept_def by (metis insertI2 pte_v_mk(1))
      then have "if r = 0 then fs' = [] else leaf_from (Suc l) (mem s') t va = Some r"
        using *(6) PTE2PA_table [OF p] by (simp add: Let_def)
      moreover have "entries_kept T (mem s) (mem ?s)"
        unfolding entries_kept_def using add(3) False by (metis (no_types, lifting))
      then have "entries_kept T (mem s) (mem s')" by (rule entries_kept_trans [OF _ *(5)]) auto
      moreover have "vm_step pt s T fs s' T' loc' fs'"
        unfolding Cons by (rule vm_step_trans [OF add(1) *(2)])
      moreover have "\<forall>u\<in>T. loc' u = loc u" using *(4) pT by auto
      moreover have "\<forall>v. pt_lookup (mem s') pt v = pt_lookup (mem s) pt v" using *(3) add(2) by simp
      ultimately show ?thesis
        using walk *(1) by (intro exI [of _ r] exI [of _ s'] exI [of _ T'] exI [of _ loc'] exI [of _ fs']) simp
    qed
  qed
qed

text \<open>\<^verbatim>\<open>walk(pagetable, va, 1)\<close> from the root: it returns the slot of \<open>va\<close>, having kept every mapping, or
  null when the free list ran out.\<close>

lemma walk_alloc:
  assumes "vm_ok s pt T loc fs" and "va < MAXVA"
  shows "\<exists>r s' T' loc' fs'. walk pt va True s = Some (r, s') \<and> vm_step pt s T fs s' T' loc' fs' \<and>
    (\<forall>v. pt_lookup (mem s') pt v = pt_lookup (mem s) pt v) \<and>
    (if r = 0 then fs' = [] else leaf_from 2 (mem s') pt va = Some r)"
proof -
  have "pt \<in> T" "loc pt = vpath va 2" using assms(1) by (auto simp: vm_ok_def pt_wf_def)
  from walk_from_alloc [OF assms(1) this] assms(2) show ?thesis
    unfolding walk_below [OF assms(2)] by (metis order_refl)
qed

lemma walk_noalloc:
  "va < MAXVA \<Longrightarrow> walk pt va False s = Some (case leaf_from 2 (mem s) pt va of None \<Rightarrow> 0 | Some a \<Rightarrow> a, s)"
  by (simp add: walk_below walk_from_noalloc)

subsection \<open>Writing a leaf entry\<close>

lemma leaf_slot:
  assumes "pt_wf m pt T loc" and "leaf_from 2 m pt va = Some a"
  obtains t where "t \<in> T" "loc t = vpath va 0" "a = slot t (PX 0 va)" "page_al t" "a \<noteq> 0"
proof -
  from leaf_wf [OF assms(1) _ _ _ assms(2)] pt_wf_root [OF assms(1)]
  obtain t where "t \<in> T" "loc t = vpath va 0" "a = slot t (PX 0 va)" by auto
  moreover from this have "page_al t" "t \<noteq> 0" using pt_wf_table [OF assms(1)] by auto
  moreover from this calculation have "a \<noteq> 0" using slot_nonzero by simp
  ultimately show thesis using that by blast
qed

lemma set_leaf_inner:
  assumes wf: "pt_wf m pt T loc" and t: "t \<in> T" "length (loc t) = 2" and i: "i < 512"
    and u: "u \<in> T" "length (loc u) < 2" and j: "j < 512"
  shows "ld64 (st64 (slot t i) e m) (slot u j) = ld64 m (slot u j)"
  using assms pt_wf_table [OF wf] by (intro ld64_slot_other) auto

lemma set_leaf_wf:
  assumes wf: "pt_wf m pt T loc" and t: "t \<in> T" "length (loc t) = 2" and i: "i < 512"
  shows "pt_wf (st64 (slot t i) e m) pt T loc"
  using wf set_leaf_inner [OF assms] unfolding pt_wf_def by auto

lemma set_leaf_leaf:
  assumes wf: "pt_wf m pt T loc" and t: "t \<in> T" "length (loc t) = 2" and i: "i < 512"
    and "u \<in> T" "loc u = vpath va l" "l \<le> 2"
  shows "leaf_from l (st64 (slot t i) e m) u va = leaf_from l m u va"
  using assms(5-)
proof (induction l arbitrary: u)
  case 0
  then show ?case by simp
next
  case (Suc l)
  have "ld64 (st64 (slot t i) e m) (slot u (PX (Suc l) va)) = ld64 m (slot u (PX (Suc l) va))"
    using Suc.prems by (intro set_leaf_inner [OF wf t i]) (auto simp: length_vpath)
  then show ?case using pt_wf_step [OF wf Suc.prems] Suc by (simp add: Let_def)
qed

lemma set_leaf_lookup:
  assumes wf: "pt_wf m pt T loc" and lf: "leaf_from 2 m pt va = Some a" and "va < MAXVA" and "v < MAXVA"
  shows "pt_lookup (st64 a e m) pt v =
    (if page_of v = page_of va then (if pte_v e then Some e else None) else pt_lookup m pt v)"
proof -
  obtain t where t: "t \<in> T" "loc t = vpath va 0" "a = slot t (PX 0 va)" "page_al t"
    using leaf_slot [OF wf lf] by metis
  have len: "length (loc t) = 2" using t(2) by (simp add: vpath_0)
  have root: "pt \<in> T" "loc pt = vpath x 2" for x using pt_wf_root [OF wf] by auto
  have same_leaf: "leaf_from 2 (st64 a e m) pt x = leaf_from 2 m pt x" for x
    unfolding t(3) by (rule set_leaf_leaf [OF wf t(1) len PX_less root]) simp
  show ?thesis
  proof (cases "page_of v = page_of va")
    case True
    then have "PX i v = PX i va" if "i \<le> 2" for i
      using that PX_inj [OF assms(4,3)] by (auto simp: le_Suc_eq numeral_2_eq_2)
    then have "leaf_from 2 m pt v = Some a" using leaf_PX [of 2 v va] lf by simp
    then show ?thesis using True by (simp add: pt_lookup_def lookup_leaf same_leaf ld64_st64_same)
  next
    case False
    have "ld64 (st64 a e m) b = ld64 m b" if b: "leaf_from 2 m pt v = Some b" for b
    proof -
      obtain u where u: "u \<in> T" "loc u = vpath v 0" "b = slot u (PX 0 v)" "page_al u"
        using leaf_slot [OF wf b] by metis
      have "u \<noteq> t \<or> PX 0 v \<noteq> PX 0 va"
        using False u(2) t(2) PX_inj [OF assms(4,3)] by (auto simp: vpath_0)
      then show ?thesis unfolding t(3) u(3) using u(4) t(4) by (intro ld64_slot_other) auto
    qed
    then show ?thesis using False
      by (cases "leaf_from 2 m pt v") (simp_all add: pt_lookup_def lookup_leaf same_leaf)
  qed
qed

text \<open>The invariant survives the write of a leaf entry.\<close>

lemma vm_step_set_leaf:
  assumes ok: "vm_ok s pt T loc fs" and lf: "leaf_from 2 (mem s) pt va = Some a"
  shows "vm_step pt s T fs (s\<lparr>mem := st64 a e (mem s)\<rparr>) T loc fs"
proof -
  have wf: "pt_wf (mem s) pt T loc" and inv: "kalloc_inv s fs" and dis: "T \<inter> set fs = {}"
    using ok by (auto simp: vm_ok_def)
  obtain t where t: "t \<in> T" "loc t = vpath va 0" "a = slot t (PX 0 va)" "page_al t"
    using leaf_slot [OF wf lf] by metis
  have out: "st64 a e (mem s) b = mem s b" if "\<not> in_rng b t 4096" for b
    using that slot_in_page [OF t(4) PX_less] unfolding t(3) by (intro st64_other) blast
  have "pt_wf (st64 a e (mem s)) pt T loc"
    unfolding t(3) by (rule set_leaf_wf [OF wf t(1)]) (simp_all add: t(2) vpath_0)
  moreover have "kalloc_inv (s\<lparr>mem := st64 a e (mem s)\<rparr>) fs"
    using inv
  proof (rule kalloc_inv_frame)
    fix q b assume q: "q \<in> set fs" "in_rng b q 4096"
    then have "page_al q" "q \<noteq> t" using kalloc_invD [OF inv] t(1) dis by (auto simp: page_ok_def)
    then have "\<not> in_rng b t 4096" using q(2) pages_disjoint t(4) by blast
    then show "mem (s\<lparr>mem := st64 a e (mem s)\<rparr>) b = mem s b" by (simp add: out)
  qed simp_all
  ultimately have "vm_ok (s\<lparr>mem := st64 a e (mem s)\<rparr>) pt T loc fs"
    using ok by (auto simp: vm_ok_def page_ok_def)
  moreover have "\<exists>m r. s\<lparr>mem := st64 a e (mem s)\<rparr> = s\<lparr>mem := m, freelist := r\<rparr>"
    by (rule exI [of _ "st64 a e (mem s)"], rule exI [of _ "freelist s"]) simp
  ultimately show ?thesis using t(1) by (simp add: vm_step_def out)
qed

subsection \<open>\<^verbatim>\<open>mappages\<close>\<close>

definition mapped :: "(u64 \<Rightarrow> u64 option) \<Rightarrow> u64 \<Rightarrow> nat \<Rightarrow> u64 \<Rightarrow> u64 \<Rightarrow> u64 \<Rightarrow> u64 option" where
  "mapped M a k pa perm v =
     (if page_of a \<le> page_of v \<and> page_of v < page_of a + k
      then Some (PA2PTE (pa + of_nat (page_of v - page_of a) * PGSIZE) OR perm OR PTE_V) else M v)"

lemma page_al_add: "page_al a \<Longrightarrow> unat a + 4096 < 2 ^ 64 \<Longrightarrow>
    page_al (a + PGSIZE) \<and> unat (a + PGSIZE) = unat a + 4096 \<and> page_of (a + PGSIZE) = Suc (page_of a)"
  by (simp add: page_al_unat unat_word_ariths page_of_def)

lemma mapped_0 [simp]: "mapped M a 0 pa perm = M"
  by (auto simp: mapped_def fun_eq_iff)

lemma mapped_Suc:
  assumes "page_of b = Suc (page_of a)"
  shows "mapped (\<lambda>v. if page_of v = page_of a then Some (PA2PTE pa OR perm OR PTE_V) else M v) b k (pa + PGSIZE) perm v =
    mapped M a (Suc k) pa perm v"
proof -
  have "of_nat (page_of v - page_of a) = (1 + of_nat (page_of v - Suc (page_of a)) :: u64)"
    if "Suc (page_of a) \<le> page_of v"
    using that by (metis Suc_diff_le diff_Suc_Suc of_nat_Suc)
  then show ?thesis using assms by (auto simp: mapped_def algebra_simps)
qed

lemma map_one:
  assumes ok: "vm_ok s pt T loc fs" and a: "a < MAXVA" and free: "pt_lookup (mem s) pt a = None" and e: "pte_v e"
  obtains (full) s' T' loc' where "walk pt a True s = Some (0, s')" "vm_step pt s T fs s' T' loc' []"
      "\<And>v. pt_lookup (mem s') pt v = pt_lookup (mem s) pt v"
  | (found) r s' T' loc' fs' where "walk pt a True s = Some (r, s')" "r \<noteq> 0" "\<not> pte_v (ld64 (mem s') r)"
      "vm_step pt s T fs (s'\<lparr>mem := st64 r e (mem s')\<rparr>) T' loc' fs'"
      "\<And>v. v < MAXVA \<Longrightarrow> pt_lookup (st64 r e (mem s')) pt v =
        (if page_of v = page_of a then Some e else pt_lookup (mem s) pt v)"
proof -
  obtain r s' T' loc' fs' where w: "walk pt a True s = Some (r, s')" "vm_step pt s T fs s' T' loc' fs'"
    "\<forall>v. pt_lookup (mem s') pt v = pt_lookup (mem s) pt v"
    "if r = 0 then fs' = [] else leaf_from 2 (mem s') pt a = Some r"
    using walk_alloc [OF ok a] by blast
  show thesis
  proof (cases "r = 0")
    case True
    then show ?thesis using w full by simp
  next
    case False
    then have lf: "leaf_from 2 (mem s') pt a = Some r" using w(4) by simp
    have ok': "vm_ok s' pt T' loc' fs'" using w(2) by (simp add: vm_step_def)
    then have wf: "pt_wf (mem s') pt T' loc'" by (simp add: vm_ok_def)
    have "pt_lookup (mem s') pt a = None" using w(3) free by simp
    then have nv: "\<not> pte_v (ld64 (mem s') r)" by (auto simp: pt_lookup_def lookup_leaf lf split: if_splits)
    have st: "vm_step pt s T fs (s'\<lparr>mem := st64 r e (mem s')\<rparr>) T' loc' fs'"
      by (rule vm_step_trans [OF w(2) vm_step_set_leaf [OF ok' lf]])
    show ?thesis
      by (rule found [OF w(1) False nv st]) (simp add: set_leaf_lookup [OF wf lf a] e w(3))
  qed
qed

lemma mappages_loop_spec:
  assumes "vm_ok s pt T loc fs" and "page_al a" and "unat a + n * 4096 < 2 ^ 38"
    and "lst = a + of_nat n * PGSIZE"
    and "\<And>v. v < MAXVA \<Longrightarrow> page_of a \<le> page_of v \<Longrightarrow> page_of v \<le> page_of a + n \<Longrightarrow> pt_lookup (mem s) pt v = None"
  shows "\<exists>r k s' T' loc' fs'. mappages_loop pt a lst pa perm s = Some (r, s') \<and>
    vm_step pt s T fs s' T' loc' fs' \<and> (r = 0 \<and> k = Suc n \<or> r = - 1 \<and> k \<le> n \<and> fs' = []) \<and>
    (\<forall>v<MAXVA. pt_lookup (mem s') pt v = mapped (pt_lookup (mem s) pt) a k pa perm v)"
  using assms
proof (induction n arbitrary: a pa s T loc fs)
  case (0 a pa s T loc fs)
  let ?e = "PA2PTE pa OR perm OR PTE_V"
  have a: "a < MAXVA" using 0(3) by (simp add: MAXVA_unat)
  have free: "pt_lookup (mem s) pt a = None" using 0(5) [OF a] by simp
  show ?case
  proof (rule map_one [OF 0(1) a free pte_v_mk(2) [of "PA2PTE pa" perm]], goal_cases full found)
    case (full s' T' loc')
    then show ?thesis
      by (subst mappages_loop.simps) (auto intro!: exI [of _ 0])
  next
    case (found r s' T' loc' fs')
    have "pt_lookup (st64 r ?e (mem s')) pt v = mapped (pt_lookup (mem s) pt) a (Suc 0) pa perm v" if "v < MAXVA" for v
      using found(5) [OF that] by (auto simp: mapped_def)
    with found 0(4) show ?thesis
      by (subst mappages_loop.simps) (auto intro!: exI [of _ "Suc 0"])
  qed
next
  case (Suc n a pa s T loc fs)
  let ?e = "PA2PTE pa OR perm OR PTE_V"
  have a: "a < MAXVA" using Suc.prems(3) by (simp add: MAXVA_unat)
  have nx: "page_al (a + PGSIZE)" "unat (a + PGSIZE) = unat a + 4096" "page_of (a + PGSIZE) = Suc (page_of a)"
    using page_al_add [OF Suc.prems(2)] Suc.prems(3) by auto
  have "unat (of_nat (Suc n) * PGSIZE :: u64) = Suc n * 4096"
    using Suc.prems(3) by (simp add: unat_word_ariths unat_of_nat_64)
  then have ne: "a \<noteq> lst" using Suc.prems(4) by auto
  have free: "pt_lookup (mem s) pt a = None" using Suc.prems(5) [OF a] by simp
  show ?case
  proof (rule map_one [OF Suc.prems(1) a free pte_v_mk(2) [of "PA2PTE pa" perm]], goal_cases full found)
    case (full s' T' loc')
    then show ?thesis
      by (subst mappages_loop.simps) (auto intro!: exI [of _ 0])
  next
    case (found r s1 T1 loc1 fs1)
    let ?s = "s1\<lparr>mem := st64 r ?e (mem s1)\<rparr>"
    have "\<exists>q k s' T' loc' fs'. mappages_loop pt (a + PGSIZE) lst (pa + PGSIZE) perm ?s = Some (q, s') \<and>
        vm_step pt ?s T1 fs1 s' T' loc' fs' \<and> (q = 0 \<and> k = Suc n \<or> q = - 1 \<and> k \<le> n \<and> fs' = []) \<and>
        (\<forall>v<MAXVA. pt_lookup (mem s') pt v = mapped (pt_lookup (mem ?s) pt) (a + PGSIZE) k (pa + PGSIZE) perm v)"
    proof (rule Suc.IH)
      show "vm_ok ?s pt T1 loc1 fs1" using found(4) by (simp add: vm_step_def)
      show "page_al (a + PGSIZE)" by (rule nx(1))
      show "unat (a + PGSIZE) + n * 4096 < 2 ^ 38" using nx(2) Suc.prems(3) by simp
      show "lst = a + PGSIZE + of_nat n * PGSIZE" using Suc.prems(4) by (simp add: algebra_simps)
      show "pt_lookup (mem ?s) pt v = None" if "v < MAXVA" "page_of (a + PGSIZE) \<le> page_of v"
        "page_of v \<le> page_of (a + PGSIZE) + n" for v
        using found(5) [OF that(1)] Suc.prems(5) [OF that(1)] that nx(3) by simp
    qed
    then obtain q k s' T' loc' fs' where *: "mappages_loop pt (a + PGSIZE) lst (pa + PGSIZE) perm ?s = Some (q, s')"
      "vm_step pt ?s T1 fs1 s' T' loc' fs'" "q = 0 \<and> k = Suc n \<or> q = - 1 \<and> k \<le> n \<and> fs' = []"
      "\<And>v. v < MAXVA \<Longrightarrow> pt_lookup (mem s') pt v = mapped (pt_lookup (mem ?s) pt) (a + PGSIZE) k (pa + PGSIZE) perm v"
      by blast
    have run: "mappages_loop pt a lst pa perm s = Some (q, s')"
      using found(1-3) ne *(1) by (subst mappages_loop.simps) simp
    have look: "pt_lookup (mem s') pt v = mapped (pt_lookup (mem s) pt) a (Suc k) pa perm v" if v: "v < MAXVA" for v
    proof -
      have "pt_lookup (mem s') pt v = mapped (pt_lookup (mem ?s) pt) (a + PGSIZE) k (pa + PGSIZE) perm v"
        using *(4) v .
      also have "\<dots> = mapped (\<lambda>v. if page_of v = page_of a then Some ?e else pt_lookup (mem s) pt v)
          (a + PGSIZE) k (pa + PGSIZE) perm v"
        using found(5) [OF v] by (simp add: mapped_def)
      finally show ?thesis by (simp add: mapped_Suc [OF nx(3)])
    qed
    show ?thesis
      using run vm_step_trans [OF found(4) *(2)] *(3) look
      by (intro exI [of _ q] exI [of _ "Suc k"] exI [of _ s'] exI [of _ T'] exI [of _ loc'] exI [of _ fs']) auto
  qed
qed

subsection \<open>\<^verbatim>\<open>uvmunmap\<close>\<close>

definition unmapped :: "(u64 \<Rightarrow> u64 option) \<Rightarrow> u64 \<Rightarrow> nat \<Rightarrow> u64 \<Rightarrow> u64 option" where
  "unmapped M a k v = (if page_of a \<le> page_of v \<and> page_of v < page_of a + k then None else M v)"

lemma vm_ok_kfree:
  assumes ok: "vm_ok s pt T loc fs" and p: "page_ok s p" "p \<notin> T" "p \<notin> set fs"
  defines "s' \<equiv> s\<lparr>mem := st64 p (freelist s) (memset p 1 4096 (mem s)), freelist := p\<rparr>"
  shows "kfree p s = Some s'" and "vm_ok s' pt T loc (p # fs)"
    and "leaf_from 2 (mem s') pt va = leaf_from 2 (mem s) pt va"
    and "pt_lookup (mem s') pt va = pt_lookup (mem s) pt va"
    and "\<not> in_rng a p 4096 \<Longrightarrow> mem s' a = mem s a"
proof -
  have wf: "pt_wf (mem s) pt T loc" and inv: "kalloc_inv s fs" and lk: "KmemLock \<notin> held s"
    using ok by (auto simp: vm_ok_def)
  show out: "mem s' a = mem s a" if "\<not> in_rng a p 4096" for a
    using that by (simp add: s'_def st64_memset_frame)
  have same: "mem s' a = mem s a" if "t \<in> T" "in_rng a t 4096" for t a
    using that out pages_disjoint [of t p a] pt_wf_table [OF wf that(1)] p by (auto simp: page_ok_def)
  show "kfree p s = Some s'" unfolding s'_def by (rule kfree_eq [OF p(1) lk])
  show "leaf_from 2 (mem s') pt va = leaf_from 2 (mem s) pt va"
    and "pt_lookup (mem s') pt va = pt_lookup (mem s) pt va"
    by (rule pt_frame [OF wf same]; assumption)+
  have "kalloc_inv s' (p # fs)" unfolding s'_def by (rule kfree_inv [OF inv p(1,3)])
  then show "vm_ok s' pt T loc (p # fs)"
    using ok p pt_frame(1) [OF wf same] by (auto simp: vm_ok_def s'_def page_ok_def)
qed

text \<open>The pages an unmapping with \<^verbatim>\<open>do_free\<close> may give back: distinct ones that are neither tables nor free.\<close>

definition freeable :: "'a kmem_st_scheme \<Rightarrow> u64 set \<Rightarrow> u64 list \<Rightarrow> u64 list \<Rightarrow> bool" where
  "freeable s T fs ps \<longleftrightarrow> distinct ps \<and> (\<forall>p\<in>set ps. page_ok s p \<and> p \<notin> T \<and> p \<notin> set fs)"

lemma unmap_one:
  assumes ok: "vm_ok s pt T loc fs" and a: "a < MAXVA" and look: "pt_lookup (mem s) pt a = Some e"
    and fl: "PTE_FLAGS e \<noteq> PTE_V" and free: "f \<Longrightarrow> page_ok s (PTE2PA e) \<and> PTE2PA e \<notin> T \<and> PTE2PA e \<notin> set fs"
  obtains s' where "\<And>stop. a < stop \<Longrightarrow> uvmunmap_loop pt a stop f s = uvmunmap_loop pt (a + PGSIZE) stop f s'"
    "vm_ok s' pt T loc (if f then PTE2PA e # fs else fs)"
    "\<And>v. v < MAXVA \<Longrightarrow> pt_lookup (mem s') pt v = (if page_of v = page_of a then None else pt_lookup (mem s) pt v)"
    "\<exists>m r. s' = s\<lparr>mem := m, freelist := r\<rparr>"
    "\<And>b. (\<forall>p\<in>T. \<not> in_rng b p 4096) \<Longrightarrow> (f \<Longrightarrow> \<not> in_rng b (PTE2PA e) 4096) \<Longrightarrow> mem s' b = mem s b"
proof -
  obtain sl where sl: "leaf_from 2 (mem s) pt a = Some sl" and e: "ld64 (mem s) sl = e" "pte_v e"
    using look by (auto simp: pt_lookup_def lookup_leaf split: option.splits if_splits)
  have wf: "pt_wf (mem s) pt T loc" using ok by (simp add: vm_ok_def)
  have sl0: "sl \<noteq> 0" using leaf_slot [OF wf sl] by metis
  define u where "u = (if f then s\<lparr>mem := st64 (PTE2PA e) (freelist s) (memset (PTE2PA e) 1 4096 (mem s)), freelist := PTE2PA e\<rparr> else s)"
  define fs' where "fs' = (if f then PTE2PA e # fs else fs)"
  have u: "(if f then kfree (PTE2PA e) s else Some s) = Some u" "vm_ok u pt T loc fs'"
    "leaf_from 2 (mem u) pt a = Some sl" "pt_lookup (mem u) pt v = pt_lookup (mem s) pt v"
    "(f \<Longrightarrow> \<not> in_rng b (PTE2PA e) 4096) \<Longrightarrow> mem u b = mem s b" for v b
    using vm_ok_kfree [OF ok, of "PTE2PA e"] free ok sl by (auto simp: u_def fs'_def)
  have wfu: "pt_wf (mem u) pt T loc" using u(2) by (simp add: vm_ok_def)
  let ?s = "u\<lparr>mem := st64 sl 0 (mem u)\<rparr>"
  have st: "vm_step pt u T fs' ?s T loc fs'" by (rule vm_step_set_leaf [OF u(2,3)])
  have form: "\<exists>m r. ?s = s\<lparr>mem := m, freelist := r\<rparr>"
    by (rule exI [of _ "mem ?s"], rule exI [of _ "freelist u"]) (simp add: u_def)
  show thesis
  proof (rule that [of ?s])
    show "uvmunmap_loop pt a stop f s = uvmunmap_loop pt (a + PGSIZE) stop f ?s" if "a < stop" for stop
      using that sl e fl sl0 u(1) by (subst uvmunmap_loop.simps) (cases f; simp add: walk_noalloc [OF a])
    show "vm_ok ?s pt T loc (if f then PTE2PA e # fs else fs)"
      using st by (simp add: vm_step_def fs'_def)
    show "pt_lookup (mem ?s) pt v = (if page_of v = page_of a then None else pt_lookup (mem s) pt v)"
      if "v < MAXVA" for v using set_leaf_lookup [OF wfu u(3) a that, of 0] u(4) by simp
    show "mem ?s b = mem s b" if "\<forall>p\<in>T. \<not> in_rng b p 4096" "f \<Longrightarrow> \<not> in_rng b (PTE2PA e) 4096" for b
    proof -
      obtain t where t: "t \<in> T" "sl = slot t (PX 0 a)" "page_al t" using leaf_slot [OF wf sl] by metis
      then have "\<not> in_rng b sl 8" using slot_in_page [OF t(3) PX_less] that(1) by blast
      then show ?thesis using u(5) [OF that(2)] by (simp add: st64_other)
    qed
  qed (rule form)
qed

lemma uvmunmap_loop_spec:
  assumes "vm_ok s pt T loc fs" and "page_al a" and "unat a + length es * 4096 \<le> 2 ^ 38"
    and "stop = a + of_nat (length es) * PGSIZE"
    and "\<And>v. v < MAXVA \<Longrightarrow> page_of a \<le> page_of v \<Longrightarrow> page_of v < page_of a + length es \<Longrightarrow>
      pt_lookup (mem s) pt v = Some (es ! (page_of v - page_of a))"
    and "\<And>e. e \<in> set es \<Longrightarrow> PTE_FLAGS e \<noteq> PTE_V"
    and "f \<Longrightarrow> freeable s T fs (map PTE2PA es)"
  shows "\<exists>s'. uvmunmap_loop pt a stop f s = Some s' \<and>
    vm_ok s' pt T loc (if f then rev (map PTE2PA es) @ fs else fs) \<and>
    (\<forall>v<MAXVA. pt_lookup (mem s') pt v = unmapped (pt_lookup (mem s) pt) a (length es) v) \<and>
    (\<exists>m r. s' = s\<lparr>mem := m, freelist := r\<rparr>) \<and>
    (\<forall>b. (\<forall>p\<in>T. \<not> in_rng b p 4096) \<and> (f \<longrightarrow> (\<forall>e\<in>set es. \<not> in_rng b (PTE2PA e) 4096)) \<longrightarrow> mem s' b = mem s b)"
  using assms
proof (induction es arbitrary: a s fs)
  case Nil
  have "\<exists>m r. s = s\<lparr>mem := m, freelist := r\<rparr>"
    by (rule exI [of _ "mem s"], rule exI [of _ "freelist s"]) simp
  then show ?case using Nil by (subst uvmunmap_loop.simps) (auto simp: unmapped_def)
next
  case (Cons e es)
  have a: "a < MAXVA" using Cons.prems(3) by (simp add: MAXVA_unat)
  have nx: "page_al (a + PGSIZE)" "unat (a + PGSIZE) = unat a + 4096" "page_of (a + PGSIZE) = Suc (page_of a)"
    using page_al_add [OF Cons.prems(2)] Cons.prems(3) by auto
  have "unat (of_nat (length (e # es)) * PGSIZE :: u64) = length (e # es) * 4096"
    using Cons.prems(3) by (simp add: unat_word_ariths unat_of_nat_64)
  then have "unat stop = unat a + length (e # es) * 4096"
    using Cons.prems(3,4) by (simp add: unat_word_ariths(1))
  then have stop: "a < stop" by (simp add: word_less_nat_alt)
  have look: "pt_lookup (mem s) pt a = Some e" using Cons.prems(5) [OF a] by simp
  have fl: "PTE_FLAGS e \<noteq> PTE_V" using Cons.prems(6) by simp
  have fr: "f \<Longrightarrow> page_ok s (PTE2PA e) \<and> PTE2PA e \<notin> T \<and> PTE2PA e \<notin> set fs"
    using Cons.prems(7) by (simp add: freeable_def)
  obtain u where u: "uvmunmap_loop pt a stop f s = uvmunmap_loop pt (a + PGSIZE) stop f u"
    "vm_ok u pt T loc (if f then PTE2PA e # fs else fs)"
    "\<And>v. v < MAXVA \<Longrightarrow> pt_lookup (mem u) pt v = (if page_of v = page_of a then None else pt_lookup (mem s) pt v)"
    "\<exists>m r. u = s\<lparr>mem := m, freelist := r\<rparr>"
    "\<And>b. (\<forall>p\<in>T. \<not> in_rng b p 4096) \<Longrightarrow> (f \<Longrightarrow> \<not> in_rng b (PTE2PA e) 4096) \<Longrightarrow> mem u b = mem s b"
    using unmap_one [OF Cons.prems(1) a look fl fr] stop by metis
  have "\<exists>s'. uvmunmap_loop pt (a + PGSIZE) stop f u = Some s' \<and>
    vm_ok s' pt T loc (if f then rev (map PTE2PA es) @ (if f then PTE2PA e # fs else fs) else (if f then PTE2PA e # fs else fs)) \<and>
    (\<forall>v<MAXVA. pt_lookup (mem s') pt v = unmapped (pt_lookup (mem u) pt) (a + PGSIZE) (length es) v) \<and>
    (\<exists>m r. s' = u\<lparr>mem := m, freelist := r\<rparr>) \<and>
    (\<forall>b. (\<forall>p\<in>T. \<not> in_rng b p 4096) \<and> (f \<longrightarrow> (\<forall>e\<in>set es. \<not> in_rng b (PTE2PA e) 4096)) \<longrightarrow> mem s' b = mem u b)"
  proof (rule Cons.IH [OF u(2) nx(1)])
    show "unat (a + PGSIZE) + length es * 4096 \<le> 2 ^ 38" using nx(2) Cons.prems(3) by simp
    show "stop = a + PGSIZE + of_nat (length es) * PGSIZE" using Cons.prems(4) by (simp add: algebra_simps)
    show "pt_lookup (mem u) pt v = Some (es ! (page_of v - page_of (a + PGSIZE)))"
      if "v < MAXVA" "page_of (a + PGSIZE) \<le> page_of v" "page_of v < page_of (a + PGSIZE) + length es" for v
      using u(3) [OF that(1)] Cons.prems(5) [OF that(1)] that nx(3) by (simp add: nth_Cons')
    show "freeable u T (if f then PTE2PA e # fs else fs) (map PTE2PA es)" if f
      using Cons.prems(7) [OF that] u(4) that by (force simp: freeable_def page_ok_def image_iff)
  qed (use Cons.prems(6) in simp)
  then obtain s' where *: "uvmunmap_loop pt (a + PGSIZE) stop f u = Some s'"
    "vm_ok s' pt T loc (if f then rev (map PTE2PA (e # es)) @ fs else fs)"
    "\<And>v. v < MAXVA \<Longrightarrow> pt_lookup (mem s') pt v = unmapped (pt_lookup (mem u) pt) (a + PGSIZE) (length es) v"
    "\<exists>m r. s' = u\<lparr>mem := m, freelist := r\<rparr>"
    "\<And>b. (\<forall>p\<in>T. \<not> in_rng b p 4096) \<Longrightarrow> (f \<longrightarrow> (\<forall>e\<in>set es. \<not> in_rng b (PTE2PA e) 4096)) \<Longrightarrow> mem s' b = mem u b"
    by (cases f) fastforce+
  have "pt_lookup (mem s') pt v = unmapped (pt_lookup (mem s) pt) a (length (e # es)) v" if "v < MAXVA" for v
    using *(3) [OF that] u(3) [OF that] nx(3) by (auto simp: unmapped_def)
  moreover have "\<exists>m r. s' = s\<lparr>mem := m, freelist := r\<rparr>" by (rule kmem_upd_trans [OF u(4) *(4)])
  moreover have "mem s' b = mem s b"
    if "\<forall>p\<in>T. \<not> in_rng b p 4096" "f \<longrightarrow> (\<forall>e\<in>set (e # es). \<not> in_rng b (PTE2PA e) 4096)" for b
    using *(5) u(5) that by simp
  ultimately show ?case using u(1) *(1,2) by auto
qed

subsection \<open>Properties\<close>

text \<open>C6: \<^verbatim>\<open>mappages\<close> installs exactly the requested translations.  For a range below \<^verbatim>\<open>MAXVA\<close> none of
  whose pages is mapped, the call returns; with 0 every page of the range translates to its
  consecutive physical page with the given permissions; with -1 the free list is exhausted and only
  a prefix of the range has been mapped; in both cases every other virtual page translates as
  before, the table pages stay a tree disjoint from the free list, and no byte outside the tables
  and the pages that were free is written.\<close>

theorem mappages_correct:
  assumes ok: "vm_ok s pt T loc fs" and "sz \<noteq> 0" and "unat va + unat sz \<le> 2 ^ 38"
    and "\<And>v. v < MAXVA \<Longrightarrow> page_of va \<le> page_of v \<Longrightarrow> page_of v \<le> page_of (va + sz - 1) \<Longrightarrow> pt_lookup (mem s) pt v = None"
  shows "\<exists>r k s' T' loc' fs'. mappages pt va sz pa perm s = Some (r, s') \<and> vm_step pt s T fs s' T' loc' fs' \<and>
    (r = 0 \<and> k = Suc (page_of (va + sz - 1) - page_of va) \<or>
     r = - 1 \<and> k \<le> page_of (va + sz - 1) - page_of va \<and> fs' = []) \<and>
    (\<forall>v<MAXVA. pt_lookup (mem s') pt v = mapped (pt_lookup (mem s) pt) va k pa perm v)"
proof -
  let ?n = "page_of (va + sz - 1) - page_of va"
  have pos: "0 < unat sz" using assms(2) by (simp add: unat_gt_0)
  have top: "unat (va + sz - 1) = unat va + unat sz - 1"
  proof -
    have "unat (va + sz) = unat va + unat sz" using assms(3) by (simp add: unat_word_ariths)
    moreover from this have "va + sz \<noteq> 0" using pos by auto
    ultimately show ?thesis by (simp add: unat_minus_one)
  qed
  have le: "page_of va \<le> page_of (va + sz - 1)" using top pos by (simp add: page_of_def div_le_mono)
  have room: "unat (PGROUNDDOWN va) + ?n * 4096 < 2 ^ 38"
  proof -
    have "unat (PGROUNDDOWN va) + ?n * 4096 = page_of (va + sz - 1) * 4096"
      using le by (simp add: PGROUNDDOWN_unat page_of_def diff_mult_distrib)
    also have "\<dots> \<le> unat (va + sz - 1)" by (simp add: page_of_def)
    finally show ?thesis using top pos assms(3) by linarith
  qed
  have "unat (of_nat ?n * PGSIZE :: u64) = ?n * 4096"
    using room by (simp add: unat_word_ariths unat_of_nat_64)
  then have "unat (PGROUNDDOWN va + of_nat ?n * PGSIZE) = unat (PGROUNDDOWN (va + sz - 1))"
    using room le by (simp add: unat_word_ariths(1) PGROUNDDOWN_unat page_of_def diff_mult_distrib)
  then have lst: "PGROUNDDOWN (va + sz - 1) = PGROUNDDOWN va + of_nat ?n * PGSIZE"
    by (simp add: word_unat_eq_iff)
  have none: "pt_lookup (mem s) pt v = None" if "v < MAXVA" "page_of (PGROUNDDOWN va) \<le> page_of v"
    "page_of v \<le> page_of (PGROUNDDOWN va) + ?n" for v
    using assms(4) [OF that(1)] that le by simp
  have "mapped M (PGROUNDDOWN va) k pa perm = mapped M va k pa perm" for M k
    by (simp add: mapped_def fun_eq_iff)
  with mappages_loop_spec [OF ok PGROUNDDOWN_al room lst none, of pa perm] assms(2) show ?thesis
    by (simp add: mappages_def)
qed

text \<open>C28: \<^verbatim>\<open>uvmunmap\<close> removes exactly the given range.  For \<open>n\<close> mapped pages from an aligned address, the
  call returns, none of them is mapped afterwards, every other page translates as before, and with
  \<^verbatim>\<open>do_free\<close> the physical pages behind them, and no others, have moved to the free list.\<close>

theorem uvmunmap_correct:
  assumes "vm_ok s pt T loc fs" and "page_al va" and "unat va + length es * 4096 \<le> 2 ^ 38"
    and "\<And>v. v < MAXVA \<Longrightarrow> page_of va \<le> page_of v \<Longrightarrow> page_of v < page_of va + length es \<Longrightarrow>
      pt_lookup (mem s) pt v = Some (es ! (page_of v - page_of va))"
    and "\<And>e. e \<in> set es \<Longrightarrow> PTE_FLAGS e \<noteq> PTE_V" and "f \<Longrightarrow> freeable s T fs (map PTE2PA es)"
  shows "\<exists>s'. uvmunmap pt va (of_nat (length es)) f s = Some s' \<and>
    vm_ok s' pt T loc (if f then rev (map PTE2PA es) @ fs else fs) \<and>
    (\<forall>v<MAXVA. pt_lookup (mem s') pt v = unmapped (pt_lookup (mem s) pt) va (length es) v) \<and>
    (\<forall>b. (\<forall>p\<in>T. \<not> in_rng b p 4096) \<and> (f \<longrightarrow> (\<forall>e\<in>set es. \<not> in_rng b (PTE2PA e) 4096)) \<longrightarrow> mem s' b = mem s b)"
proof -
  have "uvmunmap pt va (of_nat (length es)) f s = uvmunmap_loop pt va (va + of_nat (length es) * PGSIZE) f s"
    using assms(2) by (simp add: uvmunmap_def page_al_def)
  then show ?thesis using uvmunmap_loop_spec [where f = f, OF assms(1-3) refl assms(4-6)] by auto
qed

subsection \<open>A concrete address space\<close>

text \<open>Three tables that map the virtual page at 0x1000 to the frame at 0x87fff000; the free list is empty.\<close>

abbreviation demo_root :: u64 where "demo_root \<equiv> 0x87ffc000"
abbreviation demo_t1 :: u64 where "demo_t1 \<equiv> 0x87ffd000"
abbreviation demo_t0 :: u64 where "demo_t0 \<equiv> 0x87ffe000"
abbreviation demo_pte :: u64 where "demo_pte \<equiv> 0x21fffc1f"

definition demo_tables :: memory where
  "demo_tables = add_table demo_t1 0 demo_t0 (add_table demo_root 0 demo_t1 (\<lambda>_. 0))"

definition demo_vm :: kmem_st where
  "demo_vm = kmem_boot\<lparr>kend := demo_root, mem := st64 (slot demo_t0 1) demo_pte demo_tables\<rparr>"

definition demo_loc :: "u64 \<Rightarrow> nat list" where
  "demo_loc = (\<lambda>_. [])(demo_t1 := [0], demo_t0 := [0, 0])"

lemma demo_al [simp]: "page_al demo_root" "page_al demo_t1" "page_al demo_t0" "page_al 0x87fff000"
  by (simp_all add: page_al_def)

lemma demo_decode [simp]: "PTE2PA (PA2PTE demo_t1 OR PTE_V) = demo_t1" "PTE2PA (PA2PTE demo_t0 OR PTE_V) = demo_t0"
  "PTE2PA demo_pte = 0x87fff000" "pte_v demo_pte"
  using PTE2PA_PA2PTE [of demo_t1 0] PTE2PA_PA2PTE [of demo_t0 0]
  by (simp_all add: pte_v_def) (simp_all add: PTE2PA_def)

lemma ld64_zero [simp]: "ld64 (\<lambda>_. 0) a = 0"
  by (simp add: ld64_def)

lemma demo_tables_wf: "pt_wf demo_tables demo_root {demo_t0, demo_t1, demo_root} demo_loc"
proof -
  have "pt_wf (\<lambda>_. 0) demo_root {demo_root} (\<lambda>_. [])" by (simp add: pt_wf_def)
  then have 1: "pt_wf (add_table demo_root 0 demo_t1 (\<lambda>_. 0)) demo_root {demo_t1, demo_root} ((\<lambda>_. [])(demo_t1 := [] @ [0]))"
    by (rule add_table_wf [where t = demo_root]) simp_all
  have "pt_wf demo_tables demo_root (insert demo_t0 {demo_t1, demo_root})
      (((\<lambda>_. [])(demo_t1 := [] @ [0]))(demo_t0 := ((\<lambda>_. [])(demo_t1 := [] @ [0])) demo_t1 @ [0]))"
    unfolding demo_tables_def
    by (rule add_table_wf [OF 1]) (simp_all add: add_table_entry)
  then show ?thesis by (simp add: demo_loc_def)
qed

lemma demo_leaf:
  "leaf_from 2 demo_tables demo_root v =
     (if PX 2 v = 0 \<and> PX 1 v = 0 then Some (slot demo_t0 (PX 0 v)) else None)"
  by (simp add: numeral_2_eq_2 Let_def) (simp add: demo_tables_def add_table_entry)

lemma demo_tables_empty: "pt_lookup demo_tables demo_root v = None"
  by (simp add: pt_lookup_def lookup_leaf demo_leaf) (simp add: demo_tables_def add_table_entry)

lemma demo_vm_ok: "vm_ok demo_vm demo_root {demo_t0, demo_t1, demo_root} demo_loc []"
proof -
  have "pt_wf (mem demo_vm) demo_root {demo_t0, demo_t1, demo_root} demo_loc"
    unfolding demo_vm_def kmem_st.simps
    by (simp, rule set_leaf_wf [OF demo_tables_wf]) (simp_all add: demo_loc_def)
  then show ?thesis
    by (simp add: vm_ok_def demo_vm_def kmem_boot_def kalloc_inv_def page_ok_def)
qed

lemma demo_lookup:
  assumes "v < MAXVA"
  shows "pt_lookup (mem demo_vm) demo_root v = (if page_of v = 1 then Some demo_pte else None)"
proof -
  have lf: "leaf_from 2 demo_tables demo_root 0x1000 = Some (slot demo_t0 1)"
    by (simp add: demo_leaf PX_unat)
  have "page_of 0x1000 = 1" by (simp add: page_of_def)
  then show ?thesis
    using set_leaf_lookup [OF demo_tables_wf lf _ assms, of demo_pte] demo_tables_empty by (simp add: demo_vm_def)
qed

theorem mappages_correct_witness:
  "\<exists>r s'. mappages demo_root 0x2000 0x1000 0x87fff000 22 demo_vm = Some (r, s') \<and>
    (r = 0 \<longrightarrow> pt_lookup (mem s') demo_root 0x2345 = Some (PA2PTE 0x87fff000 OR 22 OR PTE_V)) \<and>
    pt_lookup (mem s') demo_root 0x1000 = Some demo_pte"
proof -
  have p: "page_of 0x2000 = 2" "page_of 0x2fff = 2" "page_of 0x2345 = 2" "page_of 0x1000 = 1"
    by (simp_all add: page_of_def)
  have "pt_lookup (mem demo_vm) demo_root v = None"
    if "v < MAXVA" "page_of 0x2000 \<le> page_of v" "page_of v \<le> page_of (0x2000 + 0x1000 - 1)" for v
    using that p demo_lookup [of v] by simp
  from mappages_correct [where va = "0x2000" and sz = "0x1000" and pa = "0x87fff000" and perm = 22, OF demo_vm_ok _ _ this]
  obtain r k s' where *: "mappages demo_root 0x2000 0x1000 0x87fff000 22 demo_vm = Some (r, s')"
    "r = 0 \<longrightarrow> k = Suc 0" "r \<noteq> 0 \<longrightarrow> k = 0"
    "\<forall>v<MAXVA. pt_lookup (mem s') demo_root v = mapped (pt_lookup (mem demo_vm) demo_root) 0x2000 k 0x87fff000 22 v"
    by (auto simp: p)
  have "pt_lookup (mem s') demo_root 0x1000 = Some demo_pte"
    using *(4) demo_lookup [of "0x1000"] by (simp add: mapped_def p)
  moreover have "r = 0 \<longrightarrow> pt_lookup (mem s') demo_root 0x2345 = Some (PA2PTE 0x87fff000 OR 22 OR PTE_V)"
    using *(2,4) by (auto simp: mapped_def p)
  ultimately show ?thesis using *(1) by blast
qed

theorem uvmunmap_correct_witness:
  "\<exists>s'. uvmunmap demo_root 0x1000 1 True demo_vm = Some s' \<and>
    kalloc_inv s' [0x87fff000] \<and> pt_lookup (mem s') demo_root 0x1000 = None"
proof -
  have p: "page_of 0x1000 = 1" by (simp add: page_of_def)
  have fl: "PTE_FLAGS demo_pte \<noteq> PTE_V" by (simp add: PTE_FLAGS_def)
  have look: "pt_lookup (mem demo_vm) demo_root v = Some ([demo_pte] ! (page_of v - page_of 0x1000))"
    if "v < MAXVA" "page_of 0x1000 \<le> page_of v" "page_of v < page_of 0x1000 + length [demo_pte]" for v
    using that p demo_lookup [of v] by simp
  have fr: "freeable demo_vm {demo_t0, demo_t1, demo_root} [] (map PTE2PA [demo_pte])"
    by (simp add: freeable_def page_ok_def demo_vm_def)
  from uvmunmap_correct [where f = True, OF demo_vm_ok _ _ look _ fr] fl p
  show ?thesis by (auto simp: page_al_def unmapped_def vm_ok_def)
qed

end
