(* ===== verification/Vm_User.thy ===== *)
theory Vm_User
  imports Vm_Laws
begin

text \<open>
  Copying between the kernel and a user address space.

  \<open>uaddr\<close> is the physical address of a user byte: the frame of its page, if the page is mapped
  with \<^verbatim>\<open>PTE_U\<close>, plus the offset in the page.  \<open>copyin\<close>, \<open>copyout\<close> and \<open>copyinstr\<close> work page by page;
  here they are shown equal to byte-by-byte transfers through \<open>uaddr\<close>, and to fail exactly when a
  byte of the range is not mapped for the user.
\<close>

subsection \<open>User addresses\<close>

definition upage :: "memory \<Rightarrow> u64 \<Rightarrow> u64 \<Rightarrow> u64 option" where
  "upage m pt va =
     (if va < MAXVA then
        (case pt_lookup m pt va of
           None \<Rightarrow> None
         | Some e \<Rightarrow> if e AND PTE_U \<noteq> 0 \<and> PTE2PA e \<noteq> 0 then Some (PTE2PA e) else None)
      else None)"

definition uaddr :: "memory \<Rightarrow> u64 \<Rightarrow> u64 \<Rightarrow> u64 option" where
  "uaddr m pt va = map_option (\<lambda>p. p + (va - PGROUNDDOWN va)) (upage m pt va)"

lemma pt_lookup_page:
  "va < MAXVA \<Longrightarrow> wa < MAXVA \<Longrightarrow> page_of va = page_of wa \<Longrightarrow> pt_lookup m pt va = pt_lookup m pt wa"
proof -
  assume "va < MAXVA" "wa < MAXVA" "page_of va = page_of wa"
  then have "PX i va = PX i wa" if "i \<le> 2" for i
    using that PX_inj [of va wa] by (auto simp: le_Suc_eq numeral_2_eq_2)
  then have "leaf_from 2 m pt va = leaf_from 2 m pt wa" by (rule leaf_PX)
  then show ?thesis by (simp add: pt_lookup_def lookup_leaf)
qed

lemma MAXVA_page: "va < MAXVA \<longleftrightarrow> page_of va < 2 ^ 26"
  by (auto simp: MAXVA_unat page_of_def)

lemma upage_page: "page_of va = page_of wa \<Longrightarrow> upage m pt va = upage m pt wa"
  using pt_lookup_page [of va wa m pt] MAXVA_page [of va] MAXVA_page [of wa] by (auto simp: upage_def)

lemma walkaddr_upage:
  assumes "pt_wf (mem s) pt T loc"
  shows "walkaddr pt va s = Some (case upage (mem s) pt va of None \<Rightarrow> 0 | Some p \<Rightarrow> p)"
proof (cases "va < MAXVA")
  case True
  have "a \<noteq> 0" if "leaf_from 2 (mem s) pt va = Some a" for a
    using leaf_slot [OF assms that] by metis
  then show ?thesis using True
    by (cases "leaf_from 2 (mem s) pt va")
      (auto simp: walkaddr_def walk_noalloc upage_def pt_lookup_def lookup_leaf)
next
  case False
  then show ?thesis by (auto simp: walkaddr_def upage_def)
qed

lemma upage_nonzero: "upage m pt va = Some p \<Longrightarrow> p \<noteq> 0 \<and> page_al p"
  by (auto simp: upage_def split: if_splits option.splits)

text \<open>Within a page the offsets just add up.\<close>

lemma page_offset:
  assumes "i < page_room va"
  shows "page_of (va + of_nat i) = page_of va"
    and "va + of_nat i - PGROUNDDOWN (va + of_nat i) = va - PGROUNDDOWN va + of_nat i"
proof -
  have i: "unat va mod 4096 + i < 4096" using assms by (simp add: page_room_eq)
  have "unat va div 4096 * 4096 + 4096 \<le> 2 ^ 64" using u64_bound [of va] by auto
  then have "unat va + i < 2 ^ 64" using i div_mult_mod_eq [of "unat va" 4096] by linarith
  then have u: "unat (va + of_nat i) = unat va + i" by (simp add: unat_word_ariths unat_of_nat_64)
  have d: "(unat va + i) div 4096 = unat va div 4096"
    unfolding div_add1_eq [of "unat va" i 4096] using i by simp
  show pg: "page_of (va + of_nat i) = page_of va" by (simp add: page_of_def u d)
  have "PGROUNDDOWN (va + of_nat i) = PGROUNDDOWN va"
    using pg by (metis PGROUNDDOWN_al page_of_PGROUNDDOWN page_of_inj)
  then show "va + of_nat i - PGROUNDDOWN (va + of_nat i) = va - PGROUNDDOWN va + of_nat i" by simp
qed

lemma uaddr_offset:
  "i < page_room va \<Longrightarrow> uaddr m pt (va + of_nat i) = map_option (\<lambda>a. a + of_nat i) (uaddr m pt va)"
  using page_offset [of i va] upage_page [of "va + of_nat i" va m pt]
  by (cases "upage m pt va") (simp_all add: uaddr_def)

lemma next_page:
  assumes "va < MAXVA"
  shows "PGROUNDDOWN va + PGSIZE = va + of_nat (page_room va)"
proof -
  have "of_nat (page_room va) = PGSIZE - (va - PGROUNDDOWN va)" by (simp add: page_room_def)
  then show ?thesis by simp
qed

definition ubytes :: "memory \<Rightarrow> u64 \<Rightarrow> u64 \<Rightarrow> nat \<Rightarrow> bytes" where
  "ubytes m pt va n = map (\<lambda>i. m (the (uaddr m pt (va + of_nat i)))) [0..<n]"

definition umapped :: "memory \<Rightarrow> u64 \<Rightarrow> u64 \<Rightarrow> nat \<Rightarrow> bool" where
  "umapped m pt va n \<longleftrightarrow> (\<forall>i<n. uaddr m pt (va + of_nat i) \<noteq> None)"

lemma ubytes_split: "k \<le> n \<Longrightarrow> ubytes m pt va n = ubytes m pt va k @ ubytes m pt (va + of_nat k) (n - k)"
proof -
  assume "k \<le> n"
  then have "[0..<n] = [0..<k] @ map (\<lambda>i. i + k) [0..<n - k]"
    using upt_add_eq_append [of 0 k "n - k"] by (simp add: map_add_upt)
  then show ?thesis by (simp add: ubytes_def algebra_simps)
qed

lemma umapped_split: "k \<le> n \<Longrightarrow> umapped m pt va n \<longleftrightarrow> umapped m pt va k \<and> umapped m pt (va + of_nat k) (n - k)"
proof -
  assume k: "k \<le> n"
  have "uaddr m pt (va + of_nat i) \<noteq> None"
    if "\<forall>i<k. uaddr m pt (va + of_nat i) \<noteq> None" "\<forall>i<n - k. uaddr m pt (va + of_nat k + of_nat i) \<noteq> None" "i < n" for i
  proof (cases "i < k")
    case False
    then have "va + of_nat i = va + of_nat k + (of_nat (i - k) :: u64)" by (simp add: of_nat_diff)
    then show ?thesis using that(2) [rule_format, of "i - k"] that(3) False by simp
  qed (use that(1) in blast)
  moreover have "uaddr m pt (va + of_nat k + of_nat i) \<noteq> None"
    if "\<forall>i<n. uaddr m pt (va + of_nat i) \<noteq> None" "i < n - k" for i
    using that(1) [rule_format, of "k + i"] that(2) by (simp add: algebra_simps)
  ultimately show ?thesis using k unfolding umapped_def by (meson less_le_trans)
qed

lemma uaddr_page:
  assumes "upage m pt va = Some p" and "i < page_room va"
  shows "uaddr m pt (va + of_nat i) = Some (p + (va - PGROUNDDOWN va) + of_nat i)"
  using uaddr_offset [OF assms(2), of m pt] assms(1) by (simp add: uaddr_def)

lemma ubytes_page:
  assumes "upage m pt va = Some p" and "n \<le> page_room va"
  shows "ubytes m pt va n = bytes_at m (p + (va - PGROUNDDOWN va)) n" and "umapped m pt va n"
  using assms(2) uaddr_page [OF assms(1)] by (auto simp: ubytes_def bytes_at_def umapped_def)

lemma not_umapped: "upage m pt va = None \<Longrightarrow> 0 < n \<Longrightarrow> \<not> umapped m pt va n"
  by (auto simp: umapped_def uaddr_def intro!: exI [of _ 0])

lemma umapped_0 [simp]: "umapped m pt va 0" and ubytes_0 [simp]: "ubytes m pt va 0 = []"
  by (simp_all add: umapped_def ubytes_def)

text \<open>The first page of a transfer and the rest of it.\<close>

lemma chunk:
  assumes "va < MAXVA" and k_def: "k = (if page_room va > n then n else page_room va)"
  shows "umapped m pt va n \<longleftrightarrow> umapped m pt va k \<and> umapped m pt (PGROUNDDOWN va + PGSIZE) (n - k)"
    and "ubytes m pt va n = ubytes m pt va k @ ubytes m pt (PGROUNDDOWN va + PGSIZE) (n - k)"
    and "k \<le> page_room va" and "k \<le> n"
proof -
  show "k \<le> page_room va" "k \<le> n" by (auto simp: k_def)
  show "umapped m pt va n \<longleftrightarrow> umapped m pt va k \<and> umapped m pt (PGROUNDDOWN va + PGSIZE) (n - k)"
    unfolding k_def next_page [OF assms(1)] using umapped_split [of "page_room va" n m pt va]
    by (cases "page_room va > n") simp_all
  show "ubytes m pt va n = ubytes m pt va k @ ubytes m pt (PGROUNDDOWN va + PGSIZE) (n - k)"
    unfolding k_def next_page [OF assms(1)] using ubytes_split [of "page_room va" n m pt va]
    by (cases "page_room va > n") simp_all
qed

lemma upage_below: "upage m pt va = Some p \<Longrightarrow> va < MAXVA"
  by (auto simp: upage_def split: if_splits)

lemma copyin_spec:
  assumes "pt_wf (mem s) pt T loc"
  shows "\<exists>r xs. copyin pt va n s = Some (r, xs) \<and>
    r = (if umapped (mem s) pt va n then 0 else - 1) \<and> (umapped (mem s) pt va n \<longrightarrow> xs = ubytes (mem s) pt va n)"
  using assms
proof (induction pt va n s rule: copyin.induct)
  case (1 pt va n s)
  have up: "upage (mem s) pt (PGROUNDDOWN va) = upage (mem s) pt va" by (rule upage_page) simp
  note walk = walkaddr_upage [OF "1.prems", of "PGROUNDDOWN va", unfolded up]
  show ?case
  proof (cases "n = 0")
    case True
    then show ?thesis by (subst copyin.simps) simp
  next
    case n: False
    show ?thesis
    proof (cases "upage (mem s) pt va")
      case None
      then show ?thesis using n walk not_umapped [OF None] by (subst copyin.simps) simp
    next
      case (Some p)
      let ?k = "if page_room va > n then n else page_room va"
      note ch = chunk [OF upage_below [OF Some] refl, where n = n]
      have p: "p \<noteq> 0" using upage_nonzero [OF Some] by simp
      have w: "walkaddr pt (PGROUNDDOWN va) s = Some p" using walk Some by simp
      obtain r xs where ih: "copyin pt (PGROUNDDOWN va + PGSIZE) (n - ?k) s = Some (r, xs)"
        "r = (if umapped (mem s) pt (PGROUNDDOWN va + PGSIZE) (n - ?k) then 0 else - 1)"
        "umapped (mem s) pt (PGROUNDDOWN va + PGSIZE) (n - ?k) \<longrightarrow> xs = ubytes (mem s) pt (PGROUNDDOWN va + PGSIZE) (n - ?k)"
        using "1.IH" [OF n refl w p refl refl "1.prems"] by blast
      have "copyin pt va n s = Some (r, bytes_at (mem s) (p + (va - PGROUNDDOWN va)) ?k @ xs)"
        using n w p ih(1) by (subst copyin.simps) (simp add: Let_def)
      then show ?thesis
        using ih(2,3) ubytes_page [OF Some ch(3)] ch(1,2) by auto
    qed
  qed
qed

subsection \<open>Writing\<close>

lemma put_bytes_apply:
  assumes "length xs \<le> 2 ^ 64"
  shows "put_bytes a xs m b = (if in_rng b a (length xs) then xs ! unat (b - a) else m b)"
proof -
  have "fold (\<lambda>i m. m(a + of_nat i := xs ! i)) [0..<n] m b = (if in_rng b a n then xs ! unat (b - a) else m b)"
    if "n \<le> 2 ^ 64" for n
    using that
  proof (induction n)
    case 0
    then show ?case by simp
  next
    case (Suc n)
    then show ?case using offset_eq_iff [of n b a] by (auto simp: in_rng_def)
  qed
  then show ?thesis using assms by (simp add: put_bytes_def)
qed

text \<open>No user page is a table, and no two user pages share a frame.\<close>

definition user_sep :: "memory \<Rightarrow> u64 \<Rightarrow> u64 set \<Rightarrow> bool" where
  "user_sep m pt T \<longleftrightarrow> (\<forall>v p. upage m pt v = Some p \<longrightarrow> p \<notin> T) \<and>
     (\<forall>v w p. upage m pt v = Some p \<and> upage m pt w = Some p \<longrightarrow> page_of v = page_of w)"

lemma page_offset_less: "unat (va - PGROUNDDOWN va) < 4096"
proof -
  have "unat (va - PGROUNDDOWN va) = unat va mod 4096"
    by (simp add: unat_sub_if' PGROUNDDOWN_unat modulo_nat_def)
  then show ?thesis by simp
qed

lemma uaddr_in_frame: "upage m pt v = Some p \<Longrightarrow> uaddr m pt v = Some a \<Longrightarrow> in_rng a p 4096"
  using page_offset_less [of v] by (auto simp: uaddr_def in_rng_def)

lemma uaddr_inj:
  assumes "user_sep m pt T" and "uaddr m pt v = Some a" and "uaddr m pt w = Some a"
  shows "v = w"
proof -
  obtain p q where p: "upage m pt v = Some p" and q: "upage m pt w = Some q"
    using assms(2,3) by (auto simp: uaddr_def)
  have "in_rng a p 4096" "in_rng a q 4096" using uaddr_in_frame p q assms(2,3) by blast+
  then have pq: "p = q" using pages_disjoint upage_nonzero [OF p] upage_nonzero [OF q] by blast
  have pg: "page_of v = page_of w" using assms(1) p q unfolding pq user_sep_def by blast
  then have "PGROUNDDOWN v = PGROUNDDOWN w" by (metis PGROUNDDOWN_al page_of_PGROUNDDOWN page_of_inj)
  moreover have "q + (v - PGROUNDDOWN v) = q + (w - PGROUNDDOWN w)" using assms(2,3) p q pq by (simp add: uaddr_def)
  ultimately show ?thesis by simp
qed

lemma upage_frame:
  assumes "pt_wf m pt T loc" and "\<And>t a. t \<in> T \<Longrightarrow> in_rng a t 4096 \<Longrightarrow> m' a = m a"
  shows "upage m' pt va = upage m pt va"
  using pt_frame(3) [OF assms] by (simp add: upage_def)

lemma put_page:
  assumes wf: "pt_wf m pt T loc" and sep: "user_sep m pt T" and p: "upage m pt va = Some p"
    and n: "length xs \<le> page_room va"
  defines "m' \<equiv> put_bytes (p + (va - PGROUNDDOWN va)) xs m"
  shows "pt_wf m' pt T loc" and "upage m' pt v = upage m pt v" and "user_sep m' pt T"
    and "ubytes m' pt va (length xs) = xs"
    and "(\<And>i. i < length xs \<Longrightarrow> uaddr m pt (va + of_nat i) \<noteq> Some b) \<Longrightarrow> m' b = m b"
proof -
  let ?a = "p + (va - PGROUNDDOWN va)"
  have len: "length xs \<le> 2 ^ 64" using n by (simp add: page_room_eq)
  have at: "m' b = (if in_rng b ?a (length xs) then xs ! unat (b - ?a) else m b)" for b
    unfolding m'_def by (rule put_bytes_apply [OF len])
  have off: "uaddr m pt (va + of_nat i) = Some (?a + of_nat i)" if "i < length xs" for i
    by (rule uaddr_page [OF p]) (use that n in simp)
  show out: "m' b = m b" if "\<And>i. i < length xs \<Longrightarrow> uaddr m pt (va + of_nat i) \<noteq> Some b" for b
    using that off at in_rng_iff [OF len, of b ?a] by auto
  have same: "m' b = m b" if "t \<in> T" "in_rng b t 4096" for t b
  proof (rule out)
    fix i assume i: "i < length xs"
    show "uaddr m pt (va + of_nat i) \<noteq> Some b"
    proof
      assume b: "uaddr m pt (va + of_nat i) = Some b"
      have u: "upage m pt (va + of_nat i) = Some p"
        using p upage_page page_offset(1) [of i va] i n by (metis order.strict_trans2)
      have "in_rng b p 4096" "p \<notin> T" using uaddr_in_frame [OF u b] sep p unfolding user_sep_def by blast+
      then show False using that pages_disjoint upage_nonzero [OF p] pt_wf_table [OF wf] by blast
    qed
  qed
  show "pt_wf m' pt T loc" by (rule pt_frame(1) [OF wf same])
  show up: "upage m' pt v = upage m pt v" for v by (rule upage_frame [OF wf same])
  then show "user_sep m' pt T" using sep by (simp add: user_sep_def)
  have "ubytes m' pt va (length xs) = bytes_at m' ?a (length xs)"
    by (rule ubytes_page(1)) (use up p n in simp_all)
  also have "\<dots> = xs"
    using len by (auto intro!: nth_equalityI simp: at in_rng_offset unat_of_nat_64)
  finally show "ubytes m' pt va (length xs) = xs" .
qed

lemma uaddr_upage: "(\<And>v. upage m' pt v = upage m pt v) \<Longrightarrow> uaddr m' pt v = uaddr m pt v"
  by (simp add: uaddr_def)

lemma copyout_spec:
  assumes "pt_wf (mem s) pt T loc" and "user_sep (mem s) pt T" and "length src < 2 ^ 64"
  shows "\<exists>r m. copyout pt va src s = Some (r, s\<lparr>mem := m\<rparr>) \<and>
    pt_wf m pt T loc \<and> (\<forall>v. upage m pt v = upage (mem s) pt v) \<and>
    r = (if umapped (mem s) pt va (length src) then 0 else - 1) \<and>
    (umapped (mem s) pt va (length src) \<longrightarrow> ubytes m pt va (length src) = src) \<and>
    (\<forall>b. (\<forall>i<length src. uaddr (mem s) pt (va + of_nat i) \<noteq> Some b) \<longrightarrow> m b = mem s b)"
  using assms
proof (induction pt va src s rule: copyout.induct)
  case (1 pt va src s)
  have up: "upage (mem s) pt (PGROUNDDOWN va) = upage (mem s) pt va" by (rule upage_page) simp
  note walk = walkaddr_upage [OF "1.prems"(1), of "PGROUNDDOWN va", unfolded up]
  show ?case
  proof (cases "src = []")
    case True
    then show ?thesis using "1.prems" by (subst copyout.simps) (auto intro!: exI [of _ "mem s"])
  next
    case n: False
    show ?thesis
    proof (cases "upage (mem s) pt va")
      case None
      then show ?thesis using n walk not_umapped [OF None, of "length src"] "1.prems"
        by (subst copyout.simps) (auto intro!: exI [of _ "mem s"])
    next
      case (Some p)
      define k where k: "k = (if page_room va > length src then length src else page_room va)"
      let ?va = "PGROUNDDOWN va + PGSIZE"
      let ?a = "p + (va - PGROUNDDOWN va)"
      let ?m1 = "put_bytes ?a (take k src) (mem s)"
      let ?s1 = "s\<lparr>mem := ?m1\<rparr>"
      note ch = chunk [OF upage_below [OF Some] k]
      have lk: "length (take k src) = k" using ch(4) by simp
      note put = put_page [OF "1.prems"(1,2) Some, of "take k src", unfolded lk, OF ch(3)]
      have p: "p \<noteq> 0" using upage_nonzero [OF Some] by simp
      have w: "walkaddr pt (PGROUNDDOWN va) s = Some p" using walk Some by simp
      have ua1: "uaddr ?m1 pt v = uaddr (mem s) pt v" for v by (rule uaddr_upage) (rule put(2))
      have "\<exists>r m. copyout pt ?va (drop k src) ?s1 = Some (r, s\<lparr>mem := m\<rparr>) \<and>
        pt_wf m pt T loc \<and> (\<forall>v. upage m pt v = upage ?m1 pt v) \<and>
        r = (if umapped ?m1 pt ?va (length src - k) then 0 else - 1) \<and>
        (umapped ?m1 pt ?va (length src - k) \<longrightarrow> ubytes m pt ?va (length src - k) = drop k src) \<and>
        (\<forall>b. (\<forall>i<length src - k. uaddr ?m1 pt (?va + of_nat i) \<noteq> Some b) \<longrightarrow> m b = ?m1 b)"
        using "1.IH" [OF n refl w p refl k refl] put(1,3) "1.prems"(3) by simp
      then obtain r m where ih: "copyout pt ?va (drop k src) ?s1 = Some (r, s\<lparr>mem := m\<rparr>)" "pt_wf m pt T loc"
        "\<And>v. upage m pt v = upage ?m1 pt v"
        "r = (if umapped ?m1 pt ?va (length src - k) then 0 else - 1)"
        "umapped ?m1 pt ?va (length src - k) \<longrightarrow> ubytes m pt ?va (length src - k) = drop k src"
        "\<And>b. (\<forall>i<length src - k. uaddr ?m1 pt (?va + of_nat i) \<noteq> Some b) \<Longrightarrow> m b = ?m1 b"
        by blast
      have run: "copyout pt va src s = Some (r, s\<lparr>mem := m\<rparr>)"
        using n w p ih(1) by (subst copyout.simps) (simp add: Let_def k)
      have up': "upage m pt v = upage (mem s) pt v" for v using ih(3) put(2) by simp
      have ua': "uaddr m pt v = uaddr (mem s) pt v" for v by (rule uaddr_upage) (rule up')
      have um: "umapped m' pt v n = umapped (mem s) pt v n" if "\<And>v. uaddr m' pt v = uaddr (mem s) pt v" for m' v n
        using that by (simp add: umapped_def)
      have far: "uaddr (mem s) pt (va + of_nat i) \<noteq> uaddr (mem s) pt (?va + of_nat j) \<or> uaddr (mem s) pt (va + of_nat i) = None"
        if i: "i < k" and j: "j < length src - k" for i j
      proof -
        have room: "page_room va \<le> length src" "k = page_room va" using j by (auto simp: k split: if_splits)
        have "?va + of_nat j = va + (of_nat (page_room va + j) :: u64)"
          using next_page [OF upage_below [OF Some]] by (simp add: algebra_simps)
        moreover have "va + of_nat i \<noteq> va + (of_nat (page_room va + j) :: u64)"
          using i j room "1.prems"(3) by (subst offset_inj) auto
        ultimately show ?thesis using uaddr_inj [OF "1.prems"(2)] by (metis not_None_eq)
      qed
      have first: "ubytes m pt va k = take k src"
      proof -
        have "m (the (uaddr m pt (va + of_nat i))) = ?m1 (the (uaddr ?m1 pt (va + of_nat i)))" if "i < k" for i
        proof -
          have "uaddr (mem s) pt (va + of_nat i) \<noteq> None"
            using ubytes_page(2) [OF Some ch(3)] that by (simp add: umapped_def)
          then show ?thesis using ih(6) [of "the (uaddr (mem s) pt (va + of_nat i))"] far [OF that] ua' ua1
            by (metis option.collapse)
        qed
        then have "ubytes m pt va k = ubytes ?m1 pt va k" by (simp add: ubytes_def)
        then show ?thesis using put(4) by simp
      qed
      have "m b = mem s b" if b: "\<forall>i<length src. uaddr (mem s) pt (va + of_nat i) \<noteq> Some b" for b
      proof -
        have "uaddr ?m1 pt (?va + of_nat j) \<noteq> Some b" if "j < length src - k" for j
        proof -
          have "?va + of_nat j = va + (of_nat (page_room va + j) :: u64)" "page_room va + j < length src"
            using next_page [OF upage_below [OF Some]] that by (auto simp: k algebra_simps split: if_splits)
          then show ?thesis using b ua1 by metis
        qed
        then have "m b = ?m1 b" using ih(6) by blast
        also have "\<dots> = mem s b" by (rule put(5)) (use b ch(4) in \<open>auto split: if_splits\<close>)
        finally show ?thesis .
      qed
      moreover have "r = (if umapped (mem s) pt va (length src) then 0 else - 1) \<and>
          (umapped (mem s) pt va (length src) \<longrightarrow> ubytes m pt va (length src) = src)"
        using ih(4,5) um [of ?m1, OF ua1] ch(1) [of "mem s" pt] ch(2) [of m pt] first ubytes_page(2) [OF Some ch(3)]
        by simp
      ultimately show ?thesis using run up' ih(2)
        by (intro exI [of _ r] exI [of _ m]) blast
    qed
  qed
qed

subsection \<open>Strings\<close>

lemma bytes_at_Suc: "bytes_at m p (Suc n) = m p # bytes_at m (p + 1) n"
  unfolding bytes_at_def upt_rec [of 0 "Suc n"] map_Suc_upt [symmetric] by (simp add: algebra_simps comp_def)

lemma copystr_page_spec:
  "copystr_page m p n = (takeWhile (\<lambda>b. b \<noteq> 0) (bytes_at m p n), 0 \<in> set (bytes_at m p n))"
proof (induction n arbitrary: p)
  case 0
  then show ?case by (simp add: bytes_at_def)
next
  case (Suc n)
  then show ?case by (simp add: bytes_at_Suc)
qed

text \<open>\<open>xs\<close> is the user string at \<open>va\<close>, ended by a null byte within \<open>mx\<close> bytes.\<close>

definition ustr :: "memory \<Rightarrow> u64 \<Rightarrow> u64 \<Rightarrow> nat \<Rightarrow> bytes \<Rightarrow> bool" where
  "ustr m pt va mx xs \<longleftrightarrow> length xs < mx \<and> umapped m pt va (Suc (length xs)) \<and>
     ubytes m pt va (Suc (length xs)) = xs @ [0] \<and> 0 \<notin> set xs"

lemma length_ubytes [simp]: "length (ubytes m pt va n) = n"
  by (simp add: ubytes_def)

lemma take_ubytes: "k \<le> n \<Longrightarrow> take k (ubytes m pt va n) = ubytes m pt va k"
  by (simp add: ubytes_def take_map)

lemma umapped_le: "umapped m pt va n \<Longrightarrow> k \<le> n \<Longrightarrow> umapped m pt va k"
  by (simp add: umapped_def)

lemma ustr_first:
  assumes "umapped m pt va k" and "k \<le> mx" and "0 \<in> set (ubytes m pt va k)"
  shows "ustr m pt va mx (takeWhile (\<lambda>b. b \<noteq> 0) (ubytes m pt va k))"
proof -
  let ?xs = "takeWhile (\<lambda>b. b \<noteq> 0) (ubytes m pt va k)"
  have "?xs \<noteq> ubytes m pt va k" using assms(3) by (metis (mono_tags, lifting) takeWhile_eq_all_conv)
  then have lt: "length ?xs < length (ubytes m pt va k)"
    by (metis le_neq_implies_less length_takeWhile_le takeWhile_eq_take take_all order_refl)
  have "ubytes m pt va k ! length ?xs = 0"
    using nth_length_takeWhile [of "\<lambda>b. b \<noteq> 0" "ubytes m pt va k", OF lt] by simp
  with lt have "take (Suc (length ?xs)) (ubytes m pt va k) = ?xs @ [0]"
    by (simp add: take_Suc_conv_app_nth takeWhile_eq_take [symmetric])
  then have "ubytes m pt va (Suc (length ?xs)) = ?xs @ [0]"
    using lt by (simp add: take_ubytes)
  moreover have "0 \<notin> set ?xs" using set_takeWhileD by fastforce
  ultimately show ?thesis using assms lt umapped_le by (auto simp: ustr_def)
qed

lemma ustr_rest:
  assumes "k \<le> mx" and "umapped m pt va k" and "0 \<notin> set (ubytes m pt va k)"
  shows "ustr m pt (va + of_nat k) (mx - k) ys \<Longrightarrow> ustr m pt va mx (ubytes m pt va k @ ys)"
    and "ustr m pt va mx xs \<Longrightarrow> ustr m pt (va + of_nat k) (mx - k) (drop k xs)"
proof -
  assume ys: "ustr m pt (va + of_nat k) (mx - k) ys"
  then have l: "k + length ys < mx" by (auto simp: ustr_def)
  show "ustr m pt va mx (ubytes m pt va k @ ys)"
    using ys assms l umapped_split [of k "Suc (k + length ys)" m pt va] ubytes_split [of k "Suc (k + length ys)" m pt va]
    by (auto simp: ustr_def Suc_diff_le)
next
  assume xs: "ustr m pt va mx xs"
  have k: "k \<le> length xs"
  proof (rule ccontr)
    assume "\<not> k \<le> length xs"
    then have "take (Suc (length xs)) (ubytes m pt va k) = xs @ [0]"
      using xs by (simp add: take_ubytes ustr_def)
    then have "0 \<in> set (ubytes m pt va k)" by (metis in_set_conv_decomp in_set_takeD)
    then show False using assms(3) by simp
  qed
  have "drop k (ubytes m pt va (Suc (length xs))) = drop k xs @ [0]"
    using xs k by (simp add: ustr_def)
  then have "ubytes m pt (va + of_nat k) (Suc (length xs) - k) = drop k xs @ [0]"
    using ubytes_split [of k "Suc (length xs)" m pt va] k by simp
  then show "ustr m pt (va + of_nat k) (mx - k) (drop k xs)"
    using xs k umapped_split [of k "Suc (length xs)" m pt va] set_drop_subset [of k xs]
    by (auto simp: ustr_def Suc_diff_le)
qed

lemma not_ustr: "upage m pt va = None \<Longrightarrow> \<not> ustr m pt va mx xs"
  using not_umapped [of m pt va "Suc (length xs)"] by (simp add: ustr_def)

lemma copyinstr_spec:
  assumes "pt_wf (mem s) pt T loc"
  shows "\<exists>r xs. copyinstr pt va mx s = Some (r, xs) \<and>
    (r = 0 \<and> ustr (mem s) pt va mx xs \<or> r = - 1 \<and> (\<forall>ys. \<not> ustr (mem s) pt va mx ys))"
  using assms
proof (induction pt va mx s rule: copyinstr.induct)
  case (1 pt va n s)
  have up: "upage (mem s) pt (PGROUNDDOWN va) = upage (mem s) pt va" by (rule upage_page) simp
  note walk = walkaddr_upage [OF "1.prems", of "PGROUNDDOWN va", unfolded up]
  show ?case
  proof (cases "n = 0")
    case True
    then show ?thesis by (subst copyinstr.simps) (simp add: ustr_def)
  next
    case n: False
    show ?thesis
    proof (cases "upage (mem s) pt va")
      case None
      then show ?thesis using n walk not_ustr [OF None] by (subst copyinstr.simps) simp
    next
      case (Some p)
      define k where k: "k = (if page_room va > n then n else page_room va)"
      note ch = chunk [OF upage_below [OF Some] k]
      have p: "p \<noteq> 0" using upage_nonzero [OF Some] by simp
      have w: "walkaddr pt (PGROUNDDOWN va) s = Some p" using walk Some by simp
      let ?ub = "ubytes (mem s) pt va k"
      have cp: "copystr_page (mem s) (p + (va - PGROUNDDOWN va)) k = (takeWhile (\<lambda>b. b \<noteq> 0) ?ub, 0 \<in> set ?ub)"
        using ubytes_page(1) [OF Some ch(3)] by (simp add: copystr_page_spec)
      have um: "umapped (mem s) pt va k" by (rule ubytes_page(2) [OF Some ch(3)])
      show ?thesis
      proof (cases "0 \<in> set ?ub")
        case True
        then have "copyinstr pt va n s = Some (0, takeWhile (\<lambda>b. b \<noteq> 0) ?ub)"
          using n w p cp by (subst copyinstr.simps) (simp add: Let_def k)
        then show ?thesis using ustr_first [OF um ch(4) True] by blast
      next
        case False
        then have tw: "takeWhile (\<lambda>b. b \<noteq> 0) ?ub = ?ub" by (metis (mono_tags, lifting) takeWhile_eq_all_conv)
        obtain r rest where ih: "copyinstr pt (PGROUNDDOWN va + PGSIZE) (n - k) s = Some (r, rest)"
          "r = 0 \<and> ustr (mem s) pt (PGROUNDDOWN va + PGSIZE) (n - k) rest \<or>
           r = - 1 \<and> (\<forall>ys. \<not> ustr (mem s) pt (PGROUNDDOWN va + PGSIZE) (n - k) ys)"
          using "1.IH" [OF n refl w p refl k cp [symmetric] refl False "1.prems"] by blast
        have run: "copyinstr pt va n s = Some (r, ?ub @ rest)"
          using n w p cp False tw ih(1) by (subst copyinstr.simps) (simp add: Let_def k)
        have next_va: "PGROUNDDOWN va + PGSIZE = va + of_nat k \<or> n - k = 0"
          using next_page [OF upage_below [OF Some]] by (auto simp: k)
        have "n - k = 0 \<Longrightarrow> \<not> ustr (mem s) pt v (n - k) ys" for v ys by (simp add: ustr_def)
        then show ?thesis using run ih(2) ustr_rest [OF ch(4) um False] next_va by (metis (no_types, lifting))
      qed
    qed
  qed
qed

subsection \<open>Properties\<close>

text \<open>C10: \<^verbatim>\<open>copyin\<close> returns 0 exactly when every byte of the range is mapped for the user, and then delivers
  the bytes the user sees there, across any number of pages; otherwise it returns -1.  It never
  fails to return.\<close>

theorem copyin_correct:
  assumes "pt_wf (mem s) pt T loc"
  shows "\<exists>r xs. copyin pt va n s = Some (r, xs) \<and> r = (if umapped (mem s) pt va n then 0 else - 1) \<and>
    (umapped (mem s) pt va n \<longrightarrow> xs = ubytes (mem s) pt va n)"
  using assms by (rule copyin_spec)

text \<open>what \<^verbatim>\<open>copyout\<close> wrote, \<^verbatim>\<open>copyin\<close> reads back.  When the user's frames are private and distinct from
  the tables, a \<^verbatim>\<open>copyout\<close> to a mapped range returns 0 and a \<^verbatim>\<open>copyin\<close> of the same range then returns
  0 with the same bytes; the translation of every user page is unchanged and no byte outside the
  range is written, so the kernel cannot be made to write elsewhere.\<close>

theorem copyout_copyin_roundtrip:
  assumes "pt_wf (mem s) pt T loc" and "user_sep (mem s) pt T" and "length src < 2 ^ 64"
    and "umapped (mem s) pt va (length src)"
  shows "\<exists>m. copyout pt va src s = Some (0, s\<lparr>mem := m\<rparr>) \<and>
    copyin pt va (length src) (s\<lparr>mem := m\<rparr>) = Some (0, src) \<and> (\<forall>v. upage m pt v = upage (mem s) pt v) \<and>
    (\<forall>b. (\<forall>i<length src. uaddr (mem s) pt (va + of_nat i) \<noteq> Some b) \<longrightarrow> m b = mem s b)"
proof -
  obtain m where m: "copyout pt va src s = Some (0, s\<lparr>mem := m\<rparr>)" "pt_wf m pt T loc"
    "\<And>v. upage m pt v = upage (mem s) pt v" "ubytes m pt va (length src) = src"
    "\<forall>b. (\<forall>i<length src. uaddr (mem s) pt (va + of_nat i) \<noteq> Some b) \<longrightarrow> m b = mem s b"
    using copyout_spec [OF assms(1-3), of va] assms(4) by auto
  have "umapped m pt va (length src)"
    using assms(4) uaddr_upage [OF m(3)] by (simp add: umapped_def)
  then have "copyin pt va (length src) (s\<lparr>mem := m\<rparr>) = Some (0, src)"
    using copyin_spec [of "s\<lparr>mem := m\<rparr>" pt T loc va "length src"] m(2,4) by auto
  then show ?thesis using m by blast
qed

text \<open>C39: \<^verbatim>\<open>copyinstr\<close> finds a user string exactly when there is one.  It returns 0 with the bytes before
  the terminator if a null byte occurs within the limit and every byte up to it is mapped, and -1
  if no such string exists.\<close>

theorem copyinstr_correct:
  assumes "pt_wf (mem s) pt T loc"
  shows "\<exists>r xs. copyinstr pt va mx s = Some (r, xs) \<and>
    (r = 0 \<and> ustr (mem s) pt va mx xs \<or> r = - 1 \<and> (\<forall>ys. \<not> ustr (mem s) pt va mx ys))"
  using assms by (rule copyinstr_spec)

lemma demo_upage: "upage (mem demo_vm) demo_root v = (if page_of v = 1 then Some 0x87fff000 else None)"
  using demo_lookup [of v] MAXVA_page [of v] by (simp add: upage_def)

lemma demo_wf: "pt_wf (mem demo_vm) demo_root {demo_t0, demo_t1, demo_root} demo_loc"
  using demo_vm_ok by (simp add: vm_ok_def)

lemma demo_sep: "user_sep (mem demo_vm) demo_root {demo_t0, demo_t1, demo_root}"
  by (simp add: user_sep_def demo_upage)

lemma demo_umapped: "umapped (mem demo_vm) demo_root 0x1ffe 2" "\<not> umapped (mem demo_vm) demo_root 0x1ffe 3"
proof -
  have p: "page_of 0x1ffe = 1" "page_of 0x1fff = 1" "page_of 0x2000 = 2" by (simp_all add: page_of_def)
  then show "umapped (mem demo_vm) demo_root 0x1ffe 2"
    by (simp add: umapped_def uaddr_def demo_upage numeral_2_eq_2 less_Suc_eq)
  show "\<not> umapped (mem demo_vm) demo_root 0x1ffe 3"
    unfolding umapped_def using p by (auto simp: uaddr_def demo_upage intro!: exI [of _ 2])
qed

theorem copyin_correct_witness: "\<exists>xs. copyin demo_root 0x1ffe 3 demo_vm = Some (- 1, xs)"
  using copyin_correct [OF demo_wf, of "0x1ffe" 3] demo_umapped(2) by auto

theorem copyout_copyin_roundtrip_witness:
  "\<exists>m. copyout demo_root 0x1ffe [7, 9] demo_vm = Some (0, demo_vm\<lparr>mem := m\<rparr>) \<and>
    copyin demo_root 0x1ffe 2 (demo_vm\<lparr>mem := m\<rparr>) = Some (0, [7, 9])"
proof -
  have len: "length [7 :: u8, 9] = 2" by simp
  show ?thesis
    using copyout_copyin_roundtrip [OF demo_wf demo_sep, of "[7, 9]" "0x1ffe", unfolded len] demo_umapped(1)
    by auto
qed

theorem copyinstr_correct_witness:
  "\<exists>xs. copyinstr demo_root 0x2000 128 demo_vm = Some (- 1, xs)"
proof -
  have "upage (mem demo_vm) demo_root 0x2000 = None" by (simp add: demo_upage page_of_def)
  then show ?thesis
    using copyinstr_correct [OF demo_wf, of "0x2000" 128] not_ustr by blast
qed

end
