(* ===== verification/Vm_Frame.thy ===== *)
theory Vm_Frame
  imports Vm
begin

text \<open>
  What the memory management leaves alone: whenever one of its operations returns, the new state
  differs from the old one in physical memory and in the head of the free list only.  In
  particular the held locks, the process table and everything the upper layers add to the state
  are the same.  The clients use it through the rules collected in \<open>kmem_only_intros\<close>.
\<close>

definition kmem_only :: "'a kmem_st_scheme \<Rightarrow> 'a kmem_st_scheme \<Rightarrow> bool" where
  "kmem_only s t \<longleftrightarrow> (\<exists>m r. t = s\<lparr>mem := m, freelist := r\<rparr>)"

lemma kmem_only_refl [simp]: "kmem_only s s"
  unfolding kmem_only_def by (rule exI [of _ "mem s"], rule exI [of _ "freelist s"]) simp

lemma kmem_only_trans: "kmem_only s t \<Longrightarrow> kmem_only t u \<Longrightarrow> kmem_only s u"
  unfolding kmem_only_def by (elim exE) (simp, blast)

lemma kmem_only_mem [simp]: "kmem_only s (s\<lparr>mem := m\<rparr>)"
  unfolding kmem_only_def by (rule exI [of _ m], rule exI [of _ "freelist s"]) simp

lemma kmem_only_memI: "kmem_only s t \<Longrightarrow> kmem_only s (t\<lparr>mem := m\<rparr>)"
  by (rule kmem_only_trans [OF _ kmem_only_mem])

lemma kmem_only_held: "kmem_only s t \<Longrightarrow> held t = held s"
  by (auto simp: kmem_only_def)

lemma kalloc_only: "kalloc s = Some (r, t) \<Longrightarrow> kmem_only s t"
  unfolding kmem_only_def kalloc_def
  by (rule exI [of _ "mem t"], rule exI [of _ "freelist t"])
    (auto simp: acq_eq_Some rel_eq_Some bind_eq_Some_conv Let_def split: if_splits)

lemma kfree_only: "kfree p s = Some t \<Longrightarrow> kmem_only s t"
  unfolding kmem_only_def kfree_def
  by (rule exI [of _ "mem t"], rule exI [of _ "freelist t"])
    (auto simp: acq_eq_Some rel_eq_Some bind_eq_Some_conv Let_def)

lemma kmem_only_upd: "kmem_only (s\<lparr>mem := m\<rparr>) t \<Longrightarrow> kmem_only s t"
  by (rule kmem_only_trans [OF kmem_only_mem])

lemma walk_from_only: "walk_from l pt va alloc s = Some (r, t) \<Longrightarrow> kmem_only s t"
proof (induction l arbitrary: pt s)
  case 0
  then show ?case by simp
next
  case (Suc l)
  then show ?case
    by (auto simp: Let_def bind_eq_Some_conv split: if_splits dest!: kalloc_only Suc.IH kmem_only_upd
        intro: kmem_only_trans)
qed

lemma walk_only: "walk pt va alloc s = Some (r, t) \<Longrightarrow> kmem_only s t"
  by (auto simp: walk_def bind_eq_Some_conv intro: walk_from_only)

text \<open>The loops, by computation induction on the runs that return.\<close>

lemmas kmem_only_run = bind_eq_Some_conv Let_def

lemma mappages_loop_only: "mappages_loop pt a lst pa perm s = Some x \<Longrightarrow> kmem_only s (snd x)"
proof (erule mappages_loop.raw_induct [where P = "\<lambda>pt a lst pa perm s x. kmem_only s (snd x)", rotated], goal_cases)
  case (1 f pt a lst pa perm s x)
  then show ?case
    by (auto simp: kmem_only_run split: if_splits dest!: walk_only 1(1) kmem_only_upd
        intro: kmem_only_trans kmem_only_memI)
qed

lemma mappages_only: "mappages pt va sz pa perm s = Some (r, t) \<Longrightarrow> kmem_only s t"
  by (auto simp: mappages_def kmem_only_run dest: mappages_loop_only)

lemma kvmmap_only: "kvmmap pt va pa sz perm s = Some t \<Longrightarrow> kmem_only s t"
  by (auto simp: kvmmap_def kmem_only_run dest: mappages_only)

lemma uvmunmap_loop_only: "uvmunmap_loop pt a stop f s = Some t \<Longrightarrow> kmem_only s t"
proof (erule uvmunmap_loop.raw_induct [where P = "\<lambda>pt a stop f s t. kmem_only s t", rotated], goal_cases)
  case (1 f pt a stop fr s t)
  then show ?case
    by (auto simp: kmem_only_run split: if_splits dest!: walk_only kfree_only 1(1) kmem_only_upd
        intro: kmem_only_trans)
qed

lemma uvmunmap_only: "uvmunmap pt va n f s = Some t \<Longrightarrow> kmem_only s t"
  by (auto simp: uvmunmap_def kmem_only_run dest: uvmunmap_loop_only)

lemma uvmcreate_only: "uvmcreate s = Some (r, t) \<Longrightarrow> kmem_only s t"
  by (auto simp: uvmcreate_def kmem_only_run split: if_splits dest!: kalloc_only intro: kmem_only_memI)

lemma uvmdealloc_only: "uvmdealloc pt osz nsz s = Some (r, t) \<Longrightarrow> kmem_only s t"
  by (auto simp: uvmdealloc_def kmem_only_run split: if_splits dest: uvmunmap_only)

lemma uvmalloc_loop_only: "uvmalloc_loop pt a osz nsz s = Some x \<Longrightarrow> kmem_only s (snd x) \<and> (fst x = 0 \<or> fst x = nsz)"
proof (erule uvmalloc_loop.raw_induct
    [where P = "\<lambda>pt a osz nsz s x. kmem_only s (snd x) \<and> (fst x = 0 \<or> fst x = nsz)", rotated], goal_cases)
  case (1 f pt a osz nsz s x)
  then show ?case
    by (auto simp: kmem_only_run split: if_splits
        dest!: kalloc_only mappages_only kfree_only uvmdealloc_only 1(1) kmem_only_upd intro: kmem_only_trans)
      (meson kmem_only_trans)
qed

lemma uvmalloc_only: "uvmalloc pt osz nsz s = Some (r, t) \<Longrightarrow> kmem_only s t"
  by (auto simp: uvmalloc_def split: if_splits dest: uvmalloc_loop_only)

lemma uvmalloc_result:
  "uvmalloc pt osz nsz s = Some (r, t) \<Longrightarrow> osz \<le> nsz \<Longrightarrow> r = 0 \<or> r = nsz"
  by (auto simp: uvmalloc_def linorder_not_less [symmetric] dest: uvmalloc_loop_only split: if_splits)

lemma freewalk_at_only: "freewalk_at pt i s = Some t \<Longrightarrow> kmem_only s t"
proof (erule freewalk_at.raw_induct [where P = "\<lambda>pt i s t. kmem_only s t", rotated], goal_cases)
  case (1 f pt i s t)
  then show ?case
    by (auto simp: kmem_only_run split: if_splits dest!: kfree_only 1(1) kmem_only_upd intro: kmem_only_trans)
qed

lemma uvmfree_only: "uvmfree pt sz s = Some t \<Longrightarrow> kmem_only s t"
  by (auto simp: uvmfree_def freewalk_def kmem_only_run split: if_splits
      dest!: uvmunmap_only freewalk_at_only intro: kmem_only_trans)

lemma uvmcopy_loop_only: "uvmcopy_loop old new i sz s = Some x \<Longrightarrow> kmem_only s (snd x)"
proof (erule uvmcopy_loop.raw_induct [where P = "\<lambda>old new i sz s x. kmem_only s (snd x)", rotated], goal_cases)
  case (1 f old new i sz s x)
  then show ?case
    by (auto simp: kmem_only_run split: if_splits
        dest!: walk_only kalloc_only mappages_only kfree_only uvmunmap_only 1(1) kmem_only_upd
        intro: kmem_only_trans)
      (meson kmem_only_trans)
qed

lemma uvmcopy_only: "uvmcopy old new sz s = Some (r, t) \<Longrightarrow> kmem_only s t"
  by (auto simp: uvmcopy_def dest: uvmcopy_loop_only)

lemma uvminit_only: "uvminit pt src s = Some t \<Longrightarrow> kmem_only s t"
  by (auto simp: uvminit_def kmem_only_run
      dest!: kalloc_only mappages_only kmem_only_upd intro: kmem_only_trans kmem_only_memI)

lemma uvmclear_only: "uvmclear pt va s = Some t \<Longrightarrow> kmem_only s t"
  by (auto simp: uvmclear_def kmem_only_run dest!: walk_only intro: kmem_only_memI)

lemma copyout_only: "copyout pt va src s = Some (r, t) \<Longrightarrow> kmem_only s t"
proof (induction pt va src s rule: copyout.induct)
  case (1 pt va src s)
  show ?case
    using "1.prems"
    by (subst (asm) copyout.simps)
      (auto simp: kmem_only_run split: if_splits dest!: "1.IH" kmem_only_upd)
qed

lemmas kmem_only_intros = kalloc_only kfree_only walk_only mappages_only kvmmap_only uvmunmap_only
  uvmcreate_only uvmdealloc_only uvmalloc_only uvmfree_only uvmcopy_only uvminit_only uvmclear_only
  copyout_only

end
