(* ===== verification/Proc.thy ===== *)
theory Proc
  imports Vm_Frame
begin

text \<open>
  Processes, \<^verbatim>\<open>kernel/proc.c\<close> and \<^verbatim>\<open>kernel/proc.h\<close>: the process table, allocation and release of its
  slots, memory growth under the per-process limit, sleep and wakeup, the priority scheduler,
  \<^verbatim>\<open>wait\<close> and \<^verbatim>\<open>waitx\<close>, \<^verbatim>\<open>kill\<close>, \<^verbatim>\<open>setpriority\<close> and the tick accounting.  The functions that also work on
  files and inodes (\<^verbatim>\<open>userinit\<close>, \<^verbatim>\<open>fork\<close>, \<^verbatim>\<open>exit\<close>) follow once those components are there.

  A process pointer is an index of the table; \<open>cur\<close> is \<^verbatim>\<open>mycpu()->proc\<close>.  A context switch cuts a
  function in two: the part up to \<^verbatim>\<open>sched\<close>, which hands the processor to the scheduler while the
  process lock is held, and the part that runs after the scheduler has switched back.
\<close>

subsection \<open>The process table\<close>

abbreviation NOFILE :: nat where "NOFILE \<equiv> 16"

datatype procstate = UNUSED | USED | SLEEPING | RUNNABLE | RUNNING | ZOMBIE

text \<open>The addresses processes sleep on.\<close>

datatype chan = ChProc nat | ChTicks | ChSleepLock sleeplock_id | ChLog | ChPipeRead u64 | ChPipeWrite u64
  | ChCons | ChUartTx | ChDiskBuf nat | ChDiskFree

record context_t =
  ra :: u64
  sp :: u64
  callee_saved :: "nat \<Rightarrow> u64"

record proc =
  pstate :: procstate
  chan :: "chan option"
  killed :: int
  xstate :: int
  pid :: int
  parent :: "nat option"
  kstack :: u64
  sz :: u64
  pagetable :: u64
  trapframe :: u64
  p_context :: context_t
  ofile :: "nat \<Rightarrow> nat option"
  cwd :: "nat option"
  p_name :: buf
  trace_mask :: int
  create_time :: u64
  run_time :: u64
  total_run_time :: u64
  wait_time :: u64
  start_time :: u64
  sleep_time :: u64
  exit_time :: u64
  n_runs :: u64
  priority :: u64
  max_mem :: u64
  curr_mem :: u64

text \<open>\<open>forkret_pc\<close> is the address of \<^verbatim>\<open>forkret\<close>; \<open>kbuf\<close> is the stack address of a local variable whose
  address a function hands to another one.\<close>

record proc_st = vm_st +
  procs :: "nat \<Rightarrow> proc"
  nextpid :: int
  initproc :: "nat option"
  ticks :: u32
  cur :: "nat option"
  forkret_pc :: u64
  kbuf :: u64

definition upd_proc :: "nat \<Rightarrow> (proc \<Rightarrow> proc) \<Rightarrow> 'a proc_st_scheme \<Rightarrow> 'a proc_st_scheme" where
  "upd_proc i f s = s\<lparr>procs := (procs s)(i := f (procs s i))\<rparr>"

text \<open>Offsets of the trap frame fields the kernel uses.\<close>

abbreviation tf_kernel_satp :: u64 where "tf_kernel_satp \<equiv> 0"
abbreviation tf_kernel_sp :: u64 where "tf_kernel_sp \<equiv> 8"
abbreviation tf_kernel_trap :: u64 where "tf_kernel_trap \<equiv> 16"
abbreviation tf_epc :: u64 where "tf_epc \<equiv> 24"
abbreviation tf_kernel_hartid :: u64 where "tf_kernel_hartid \<equiv> 32"
abbreviation tf_sp :: u64 where "tf_sp \<equiv> 48"
abbreviation tf_a0 :: u64 where "tf_a0 \<equiv> 112"
abbreviation tf_a1 :: u64 where "tf_a1 \<equiv> 120"
abbreviation tf_a7 :: u64 where "tf_a7 \<equiv> 168"

definition procinit :: "'a proc_st_scheme \<Rightarrow> 'a proc_st_scheme" where
  "procinit s = fold (\<lambda>i s. upd_proc i (\<lambda>p. p\<lparr>kstack := KSTACK i\<rparr>) s) [0..<NPROC] s"

definition myproc :: "'a proc_st_scheme \<Rightarrow> nat option" where
  "myproc s = cur s"

definition allocpid :: "'a proc_st_scheme \<Rightarrow> (int \<times> 'a proc_st_scheme) option" where
  "allocpid s = do {
     s \<leftarrow> acq PidLock s;
     let p = nextpid s;
     let s = s\<lparr>nextpid := nextpid s + 1\<rparr>;
     s \<leftarrow> rel PidLock s;
     Some (p, s) }"

subsection \<open>User page tables of processes\<close>

definition proc_pagetable :: "nat \<Rightarrow> 'a proc_st_scheme \<Rightarrow> (u64 \<times> 'a proc_st_scheme) option" where
  "proc_pagetable p s = do {
     (pt, s) \<leftarrow> uvmcreate s;
     if pt = 0 then Some (0, s)
     else do {
       (r, s) \<leftarrow> mappages pt TRAMPOLINE PGSIZE (trampoline s) (PTE_R OR PTE_X) s;
       if r < 0 then do { s \<leftarrow> uvmfree pt 0 s; Some (0, s) }
       else do {
         (r, s) \<leftarrow> mappages pt TRAPFRAME PGSIZE (trapframe (procs s p)) (PTE_R OR PTE_W) s;
         if r < 0 then do {
           s \<leftarrow> uvmunmap pt TRAMPOLINE 1 False s;
           s \<leftarrow> uvmfree pt 0 s;
           Some (0, s) }
         else Some (pt, s) } } }"

definition proc_freepagetable :: "u64 \<Rightarrow> u64 \<Rightarrow> 'a kmem_st_scheme \<Rightarrow> 'a kmem_st_scheme option" where
  "proc_freepagetable pt n s = do {
     s \<leftarrow> uvmunmap pt TRAMPOLINE 1 False s;
     s \<leftarrow> uvmunmap pt TRAPFRAME 1 False s;
     uvmfree pt n s }"

subsection \<open>Allocation and release of a slot\<close>

definition freeproc :: "nat \<Rightarrow> 'a proc_st_scheme \<Rightarrow> 'a proc_st_scheme option" where
  "freeproc p s = do {
     s \<leftarrow> (if trapframe (procs s p) \<noteq> 0 then kfree (trapframe (procs s p)) s else Some s);
     let s = upd_proc p (\<lambda>q. q\<lparr>trapframe := 0\<rparr>) s;
     s \<leftarrow> (if pagetable (procs s p) \<noteq> 0
           then proc_freepagetable (pagetable (procs s p)) (sz (procs s p)) s else Some s);
     Some (upd_proc p (\<lambda>q. q\<lparr>pagetable := 0, sz := 0, pid := 0, parent := None,
       p_name := (p_name q)(0 := 0), chan := None, killed := 0, xstate := 0, pstate := UNUSED\<rparr>) s) }"

fun alloc_scan :: "nat list \<Rightarrow> 'a proc_st_scheme \<Rightarrow> (nat option \<times> 'a proc_st_scheme) option" where
  "alloc_scan [] s = Some (None, s)"
| "alloc_scan (i # is) s = do {
     s \<leftarrow> acq (ProcLock i) s;
     if pstate (procs s i) = UNUSED then Some (Some i, s)
     else do { s \<leftarrow> rel (ProcLock i) s; alloc_scan is s } }"

text \<open>The fields set at label \<^verbatim>\<open>found\<close>, in the order of the code.\<close>

definition init_proc :: "int \<Rightarrow> u32 \<Rightarrow> proc \<Rightarrow> proc" where
  "init_proc n now p =
     (let p = p\<lparr>pid := n, pstate := USED, create_time := ucast now, run_time := 0, start_time := 0,
        sleep_time := 0, total_run_time := 0, exit_time := 0, n_runs := 0, priority := 60\<rparr> in
      if priority p < 40 then p\<lparr>max_mem := 512 * 1024\<rparr>
      else if priority p < 60 then p\<lparr>max_mem := 256 * 1024\<rparr>
      else p\<lparr>max_mem := 128 * 1024\<rparr>)"

definition allocproc :: "'a proc_st_scheme \<Rightarrow> (nat option \<times> 'a proc_st_scheme) option" where
  "allocproc s = do {
     (found, s) \<leftarrow> alloc_scan [0..<NPROC] s;
     case found of None \<Rightarrow> Some (None, s)
     | Some p \<Rightarrow> do {
         (n, s) \<leftarrow> allocpid s;
         let s = upd_proc p (init_proc n (ticks s)) s;
         (tf, s) \<leftarrow> kalloc s;
         let s = upd_proc p (\<lambda>q. q\<lparr>trapframe := tf\<rparr>) s;
         if tf = 0 then do { s \<leftarrow> freeproc p s; s \<leftarrow> rel (ProcLock p) s; Some (None, s) }
         else do {
           (pt, s) \<leftarrow> proc_pagetable p s;
           let s = upd_proc p (\<lambda>q. q\<lparr>pagetable := pt\<rparr>) s;
           if pt = 0 then do { s \<leftarrow> freeproc p s; s \<leftarrow> rel (ProcLock p) s; Some (None, s) }
           else do {
             let s = upd_proc p (\<lambda>q. q\<lparr>p_context :=
               \<lparr>ra = forkret_pc s, sp = kstack q + PGSIZE, callee_saved = (\<lambda>_. 0)\<rparr>\<rparr>) s;
             Some (Some p, s) } } } }"

subsection \<open>Memory growth\<close>

text \<open>\<^verbatim>\<open>sz\<close> is a 32-bit variable and \<^verbatim>\<open>sz + n\<close> is computed in 32 bits; the message printed when the limit
  is exceeded is not part of the state.\<close>

definition growproc :: "int \<Rightarrow> 'a proc_st_scheme \<Rightarrow> (int \<times> 'a proc_st_scheme) option" where
  "growproc n s = do {
     p \<leftarrow> myproc s;
     let z = (ucast (sz (procs s p)) :: u32);
     if n > 0 then do {
       let new_sz = (ucast (z + word_of_int n) :: u64);
       if new_sz > max_mem (procs s p) then Some (- 1, s)
       else do {
         (r, s) \<leftarrow> uvmalloc (pagetable (procs s p)) (ucast z) new_sz s;
         let z = (ucast r :: u32);
         if z = 0 then Some (- 1, s)
         else Some (0, upd_proc p (\<lambda>q. q\<lparr>sz := ucast z\<rparr>) s) } }
     else do {
       (z, s) \<leftarrow> (if n < 0 then do {
                  (r, s) \<leftarrow> uvmdealloc (pagetable (procs s p)) (ucast z) (ucast (z + word_of_int n)) s;
                  Some (ucast r :: u32, s) }
                else Some (z, s));
       Some (0, upd_proc p (\<lambda>q. q\<lparr>sz := ucast z\<rparr>) s) } }"

subsection \<open>Giving up the processor\<close>

text \<open>\<^verbatim>\<open>sched\<close> up to \<^verbatim>\<open>swtch\<close>.  The nesting depth is 1 when the process lock is the only lock held, and
  interrupts are off whenever a lock is held.\<close>

definition sched :: "'a proc_st_scheme \<Rightarrow> 'a proc_st_scheme option" where
  "sched s = do {
     p \<leftarrow> myproc s;
     _ \<leftarrow> panic_if (ProcLock p \<notin> held s);
     _ \<leftarrow> panic_if (held s \<noteq> {ProcLock p});
     _ \<leftarrow> panic_if (pstate (procs s p) = RUNNING);
     Some s }"

definition yield_enter :: "'a proc_st_scheme \<Rightarrow> 'a proc_st_scheme option" where
  "yield_enter s = do {
     p \<leftarrow> myproc s;
     s \<leftarrow> acq (ProcLock p) s;
     let s = upd_proc p (\<lambda>q. q\<lparr>pstate := RUNNABLE\<rparr>) s;
     sched s }"

definition yield_exit :: "'a proc_st_scheme \<Rightarrow> 'a proc_st_scheme option" where
  "yield_exit s = do { p \<leftarrow> myproc s; rel (ProcLock p) s }"

definition sleep_enter :: "chan \<Rightarrow> lock \<Rightarrow> 'a proc_st_scheme \<Rightarrow> 'a proc_st_scheme option" where
  "sleep_enter ch lk s = do {
     p \<leftarrow> myproc s;
     s \<leftarrow> acq (ProcLock p) s;
     s \<leftarrow> rel lk s;
     let s = upd_proc p (\<lambda>q. q\<lparr>chan := Some ch, pstate := SLEEPING\<rparr>) s;
     sched s }"

definition sleep_exit :: "lock \<Rightarrow> 'a proc_st_scheme \<Rightarrow> 'a proc_st_scheme option" where
  "sleep_exit lk s = do {
     p \<leftarrow> myproc s;
     let s = upd_proc p (\<lambda>q. q\<lparr>chan := None\<rparr>) s;
     s \<leftarrow> rel (ProcLock p) s;
     acq lk s }"

definition wakeup :: "chan \<Rightarrow> 'a proc_st_scheme \<Rightarrow> 'a proc_st_scheme option" where
  "wakeup ch s =
     for_each [0..<NPROC] (\<lambda>i s.
       if Some i \<noteq> myproc s then do {
         s \<leftarrow> acq (ProcLock i) s;
         let s = (if pstate (procs s i) = SLEEPING \<and> chan (procs s i) = Some ch
                  then upd_proc i (\<lambda>q. q\<lparr>pstate := RUNNABLE\<rparr>) s else s);
         rel (ProcLock i) s }
       else Some s) s"

subsection \<open>The scheduler\<close>

definition nice_of :: "proc \<Rightarrow> int" where
  "nice_of p =
     (if run_time p + sleep_time p > 0
      then sint (ucast (sleep_time p * 10 div (run_time p + sleep_time p)) :: u32) else 5)"

definition dyn_prio :: "proc \<Rightarrow> int" where
  "dyn_prio p =
     (let dp = sint (ucast (priority p - word_of_int (nice_of p) + 5) :: u32);
          dp = (if dp < 0 then 0 else dp) in
      if dp > 100 then 100 else dp)"

definition elegir :: "proc \<Rightarrow> int \<Rightarrow> proc option \<Rightarrow> int \<Rightarrow> bool" where
  "elegir p dp best best_dp \<longleftrightarrow>
     dp < best_dp \<or>
     (case best of None \<Rightarrow> False
      | Some b \<Rightarrow> dp = best_dp \<and> n_runs p < n_runs b \<or>
          dp = best_dp \<and> n_runs p = n_runs b \<and> create_time p < create_time b)"

fun sched_scan :: "nat list \<Rightarrow> nat option \<Rightarrow> int \<Rightarrow> 'a proc_st_scheme \<Rightarrow>
    (nat option \<times> int \<times> 'a proc_st_scheme) option" where
  "sched_scan [] best best_dp s = Some (best, best_dp, s)"
| "sched_scan (i # is) best best_dp s = do {
     s \<leftarrow> acq (ProcLock i) s;
     if pstate (procs s i) \<noteq> RUNNABLE then do {
       s \<leftarrow> rel (ProcLock i) s;
       sched_scan is best best_dp s }
     else do {
       let dp = dyn_prio (procs s i);
       if elegir (procs s i) dp (map_option (procs s) best) best_dp then do {
         s \<leftarrow> (case best of None \<Rightarrow> Some s | Some b \<Rightarrow> rel (ProcLock b) s);
         sched_scan is (Some i) dp s }
       else do {
         s \<leftarrow> rel (ProcLock i) s;
         sched_scan is best best_dp s } } }"

text \<open>One pass of the scheduler's endless loop up to the switch into the chosen process, if any, and
  what it does when the processor comes back.\<close>

definition scheduler :: "'a proc_st_scheme \<Rightarrow> (nat option \<times> 'a proc_st_scheme) option" where
  "scheduler s = do {
     (best, _, s) \<leftarrow> sched_scan [0..<NPROC] None 999999 s;
     case best of None \<Rightarrow> Some (None, s)
     | Some b \<Rightarrow> do {
         let s = upd_proc b (\<lambda>q. q\<lparr>pstate := RUNNING, start_time := ucast (ticks s), run_time := 0,
           sleep_time := 0, n_runs := n_runs q + 1\<rparr>) s;
         Some (Some b, s\<lparr>cur := Some b\<rparr>) } }"

definition scheduler_back :: "nat \<Rightarrow> 'a proc_st_scheme \<Rightarrow> 'a proc_st_scheme option" where
  "scheduler_back best s = rel (ProcLock best) (s\<lparr>cur := None\<rparr>)"

subsection \<open>Waiting for children\<close>

definition le32 :: "u32 \<Rightarrow> bytes" where
  "le32 v = [ucast v, ucast (drop_bit 8 v), ucast (drop_bit 16 v), ucast (drop_bit 24 v)]"

text \<open>The scan of the children returns a value to the caller, or goes on with \<^verbatim>\<open>havekids\<close>.\<close>

datatype scan_out = ScanRet int | ScanOn bool

fun wait_scan :: "u64 \<Rightarrow> nat \<Rightarrow> bool \<Rightarrow> nat list \<Rightarrow> 'a proc_st_scheme \<Rightarrow> (scan_out \<times> 'a proc_st_scheme) option" where
  "wait_scan addr p havekids [] s = Some (ScanOn havekids, s)"
| "wait_scan addr p havekids (i # is) s =
     (if parent (procs s i) = Some p then do {
        s \<leftarrow> acq (ProcLock i) s;
        if pstate (procs s i) = ZOMBIE then do {
          let n = pid (procs s i);
          (r, s) \<leftarrow> (if addr \<noteq> 0 then copyout (pagetable (procs s p)) addr (le32 (word_of_int (xstate (procs s i)))) s
                    else Some (0, s));
          if r < 0 then do {
            s \<leftarrow> rel (ProcLock i) s;
            s \<leftarrow> rel WaitLock s;
            Some (ScanRet (- 1), s) }
          else do {
            s \<leftarrow> freeproc i s;
            s \<leftarrow> rel (ProcLock i) s;
            s \<leftarrow> rel WaitLock s;
            Some (ScanRet n, s) } }
        else do {
          s \<leftarrow> rel (ProcLock i) s;
          wait_scan addr p True is s } }
      else wait_scan addr p havekids is s)"

text \<open>An operation that may block returns, or suspends its process.\<close>

datatype 'r outcome = Returns 'r | Sleeps

definition wait_loop :: "u64 \<Rightarrow> 'a proc_st_scheme \<Rightarrow> (int outcome \<times> 'a proc_st_scheme) option" where
  "wait_loop addr s = do {
     p \<leftarrow> myproc s;
     (r, s) \<leftarrow> wait_scan addr p False [0..<NPROC] s;
     case r of ScanRet n \<Rightarrow> Some (Returns n, s)
     | ScanOn havekids \<Rightarrow>
         if \<not> havekids \<or> killed (procs s p) \<noteq> 0 then do {
           s \<leftarrow> rel WaitLock s;
           Some (Returns (- 1), s) }
         else do {
           s \<leftarrow> sleep_enter (ChProc p) WaitLock s;
           Some (Sleeps, s) } }"

definition wait :: "u64 \<Rightarrow> 'a proc_st_scheme \<Rightarrow> (int outcome \<times> 'a proc_st_scheme) option" where
  "wait addr s = do { s \<leftarrow> acq WaitLock s; wait_loop addr s }"

definition wait_resume :: "u64 \<Rightarrow> 'a proc_st_scheme \<Rightarrow> (int outcome \<times> 'a proc_st_scheme) option" where
  "wait_resume addr s = do { s \<leftarrow> sleep_exit WaitLock s; wait_loop addr s }"

fun waitx_scan :: "u64 \<Rightarrow> nat \<Rightarrow> u32 \<times> u32 \<Rightarrow> bool \<Rightarrow> nat list \<Rightarrow> 'a proc_st_scheme \<Rightarrow>
    (scan_out \<times> (u32 \<times> u32) \<times> 'a proc_st_scheme) option" where
  "waitx_scan addr p rw havekids [] s = Some (ScanOn havekids, rw, s)"
| "waitx_scan addr p rw havekids (i # is) s =
     (if parent (procs s i) = Some p then do {
        s \<leftarrow> acq (ProcLock i) s;
        if pstate (procs s i) = ZOMBIE then do {
          let n = pid (procs s i);
          let rw = (ucast (run_time (procs s i)),
                    ucast (exit_time (procs s i) - create_time (procs s i) - run_time (procs s i)));
          (r, s) \<leftarrow> (if addr \<noteq> 0 then copyout (pagetable (procs s p)) addr (le32 (word_of_int (xstate (procs s i)))) s
                    else Some (0, s));
          if r < 0 then do {
            s \<leftarrow> rel (ProcLock i) s;
            s \<leftarrow> rel WaitLock s;
            Some (ScanRet (- 1), rw, s) }
          else do {
            s \<leftarrow> freeproc i s;
            s \<leftarrow> rel (ProcLock i) s;
            s \<leftarrow> rel WaitLock s;
            Some (ScanRet n, rw, s) } }
        else do {
          s \<leftarrow> rel (ProcLock i) s;
          waitx_scan addr p rw True is s } }
      else waitx_scan addr p rw havekids is s)"

definition waitx_loop :: "u64 \<Rightarrow> u32 \<times> u32 \<Rightarrow> 'a proc_st_scheme \<Rightarrow>
    (int outcome \<times> (u32 \<times> u32) \<times> 'a proc_st_scheme) option" where
  "waitx_loop addr rw s = do {
     p \<leftarrow> myproc s;
     (r, rw, s) \<leftarrow> waitx_scan addr p rw False [0..<NPROC] s;
     case r of ScanRet n \<Rightarrow> Some (Returns n, rw, s)
     | ScanOn havekids \<Rightarrow>
         if \<not> havekids \<or> killed (procs s p) \<noteq> 0 then do {
           s \<leftarrow> rel WaitLock s;
           Some (Returns (- 1), rw, s) }
         else do {
           s \<leftarrow> sleep_enter (ChProc p) WaitLock s;
           Some (Sleeps, rw, s) } }"

definition waitx :: "u64 \<Rightarrow> u32 \<times> u32 \<Rightarrow> 'a proc_st_scheme \<Rightarrow>
    (int outcome \<times> (u32 \<times> u32) \<times> 'a proc_st_scheme) option" where
  "waitx addr rw s = do { s \<leftarrow> acq WaitLock s; waitx_loop addr rw s }"

definition waitx_resume :: "u64 \<Rightarrow> u32 \<times> u32 \<Rightarrow> 'a proc_st_scheme \<Rightarrow>
    (int outcome \<times> (u32 \<times> u32) \<times> 'a proc_st_scheme) option" where
  "waitx_resume addr rw s = do { s \<leftarrow> sleep_exit WaitLock s; waitx_loop addr rw s }"

subsection \<open>Signals, priorities and accounting\<close>

definition reparent :: "nat \<Rightarrow> 'a proc_st_scheme \<Rightarrow> 'a proc_st_scheme option" where
  "reparent p s =
     for_each [0..<NPROC] (\<lambda>i s.
       if parent (procs s i) = Some p then do {
         let s = upd_proc i (\<lambda>q. q\<lparr>parent := initproc s\<rparr>) s;
         ip \<leftarrow> initproc s;
         wakeup (ChProc ip) s }
       else Some s) s"

fun kill_scan :: "int \<Rightarrow> nat list \<Rightarrow> 'a proc_st_scheme \<Rightarrow> (int \<times> 'a proc_st_scheme) option" where
  "kill_scan n [] s = Some (- 1, s)"
| "kill_scan n (i # is) s = do {
     s \<leftarrow> acq (ProcLock i) s;
     if pid (procs s i) = n then do {
       let s = upd_proc i (\<lambda>q. q\<lparr>killed := 1\<rparr>) s;
       let s = (if pstate (procs s i) = SLEEPING then upd_proc i (\<lambda>q. q\<lparr>pstate := RUNNABLE\<rparr>) s else s);
       s \<leftarrow> rel (ProcLock i) s;
       Some (0, s) }
     else do { s \<leftarrow> rel (ProcLock i) s; kill_scan n is s } }"

definition kill :: "int \<Rightarrow> 'a proc_st_scheme \<Rightarrow> (int \<times> 'a proc_st_scheme) option" where
  "kill n s = kill_scan n [0..<NPROC] s"

definition update_time :: "'a proc_st_scheme \<Rightarrow> 'a proc_st_scheme option" where
  "update_time s =
     for_each [0..<NPROC] (\<lambda>i s. do {
       s \<leftarrow> acq (ProcLock i) s;
       let s = (if pstate (procs s i) = RUNNING
                then upd_proc i (\<lambda>q. q\<lparr>run_time := run_time q + 1, total_run_time := total_run_time q + 1\<rparr>) s
                else if pstate (procs s i) = SLEEPING
                then upd_proc i (\<lambda>q. q\<lparr>sleep_time := sleep_time q + 1\<rparr>) s else s);
       rel (ProcLock i) s }) s"

text \<open>\<^verbatim>\<open>setpriority\<close> yields after raising a priority; the flag tells that the caller is at the switch
  inside \<^verbatim>\<open>yield\<close> and still has to return the value.\<close>

fun setprio_scan :: "int \<Rightarrow> int \<Rightarrow> nat list \<Rightarrow> 'a proc_st_scheme \<Rightarrow> (int \<times> bool \<times> 'a proc_st_scheme) option" where
  "setprio_scan np n [] s = Some (0, False, s)"
| "setprio_scan np n (i # is) s = do {
     s \<leftarrow> acq (ProcLock i) s;
     if pid (procs s i) = n then do {
       let prev = sint (ucast (priority (procs s i)) :: u32);
       let s = upd_proc i (\<lambda>q. q\<lparr>priority := word_of_int np, sleep_time := 0, run_time := 0\<rparr>) s;
       s \<leftarrow> rel (ProcLock i) s;
       if np < prev then do { s \<leftarrow> yield_enter s; Some (prev, True, s) }
       else Some (prev, False, s) }
     else do { s \<leftarrow> rel (ProcLock i) s; setprio_scan np n is s } }"

definition setpriority :: "int \<Rightarrow> int \<Rightarrow> 'a proc_st_scheme \<Rightarrow> (int \<times> bool \<times> 'a proc_st_scheme) option" where
  "setpriority np n s = setprio_scan np n [0..<NPROC] s"

subsection \<open>Copies to and from the current process or the kernel\<close>

definition either_copyout :: "bool \<Rightarrow> u64 \<Rightarrow> bytes \<Rightarrow> 'a proc_st_scheme \<Rightarrow> (int \<times> 'a proc_st_scheme) option" where
  "either_copyout user_dst dst src s =
     (if user_dst then do { p \<leftarrow> myproc s; copyout (pagetable (procs s p)) dst src s }
      else Some (0, s\<lparr>mem := put_bytes dst src (mem s)\<rparr>))"

definition either_copyin :: "bool \<Rightarrow> u64 \<Rightarrow> nat \<Rightarrow> 'a proc_st_scheme \<Rightarrow> (int \<times> bytes) option" where
  "either_copyin user_src src len s =
     (if user_src then do { p \<leftarrow> myproc s; copyin (pagetable (procs s p)) src len s }
      else Some (0, bytes_at (mem s) src len))"

end
