(* ===== verification/Proc_Laws.thy ===== *)
theory Proc_Laws
  imports Proc
begin

text \<open>
  The laws of the process table: closed forms of the loops that visit every slot under its lock,
  the choice the scheduler makes, the memory limit of \<^verbatim>\<open>growproc\<close>, uniqueness of process
  identifiers, and what \<^verbatim>\<open>wait\<close>, \<^verbatim>\<open>kill\<close> and \<^verbatim>\<open>sleep\<close>/\<^verbatim>\<open>wakeup\<close> do to the table.
\<close>

subsection \<open>Field-wise rules\<close>

lemma upd_proc_simps [simp]:
  "held (upd_proc i f s) = held s" "mem (upd_proc i f s) = mem s" "freelist (upd_proc i f s) = freelist s"
  "procs (upd_proc i f s) = (procs s)(i := f (procs s i))" "nextpid (upd_proc i f s) = nextpid s"
  "cur (upd_proc i f s) = cur s" "ticks (upd_proc i f s) = ticks s" "initproc (upd_proc i f s) = initproc s"
  by (simp_all add: upd_proc_def)

lemma upd_proc_cong: "f (procs s i) = g (procs s i) \<Longrightarrow> upd_proc i f s = upd_proc i g s"
  by (simp add: upd_proc_def)

lemma kmem_only_proc:
  "kmem_only s t \<Longrightarrow> procs t = procs s \<and> nextpid t = nextpid s \<and> cur t = cur s \<and> ticks t = ticks s \<and>
     initproc t = initproc s \<and> held t = held s"
  by (auto simp: kmem_only_def)

text \<open>A loop that visits slots under their locks is the pointwise update of the table.\<close>

lemma for_each_locked:
  assumes "distinct is" and "\<And>i. i \<in> set is \<Longrightarrow> C (cur s) i \<Longrightarrow> ProcLock i \<notin> held s"
  shows "for_each is (\<lambda>i s. if C (cur s) i then do {
      s \<leftarrow> acq (ProcLock i) s;
      let s = (if P i (procs s i) then upd_proc i (f i) s else s);
      rel (ProcLock i) s } else Some s) s =
    Some (s\<lparr>procs := \<lambda>i. if i \<in> set is \<and> C (cur s) i \<and> P i (procs s i) then f i (procs s i) else procs s i\<rparr>)"
  (is "for_each is ?body s = _")
  using assms
proof (induct "is" arbitrary: s)
  case Nil
  then show ?case by simp
next
  case (Cons i "is")
  let ?t = "if C (cur s) i \<and> P i (procs s i) then upd_proc i (f i) s else s"
  have step: "?body i s = Some ?t"
    using Cons.prems(2) [of i] by (auto simp: acq_def rel_def upd_proc_def)
  have held: "held ?t = held s" "cur ?t = cur s" by simp_all
  have "?t\<lparr>procs := q\<rparr> = s\<lparr>procs := q\<rparr>" for q by (simp add: upd_proc_def)
  moreover have "(\<lambda>j. if j \<in> set is \<and> C (cur ?t) j \<and> P j (procs ?t j) then f j (procs ?t j) else procs ?t j) =
      (\<lambda>j. if j \<in> set (i # is) \<and> C (cur s) j \<and> P j (procs s j) then f j (procs s j) else procs s j)"
    using Cons.prems(1) by auto
  moreover have "for_each is ?body ?t =
      Some (?t\<lparr>procs := \<lambda>j. if j \<in> set is \<and> C (cur ?t) j \<and> P j (procs ?t j) then f j (procs ?t j) else procs ?t j\<rparr>)"
    by (rule Cons.hyps) (use Cons.prems held in auto)
  ultimately have "for_each is ?body ?t =
      Some (s\<lparr>procs := \<lambda>j. if j \<in> set (i # is) \<and> C (cur s) j \<and> P j (procs s j) then f j (procs s j) else procs s j\<rparr>)"
    by presburger
  then show ?case using step by (simp only: for_each.simps bind.simps)
qed

definition woken :: "chan \<Rightarrow> nat option \<Rightarrow> (nat \<Rightarrow> proc) \<Rightarrow> nat \<Rightarrow> proc" where
  "woken ch me ps i =
     (if i < NPROC \<and> Some i \<noteq> me \<and> pstate (ps i) = SLEEPING \<and> chan (ps i) = Some ch
      then (ps i)\<lparr>pstate := RUNNABLE\<rparr> else ps i)"

definition proc_locks_free :: "'a proc_st_scheme \<Rightarrow> bool" where
  "proc_locks_free s \<longleftrightarrow> (\<forall>i<NPROC. Some i \<noteq> cur s \<longrightarrow> ProcLock i \<notin> held s)"

lemma procs_upd_cong: "(\<And>i. f i = g i) \<Longrightarrow> s\<lparr>procs := f\<rparr> = s\<lparr>procs := g\<rparr>"
  by presburger

lemma wakeup_eq:
  assumes "proc_locks_free s"
  shows "wakeup ch s = Some (s\<lparr>procs := woken ch (cur s) (procs s)\<rparr>)"
  unfolding wakeup_def myproc_def
  using assms
  by (subst for_each_locked [where C = "\<lambda>me i. Some i \<noteq> me" and P = "\<lambda>i p. pstate p = SLEEPING \<and> chan p = Some ch"])
    (auto simp: proc_locks_free_def woken_def intro!: procs_upd_cong)

definition ticked :: "(nat \<Rightarrow> proc) \<Rightarrow> nat \<Rightarrow> proc" where
  "ticked ps i =
     (if i < NPROC \<and> pstate (ps i) = RUNNING
      then (ps i)\<lparr>run_time := run_time (ps i) + 1, total_run_time := total_run_time (ps i) + 1\<rparr>
      else if i < NPROC \<and> pstate (ps i) = SLEEPING then (ps i)\<lparr>sleep_time := sleep_time (ps i) + 1\<rparr>
      else ps i)"

lemma update_time_eq:
  assumes "\<And>i. i < NPROC \<Longrightarrow> ProcLock i \<notin> held s"
  shows "update_time s = Some (s\<lparr>procs := ticked (procs s)\<rparr>)"
proof -
  let ?f = "\<lambda>i p. if pstate p = RUNNING then p\<lparr>run_time := run_time p + 1, total_run_time := total_run_time p + 1\<rparr>
    else p\<lparr>sleep_time := sleep_time p + 1\<rparr>"
  have "update_time s = for_each [0..<NPROC] (\<lambda>i s. if True then do {
      s \<leftarrow> acq (ProcLock i) s;
      let s = (if pstate (procs s i) = RUNNING \<or> pstate (procs s i) = SLEEPING then upd_proc i (?f i) s else s);
      rel (ProcLock i) s } else Some s) s"
    unfolding update_time_def
    by (intro for_each_cong_fun)
      (auto simp: Let_def split: bind_splits intro!: arg_cong [where f = "rel (ProcLock _)"] upd_proc_cong)
  also have "\<dots> = Some (s\<lparr>procs := ticked (procs s)\<rparr>)"
    using assms
    by (subst for_each_locked [where C = "\<lambda>me i. True" and P = "\<lambda>i p. pstate p = RUNNING \<or> pstate p = SLEEPING"])
      (auto simp: ticked_def intro!: procs_upd_cong)
  finally show ?thesis .
qed

subsection \<open>The scheduler's choice\<close>

text \<open>The order the scheduler minimises: dynamic priority, then number of runs, then creation time.\<close>

definition sched_lt :: "proc \<Rightarrow> proc \<Rightarrow> bool" where
  "sched_lt p q \<longleftrightarrow> dyn_prio p < dyn_prio q \<or>
     dyn_prio p = dyn_prio q \<and> (n_runs p < n_runs q \<or> n_runs p = n_runs q \<and> create_time p < create_time q)"

definition pick :: "(nat \<Rightarrow> proc) \<Rightarrow> nat option \<Rightarrow> nat \<Rightarrow> nat option" where
  "pick P best i =
     (if pstate (P i) = RUNNABLE \<and> (case best of None \<Rightarrow> True | Some b \<Rightarrow> sched_lt (P i) (P b))
      then Some i else best)"

lemma dyn_prio_bounds: "0 \<le> dyn_prio p" "dyn_prio p \<le> 100"
  by (simp_all add: dyn_prio_def Let_def)

lemma elegir_pick:
  "elegir (P i) (dyn_prio (P i)) (map_option P best) (case best of None \<Rightarrow> 999999 | Some b \<Rightarrow> dyn_prio (P b)) =
     (case best of None \<Rightarrow> True | Some b \<Rightarrow> sched_lt (P i) (P b))"
  using dyn_prio_bounds [of "P i"] by (cases best) (auto simp: elegir_def sched_lt_def)

definition lock_of :: "nat option \<Rightarrow> lock set" where
  "lock_of best = ProcLock ` set_option best"

lemma sched_scan_eq:
  assumes "distinct is" and "\<And>i. ProcLock i \<in> H \<Longrightarrow> i \<notin> set is \<and> Some i \<noteq> best" and "set_option best \<inter> set is = {}"
    and "held s = lock_of best \<union> H"
  shows "sched_scan is best (case best of None \<Rightarrow> 999999 | Some b \<Rightarrow> dyn_prio (procs s b)) s =
    (let best' = foldl (pick (procs s)) best is in
     Some (best', (case best' of None \<Rightarrow> 999999 | Some b \<Rightarrow> dyn_prio (procs s b)), s\<lparr>held := lock_of best' \<union> H\<rparr>))"
  using assms
proof (induct "is" arbitrary: best s)
  case Nil
  then show ?case by simp
next
  case (Cons i "is")
  let ?dp = "\<lambda>best. case best of None \<Rightarrow> 999999 | Some b \<Rightarrow> dyn_prio (procs s b)"
  have i: "ProcLock i \<notin> held s" using Cons.prems by (auto simp: lock_of_def)
  let ?s = "s\<lparr>held := insert (ProcLock i) (held s)\<rparr>"
  have unlock: "rel (ProcLock i) ?s = Some s" using i by (simp add: rel_def)
  show ?case
  proof (cases "pick (procs s) best i = Some i \<and> best \<noteq> Some i")
    case True
    then have c: "pstate (procs s i) = RUNNABLE" "elegir (procs s i) (dyn_prio (procs s i)) (map_option (procs s) best) (?dp best)"
      using elegir_pick [of "procs s" i best] by (auto simp: pick_def split: if_splits)
    let ?u = "s\<lparr>held := insert (ProcLock i) H\<rparr>"
    have swap: "(case best of None \<Rightarrow> Some ?s | Some b \<Rightarrow> rel (ProcLock b) ?s) = Some ?u"
      using Cons.prems by (auto simp: rel_def lock_of_def split: option.splits intro!: arg_cong [where f = "\<lambda>h. s\<lparr>held := h\<rparr>"])
    have "sched_scan is (Some i) (case Some i of None \<Rightarrow> 999999 | Some b \<Rightarrow> dyn_prio (procs ?u b)) ?u =
      (let best' = foldl (pick (procs ?u)) (Some i) is in
       Some (best', (case best' of None \<Rightarrow> 999999 | Some b \<Rightarrow> dyn_prio (procs ?u b)), ?u\<lparr>held := lock_of best' \<union> H\<rparr>))"
      by (rule Cons.hyps) (use Cons.prems in \<open>auto simp: lock_of_def\<close>)
    then show ?thesis using i c swap True by (simp add: acq_def Let_def cong: option.case_cong)
  next
    case False
    then have same: "pick (procs s) best i = best" by (auto simp: pick_def split: if_splits)
    have no: "pstate (procs s i) = RUNNABLE \<Longrightarrow>
        \<not> elegir (procs s i) (dyn_prio (procs s i)) (map_option (procs s) best) (?dp best)"
      using same Cons.prems(3) elegir_pick [of "procs s" i best] by (auto simp: pick_def split: if_splits)
    have "sched_scan is best (?dp best) s =
      (let best' = foldl (pick (procs s)) best is in Some (best', ?dp best', s\<lparr>held := lock_of best' \<union> H\<rparr>))"
      by (rule Cons.hyps) (use Cons.prems in \<open>auto simp: lock_of_def\<close>)
    then show ?thesis using i no unlock same
      by (cases "pstate (procs s i) = RUNNABLE") (simp_all add: acq_def Let_def)
  qed
qed

text \<open>The fold keeps the first of the least runnable slots seen so far.\<close>

definition best_of :: "(nat \<Rightarrow> proc) \<Rightarrow> nat \<Rightarrow> nat option \<Rightarrow> bool" where
  "best_of P n best \<longleftrightarrow>
     (case best of
        None \<Rightarrow> \<forall>i<n. pstate (P i) \<noteq> RUNNABLE
      | Some b \<Rightarrow> b < n \<and> pstate (P b) = RUNNABLE \<and>
          (\<forall>i<n. pstate (P i) = RUNNABLE \<longrightarrow> \<not> sched_lt (P i) (P b)) \<and>
          (\<forall>i<b. pstate (P i) = RUNNABLE \<longrightarrow> sched_lt (P b) (P i)))"

lemma sched_lt_trans: "sched_lt p q \<Longrightarrow> sched_lt q r \<Longrightarrow> sched_lt p r"
  and sched_lt_not: "\<not> sched_lt p q \<Longrightarrow> \<not> sched_lt q r \<Longrightarrow> \<not> sched_lt p r"
  and sched_lt_mix: "sched_lt p q \<Longrightarrow> \<not> sched_lt r q \<Longrightarrow> sched_lt p r"
  and sched_lt_irrefl: "\<not> sched_lt p p"
  unfolding sched_lt_def by auto

lemma foldl_pick: "best_of P n (foldl (pick P) None [0..<n])"
proof (induct n)
  case 0
  then show ?case by (simp add: best_of_def)
next
  case (Suc n)
  let ?b = "foldl (pick P) None [0..<n]"
  have step: "foldl (pick P) None [0..<Suc n] = pick P ?b n" by simp
  have "best_of P (Suc n) (pick P ?b n)"
  proof (cases ?b)
    case None
    then show ?thesis using Suc by (auto simp: pick_def [of P None n] best_of_def less_Suc_eq sched_lt_irrefl)
  next
    case (Some b)
    then have ih: "b < n" "pstate (P b) = RUNNABLE" "\<And>i. i < n \<Longrightarrow> pstate (P i) = RUNNABLE \<Longrightarrow> \<not> sched_lt (P i) (P b)"
      "\<And>i. i < b \<Longrightarrow> pstate (P i) = RUNNABLE \<Longrightarrow> sched_lt (P b) (P i)"
      using Suc by (auto simp: best_of_def)
    show ?thesis
    proof (cases "pstate (P n) = RUNNABLE \<and> sched_lt (P n) (P b)")
      case True
      then have "\<not> sched_lt (P i) (P n)" if "i < n" "pstate (P i) = RUNNABLE" for i
        using ih(3) [OF that] sched_lt_mix sched_lt_trans sched_lt_irrefl by blast
      moreover have "sched_lt (P n) (P i)" if "i < n" "pstate (P i) = RUNNABLE" for i
        using ih(3) [OF that] True sched_lt_mix by blast
      ultimately show ?thesis using True Some
        by (auto simp: pick_def [of P "Some b" n] best_of_def less_Suc_eq sched_lt_irrefl)
    next
      case False
      then show ?thesis using Some ih by (auto simp: pick_def [of P "Some b" n] best_of_def less_Suc_eq)
    qed
  qed
  then show ?case by (simp only: step)
qed

lemma scheduler_eq:
  assumes "\<And>i. ProcLock i \<notin> held s"
  shows "\<exists>best. best_of (procs s) NPROC best \<and>
    scheduler s = Some (best, case best of None \<Rightarrow> s | Some b \<Rightarrow>
      s\<lparr>held := insert (ProcLock b) (held s), procs := (procs s)(b := (procs s b)\<lparr>pstate := RUNNING,
        start_time := ucast (ticks s), run_time := 0, sleep_time := 0, n_runs := n_runs (procs s b) + 1\<rparr>),
        cur := Some b\<rparr>)"
proof -
  let ?b = "foldl (pick (procs s)) None [0..<NPROC]"
  have "sched_scan [0..<NPROC] None 999999 s =
      Some (?b, (case ?b of None \<Rightarrow> 999999 | Some b \<Rightarrow> dyn_prio (procs s b)), s\<lparr>held := lock_of ?b \<union> held s\<rparr>)"
    using sched_scan_eq [of "[0..<NPROC]" "held s" None s] assms by (simp add: lock_of_def Let_def)
  then show ?thesis using foldl_pick [of "procs s" NPROC]
    by (intro exI [of _ ?b]) (auto simp: scheduler_def upd_proc_def lock_of_def split: option.splits)
qed

subsection \<open>Memory growth\<close>

lemma uvmdealloc_result:
  "uvmdealloc pt osz nsz s = Some (r, t) \<Longrightarrow> r \<le> osz"
  by (auto simp: uvmdealloc_def bind_eq_Some_conv split: if_splits)

lemma ucast_down_le: "ucast (ucast a :: u32) \<le> (a :: u64)"
  by (simp add: word_le_nat_alt unsigned_ucast_eq unsigned_take_bit_eq)

lemma uvmalloc_le: "uvmalloc pt osz nsz s = Some (r, t) \<Longrightarrow> osz \<le> b \<Longrightarrow> nsz \<le> b \<Longrightarrow> r \<le> b"
  using uvmalloc_result [of pt osz nsz s r t]
  by (cases "nsz < osz") (auto simp: uvmalloc_def not_less)

lemma growproc_keeps_limit:
  assumes "growproc n s = Some (r, t)" and "cur s = Some p" and "sz (procs s p) \<le> max_mem (procs s p)"
  shows "sz (procs t p) \<le> max_mem (procs t p) \<and> max_mem (procs t p) = max_mem (procs s p)"
proof -
  let ?z = "ucast (sz (procs s p)) :: u32"
  have z: "ucast ?z \<le> max_mem (procs s p)" using ucast_down_le assms(3) order.trans by blast
  have low: "ucast (ucast x :: u32) \<le> max_mem (procs s p)" if "x \<le> max_mem (procs s p)" for x :: u64
    using ucast_down_le that order.trans by blast
  have grow: "procs u = procs s \<and> ucast (ucast a :: u32) \<le> max_mem (procs s p)"
    if "uvmalloc pt (ucast ?z) nsz s = Some (a, u)" "nsz \<le> max_mem (procs s p)" for pt nsz a u
    using kmem_only_proc [OF uvmalloc_only [OF that(1)]] low [OF uvmalloc_le [OF that(1) z that(2)]] by simp
  have shrink: "procs u = procs s \<and> ucast (ucast a :: u32) \<le> max_mem (procs s p)"
    if "uvmdealloc pt (ucast ?z) nsz s = Some (a, u)" for pt nsz a u
    using kmem_only_proc [OF uvmdealloc_only [OF that]] low [OF order.trans [OF uvmdealloc_result [OF that] z]] by simp
  show ?thesis
    using assms(1,2) z assms(3)
    by (auto simp: growproc_def myproc_def bind_eq_Some_conv Let_def not_less split: if_splits
        dest!: grow shrink)
qed

subsection \<open>Allocation and release\<close>

definition freed :: "proc \<Rightarrow> proc" where
  "freed q = q\<lparr>trapframe := 0, pagetable := 0, sz := 0, pid := 0, parent := None,
     p_name := (p_name q)(0 := 0), chan := None, killed := 0, xstate := 0, pstate := UNUSED\<rparr>"

lemma proc_freepagetable_only: "proc_freepagetable pt n s = Some t \<Longrightarrow> kmem_only s t"
  by (auto simp: proc_freepagetable_def bind_eq_Some_conv dest!: uvmunmap_only uvmfree_only intro: kmem_only_trans)

lemma proc_pagetable_only: "proc_pagetable p s = Some (r, t) \<Longrightarrow> kmem_only s t"
  by (auto simp: proc_pagetable_def bind_eq_Some_conv split: if_splits
      dest!: uvmcreate_only mappages_only uvmunmap_only uvmfree_only)
    (meson kmem_only_trans)+

lemma freeproc_procs:
  assumes "freeproc p s = Some t"
  shows "procs t = (procs s)(p := freed (procs s p)) \<and> nextpid t = nextpid s \<and> held t = held s \<and>
    cur t = cur s \<and> ticks t = ticks s \<and> initproc t = initproc s"
proof -
  let ?F = "\<lambda>q. q\<lparr>pagetable := 0, sz := 0, pid := 0, parent := None,
     p_name := (p_name q)(0 := 0), chan := None, killed := 0, xstate := 0, pstate := UNUSED\<rparr>"
  obtain s1 where s1: "(if trapframe (procs s p) \<noteq> 0 then kfree (trapframe (procs s p)) s else Some s) = Some s1"
    using assms by (auto simp: freeproc_def bind_eq_Some_conv)
  let ?s2 = "upd_proc p (\<lambda>q. q\<lparr>trapframe := 0\<rparr>) s1"
  obtain s3 where s3: "(if pagetable (procs ?s2 p) \<noteq> 0
           then proc_freepagetable (pagetable (procs ?s2 p)) (sz (procs ?s2 p)) ?s2 else Some ?s2) = Some s3"
    and t: "t = upd_proc p ?F s3"
    using assms s1 by (auto simp: freeproc_def bind_eq_Some_conv Let_def)
  have "kmem_only s s1" using s1 by (cases "trapframe (procs s p) = 0") (auto dest: kfree_only)
  note k1 = kmem_only_proc [OF this]
  have "kmem_only ?s2 s3" using s3 by (cases "pagetable (procs ?s2 p) = 0") (auto dest: proc_freepagetable_only)
  note k3 = kmem_only_proc [OF this]
  have "?F ((procs s p)\<lparr>trapframe := 0\<rparr>) = freed (procs s p)" by (simp add: freed_def)
  then show ?thesis using k1 k3 by (simp add: t)
qed

lemma alloc_scan_spec:
  assumes "alloc_scan is s = Some (r, t)"
  shows "case r of None \<Rightarrow> t = s
    | Some p \<Rightarrow> p \<in> set is \<and> pstate (procs s p) = UNUSED \<and> ProcLock p \<notin> held s \<and>
        t = s\<lparr>held := insert (ProcLock p) (held s)\<rparr>"
  using assms
proof (induct "is" arbitrary: s)
  case Nil
  then show ?case by simp
next
  case (Cons i "is")
  show ?case
  proof (cases "pstate (procs s i) = UNUSED")
    case True
    then show ?thesis using Cons.prems by (auto simp: bind_eq_Some_conv acq_eq_Some)
  next
    case False
    then have "alloc_scan is s = Some (r, t)"
      using Cons.prems by (auto simp: bind_eq_Some_conv acq_eq_Some rel_eq_Some)
    from Cons.hyps [OF this] show ?thesis by (auto split: option.splits)
  qed
qed

text \<open>The slot that is taken is the first free one.\<close>

lemma alloc_scan_first:
  "alloc_scan is s = Some (Some p, t) \<Longrightarrow> List.find (\<lambda>i. pstate (procs s i) = UNUSED) is = Some p"
proof (induct "is" arbitrary: s)
  case (Cons i "is")
  show ?case
  proof (cases "pstate (procs s i) = UNUSED")
    case True
    then show ?thesis using Cons.prems by (auto simp: bind_eq_Some_conv acq_eq_Some)
  next
    case False
    then have "alloc_scan is s = Some (Some p, t)"
      using Cons.prems by (auto simp: bind_eq_Some_conv acq_eq_Some rel_eq_Some)
    from Cons.hyps [OF this] False show ?thesis by simp
  qed
qed simp

lemma allocproc_first:
  assumes "allocproc s = Some (Some p, t)"
  shows "List.find (\<lambda>i. pstate (procs s i) = UNUSED) [0..<NPROC] = Some p"
proof -
  obtain fd s1 where sc: "alloc_scan [0..<NPROC] s = Some (fd, s1)"
    using assms by (auto simp: allocproc_def bind_eq_Some_conv)
  then have "fd = Some p"
    using assms by (cases fd) (auto simp: allocproc_def bind_eq_Some_conv Let_def split: if_splits)
  then show ?thesis using alloc_scan_first sc by blast
qed

lemma allocproc_cases:
  assumes "allocproc s = Some (r, t)"
  obtains (full) "r = None" "t = s"
  | (failed) p where "r = None" "p < NPROC" "pstate (procs s p) = UNUSED" "held t = held s"
      "procs t = (procs s)(p := procs t p)" "pstate (procs t p) = UNUSED" "pid (procs t p) = 0"
      "nextpid t = nextpid s + 1" "cur t = cur s"
  | (found) p tf pt c where "r = Some p" "p < NPROC" "pstate (procs s p) = UNUSED"
      "held t = insert (ProcLock p) (held s)" "ProcLock p \<notin> held s" "tf \<noteq> 0" "pt \<noteq> 0"
      "procs t = (procs s)(p := (init_proc (nextpid s) (ticks s) (procs s p))
         \<lparr>trapframe := tf, pagetable := pt, p_context := c\<rparr>)"
      "nextpid t = nextpid s + 1" "cur t = cur s"
proof -
  obtain fd s1 where sc: "alloc_scan [0..<NPROC] s = Some (fd, s1)"
    using assms by (auto simp: allocproc_def bind_eq_Some_conv)
  show thesis
  proof (cases fd)
    case None
    then show ?thesis using alloc_scan_spec [OF sc] assms sc full by (simp add: allocproc_def)
  next
    case (Some p)
    then have p: "p < NPROC" "pstate (procs s p) = UNUSED" "ProcLock p \<notin> held s"
      "s1 = s\<lparr>held := insert (ProcLock p) (held s)\<rparr>" using alloc_scan_spec [OF sc] by auto
    have pl: "allocpid s1 = Some (n, u) \<Longrightarrow> n = nextpid s \<and> procs u = procs s \<and> nextpid u = nextpid s + 1 \<and>
        held u = held s1 \<and> ticks u = ticks s \<and> cur u = cur s" for n u
      by (auto simp: allocpid_def bind_eq_Some_conv acq_eq_Some rel_eq_Some p(4) Let_def)
    let ?q = "init_proc (nextpid s) (ticks s) (procs s p)"
    obtain n s2 where s2: "allocpid s1 = Some (n, s2)"
      using assms sc Some by (auto simp: allocproc_def bind_eq_Some_conv)
    note i2 = pl [OF s2]
    let ?s3 = "upd_proc p (init_proc n (ticks s2)) s2"
    obtain tf s4 where s4: "kalloc ?s3 = Some (tf, s4)"
      using assms sc Some s2 by (auto simp: allocproc_def bind_eq_Some_conv Let_def)
    note i4 = kmem_only_proc [OF kalloc_only [OF s4]]
    let ?s5 = "upd_proc p (\<lambda>q. q\<lparr>trapframe := tf\<rparr>) s4"
    have p5: "procs ?s5 = (procs s)(p := ?q\<lparr>trapframe := tf\<rparr>)" using i4 i2 by simp
    have giveup: thesis if u: "freeproc p u = Some v" "rel (ProcLock p) v = Some t" "r = None"
      and e: "\<And>i. i \<noteq> p \<Longrightarrow> procs u i = procs s i" "nextpid u = nextpid s + 1" "held u = held s1" "cur u = cur s" for u v
      using freeproc_procs [OF u(1)] u(2,3) e p by (intro failed [of p]) (auto simp: rel_eq_Some freed_def fun_eq_iff)
    show ?thesis
    proof (cases "tf = 0")
      case True
      then obtain v where "freeproc p ?s5 = Some v" "rel (ProcLock p) v = Some t" "r = None"
        using assms sc Some s2 s4 by (auto simp: allocproc_def bind_eq_Some_conv Let_def)
      then show ?thesis by (rule giveup) (use p5 i4 i2 in auto)
    next
      case tf: False
      obtain pt s6 where s6: "proc_pagetable p ?s5 = Some (pt, s6)"
        using assms sc Some s2 s4 tf by (auto simp: allocproc_def bind_eq_Some_conv Let_def)
      note i6 = kmem_only_proc [OF proc_pagetable_only [OF s6]]
      let ?s7 = "upd_proc p (\<lambda>q. q\<lparr>pagetable := pt\<rparr>) s6"
      show ?thesis
      proof (cases "pt = 0")
        case True
        then obtain v where "freeproc p ?s7 = Some v" "rel (ProcLock p) v = Some t" "r = None"
          using assms sc Some s2 s4 tf s6 by (auto simp: allocproc_def bind_eq_Some_conv Let_def)
        then show ?thesis by (rule giveup) (use p5 i4 i2 i6 in auto)
      next
        case pt: False
        let ?c = "\<lparr>ra = forkret_pc ?s7, sp = kstack (procs ?s7 p) + PGSIZE, callee_saved = (\<lambda>_. 0)\<rparr>"
        have "r = Some p" "t = upd_proc p (\<lambda>q. q\<lparr>p_context := ?c\<rparr>) ?s7"
          using assms sc Some s2 s4 tf s6 pt
          by (auto simp: allocproc_def Let_def intro!: upd_proc_cong)
        then show ?thesis
          using p tf pt p5 i6 i4 i2 by (intro found [of p tf pt ?c]) auto
      qed
    qed
  qed
qed

subsection \<open>The invariant of the table\<close>

text \<open>Free slots have identifier 0; the others have distinct positive ones below \<open>nextpid\<close>.\<close>

definition pids_ok :: "(nat \<Rightarrow> proc) \<Rightarrow> int \<Rightarrow> bool" where
  "pids_ok P n \<longleftrightarrow> 0 < n \<and> (\<forall>i<NPROC. if pstate (P i) = UNUSED then pid (P i) = 0 else 0 < pid (P i) \<and> pid (P i) < n) \<and>
     (\<forall>i<NPROC. \<forall>j<NPROC. pid (P i) = pid (P j) \<and> pid (P i) \<noteq> 0 \<longrightarrow> i = j)"

lemma pids_ok_same:
  "pids_ok P n \<Longrightarrow> (\<And>i. pid (Q i) = pid (P i) \<and> (pstate (Q i) = UNUSED \<longleftrightarrow> pstate (P i) = UNUSED)) \<Longrightarrow> pids_ok Q n"
  unfolding pids_ok_def by simp

lemma pids_ok_slot: "pids_ok P n \<Longrightarrow> i < NPROC \<Longrightarrow> (if pstate (P i) = UNUSED then pid (P i) = 0 else 0 < pid (P i) \<and> pid (P i) < n)"
  and pids_ok_inj: "pids_ok P n \<Longrightarrow> i < NPROC \<Longrightarrow> j < NPROC \<Longrightarrow> pid (P i) = pid (P j) \<Longrightarrow> pid (P i) \<noteq> 0 \<Longrightarrow> i = j"
  and pids_ok_pos: "pids_ok P n \<Longrightarrow> 0 < n"
  by (simp_all add: pids_ok_def)

lemma pids_ok_below: "pids_ok P n \<Longrightarrow> i < NPROC \<Longrightarrow> 0 \<le> pid (P i) \<and> pid (P i) < n"
  using pids_ok_slot [of P n i] pids_ok_pos [of P n] by (cases "pstate (P i) = UNUSED") auto

lemma pids_ok_upd:
  assumes ok: "pids_ok P n" and "n \<le> m"
    and q: "if pstate q = UNUSED then pid q = 0 else 0 < pid q \<and> pid q < m"
    and new: "\<And>i. i < NPROC \<Longrightarrow> i \<noteq> p \<Longrightarrow> pid (P i) = pid q \<Longrightarrow> pid q = 0"
  shows "pids_ok (P(p := q)) m"
  unfolding pids_ok_def
proof (intro conjI allI impI)
  show "0 < m" using pids_ok_pos [OF ok] assms(2) by simp
  show "if pstate ((P(p := q)) i) = UNUSED then pid ((P(p := q)) i) = 0 else 0 < pid ((P(p := q)) i) \<and> pid ((P(p := q)) i) < m"
    if "i < NPROC" for i using q pids_ok_slot [OF ok that] assms(2) by (cases "i = p") (auto split: if_splits)
  show "i = j" if "i < NPROC" "j < NPROC" "pid ((P(p := q)) i) = pid ((P(p := q)) j) \<and> pid ((P(p := q)) i) \<noteq> 0" for i j
    using that new [of i] new [of j] pids_ok_inj [OF ok that(1,2)] by (cases "i = p"; cases "j = p") auto
qed

lemma pids_ok_free: "pids_ok P n \<Longrightarrow> pstate q = UNUSED \<Longrightarrow> pid q = 0 \<Longrightarrow> n \<le> m \<Longrightarrow> pids_ok (P(p := q)) m"
  by (rule pids_ok_upd) auto

lemma pids_ok_new: "pids_ok P n \<Longrightarrow> pstate q \<noteq> UNUSED \<Longrightarrow> pid q = n \<Longrightarrow> pids_ok (P(p := q)) (n + 1)"
  using pids_ok_below [of P n] pids_ok_pos [of P n] by (intro pids_ok_upd) force+

lemma pids_ok_woken: "pids_ok P n \<Longrightarrow> pids_ok (woken ch me P) n"
  by (erule pids_ok_same) (auto simp: woken_def)

lemma pids_ok_ticked: "pids_ok P n \<Longrightarrow> pids_ok (ticked P) n"
  by (erule pids_ok_same) (auto simp: ticked_def)

lemma init_proc_simps [simp]:
  "pid (init_proc n now p) = n" "pstate (init_proc n now p) = USED" "priority (init_proc n now p) = 60"
  "max_mem (init_proc n now p) = 128 * 1024" "killed (init_proc n now p) = killed p"
  "kstack (init_proc n now p) = kstack p" "n_runs (init_proc n now p) = 0" "sz (init_proc n now p) = sz p"
  by (simp_all add: init_proc_def Let_def)

lemma allocproc_pids: "allocproc s = Some (r, t) \<Longrightarrow> pids_ok (procs s) (nextpid s) \<Longrightarrow> pids_ok (procs t) (nextpid t)"
proof (erule allocproc_cases)
  fix p assume "procs t = (procs s)(p := procs t p)" "pstate (procs t p) = UNUSED" "pid (procs t p) = 0"
    "nextpid t = nextpid s + 1" "pids_ok (procs s) (nextpid s)"
  then show ?thesis using pids_ok_free [of "procs s" "nextpid s" "procs t p" "nextpid t" p] by simp
qed (auto intro: pids_ok_new)

lemma freed_simps [simp]: "pstate (freed q) = UNUSED" "pid (freed q) = 0" "parent (freed q) = None"
  "killed (freed q) = 0" "chan (freed q) = None"
  by (simp_all add: freed_def)

subsection \<open>Signals\<close>

lemma kill_scan_eq:
  assumes "\<And>i. i \<in> set is \<Longrightarrow> ProcLock i \<notin> held s"
  shows "kill_scan n is s = Some (case List.find (\<lambda>i. pid (procs s i) = n) is of None \<Rightarrow> (- 1, s)
    | Some i \<Rightarrow> (0, upd_proc i (\<lambda>q. q\<lparr>killed := 1, pstate := (if pstate q = SLEEPING then RUNNABLE else pstate q)\<rparr>) s))"
  using assms
proof (induct "is")
  case Nil
  then show ?case by simp
next
  case (Cons i "is")
  then show ?case by (simp add: acq_def rel_def upd_proc_def Let_def)
qed

lemma setprio_scan_eq:
  assumes "\<And>i. i \<in> set is \<Longrightarrow> ProcLock i \<notin> held s"
  shows "setprio_scan np n is s = (case List.find (\<lambda>i. pid (procs s i) = n) is of None \<Rightarrow> Some (0, False, s)
    | Some i \<Rightarrow> (let prev = sint (ucast (priority (procs s i)) :: u32);
         t = upd_proc i (\<lambda>q. q\<lparr>priority := word_of_int np, sleep_time := 0, run_time := 0\<rparr>) s in
       if np < prev then map_option (\<lambda>u. (prev, True, u)) (yield_enter t) else Some (prev, False, t)))"
  using assms
proof (induct "is")
  case Nil
  then show ?case by simp
next
  case (Cons i "is")
  then show ?case by (simp add: acq_def rel_def upd_proc_def Let_def map_conv_bind_option comp_def)
qed

subsection \<open>Waiting\<close>

definition is_child :: "(nat \<Rightarrow> proc) \<Rightarrow> nat \<Rightarrow> nat \<Rightarrow> bool" where
  "is_child P p i \<longleftrightarrow> parent (P i) = Some p"

lemma wait_scan_spec:
  assumes "wait_scan addr p hk is s = Some (r, t)" and "WaitLock \<in> held s" and "\<And>i. ProcLock i \<notin> held s"
  shows "case r of
      ScanOn hk' \<Rightarrow> t = s \<and> hk' = (hk \<or> (\<exists>i\<in>set is. is_child (procs s) p i)) \<and>
        (\<forall>i\<in>set is. is_child (procs s) p i \<longrightarrow> pstate (procs s i) \<noteq> ZOMBIE)
    | ScanRet n \<Rightarrow> held t = held s - {WaitLock} \<and> cur t = cur s \<and> nextpid t = nextpid s \<and>
        (\<exists>i\<in>set is. is_child (procs s) p i \<and> pstate (procs s i) = ZOMBIE \<and>
          (n = - 1 \<and> procs t = procs s \<and> addr \<noteq> 0 \<or> n = pid (procs s i) \<and> procs t = (procs s)(i := freed (procs s i))))"
  using assms
proof (induct "is" arbitrary: hk)
  case Nil
  then show ?case by auto
next
  case (Cons i "is")
  show ?case
  proof (cases "is_child (procs s) p i \<and> pstate (procs s i) = ZOMBIE")
    case True
    let ?s = "s\<lparr>held := insert (ProcLock i) (held s)\<rparr>"
    obtain c s1 where c: "(if addr \<noteq> 0 then copyout (pagetable (procs s p)) addr (le32 (word_of_int (xstate (procs s i)))) ?s
        else Some (0, ?s)) = Some (c, s1)"
      using Cons.prems True by (auto simp: is_child_def acq_def bind_eq_Some_conv Let_def split: if_splits)
    then have s1: "procs s1 = procs s \<and> nextpid s1 = nextpid s \<and> cur s1 = cur s \<and> held s1 = held ?s"
      by (cases "addr = 0") (auto dest: kmem_only_proc [OF copyout_only])
    show ?thesis
    proof (cases "c < 0")
      case neg: True
      then have "addr \<noteq> 0" using c by (auto split: if_splits)
      then show ?thesis using Cons.prems True c neg s1
        by (auto simp: is_child_def acq_def bind_eq_Some_conv Let_def rel_eq_Some cong: if_cong)
    next
      case pos: False
      then obtain s2 s3 where s2: "freeproc i s1 = Some s2" "rel (ProcLock i) s2 = Some s3" "rel WaitLock s3 = Some t"
        "r = ScanRet (pid (procs s i))"
        using Cons.prems True c by (auto simp: is_child_def acq_def bind_eq_Some_conv Let_def cong: if_cong)
      then show ?thesis using freeproc_procs [OF s2(1)] s1 True Cons.prems(3) by (auto simp: rel_eq_Some)
    qed
  next
    case False
    then have step: "wait_scan addr p (hk \<or> is_child (procs s) p i) is s = Some (r, t)"
      using Cons.prems by (auto simp: is_child_def acq_def rel_def split: if_splits)
    from Cons.hyps [OF this Cons.prems(2,3)] False show ?thesis
      by (auto split: scan_out.splits)
  qed
qed

subsection \<open>Runs of table operations\<close>

text \<open>The steps the kernel takes on the table: a running process executes one of the operations on
  it, the clock ticks, or the scheduler dispatches a process and takes the processor back.\<close>

definition running :: "'a proc_st_scheme \<Rightarrow> bool" where
  "running s \<longleftrightarrow> (\<exists>p. cur s = Some p \<and> pstate (procs s p) = RUNNING)"

inductive tab_step :: "proc_st \<Rightarrow> proc_st \<Rightarrow> bool" where
  tab_alloc: "running s \<Longrightarrow> allocproc s = Some (r, t) \<Longrightarrow> tab_step s t"
| tab_grow: "running s \<Longrightarrow> growproc n s = Some (r, t) \<Longrightarrow> tab_step s t"
| tab_wait: "running s \<Longrightarrow> wait addr s = Some (res, t) \<Longrightarrow> (\<And>i. ProcLock i \<notin> held s) \<Longrightarrow> tab_step s t"
| tab_sleep: "running s \<Longrightarrow> sleep_enter ch lk s = Some t \<Longrightarrow> tab_step s t"
| tab_resume: "sleep_exit lk s = Some t \<Longrightarrow> tab_step s t"
| tab_yield: "running s \<Longrightarrow> yield_enter s = Some t \<Longrightarrow> tab_step s t"
| tab_wakeup: "wakeup ch s = Some t \<Longrightarrow> tab_step s t"
| tab_kill: "running s \<Longrightarrow> kill n s = Some (r, t) \<Longrightarrow> (\<And>i. ProcLock i \<notin> held s) \<Longrightarrow> tab_step s t"
| tab_reparent: "running s \<Longrightarrow> reparent p s = Some t \<Longrightarrow> tab_step s t"
| tab_tick: "update_time s = Some t \<Longrightarrow> (\<And>i. ProcLock i \<notin> held s) \<Longrightarrow> tab_step s t"
| tab_sched: "scheduler s = Some (b, t) \<Longrightarrow> (\<And>i. ProcLock i \<notin> held s) \<Longrightarrow> tab_step s t"
| tab_back: "scheduler_back b s = Some t \<Longrightarrow> tab_step s t"

inductive tab_reach :: "proc_st \<Rightarrow> proc_st \<Rightarrow> bool" for s where
  tab_start: "tab_reach s s"
| tab_more: "tab_reach s t \<Longrightarrow> tab_step t u \<Longrightarrow> tab_reach s u"

text \<open>Most steps change neither identifiers nor which slots are free.\<close>

definition same_pids :: "'a proc_st_scheme \<Rightarrow> 'a proc_st_scheme \<Rightarrow> bool" where
  "same_pids s t \<longleftrightarrow> nextpid t = nextpid s \<and>
     (\<forall>i. pid (procs t i) = pid (procs s i) \<and> (pstate (procs t i) = UNUSED \<longleftrightarrow> pstate (procs s i) = UNUSED))"

lemma same_pids_refl [simp]: "same_pids s s"
  by (simp add: same_pids_def)

lemma same_pids_trans: "same_pids s t \<Longrightarrow> same_pids t u \<Longrightarrow> same_pids s u"
  by (simp add: same_pids_def)

lemma same_pids_ok: "same_pids s t \<Longrightarrow> pids_ok (procs s) (nextpid s) \<Longrightarrow> pids_ok (procs t) (nextpid t)"
  unfolding same_pids_def by (metis pids_ok_same)

lemma same_pids_upd:
  "(pid (f (procs s i)) = pid (procs s i) \<and> (pstate (f (procs s i)) = UNUSED \<longleftrightarrow> pstate (procs s i) = UNUSED)) \<Longrightarrow>
     same_pids s (upd_proc i f s)"
  by (simp add: same_pids_def)

lemma same_pids_acq: "acq l s = Some t \<Longrightarrow> same_pids s t" and same_pids_rel: "rel l s = Some t \<Longrightarrow> same_pids s t"
  by (auto simp: acq_eq_Some rel_eq_Some same_pids_def)

lemma wakeup_pids:
  assumes "wakeup ch s = Some t" shows "same_pids s t"
proof (rule for_each_invariant [where I = "same_pids s", OF assms [unfolded wakeup_def]])
  fix i u v
  assume "same_pids s u" and "(if Some i \<noteq> myproc u then do {
         u \<leftarrow> acq (ProcLock i) u;
         let u = (if pstate (procs u i) = SLEEPING \<and> chan (procs u i) = Some ch
                  then upd_proc i (\<lambda>q. q\<lparr>pstate := RUNNABLE\<rparr>) u else u);
         rel (ProcLock i) u }
       else Some u) = Some v"
  then have "same_pids s u" "same_pids u v"
    by (auto simp: acq_eq_Some rel_eq_Some bind_eq_Some_conv Let_def same_pids_def [of u v] split: if_splits)
  then show "same_pids s v" by (rule same_pids_trans)
qed simp

lemma reparent_pids:
  assumes "reparent p s = Some t" shows "same_pids s t"
proof (rule for_each_invariant [where I = "same_pids s", OF assms [unfolded reparent_def]])
  fix i u v
  assume u: "same_pids s u" and "(if parent (procs u i) = Some p then do {
         let u = upd_proc i (\<lambda>q. q\<lparr>parent := initproc u\<rparr>) u;
         ip \<leftarrow> initproc u;
         wakeup (ChProc ip) u }
       else Some u) = Some v"
  moreover have "same_pids u (upd_proc i (\<lambda>q. q\<lparr>parent := initproc u\<rparr>) u)" by (rule same_pids_upd) simp
  ultimately show "same_pids s v"
    by (auto simp: bind_eq_Some_conv Let_def split: if_splits dest!: wakeup_pids intro: same_pids_trans)
qed simp

lemma sched_same: "sched s = Some t \<Longrightarrow> t = s"
  by (auto simp: sched_def bind_eq_Some_conv)

lemma acq_procs: "acq l s = Some t \<Longrightarrow> procs t = procs s \<and> cur t = cur s"
  and rel_procs: "rel l s = Some t \<Longrightarrow> procs t = procs s \<and> cur t = cur s"
  for s :: "'a proc_st_scheme"
  by (auto simp: acq_eq_Some rel_eq_Some)

lemma sleep_enter_spec:
  assumes "sleep_enter ch lk s = Some t" and "cur s = Some p"
  shows "procs t = (procs s)(p := (procs s p)\<lparr>chan := Some ch, pstate := SLEEPING\<rparr>)"
    and "held t = {ProcLock p}" and "nextpid t = nextpid s" and "cur t = Some p"
proof -
  obtain s1 s2 where s: "acq (ProcLock p) s = Some s1" "rel lk s1 = Some s2"
    "sched (upd_proc p (\<lambda>q. q\<lparr>chan := Some ch, pstate := SLEEPING\<rparr>) s2) = Some t"
    using assms by (auto simp: sleep_enter_def myproc_def bind_eq_Some_conv Let_def)
  have t: "t = upd_proc p (\<lambda>q. q\<lparr>chan := Some ch, pstate := SLEEPING\<rparr>) s2" using sched_same [OF s(3)] .
  have "cur s2 = Some p" "procs s2 = procs s" "nextpid s2 = nextpid s"
    using s(1,2) assms(2) by (auto simp: acq_eq_Some rel_eq_Some)
  then show "procs t = (procs s)(p := (procs s p)\<lparr>chan := Some ch, pstate := SLEEPING\<rparr>)"
    and "held t = {ProcLock p}" and "nextpid t = nextpid s" and "cur t = Some p"
    using s(3) by (simp_all add: t sched_def myproc_def bind_eq_Some_conv)
qed

lemma sleep_enter_pids:
  assumes "running s" and "sleep_enter ch lk s = Some t"
  shows "same_pids s t"
proof -
  obtain p where p: "cur s = Some p" "pstate (procs s p) = RUNNING" using assms(1) by (auto simp: running_def)
  then show ?thesis using sleep_enter_spec [OF assms(2) p(1)] by (simp add: same_pids_def)
qed

lemma yield_enter_pids:
  assumes "running s" and "yield_enter s = Some t"
  shows "same_pids s t"
proof -
  obtain p where p: "cur s = Some p" "pstate (procs s p) = RUNNING" using assms(1) by (auto simp: running_def)
  obtain s1 where s: "acq (ProcLock p) s = Some s1" "t = upd_proc p (\<lambda>q. q\<lparr>pstate := RUNNABLE\<rparr>) s1"
    using assms(2) p by (auto simp: yield_enter_def myproc_def bind_eq_Some_conv Let_def dest: sched_same)
  have "same_pids s1 t" unfolding s(2) by (rule same_pids_upd) (use acq_procs [OF s(1)] p in simp)
  then show ?thesis using same_pids_acq [OF s(1)] same_pids_trans by blast
qed

lemma sleep_exit_pids:
  assumes "sleep_exit lk s = Some t" shows "same_pids s t"
proof -
  obtain p s1 where "rel (ProcLock p) (upd_proc p (\<lambda>q. q\<lparr>chan := None\<rparr>) s) = Some s1" "acq lk s1 = Some t"
    using assms by (auto simp: sleep_exit_def bind_eq_Some_conv Let_def)
  moreover have "same_pids s (upd_proc p (\<lambda>q. q\<lparr>chan := None\<rparr>) s)" by (rule same_pids_upd) simp
  ultimately show ?thesis using same_pids_acq same_pids_rel same_pids_trans by metis
qed

lemma scheduler_back_pids: "scheduler_back b s = Some t \<Longrightarrow> same_pids s t"
  by (auto simp: scheduler_back_def rel_eq_Some same_pids_def)

lemma growproc_pids: "growproc n s = Some (r, t) \<Longrightarrow> same_pids s t"
  by (auto simp: growproc_def bind_eq_Some_conv Let_def same_pids_def split: if_splits
      dest!: kmem_only_proc [OF uvmalloc_only] kmem_only_proc [OF uvmdealloc_only])

lemma scheduler_pids:
  assumes "scheduler s = Some (b, t)" and "\<And>i. ProcLock i \<notin> held s"
  shows "same_pids s t"
proof -
  obtain best where "best_of (procs s) NPROC best" and "scheduler s = Some (best, case best of None \<Rightarrow> s | Some b \<Rightarrow>
      s\<lparr>held := insert (ProcLock b) (held s), procs := (procs s)(b := (procs s b)\<lparr>pstate := RUNNING,
        start_time := ucast (ticks s), run_time := 0, sleep_time := 0, n_runs := n_runs (procs s b) + 1\<rparr>),
        cur := Some b\<rparr>)" using scheduler_eq [OF assms(2)] by blast
  then show ?thesis using assms(1) by (cases best) (auto simp: same_pids_def best_of_def)
qed

lemma kill_pids: "kill n s = Some (r, t) \<Longrightarrow> (\<And>i. ProcLock i \<notin> held s) \<Longrightarrow> same_pids s t"
  by (auto simp: kill_def kill_scan_eq split: option.splits if_splits intro!: same_pids_upd)

lemma wait_spec:
  assumes "wait addr s = Some (res, t)" and "cur s = Some p" and "\<And>i. ProcLock i \<notin> held s"
  shows "case res of
      Returns n \<Rightarrow> held t = held s \<and> nextpid t = nextpid s \<and>
        (procs t = procs s \<and> n = - 1 \<or> (\<exists>i<NPROC. is_child (procs s) p i \<and> pstate (procs s i) = ZOMBIE \<and>
          n = pid (procs s i) \<and> procs t = (procs s)(i := freed (procs s i))))
    | Sleeps \<Rightarrow> held t = {ProcLock p} \<and> nextpid t = nextpid s \<and>
        procs t = (procs s)(p := (procs s p)\<lparr>chan := Some (ChProc p), pstate := SLEEPING\<rparr>) \<and>
        (\<exists>i<NPROC. is_child (procs s) p i) \<and> killed (procs s p) = 0 \<and>
        (\<forall>i<NPROC. is_child (procs s) p i \<longrightarrow> pstate (procs s i) \<noteq> ZOMBIE)"
proof -
  let ?s = "s\<lparr>held := insert WaitLock (held s)\<rparr>"
  have wl: "WaitLock \<notin> held s" and lp: "wait_loop addr ?s = Some (res, t)"
    using assms(1) by (auto simp: wait_def bind_eq_Some_conv acq_eq_Some)
  obtain r u where sc: "wait_scan addr p False [0..<NPROC] ?s = Some (r, u)"
    using lp assms(2) by (auto simp: wait_loop_def myproc_def bind_eq_Some_conv)
  note sp = wait_scan_spec [OF sc, simplified, OF assms(3)]
  show ?thesis
  proof (cases r)
    case (ScanRet n)
    then have "res = Returns n" "t = u" using lp sc assms(2) by (auto simp: wait_loop_def myproc_def)
    then show ?thesis using sp ScanRet wl by (auto simp: Ball_def)
  next
    case (ScanOn hk)
    then have u: "u = ?s" and hk: "hk = (\<exists>i<NPROC. is_child (procs s) p i)"
      and nz: "\<forall>i<NPROC. is_child (procs s) p i \<longrightarrow> pstate (procs s i) \<noteq> ZOMBIE" using sp by (auto simp: Ball_def Bex_def)
    show ?thesis
    proof (cases "\<not> hk \<or> killed (procs s p) \<noteq> 0")
      case True
      then have "res = Returns (- 1)" "t = s"
        using lp sc assms(2) ScanOn u wl by (auto simp: wait_loop_def myproc_def rel_def)
      then show ?thesis by simp
    next
      case False
      then have "res = Sleeps" "sleep_enter (ChProc p) WaitLock ?s = Some t"
        using lp sc assms(2) ScanOn u by (auto simp: wait_loop_def myproc_def bind_eq_Some_conv)
      then show ?thesis using hk nz False assms(2) sleep_enter_spec [of "ChProc p" WaitLock ?s t p] by simp
    qed
  qed
qed

lemma tab_step_pids:
  assumes "tab_step s t" and "pids_ok (procs s) (nextpid s)"
  shows "pids_ok (procs t) (nextpid t)"
  using assms
proof (induction rule: tab_step.induct)
  case (tab_alloc s r t)
  then show ?case by (metis allocproc_pids)
next
  case (tab_wait s addr res t)
  then obtain p where p: "cur s = Some p" "pstate (procs s p) = RUNNING" by (auto simp: running_def)
  from wait_spec [OF tab_wait(2) p(1) tab_wait(3)] show ?case
  proof (cases res)
    case (Returns n)
    with wait_spec [OF tab_wait(2) p(1) tab_wait(3)] tab_wait.prems show ?thesis
      by (auto intro!: pids_ok_free simp del: fun_upd_apply)
  next
    case Sleeps
    have "same_pids s t"
      using wait_spec [OF tab_wait(2) p(1) tab_wait(3)] Sleeps p(2) by (auto simp: same_pids_def)
    then show ?thesis using tab_wait.prems by (rule same_pids_ok)
  qed
next
  case (tab_tick s t)
  then show ?case by (auto simp: update_time_eq intro: pids_ok_ticked)
qed (blast intro: same_pids_ok wakeup_pids reparent_pids sleep_enter_pids yield_enter_pids sleep_exit_pids scheduler_back_pids growproc_pids scheduler_pids kill_pids)+

lemma tab_reach_pids:
  assumes "tab_reach s t" and "pids_ok (procs s) (nextpid s)"
  shows "pids_ok (procs t) (nextpid t)"
  using assms by (induction rule: tab_reach.induct) (auto intro: tab_step_pids)

subsection \<open>Properties\<close>

text \<open>C7: the scheduler runs the best runnable process.  A pass returns; if no slot is runnable it changes
  nothing; otherwise it dispatches a runnable process \<open>b\<close> that no other runnable process beats on
  dynamic priority, then number of runs, then creation time, and that strictly beats every
  runnable process of a lower slot.  Then \<open>b\<close> is \<^verbatim>\<open>RUNNING\<close> on this processor with its run counted and its time
  statistics reset, its lock is held, every lock taken in the scan has been released, and no other
  slot has changed.\<close>

theorem scheduler_picks_best:
  assumes "\<And>i. ProcLock i \<notin> held s"
  shows "\<exists>best t. scheduler s = Some (best, t) \<and>
    (case best of
       None \<Rightarrow> t = s \<and> (\<forall>i<NPROC. pstate (procs s i) \<noteq> RUNNABLE)
     | Some b \<Rightarrow> b < NPROC \<and> pstate (procs s b) = RUNNABLE \<and>
         (\<forall>i<NPROC. pstate (procs s i) = RUNNABLE \<longrightarrow> \<not> sched_lt (procs s i) (procs s b)) \<and>
         (\<forall>i<b. pstate (procs s i) = RUNNABLE \<longrightarrow> sched_lt (procs s b) (procs s i)) \<and>
         held t = insert (ProcLock b) (held s) \<and> cur t = Some b \<and>
         procs t = (procs s)(b := (procs s b)\<lparr>pstate := RUNNING, start_time := ucast (ticks s),
           run_time := 0, sleep_time := 0, n_runs := n_runs (procs s b) + 1\<rparr>))"
proof -
  obtain best where "best_of (procs s) NPROC best"
    and "scheduler s = Some (best, case best of None \<Rightarrow> s | Some b \<Rightarrow>
      s\<lparr>held := insert (ProcLock b) (held s), procs := (procs s)(b := (procs s b)\<lparr>pstate := RUNNING,
        start_time := ucast (ticks s), run_time := 0, sleep_time := 0, n_runs := n_runs (procs s b) + 1\<rparr>),
        cur := Some b\<rparr>)"
    using scheduler_eq [OF assms] by blast
  then show ?thesis by (cases best) (simp_all add: best_of_def)
qed

text \<open>C36: the memory limit holds.  Whatever increment it is called with, \<^verbatim>\<open>growproc\<close> never leaves a process
  larger than its \<^verbatim>\<open>max_mem\<close>, and it does not change the limit.\<close>

theorem growproc_respects_limit:
  assumes "growproc n s = Some (r, t)" and "cur s = Some p" and "sz (procs s p) \<le> max_mem (procs s p)"
  shows "sz (procs t p) \<le> max_mem (procs t p) \<and> max_mem (procs t p) = max_mem (procs s p)"
  using assms by (rule growproc_keeps_limit)


text \<open>C29: \<^verbatim>\<open>wait\<close> reaps a dead child or tells why not.  If it returns a child's identifier, that child was a
  zombie child of the caller and exactly its slot has been cleared; otherwise the table is as
  before and the result is -1; and if it goes to sleep, the caller has children, none of them is a
  zombie, it is not killed, and it sleeps on its own channel holding only its own lock, so that
  an exiting child's wakeup will find it.\<close>

theorem wait_reaps_child:
  assumes "wait addr s = Some (res, t)" and "cur s = Some p" and "\<And>i. ProcLock i \<notin> held s"
  shows "case res of
      Returns n \<Rightarrow> held t = held s \<and>
        (procs t = procs s \<and> n = - 1 \<or> (\<exists>i<NPROC. is_child (procs s) p i \<and> pstate (procs s i) = ZOMBIE \<and>
          n = pid (procs s i) \<and> procs t = (procs s)(i := freed (procs s i))))
    | Sleeps \<Rightarrow> held t = {ProcLock p} \<and>
        procs t = (procs s)(p := (procs s p)\<lparr>chan := Some (ChProc p), pstate := SLEEPING\<rparr>) \<and>
        (\<exists>i<NPROC. is_child (procs s) p i) \<and> killed (procs s p) = 0 \<and>
        (\<forall>i<NPROC. is_child (procs s) p i \<longrightarrow> pstate (procs s i) \<noteq> ZOMBIE)"
  using wait_spec [OF assms] by (cases res) auto

text \<open>\<^verbatim>\<open>wakeup\<close> wakes exactly the sleepers of its channel: every other process that sleeps on it becomes
  runnable, no other field and no other slot changes, and all locks are released.\<close>

theorem wakeup_exact:
  assumes "proc_locks_free s"
  shows "\<exists>t. wakeup ch s = Some t \<and> held t = held s \<and>
    (\<forall>i. procs t i = (if i < NPROC \<and> Some i \<noteq> cur s \<and> pstate (procs s i) = SLEEPING \<and> chan (procs s i) = Some ch
       then (procs s i)\<lparr>pstate := RUNNABLE\<rparr> else procs s i))"
  by (simp add: wakeup_eq [OF assms] woken_def)

text \<open>the accounting of a clock tick: each running process has one more tick of run time and of total run
  time, each sleeping one has one more tick of sleep time, and nothing else changes.\<close>

theorem update_time_exact:
  assumes "\<And>i. i < NPROC \<Longrightarrow> ProcLock i \<notin> held s"
  shows "\<exists>t. update_time s = Some t \<and> held t = held s \<and> (\<forall>i. procs t i =
    (if i < NPROC \<and> pstate (procs s i) = RUNNING
     then (procs s i)\<lparr>run_time := run_time (procs s i) + 1, total_run_time := total_run_time (procs s i) + 1\<rparr>
     else if i < NPROC \<and> pstate (procs s i) = SLEEPING
     then (procs s i)\<lparr>sleep_time := sleep_time (procs s i) + 1\<rparr> else procs s i))"
  using assms by (simp add: update_time_eq ticked_def)

text \<open>C40: \<^verbatim>\<open>kill(0)\<close> succeeds on a free slot and poisons it.  With a free slot in a well-formed table the call
  returns 0 and marks the first free slot as killed, and since \<^verbatim>\<open>allocproc\<close> does not clear the flag, the next process
  created in that slot starts out killed.\<close>

theorem kill_zero_poisons_slot:
  assumes "pids_ok (procs s) (nextpid s)" and "\<And>i. ProcLock i \<notin> held s"
    and "List.find (\<lambda>i. pstate (procs s i) = UNUSED) [0..<NPROC] = Some i"
  shows "\<exists>t. kill 0 s = Some (0, t) \<and> pstate (procs t i) = UNUSED \<and> killed (procs t i) = 1 \<and>
    (\<forall>p u. allocproc t = Some (Some p, u) \<longrightarrow> p = i \<and> killed (procs u i) = 1)"
proof -
  let ?t = "upd_proc i (\<lambda>q. q\<lparr>killed := 1, pstate := (if pstate q = SLEEPING then RUNNABLE else pstate q)\<rparr>) s"
  have i: "i < NPROC" "pstate (procs s i) = UNUSED" "\<And>j. j < i \<Longrightarrow> pstate (procs s j) \<noteq> UNUSED"
    using assms(3) by (auto simp: find_upt)
  have zero: "pid (procs s j) = 0 \<longleftrightarrow> pstate (procs s j) = UNUSED" if "j < NPROC" for j
    using pids_ok_slot [OF assms(1) that] by (auto split: if_splits)
  have "List.find (\<lambda>j. pid (procs s j) = 0) [0..<NPROC] = Some i"
    unfolding find_upt using i zero order.strict_trans by blast
  then have k: "kill 0 s = Some (0, ?t)" by (simp add: kill_def kill_scan_eq assms(2))
  have free: "pstate (procs ?t i) = UNUSED" "killed (procs ?t i) = 1" using i(2) by simp_all
  have "p = i \<and> killed (procs u i) = 1" if "allocproc ?t = Some (Some p, u)" for p u
  proof -
    have "List.find (\<lambda>j. pstate (procs ?t j) = UNUSED) [0..<NPROC] = Some i"
      unfolding find_upt using i by simp
    then have "p = i" using allocproc_first [OF that] by (metis option.inject)
    with that free show ?thesis by (cases rule: allocproc_cases) auto
  qed
  then show ?thesis using k free by blast
qed

subsection \<open>A small process table\<close>

text \<open>The table the claims are tried on: the caller in slot 0, a zombie child of it in slot 1, a process
  asleep on the clock in slot 2, two runnable ones in slots 3 and 4, and no other process.\<close>

definition demo_proc :: proc where
  "demo_proc = \<lparr>pstate = UNUSED, chan = None, killed = 0, xstate = 0, pid = 0, parent = None, kstack = 0, sz = 0,
     pagetable = 0, trapframe = 0, p_context = \<lparr>ra = 0, sp = 0, callee_saved = (\<lambda>_. 0)\<rparr>, ofile = (\<lambda>_. None),
     cwd = None, p_name = (\<lambda>_. 0), trace_mask = 0, create_time = 0, run_time = 0, total_run_time = 0,
     wait_time = 0, start_time = 0, sleep_time = 0, exit_time = 0, n_runs = 0, priority = 60,
     max_mem = 0x20000, curr_mem = 0\<rparr>"

definition demo_procs :: "nat \<Rightarrow> proc" where
  "demo_procs = (\<lambda>_. demo_proc)(
     0 := demo_proc\<lparr>pstate := RUNNING, pid := 1\<rparr>,
     1 := demo_proc\<lparr>pstate := ZOMBIE, pid := 2, parent := Some 0, xstate := 7\<rparr>,
     2 := demo_proc\<lparr>pstate := SLEEPING, pid := 3, chan := Some ChTicks\<rparr>,
     3 := demo_proc\<lparr>pstate := RUNNABLE, pid := 4, n_runs := 2\<rparr>,
     4 := demo_proc\<lparr>pstate := RUNNABLE, pid := 5, n_runs := 1\<rparr>)"

definition demo_st :: proc_st where
  "demo_st = \<lparr>held = {}, mem = (\<lambda>_. 0), freelist = 0, kend = 0x80021000, etext = 0x80008000,
     trampoline = 0x80007000, kernel_pagetable = 0, procs = demo_procs, nextpid = 6, initproc = Some 0,
     ticks = 100, cur = Some 0, forkret_pc = 0, kbuf = 0\<rparr>"

lemma demo_st_simps [simp]: "held demo_st = {}" "cur demo_st = Some 0" "procs demo_st = demo_procs" "nextpid demo_st = 6"
  "ticks demo_st = 100" "freelist demo_st = 0" "mem demo_st = (\<lambda>_. 0)"
  by (simp_all add: demo_st_def)

lemma demo_pids: "pids_ok demo_procs 6"
  by (auto simp: pids_ok_def demo_procs_def demo_proc_def split: if_splits)

lemma demo_runnable: "pstate (demo_procs i) = RUNNABLE \<longleftrightarrow> i = 3 \<or> i = 4"
  by (simp add: demo_procs_def demo_proc_def)

theorem scheduler_picks_best_witness:
  "\<exists>t. scheduler demo_st = Some (Some 4, t) \<and> cur t = Some 4 \<and> pstate (procs t 4) = RUNNING \<and> n_runs (procs t 4) = 2"
proof -
  have lt: "sched_lt (demo_procs 4) (demo_procs 3)"
    by (simp add: sched_lt_def demo_procs_def demo_proc_def dyn_prio_def nice_of_def)
  have l: "ProcLock i \<notin> held demo_st" for i by simp
  obtain best t where s: "scheduler demo_st = Some (best, t)" and
    *: "case best of
       None \<Rightarrow> t = demo_st \<and> (\<forall>i<NPROC. pstate (procs demo_st i) \<noteq> RUNNABLE)
     | Some b \<Rightarrow> b < NPROC \<and> pstate (procs demo_st b) = RUNNABLE \<and>
         (\<forall>i<NPROC. pstate (procs demo_st i) = RUNNABLE \<longrightarrow> \<not> sched_lt (procs demo_st i) (procs demo_st b)) \<and>
         (\<forall>i<b. pstate (procs demo_st i) = RUNNABLE \<longrightarrow> sched_lt (procs demo_st b) (procs demo_st i)) \<and>
         held t = insert (ProcLock b) (held demo_st) \<and> cur t = Some b \<and>
         procs t = (procs demo_st)(b := (procs demo_st b)\<lparr>pstate := RUNNING, start_time := ucast (ticks demo_st),
           run_time := 0, sleep_time := 0, n_runs := n_runs (procs demo_st b) + 1\<rparr>)"
    using scheduler_picks_best [OF l] by blast
  have b: "best = Some 4"
  proof (cases best)
    case None
    with * show ?thesis using demo_runnable [of 3] by simp
  next
    case (Some b)
    have "\<not> sched_lt (demo_procs 4) (demo_procs b)" "b = 3 \<or> b = 4"
      using * demo_runnable [of 4] demo_runnable [of b] unfolding Some by simp_all
    with Some lt show ?thesis by auto
  qed
  have "cur t = Some 4" "procs t 4 = (demo_procs 4)\<lparr>pstate := RUNNING, start_time := ucast (ticks demo_st),
           run_time := 0, sleep_time := 0, n_runs := n_runs (demo_procs 4) + 1\<rparr>"
    using * unfolding b by simp_all
  then show ?thesis using s b by (simp add: demo_procs_def demo_proc_def)
qed

theorem growproc_respects_limit_witness:
  "\<exists>t. growproc 0x20001 demo_st = Some (- 1, t) \<and> sz (procs t 0) \<le> max_mem (procs t 0)"
proof -
  have "growproc 0x20001 demo_st = Some (- 1, demo_st)"
    by (simp add: growproc_def myproc_def demo_procs_def demo_proc_def)
  moreover from growproc_respects_limit [OF this, of 0] have "sz (procs demo_st 0) \<le> max_mem (procs demo_st 0)"
    by (simp add: demo_procs_def demo_proc_def)
  ultimately show ?thesis by blast
qed

lemma demo_wait:
  "\<exists>t. wait 0 demo_st = Some (Returns 2, t) \<and> procs t = demo_procs(1 := freed (demo_procs 1))"
proof -
  have u: "[0..<NPROC] = 0 # 1 # [2..<NPROC]" by (simp add: upt_conv_Cons numeral_2_eq_2)
  have p: "parent (demo_procs 0) = None" "parent (demo_procs (Suc 0)) = Some 0" "pstate (demo_procs (Suc 0)) = ZOMBIE"
    "trapframe (demo_procs (Suc 0)) = 0" "pagetable (demo_procs (Suc 0)) = 0" "pid (demo_procs (Suc 0)) = 2"
    by (simp_all add: demo_procs_def demo_proc_def)
  show ?thesis
    by (simp add: wait_def wait_loop_def myproc_def lock_simps u p freeproc_def freed_def upd_proc_def)
qed


theorem wait_reaps_child_witness:
  "\<exists>t. wait 0 demo_st = Some (Returns 2, t) \<and> pstate (procs t 1) = UNUSED"
proof -
  obtain t where t: "wait 0 demo_st = Some (Returns 2, t)" using demo_wait by blast
  have "\<exists>i<NPROC. pstate (demo_procs i) = ZOMBIE \<and> procs t = demo_procs(i := freed (demo_procs i))"
    using wait_reaps_child [OF t, of 0] by auto
  moreover have "pstate (demo_procs i) = ZOMBIE \<Longrightarrow> i = 1" for i
    by (simp add: demo_procs_def demo_proc_def split: if_splits)
  ultimately show ?thesis using t by auto
qed

theorem wakeup_exact_witness:
  "\<exists>t. wakeup ChTicks demo_st = Some t \<and> pstate (procs t 2) = RUNNABLE \<and> pstate (procs t 1) = ZOMBIE"
proof -
  have "proc_locks_free demo_st" by (simp add: proc_locks_free_def)
  from wakeup_exact [OF this, of ChTicks] show ?thesis
    by (auto simp: demo_procs_def demo_proc_def)
qed

theorem update_time_exact_witness:
  "\<exists>t. update_time demo_st = Some t \<and> run_time (procs t 0) = 1 \<and> sleep_time (procs t 2) = 1 \<and> run_time (procs t 3) = 0"
  using update_time_exact [of demo_st] by (auto simp: demo_procs_def demo_proc_def)

theorem kill_zero_poisons_slot_witness:
  "\<exists>t. kill 0 demo_st = Some (0, t) \<and> pstate (procs t 5) = UNUSED \<and> killed (procs t 5) = 1"
proof -
  have "List.find (\<lambda>i. pstate (procs demo_st i) = UNUSED) [0..<NPROC] = Some 5"
    unfolding find_upt by (auto simp: demo_procs_def demo_proc_def)
  from kill_zero_poisons_slot [OF _ _ this] show ?thesis using demo_pids by auto
qed

end
