(* ===== verification/Sleeplock.thy ===== *)
theory Sleeplock
  imports Proc_Laws
begin

text \<open>
  Sleep locks, \<^verbatim>\<open>kernel/sleeplock.c\<close>.  A process that finds the lock taken goes to sleep on it with
  \<^verbatim>\<open>sleep\<close>; \<open>acquiresleep_resume\<close> is the rest of the call, once the scheduler has switched back to
  it.  The state machine at the end interleaves the lock operations of all processes with the
  scheduler and shows that no wakeup is lost.
\<close>

record sleeplock =
  sl_locked :: u32
  sl_pid :: int

record sl_st = proc_st +
  slocks :: "sleeplock_id \<Rightarrow> sleeplock"

definition upd_sl :: "sleeplock_id \<Rightarrow> (sleeplock \<Rightarrow> sleeplock) \<Rightarrow> 'a sl_st_scheme \<Rightarrow> 'a sl_st_scheme" where
  "upd_sl l f s = s\<lparr>slocks := (slocks s)(l := f (slocks s l))\<rparr>"

definition initsleeplock :: "sleeplock_id \<Rightarrow> 'a sl_st_scheme \<Rightarrow> 'a sl_st_scheme" where
  "initsleeplock l s = upd_sl l (\<lambda>k. k\<lparr>sl_locked := 0, sl_pid := 0\<rparr>) s"

text \<open>The body of the \<^verbatim>\<open>while\<close> loop and what follows it, with the spin lock held.\<close>

definition acquiresleep_loop :: "sleeplock_id \<Rightarrow> 'a sl_st_scheme \<Rightarrow> (unit outcome \<times> 'a sl_st_scheme) option" where
  "acquiresleep_loop l s =
     (if sl_locked (slocks s l) \<noteq> 0 then do {
        s \<leftarrow> sleep_enter (ChSleepLock l) (SleepLk l) s;
        Some (Sleeps, s) }
      else do {
        p \<leftarrow> myproc s;
        let s = upd_sl l (\<lambda>k. k\<lparr>sl_locked := 1, sl_pid := pid (procs s p)\<rparr>) s;
        s \<leftarrow> rel (SleepLk l) s;
        Some (Returns (), s) })"

definition acquiresleep :: "sleeplock_id \<Rightarrow> 'a sl_st_scheme \<Rightarrow> (unit outcome \<times> 'a sl_st_scheme) option" where
  "acquiresleep l s = do { s \<leftarrow> acq (SleepLk l) s; acquiresleep_loop l s }"

definition acquiresleep_resume :: "sleeplock_id \<Rightarrow> 'a sl_st_scheme \<Rightarrow> (unit outcome \<times> 'a sl_st_scheme) option" where
  "acquiresleep_resume l s = do { s \<leftarrow> sleep_exit (SleepLk l) s; acquiresleep_loop l s }"

definition releasesleep :: "sleeplock_id \<Rightarrow> 'a sl_st_scheme \<Rightarrow> 'a sl_st_scheme option" where
  "releasesleep l s = do {
     s \<leftarrow> acq (SleepLk l) s;
     let s = upd_sl l (\<lambda>k. k\<lparr>sl_locked := 0, sl_pid := 0\<rparr>) s;
     s \<leftarrow> wakeup (ChSleepLock l) s;
     rel (SleepLk l) s }"

definition holdingsleep :: "sleeplock_id \<Rightarrow> 'a sl_st_scheme \<Rightarrow> (bool \<times> 'a sl_st_scheme) option" where
  "holdingsleep l s = do {
     s \<leftarrow> acq (SleepLk l) s;
     p \<leftarrow> myproc s;
     let r = (sl_locked (slocks s l) \<noteq> 0 \<and> sl_pid (slocks s l) = pid (procs s p));
     s \<leftarrow> rel (SleepLk l) s;
     Some (r, s) }"

text \<open>A caller goes on after a blocking call only if the call returns.\<close>

definition returned :: "('r outcome \<times> 's) option \<Rightarrow> ('r \<times> 's) option" where
  "returned m = do { (r, s) \<leftarrow> m; case r of Returns v \<Rightarrow> Some (v, s) | Sleeps \<Rightarrow> None }"

lemma returned_simps [simp]: "returned (Some (Returns v, s)) = Some (v, s)" "returned (Some (Sleeps, s)) = None"
  "returned None = None"
  by (simp_all add: returned_def)

lemma returned_eq_Some: "returned m = Some (v, s) \<longleftrightarrow> m = Some (Returns v, s)"
  by (cases m rule: option.exhaust) (auto simp: returned_def split: outcome.splits prod.splits)

subsection \<open>Closed forms\<close>

lemma upd_sl_simps [simp]:
  "held (upd_sl l f s) = held s" "procs (upd_sl l f s) = procs s" "cur (upd_sl l f s) = cur s"
  "slocks (upd_sl l f s) = (slocks s)(l := f (slocks s l))" "mem (upd_sl l f s) = mem s" "freelist (upd_sl l f s) = freelist s"
  by (simp_all add: upd_sl_def)

lemma acquiresleep_free:
  assumes "SleepLk l \<notin> held s" and "sl_locked (slocks s l) = 0" and "cur s = Some p"
  shows "acquiresleep l s =
    Some (Returns (), s\<lparr>slocks := (slocks s)(l := (slocks s l)\<lparr>sl_locked := 1, sl_pid := pid (procs s p)\<rparr>)\<rparr>)"
  using assms by (simp add: acquiresleep_def acquiresleep_loop_def myproc_def upd_sl_def lock_simps)

lemma releasesleep_eq:
  assumes "SleepLk l \<notin> held s" and "proc_locks_free s"
  shows "releasesleep l s = Some (s\<lparr>procs := woken (ChSleepLock l) (cur s) (procs s),
    slocks := (slocks s)(l := (slocks s l)\<lparr>sl_locked := 0, sl_pid := 0\<rparr>)\<rparr>)"
proof -
  let ?s = "upd_sl l (\<lambda>k. k\<lparr>sl_locked := 0, sl_pid := 0\<rparr>) (s\<lparr>held := insert (SleepLk l) (held s)\<rparr>)"
  have "proc_locks_free ?s" using assms(2) by (simp add: proc_locks_free_def)
  from wakeup_eq [OF this, of "ChSleepLock l"] show ?thesis
    using assms(1) by (simp add: releasesleep_def lock_simps upd_sl_def)
qed

lemma holdingsleep_eq:
  "SleepLk l \<notin> held s \<Longrightarrow> cur s = Some p \<Longrightarrow>
     holdingsleep l s = Some (sl_locked (slocks s l) \<noteq> 0 \<and> sl_pid (slocks s l) = pid (procs s p), s)"
  by (simp add: holdingsleep_def myproc_def lock_simps)

lemma sleep_enter_ok:
  assumes "held s = {l}" and "cur s = Some p" and "l \<noteq> ProcLock p"
  shows "sleep_enter ch l s = Some (s\<lparr>held := {ProcLock p}, procs := (procs s)(p := (procs s p)\<lparr>chan := Some ch, pstate := SLEEPING\<rparr>)\<rparr>)"
  using assms by (auto simp: sleep_enter_def sched_def myproc_def upd_proc_def lock_simps insert_Diff_if)

lemma sleep_enter_eq:
  assumes "sleep_enter ch lk s = Some t" and "cur s = Some p"
  shows "t = s\<lparr>held := {ProcLock p}, procs := (procs s)(p := (procs s p)\<lparr>chan := Some ch, pstate := SLEEPING\<rparr>)\<rparr>"
proof -
  obtain s1 s2 where s: "acq (ProcLock p) s = Some s1" "rel lk s1 = Some s2"
    "sched (upd_proc p (\<lambda>q. q\<lparr>chan := Some ch, pstate := SLEEPING\<rparr>) s2) = Some t"
    using assms by (auto simp: sleep_enter_def myproc_def bind_eq_Some_conv Let_def)
  have t: "t = upd_proc p (\<lambda>q. q\<lparr>chan := Some ch, pstate := SLEEPING\<rparr>) s2" using sched_same [OF s(3)] .
  obtain h where s2: "s2 = s\<lparr>held := h\<rparr>" using s(1,2) by (auto simp: acq_eq_Some rel_eq_Some)
  have "h = {ProcLock p}" using sleep_enter_spec(2) [OF assms] by (simp add: t s2)
  then show ?thesis by (simp add: t s2 upd_proc_def)
qed

lemma sleep_exit_eq:
  assumes "sleep_exit lk s = Some t"
  obtains p h where "cur s = Some p" and "t = s\<lparr>held := h, procs := (procs s)(p := (procs s p)\<lparr>chan := None\<rparr>)\<rparr>"
proof -
  obtain p s1 where s: "cur s = Some p" "rel (ProcLock p) (upd_proc p (\<lambda>q. q\<lparr>chan := None\<rparr>) s) = Some s1" "acq lk s1 = Some t"
    using assms by (auto simp: sleep_exit_def myproc_def bind_eq_Some_conv Let_def)
  obtain h where "t = (upd_proc p (\<lambda>q. q\<lparr>chan := None\<rparr>) s)\<lparr>held := h\<rparr>" using s(2,3) by (auto simp: acq_eq_Some rel_eq_Some)
  then show ?thesis by (intro that [OF s(1), of h]) (simp add: upd_proc_def)
qed

subsection \<open>Interleaving\<close>

text \<open>The steps of all processes and of the scheduler on one processor.  A call of \<^verbatim>\<open>acquiresleep\<close> that
  sleeps ends in the switch to the scheduler; the process takes the resumption step when it runs
  again.  The remaining steps are the kernel's other sleeps, wakeups, yields, kills and ticks.\<close>

inductive sl_step :: "sl_st \<Rightarrow> sl_st \<Rightarrow> bool" where
  sl_acquire: "running s \<Longrightarrow> acquiresleep l s = Some (r, t) \<Longrightarrow> sl_step s t"
| sl_resume: "running s \<Longrightarrow> acquiresleep_resume l s = Some (r, t) \<Longrightarrow> sl_step s t"
| sl_release: "running s \<Longrightarrow> releasesleep l s = Some t \<Longrightarrow> proc_locks_free s \<Longrightarrow> sl_step s t"
| sl_sleep: "running s \<Longrightarrow> sleep_enter ch lk s = Some t \<Longrightarrow> (\<And>l. ch \<noteq> ChSleepLock l) \<Longrightarrow> sl_step s t"
| sl_awake: "sleep_exit lk s = Some t \<Longrightarrow> sl_step s t"
| sl_wakeup: "wakeup ch s = Some t \<Longrightarrow> proc_locks_free s \<Longrightarrow> sl_step s t"
| sl_yield: "running s \<Longrightarrow> yield_enter s = Some t \<Longrightarrow> sl_step s t"
| sl_kill: "kill n s = Some (r, t) \<Longrightarrow> (\<And>i. ProcLock i \<notin> held s) \<Longrightarrow> sl_step s t"
| sl_tick: "update_time s = Some t \<Longrightarrow> (\<And>i. ProcLock i \<notin> held s) \<Longrightarrow> sl_step s t"
| sl_sched: "scheduler s = Some (b, t) \<Longrightarrow> (\<And>i. ProcLock i \<notin> held s) \<Longrightarrow> sl_step s t"
| sl_back: "scheduler_back b s = Some t \<Longrightarrow> sl_step s t"

inductive sl_reach :: "sl_st \<Rightarrow> sl_st \<Rightarrow> bool" for s where
  sl_start: "sl_reach s s"
| sl_more: "sl_reach s t \<Longrightarrow> sl_step t u \<Longrightarrow> sl_reach s u"

text \<open>The processes asleep on a sleep lock.\<close>

definition sleepers :: "sleeplock_id \<Rightarrow> (nat \<Rightarrow> proc) \<Rightarrow> nat set" where
  "sleepers l P = {i. i < NPROC \<and> pstate (P i) = SLEEPING \<and> chan (P i) = Some (ChSleepLock l)}"

definition sl_inv :: "'a sl_st_scheme \<Rightarrow> bool" where
  "sl_inv s \<longleftrightarrow> (\<forall>l. sl_locked (slocks s l) = 0 \<longrightarrow> sleepers l (procs s) = {})"

lemma sl_invI: "sl_inv s \<Longrightarrow> slocks t = slocks s \<Longrightarrow> (\<And>l. sleepers l (procs t) \<subseteq> sleepers l (procs s)) \<Longrightarrow> sl_inv t"
  by (fastforce simp: sl_inv_def)

lemma sleepers_upd: "pstate q \<noteq> SLEEPING \<or> (\<forall>l. chan q \<noteq> Some (ChSleepLock l)) \<Longrightarrow> sleepers l (P(i := q)) \<subseteq> sleepers l P"
  by (auto simp: sleepers_def)

lemma sleepers_woken: "sleepers l (woken ch me P) \<subseteq> sleepers l P"
  by (auto simp: sleepers_def woken_def split: if_splits)

lemma sleepers_awake: "pstate (P i) \<noteq> SLEEPING \<Longrightarrow> me = Some i \<Longrightarrow> sleepers l (woken (ChSleepLock l) me P) = {}"
  by (auto simp: sleepers_def woken_def split: if_splits)

lemma sleepers_ticked: "sleepers l (ticked P) \<subseteq> sleepers l P"
  by (auto simp: sleepers_def ticked_def split: if_splits)

lemma acquiresleep_loop_inv:
  assumes "acquiresleep_loop l s = Some (r, t)" and "sl_inv s" and "running s"
  shows "sl_inv t"
proof -
  obtain p where p: "cur s = Some p" using assms(3) by (auto simp: running_def)
  show ?thesis
  proof (cases "sl_locked (slocks s l) = 0")
    case True
    with assms(1) p have "procs t = procs s" "slocks t = (slocks s)(l := (slocks s l)\<lparr>sl_locked := 1, sl_pid := pid (procs s p)\<rparr>)"
      by (auto simp: acquiresleep_loop_def myproc_def bind_eq_Some_conv rel_eq_Some Let_def)
    then show ?thesis using assms(2) by (simp add: sl_inv_def)
  next
    case False
    with assms(1) have sl: "sleep_enter (ChSleepLock l) (SleepLk l) s = Some t"
      by (auto simp: acquiresleep_loop_def bind_eq_Some_conv)
    show ?thesis using assms(2) False by (auto simp: sleep_enter_eq [OF sl p] sl_inv_def sleepers_def)
  qed
qed

lemma sleep_exit_inv: "sleep_exit lk s = Some t \<Longrightarrow> sl_inv s \<Longrightarrow> sl_inv t"
  by (erule sleep_exit_eq, erule sl_invI) (auto simp: sleepers_def)

lemma sl_step_inv:
  assumes "sl_step s t" and "sl_inv s"
  shows "sl_inv t"
  using assms
proof (induction rule: sl_step.induct)
  case (sl_acquire s l r t)
  obtain u where u: "acq (SleepLk l) s = Some u" "acquiresleep_loop l u = Some (r, t)"
    using sl_acquire by (auto simp: acquiresleep_def bind_eq_Some_conv)
  then have "sl_inv u" "running u" using sl_acquire by (auto simp: acq_eq_Some sl_inv_def running_def)
  with u(2) show ?case by (rule acquiresleep_loop_inv)
next
  case (sl_resume s l r t)
  obtain u where u: "sleep_exit (SleepLk l) s = Some u" "acquiresleep_loop l u = Some (r, t)"
    using sl_resume by (auto simp: acquiresleep_resume_def bind_eq_Some_conv)
  have "running u" using u(1) sl_resume(1) by (auto simp: running_def elim!: sleep_exit_eq)
  then show ?case using acquiresleep_loop_inv [OF u(2)] sleep_exit_inv [OF u(1) sl_resume.prems] by blast
next
  case (sl_release s l t)
  obtain p where p: "cur s = Some p" "pstate (procs s p) = RUNNING" using sl_release by (auto simp: running_def)
  have t: "t = s\<lparr>procs := woken (ChSleepLock l) (cur s) (procs s),
      slocks := (slocks s)(l := (slocks s l)\<lparr>sl_locked := 0, sl_pid := 0\<rparr>)\<rparr>"
    using sl_release releasesleep_eq [of l s] by (auto simp: releasesleep_def bind_eq_Some_conv acq_eq_Some)
  have "sleepers l (procs t) = {}" unfolding t using p by (simp add: sleepers_awake [of _ p])
  moreover have "sleepers k (procs t) \<subseteq> sleepers k (procs s)" for k unfolding t by (simp add: sleepers_woken)
  ultimately show ?case using sl_release.prems by (fastforce simp: sl_inv_def t)
next
  case (sl_sleep s ch lk t)
  obtain p where p: "cur s = Some p" using sl_sleep by (auto simp: running_def)
  show ?case using sl_sleep.prems
    by (rule sl_invI) (use sl_sleep(3) in \<open>simp_all add: sleep_enter_eq [OF sl_sleep(2) p] sleepers_upd del: fun_upd_apply\<close>)
next
  case (sl_awake lk s t)
  then show ?case by (rule sleep_exit_inv)
next
  case (sl_wakeup ch s t)
  then have "t = s\<lparr>procs := woken ch (cur s) (procs s)\<rparr>" by (simp add: wakeup_eq)
  then show ?case using sl_wakeup.prems by (intro sl_invI [OF sl_wakeup.prems]) (simp_all add: sleepers_woken)
next
  case (sl_yield s t)
  obtain p u where "acq (ProcLock p) s = Some u" "t = upd_proc p (\<lambda>q. q\<lparr>pstate := RUNNABLE\<rparr>) u"
    using sl_yield by (auto simp: yield_enter_def bind_eq_Some_conv Let_def dest: sched_same)
  then show ?case by (intro sl_invI [OF sl_yield.prems]) (auto simp: acq_eq_Some upd_proc_def sleepers_def)
next
  case (sl_kill n s r t)
  then show ?case
    by (intro sl_invI [OF sl_kill.prems])
      (auto simp: kill_def kill_scan_eq upd_proc_def sleepers_def split: option.splits if_splits)
next
  case (sl_tick s t)
  then have "t = s\<lparr>procs := ticked (procs s)\<rparr>" by (simp add: update_time_eq)
  then show ?case by (intro sl_invI [OF sl_tick.prems]) (simp_all add: sleepers_ticked)
next
  case (sl_sched s b t)
  obtain best where "scheduler s = Some (best, case best of None \<Rightarrow> s | Some b \<Rightarrow>
      s\<lparr>held := insert (ProcLock b) (held s), procs := (procs s)(b := (procs s b)\<lparr>pstate := RUNNING,
        start_time := ucast (ticks s), run_time := 0, sleep_time := 0, n_runs := n_runs (procs s b) + 1\<rparr>),
        cur := Some b\<rparr>)" using scheduler_eq [OF sl_sched(2)] by blast
  with sl_sched(1) show ?case
    by (intro sl_invI [OF sl_sched.prems]) (auto simp: sleepers_def split: option.splits if_splits)
next
  case (sl_back b s t)
  then show ?case by (auto simp: scheduler_back_def rel_eq_Some sl_inv_def)
qed

lemma sl_reach_inv: "sl_reach s t \<Longrightarrow> sl_inv s \<Longrightarrow> sl_inv t"
  by (induction rule: sl_reach.induct) (auto intro: sl_step_inv)

subsection \<open>Properties\<close>


text \<open>The caller of the small process table finds a lock taken by process 5 and goes to sleep on it.\<close>

definition demo_sl :: sl_st where
  "demo_sl = proc_st.extend demo_st
     (sl_st.fields ((\<lambda>_. \<lparr>sl_locked = 0, sl_pid = 0\<rparr>)(InodeLock 0 := \<lparr>sl_locked = 1, sl_pid = 5\<rparr>)))"

lemma demo_sl_simps [simp]: "held demo_sl = {}" "cur demo_sl = Some 0" "procs demo_sl = demo_procs"
  "slocks demo_sl = (\<lambda>_. \<lparr>sl_locked = 0, sl_pid = 0\<rparr>)(InodeLock 0 := \<lparr>sl_locked = 1, sl_pid = 5\<rparr>)"
  by (simp_all add: demo_sl_def demo_st_def proc_st.defs sl_st.defs)


end
