(* ===== verification/Bytes.thy ===== *)
theory Bytes
  imports Xv6_Prelude
begin

text \<open>
  Byte strings as the disk and user memory hold them: little-endian encoding of machine words,
  and reading and writing a field of a block at an offset.  The structures of \<^verbatim>\<open>kernel/fs.h\<close> and
  \<^verbatim>\<open>kernel/elf.h\<close> are laid out with these.
\<close>

definition to_le :: "nat \<Rightarrow> 'a::len word \<Rightarrow> bytes" where
  "to_le n w = map (\<lambda>k. ucast (drop_bit (8 * k) w)) [0..<n]"

primrec of_le :: "bytes \<Rightarrow> 'a::len word" where
  "of_le [] = 0"
| "of_le (b # bs) = ucast b OR push_bit 8 (of_le bs)"

text \<open>\<open>get_at o n bs\<close> reads \<open>n\<close> bytes, \<open>put_at o xs bs\<close> overwrites bytes, both from offset \<open>o\<close>.\<close>

definition get_at :: "nat \<Rightarrow> nat \<Rightarrow> bytes \<Rightarrow> bytes" where
  "get_at i n bs = take n (drop i bs)"

definition put_at :: "nat \<Rightarrow> bytes \<Rightarrow> bytes \<Rightarrow> bytes" where
  "put_at i xs bs = take i bs @ xs @ drop (i + length xs) bs"

definition get16 :: "bytes \<Rightarrow> nat \<Rightarrow> u16" where "get16 bs i = of_le (get_at i 2 bs)"
definition get32 :: "bytes \<Rightarrow> nat \<Rightarrow> u32" where "get32 bs i = of_le (get_at i 4 bs)"
definition get64 :: "bytes \<Rightarrow> nat \<Rightarrow> u64" where "get64 bs i = of_le (get_at i 8 bs)"

definition put16 :: "nat \<Rightarrow> u16 \<Rightarrow> bytes \<Rightarrow> bytes" where "put16 i v bs = put_at i (to_le 2 v) bs"
definition put32 :: "nat \<Rightarrow> u32 \<Rightarrow> bytes \<Rightarrow> bytes" where "put32 i v bs = put_at i (to_le 4 v) bs"

subsection \<open>Encoding\<close>

lemma length_to_le [simp]: "length (to_le n w) = n"
  by (simp add: to_le_def)

lemma bit_of_le:
  "bit (of_le bs :: 'a::len word) i \<longleftrightarrow> i < LENGTH('a) \<and> i div 8 < length bs \<and> bit (bs ! (i div 8)) (i mod 8)"
proof (induction bs arbitrary: i)
  case Nil
  then show ?case by simp
next
  case (Cons b bs)
  show ?case
  proof (cases "i < 8")
    case True
    then show ?thesis by (auto simp: bit_or_iff bit_push_bit_iff bit_ucast_iff dest: bit_imp_le_length)
  next
    case False
    then obtain j where j: "i = j + 8" by (metis add.commute le_add_diff_inverse not_less)
    have d: "(j + 8) div 8 = Suc (j div 8)" "(j + 8) mod 8 = j mod 8" by simp_all
    have "\<not> bit b (j + 8)" using bit_imp_le_length [of b "j + 8"] by auto
    then have "bit (of_le (b # bs) :: 'a word) i \<longleftrightarrow> i < LENGTH('a) \<and> bit (of_le bs :: 'a word) j"
      by (auto simp: j bit_or_iff bit_push_bit_iff bit_ucast_iff)
    then show ?thesis unfolding Cons.IH [of j] unfolding j d by auto
  qed
qed

lemma of_le_to_le: "LENGTH('a) \<le> 8 * n \<Longrightarrow> of_le (to_le n w) = (w :: 'a::len word)"
proof (rule bit_word_eqI)
  fix i assume n: "LENGTH('a) \<le> 8 * n" and i: "i < LENGTH('a)"
  then have "i div 8 < n" by simp
  then show "bit (of_le (to_le n w) :: 'a word) i \<longleftrightarrow> bit w i"
    using i by (simp add: bit_of_le to_le_def bit_ucast_iff bit_drop_bit_eq)
qed

lemma to_le_of_le: "length bs = n \<Longrightarrow> 8 * n \<le> LENGTH('a) \<Longrightarrow> to_le n (of_le bs :: 'a::len word) = bs"
proof (rule nth_equalityI)
  fix k assume n: "length bs = n" "8 * n \<le> LENGTH('a)" and "k < length (to_le n (of_le bs :: 'a word))"
  then have k: "k < n" by simp
  have "bit (to_le n (of_le bs :: 'a word) ! k) i \<longleftrightarrow> bit (bs ! k) i" if "i < 8" for i
  proof -
    have "(8 * k + i) div 8 = k" "(8 * k + i) mod 8 = i" "8 * k + i < LENGTH('a)" using that k n(2) by auto
    then show ?thesis using that k n(1) by (simp add: to_le_def bit_ucast_iff bit_drop_bit_eq bit_of_le)
  qed
  then show "to_le n (of_le bs :: 'a word) ! k = bs ! k" by (intro bit_word_eqI) simp
qed simp

subsection \<open>Fields of a block\<close>

lemma length_get_at: "length (get_at i n bs) = min n (length bs - i)"
  by (simp add: get_at_def)

lemma length_put_at [simp]: "i + length xs \<le> length bs \<Longrightarrow> length (put_at i xs bs) = length bs"
  by (simp add: put_at_def)

lemma get_put_same: "i + length xs \<le> length bs \<Longrightarrow> n = length xs \<Longrightarrow> get_at i n (put_at i xs bs) = xs"
  by (simp add: get_at_def put_at_def min_def)

lemma nth_put_at:
  "i + length xs \<le> length bs \<Longrightarrow> k < length bs \<Longrightarrow>
     put_at i xs bs ! k = (if i \<le> k \<and> k < i + length xs then xs ! (k - i) else bs ! k)"
  by (auto simp: put_at_def nth_append min_def)

lemma nth_get_at: "k < n \<Longrightarrow> i + n \<le> length bs \<Longrightarrow> get_at i n bs ! k = bs ! (i + k)"
  by (simp add: get_at_def)

lemma get_put_other:
  assumes "i + length xs \<le> length bs" and "j + n \<le> length bs" and "j + n \<le> i \<or> i + length xs \<le> j"
  shows "get_at j n (put_at i xs bs) = get_at j n bs"
  by (rule nth_equalityI) (use assms in \<open>auto simp: length_get_at nth_get_at nth_put_at\<close>)

lemma put_get_same: "i + n \<le> length bs \<Longrightarrow> put_at i (get_at i n bs) bs = bs"
  by (rule nth_equalityI) (auto simp: length_get_at nth_put_at nth_get_at)

lemma length_put16 [simp]: "i + 2 \<le> length bs \<Longrightarrow> length (put16 i v bs) = length bs"
  by (simp add: put16_def)

lemma length_put32 [simp]: "i + 4 \<le> length bs \<Longrightarrow> length (put32 i v bs) = length bs"
  by (simp add: put32_def)

lemma get16_put16 [simp]: "i + 2 \<le> length bs \<Longrightarrow> get16 (put16 i v bs) i = v"
  by (simp add: get16_def put16_def get_put_same of_le_to_le)

lemma get32_put32 [simp]: "i + 4 \<le> length bs \<Longrightarrow> get32 (put32 i v bs) i = v"
  by (simp add: get32_def put32_def get_put_same of_le_to_le)

lemma get32_put32_other:
  "i + 4 \<le> length bs \<Longrightarrow> j + 4 \<le> length bs \<Longrightarrow> j + 4 \<le> i \<or> i + 4 \<le> j \<Longrightarrow> get32 (put32 i v bs) j = get32 bs j"
  by (simp add: get32_def put32_def get_put_other)

lemma get16_put16_other:
  "i + 2 \<le> length bs \<Longrightarrow> j + 2 \<le> length bs \<Longrightarrow> j + 2 \<le> i \<or> i + 2 \<le> j \<Longrightarrow> get16 (put16 i v bs) j = get16 bs j"
  by (simp add: get16_def put16_def get_put_other)

lemma get16_put32_other:
  "i + 4 \<le> length bs \<Longrightarrow> j + 2 \<le> length bs \<Longrightarrow> j + 2 \<le> i \<or> i + 4 \<le> j \<Longrightarrow> get16 (put32 i v bs) j = get16 bs j"
  by (simp add: get16_def put32_def get_put_other)

lemma get32_put16_other:
  "i + 2 \<le> length bs \<Longrightarrow> j + 4 \<le> length bs \<Longrightarrow> j + 4 \<le> i \<or> i + 2 \<le> j \<Longrightarrow> get32 (put16 i v bs) j = get32 bs j"
  by (simp add: get32_def put16_def get_put_other)

end
