(* ===== verification/Bio.thy ===== *)
theory Bio
  imports Sleeplock Bytes
begin

text \<open>
  The buffer cache, \<^verbatim>\<open>kernel/bio.c\<close>: a table of buffers threaded on a doubly linked list in order of
  use.  A buffer pointer is an index of the table, and index \<open>NBUF\<close> is the list head.

  The disk is seen through the promise of its driver: a transfer moves one whole block between the
  buffer and the disk and returns when it is complete.  \<open>dwrites\<close> is the sequence of block writes
  that have reached the disk, for the reasoning about crashes.
\<close>

abbreviation BSIZE :: nat where "BSIZE \<equiv> 1024"
abbreviation NBUF :: nat where "NBUF \<equiv> 30"
abbreviation ROOTDEV :: u32 where "ROOTDEV \<equiv> 1"

record buf_t =
  b_valid :: bool
  b_dev :: u32
  b_blockno :: u32
  refcnt :: u32
  b_prev :: nat
  b_next :: nat
  b_data :: bytes

record bio_st = sl_st +
  bufs :: "nat \<Rightarrow> buf_t"
  disk :: "u32 \<Rightarrow> bytes"
  dwrites :: "(u32 \<times> bytes) list"

definition upd_buf :: "nat \<Rightarrow> (buf_t \<Rightarrow> buf_t) \<Rightarrow> 'a bio_st_scheme \<Rightarrow> 'a bio_st_scheme" where
  "upd_buf i f s = s\<lparr>bufs := (bufs s)(i := f (bufs s i))\<rparr>"

definition set_data :: "nat \<Rightarrow> bytes \<Rightarrow> 'a bio_st_scheme \<Rightarrow> 'a bio_st_scheme" where
  "set_data i bs s = upd_buf i (\<lambda>b. b\<lparr>b_data := bs\<rparr>) s"

text \<open>The list surgery of \<^verbatim>\<open>binit\<close> and \<^verbatim>\<open>brelse\<close>: insertion behind the head, removal.\<close>

definition lru_insert :: "nat \<Rightarrow> 'a bio_st_scheme \<Rightarrow> 'a bio_st_scheme" where
  "lru_insert b s =
     (let s = upd_buf b (\<lambda>q. q\<lparr>b_next := b_next (bufs s NBUF)\<rparr>) s;
          s = upd_buf b (\<lambda>q. q\<lparr>b_prev := NBUF\<rparr>) s;
          s = upd_buf (b_next (bufs s NBUF)) (\<lambda>q. q\<lparr>b_prev := b\<rparr>) s in
      upd_buf NBUF (\<lambda>q. q\<lparr>b_next := b\<rparr>) s)"

definition lru_remove :: "nat \<Rightarrow> 'a bio_st_scheme \<Rightarrow> 'a bio_st_scheme" where
  "lru_remove b s =
     (let s = upd_buf (b_next (bufs s b)) (\<lambda>q. q\<lparr>b_prev := b_prev (bufs s b)\<rparr>) s in
      upd_buf (b_prev (bufs s b)) (\<lambda>q. q\<lparr>b_next := b_next (bufs s b)\<rparr>) s)"

definition binit :: "'a bio_st_scheme \<Rightarrow> 'a bio_st_scheme" where
  "binit s =
     (let s = upd_buf NBUF (\<lambda>q. q\<lparr>b_prev := NBUF\<rparr>) s;
          s = upd_buf NBUF (\<lambda>q. q\<lparr>b_next := NBUF\<rparr>) s in
      fold (\<lambda>b s. initsleeplock (BufLock b) (lru_insert b s)) [0..<NBUF] s)"

text \<open>The two scans of \<^verbatim>\<open>bget\<close>, along \<^verbatim>\<open>next\<close> for the block and along \<^verbatim>\<open>prev\<close> for an unused buffer.\<close>

partial_function (option) bget_cached :: "u32 \<Rightarrow> u32 \<Rightarrow> nat \<Rightarrow> (nat \<Rightarrow> buf_t) \<Rightarrow> nat option option" where
  "bget_cached dev blockno b B =
     (if b = NBUF then Some None
      else if b_dev (B b) = dev \<and> b_blockno (B b) = blockno then Some (Some b)
      else bget_cached dev blockno (b_next (B b)) B)"

partial_function (option) bget_unused :: "nat \<Rightarrow> (nat \<Rightarrow> buf_t) \<Rightarrow> nat option option" where
  "bget_unused b B =
     (if b = NBUF then Some None
      else if refcnt (B b) = 0 then Some (Some b)
      else bget_unused (b_prev (B b)) B)"

definition bget :: "u32 \<Rightarrow> u32 \<Rightarrow> 'a bio_st_scheme \<Rightarrow> (nat \<times> 'a bio_st_scheme) option" where
  "bget dev blockno s = do {
     s \<leftarrow> acq BcacheLock s;
     r \<leftarrow> bget_cached dev blockno (b_next (bufs s NBUF)) (bufs s);
     case r of Some b \<Rightarrow> do {
         let s = upd_buf b (\<lambda>q. q\<lparr>refcnt := refcnt q + 1\<rparr>) s;
         s \<leftarrow> rel BcacheLock s;
         (_, s) \<leftarrow> returned (acquiresleep (BufLock b) s);
         Some (b, s) }
     | None \<Rightarrow> do {
         r \<leftarrow> bget_unused (b_prev (bufs s NBUF)) (bufs s);
         b \<leftarrow> r;
         let s = upd_buf b (\<lambda>q. q\<lparr>b_dev := dev, b_blockno := blockno, b_valid := False, refcnt := 1\<rparr>) s;
         s \<leftarrow> rel BcacheLock s;
         (_, s) \<leftarrow> returned (acquiresleep (BufLock b) s);
         Some (b, s) } }"

text \<open>The promise of \<^verbatim>\<open>virtio_disk_rw\<close>.\<close>

definition disk_rw :: "nat \<Rightarrow> bool \<Rightarrow> 'a bio_st_scheme \<Rightarrow> 'a bio_st_scheme" where
  "disk_rw b write s =
     (if write then s\<lparr>disk := (disk s)(b_blockno (bufs s b) := b_data (bufs s b)),
        dwrites := dwrites s @ [(b_blockno (bufs s b), b_data (bufs s b))]\<rparr>
      else set_data b (disk s (b_blockno (bufs s b))) s)"

definition bread :: "u32 \<Rightarrow> u32 \<Rightarrow> 'a bio_st_scheme \<Rightarrow> (nat \<times> 'a bio_st_scheme) option" where
  "bread dev blockno s = do {
     (b, s) \<leftarrow> bget dev blockno s;
     let s = (if \<not> b_valid (bufs s b)
              then upd_buf b (\<lambda>q. q\<lparr>b_valid := True\<rparr>) (disk_rw b False s) else s);
     Some (b, s) }"

definition bwrite :: "nat \<Rightarrow> 'a bio_st_scheme \<Rightarrow> 'a bio_st_scheme option" where
  "bwrite b s = do {
     (h, s) \<leftarrow> holdingsleep (BufLock b) s;
     _ \<leftarrow> panic_if (\<not> h);
     Some (disk_rw b True s) }"

definition brelse :: "nat \<Rightarrow> 'a bio_st_scheme \<Rightarrow> 'a bio_st_scheme option" where
  "brelse b s = do {
     (h, s) \<leftarrow> holdingsleep (BufLock b) s;
     _ \<leftarrow> panic_if (\<not> h);
     s \<leftarrow> releasesleep (BufLock b) s;
     s \<leftarrow> acq BcacheLock s;
     let s = upd_buf b (\<lambda>q. q\<lparr>refcnt := refcnt q - 1\<rparr>) s;
     let s = (if refcnt (bufs s b) = 0 then lru_insert b (lru_remove b s) else s);
     rel BcacheLock s }"

definition bpin :: "nat \<Rightarrow> 'a bio_st_scheme \<Rightarrow> 'a bio_st_scheme option" where
  "bpin b s = do {
     s \<leftarrow> acq BcacheLock s;
     let s = upd_buf b (\<lambda>q. q\<lparr>refcnt := refcnt q + 1\<rparr>) s;
     rel BcacheLock s }"

definition bunpin :: "nat \<Rightarrow> 'a bio_st_scheme \<Rightarrow> 'a bio_st_scheme option" where
  "bunpin b s = do {
     s \<leftarrow> acq BcacheLock s;
     let s = upd_buf b (\<lambda>q. q\<lparr>refcnt := refcnt q - 1\<rparr>) s;
     rel BcacheLock s }"

end
