(* ===== verification/Log.thy ===== *)
theory Log
  imports Bio
begin

text \<open>
  The redo log, \<^verbatim>\<open>kernel/log.c\<close>.  The header block holds the number of logged blocks and their home
  block numbers; the copies follow it on the disk.  A header that claims more blocks than the
  in-memory array can hold makes the C code overrun it; there the model does not return.
\<close>

abbreviation MAXOPBLOCKS :: int where "MAXOPBLOCKS \<equiv> 10"
abbreviation LOGSIZE :: int where "LOGSIZE \<equiv> 30"

record superblock =
  sb_magic :: u32
  sb_size :: u32
  sb_nblocks :: u32
  sb_ninodes :: u32
  sb_nlog :: u32
  sb_logstart :: u32
  sb_inodestart :: u32
  sb_bmapstart :: u32

record log_t =
  lg_start :: u32
  lg_size :: int
  lg_outstanding :: int
  lg_committing :: bool
  lg_dev :: u32
  lh_n :: int
  lh_block :: "nat \<Rightarrow> u32"

record log_st = bio_st +
  klog :: log_t

definition upd_log :: "(log_t \<Rightarrow> log_t) \<Rightarrow> 'a log_st_scheme \<Rightarrow> 'a log_st_scheme" where
  "upd_log f s = s\<lparr>klog := f (klog s)\<rparr>"

text \<open>The header block as \<^verbatim>\<open>struct logheader\<close>.\<close>

definition hdr_n :: "bytes \<Rightarrow> int" where
  "hdr_n bs = sint (get32 bs 0)"

definition hdr_block :: "bytes \<Rightarrow> nat \<Rightarrow> u32" where
  "hdr_block bs i = get32 bs (4 + 4 * i)"

definition put_hdr :: "int \<Rightarrow> (nat \<Rightarrow> u32) \<Rightarrow> bytes \<Rightarrow> bytes" where
  "put_hdr n blk bs = fold (\<lambda>i. put32 (4 + 4 * i) (blk i)) [0..<nat n] (put32 0 (word_of_int n) bs)"

definition log_block :: "'a log_st_scheme \<Rightarrow> nat \<Rightarrow> u32" where
  "log_block s tail = lg_start (klog s) + of_nat tail + 1"

definition install_one :: "bool \<Rightarrow> nat \<Rightarrow> 'a log_st_scheme \<Rightarrow> 'a log_st_scheme option" where
  "install_one recovering tail s = do {
     (lbuf, s) \<leftarrow> bread (lg_dev (klog s)) (log_block s tail) s;
     (dbuf, s) \<leftarrow> bread (lg_dev (klog s)) (lh_block (klog s) tail) s;
     let s = set_data dbuf (b_data (bufs s lbuf)) s;
     s \<leftarrow> bwrite dbuf s;
     s \<leftarrow> (if \<not> recovering then bunpin dbuf s else Some s);
     s \<leftarrow> brelse lbuf s;
     brelse dbuf s }"

definition install_trans :: "bool \<Rightarrow> 'a log_st_scheme \<Rightarrow> 'a log_st_scheme option" where
  "install_trans recovering s = for_each [0..<nat (lh_n (klog s))] (install_one recovering) s"

definition read_head :: "'a log_st_scheme \<Rightarrow> 'a log_st_scheme option" where
  "read_head s = do {
     (b, s) \<leftarrow> bread (lg_dev (klog s)) (lg_start (klog s)) s;
     let n = hdr_n (b_data (bufs s b));
     _ \<leftarrow> panic_if (LOGSIZE < n);
     let s = upd_log (\<lambda>l. l\<lparr>lh_n := n,
       lh_block := (\<lambda>i. if i < nat n then hdr_block (b_data (bufs s b)) i else lh_block l i)\<rparr>) s;
     brelse b s }"

definition write_head :: "'a log_st_scheme \<Rightarrow> 'a log_st_scheme option" where
  "write_head s = do {
     (b, s) \<leftarrow> bread (lg_dev (klog s)) (lg_start (klog s)) s;
     let s = set_data b (put_hdr (lh_n (klog s)) (lh_block (klog s)) (b_data (bufs s b))) s;
     s \<leftarrow> bwrite b s;
     brelse b s }"

definition recover_from_log :: "'a log_st_scheme \<Rightarrow> 'a log_st_scheme option" where
  "recover_from_log s = do {
     s \<leftarrow> read_head s;
     s \<leftarrow> install_trans True s;
     let s = upd_log (\<lambda>l. l\<lparr>lh_n := 0\<rparr>) s;
     write_head s }"

definition initlog :: "u32 \<Rightarrow> superblock \<Rightarrow> 'a log_st_scheme \<Rightarrow> 'a log_st_scheme option" where
  "initlog dev sb s = do {
     _ \<leftarrow> panic_if (4 + 4 * nat LOGSIZE \<ge> BSIZE);
     let s = upd_log (\<lambda>l. l\<lparr>lg_start := sb_logstart sb, lg_size := sint (sb_nlog sb), lg_dev := dev\<rparr>) s;
     recover_from_log s }"

subsection \<open>Transactions\<close>

definition begin_op_loop :: "'a log_st_scheme \<Rightarrow> (unit outcome \<times> 'a log_st_scheme) option" where
  "begin_op_loop s =
     (if lg_committing (klog s) then do { s \<leftarrow> sleep_enter ChLog LogLock s; Some (Sleeps, s) }
      else if lh_n (klog s) + (lg_outstanding (klog s) + 1) * MAXOPBLOCKS > LOGSIZE then do {
        s \<leftarrow> sleep_enter ChLog LogLock s;
        Some (Sleeps, s) }
      else do {
        let s = upd_log (\<lambda>l. l\<lparr>lg_outstanding := lg_outstanding l + 1\<rparr>) s;
        s \<leftarrow> rel LogLock s;
        Some (Returns (), s) })"

definition begin_op :: "'a log_st_scheme \<Rightarrow> (unit outcome \<times> 'a log_st_scheme) option" where
  "begin_op s = do { s \<leftarrow> acq LogLock s; begin_op_loop s }"

definition begin_op_resume :: "'a log_st_scheme \<Rightarrow> (unit outcome \<times> 'a log_st_scheme) option" where
  "begin_op_resume s = do { s \<leftarrow> sleep_exit LogLock s; begin_op_loop s }"

definition write_log_one :: "nat \<Rightarrow> 'a log_st_scheme \<Rightarrow> 'a log_st_scheme option" where
  "write_log_one tail s = do {
     (t, s) \<leftarrow> bread (lg_dev (klog s)) (log_block s tail) s;
     (f, s) \<leftarrow> bread (lg_dev (klog s)) (lh_block (klog s) tail) s;
     let s = set_data t (b_data (bufs s f)) s;
     s \<leftarrow> bwrite t s;
     s \<leftarrow> brelse f s;
     brelse t s }"

definition write_log :: "'a log_st_scheme \<Rightarrow> 'a log_st_scheme option" where
  "write_log s = for_each [0..<nat (lh_n (klog s))] write_log_one s"

definition commit :: "'a log_st_scheme \<Rightarrow> 'a log_st_scheme option" where
  "commit s =
     (if lh_n (klog s) > 0 then do {
        s \<leftarrow> write_log s;
        s \<leftarrow> write_head s;
        s \<leftarrow> install_trans False s;
        let s = upd_log (\<lambda>l. l\<lparr>lh_n := 0\<rparr>) s;
        write_head s }
      else Some s)"

definition end_op :: "'a log_st_scheme \<Rightarrow> 'a log_st_scheme option" where
  "end_op s = do {
     s \<leftarrow> acq LogLock s;
     let s = upd_log (\<lambda>l. l\<lparr>lg_outstanding := lg_outstanding l - 1\<rparr>) s;
     _ \<leftarrow> panic_if (lg_committing (klog s));
     let do_commit = (lg_outstanding (klog s) = 0);
     s \<leftarrow> (if do_commit then Some (upd_log (\<lambda>l. l\<lparr>lg_committing := True\<rparr>) s)
           else wakeup ChLog s);
     s \<leftarrow> rel LogLock s;
     if do_commit then do {
       s \<leftarrow> commit s;
       s \<leftarrow> acq LogLock s;
       let s = upd_log (\<lambda>l. l\<lparr>lg_committing := False\<rparr>) s;
       s \<leftarrow> wakeup ChLog s;
       rel LogLock s }
     else Some s }"

definition log_write :: "nat \<Rightarrow> 'a log_st_scheme \<Rightarrow> 'a log_st_scheme option" where
  "log_write b s = do {
     s \<leftarrow> acq LogLock s;
     _ \<leftarrow> panic_if (lh_n (klog s) \<ge> LOGSIZE \<or> lh_n (klog s) \<ge> lg_size (klog s) - 1);
     _ \<leftarrow> panic_if (lg_outstanding (klog s) < 1);
     let n = nat (lh_n (klog s));
     let i = (case List.find (\<lambda>i. lh_block (klog s) i = b_blockno (bufs s b)) [0..<n] of Some i \<Rightarrow> i | None \<Rightarrow> n);
     let s = upd_log (\<lambda>l. l\<lparr>lh_block := (lh_block l)(i := b_blockno (bufs s b))\<rparr>) s;
     s \<leftarrow> (if i = n then do {
             s \<leftarrow> bpin b s;
             Some (upd_log (\<lambda>l. l\<lparr>lh_n := lh_n l + 1\<rparr>) s) }
           else Some s);
     rel LogLock s }"

end
