(* ===== verification/Bio_Laws.thy ===== *)
theory Bio_Laws
  imports Bio
begin

text \<open>
  The laws of the buffer cache.  The linked list is the order of use of all buffers, whatever is
  released or recycled.  On top of it the cache implements an abstract block store: a current
  content, a reference count and an owner for every block, and the disk underneath.  The store
  is the contract the log and the file system rely on.
\<close>

subsection \<open>Doubly linked lists\<close>

fun links :: "(nat \<Rightarrow> nat) \<Rightarrow> (nat \<Rightarrow> nat) \<Rightarrow> nat \<Rightarrow> nat list \<Rightarrow> nat \<Rightarrow> bool" where
  "links nx pv a [] z \<longleftrightarrow> nx a = z \<and> pv z = a"
| "links nx pv a (x # xs) z \<longleftrightarrow> nx a = x \<and> pv x = a \<and> links nx pv x xs z"

lemma links_cong:
  "(\<And>x. x \<in> set (a # xs) \<Longrightarrow> nx' x = nx x) \<Longrightarrow> (\<And>x. x \<in> set (xs @ [z]) \<Longrightarrow> pv' x = pv x) \<Longrightarrow>
     links nx' pv' a xs z \<longleftrightarrow> links nx pv a xs z"
  by (induction xs arbitrary: a) auto

lemma links_append: "links nx pv a (xs @ b # ys) z \<longleftrightarrow> links nx pv a xs b \<and> links nx pv b ys z"
  by (induction xs arbitrary: a) auto

lemma links_first: "links nx pv a xs z \<Longrightarrow> nx a = hd (xs @ [z])"
  by (cases xs) auto

lemma links_last: "links nx pv a xs z \<Longrightarrow> pv z = last (a # xs)"
  by (induction xs arbitrary: a) auto

lemma links_relink:
  "links nx pv a xs b \<Longrightarrow> distinct (a # xs) \<Longrightarrow> c \<notin> set xs \<Longrightarrow>
     links (nx(last (a # xs) := c)) (pv(c := last (a # xs))) a xs c"
proof (induction xs arbitrary: a)
  case (Cons x xs)
  have "a \<noteq> last (x # xs)" using Cons.prems(2) last_in_set [of "x # xs"] by auto
  then show ?case using Cons by auto
qed simp

lemma links_remove:
  assumes "links nx pv a (xs @ b # ys) z" and "distinct (a # xs @ b # ys)" and "z \<notin> set (xs @ b # ys)"
  shows "links (nx(pv b := nx b)) (pv(nx b := pv b)) a (xs @ ys) z"
proof -
  have l: "links nx pv a xs b" "links nx pv b ys z" using assms(1) by (simp_all add: links_append)
  have pb: "pv b = last (a # xs)" using links_last [OF l(1)] .
  show ?thesis
  proof (cases ys)
    case Nil
    then have "nx b = z" using l(2) by simp
    then show ?thesis using links_relink [OF l(1), of z] assms Nil by (simp add: pb)
  next
    case (Cons y ys')
    then have y: "nx b = y" "links nx pv y ys' z" using l(2) by simp_all
    have "links (nx(pv b := y)) (pv(y := pv b)) a xs y"
      using links_relink [OF l(1), of y] assms(2) Cons by (simp add: pb)
    moreover have "last (a # xs) \<notin> set (y # ys')" using last_in_set [of "a # xs"] assms(2) Cons by auto
    then have "links (nx(pv b := y)) (pv(y := pv b)) y ys' z"
      using y(2) assms(2,3) Cons pb
      by (subst links_cong [where nx = nx and pv = pv]) auto
    ultimately show ?thesis using Cons y(1) by (simp add: links_append)
  qed
qed

lemma links_insert:
  assumes "links nx pv a xs z" and "distinct (a # xs)" and "b \<notin> set (a # xs)" and "z \<notin> set xs" and "b \<noteq> z"
  shows "links (nx(b := nx a, a := b)) (pv(b := a, nx a := b)) a (b # xs) z"
proof (cases xs)
  case Nil
  then show ?thesis using assms by simp
next
  case (Cons x xs')
  then have x: "nx a = x" "links nx pv x xs' z" using assms(1) by simp_all
  have "links (nx(b := x, a := b)) (pv(b := a, x := b)) x xs' z"
    using x(2) assms Cons by (subst links_cong [where nx = nx and pv = pv]) auto
  then show ?thesis using assms Cons x(1) by auto
qed

definition lru :: "(nat \<Rightarrow> buf_t) \<Rightarrow> nat list \<Rightarrow> bool" where
  "lru B L \<longleftrightarrow> links (\<lambda>i. b_next (B i)) (\<lambda>i. b_prev (B i)) NBUF L NBUF \<and> distinct L \<and> set L = {..<NBUF}"

text \<open>What remains of a buffer without its place in the list.\<close>

definition strip :: "buf_t \<Rightarrow> buf_t" where
  "strip b = b\<lparr>b_prev := 0, b_next := 0\<rparr>"

lemma strip_eq:
  "strip a = strip b \<longleftrightarrow> b_valid a = b_valid b \<and> b_dev a = b_dev b \<and> b_blockno a = b_blockno b \<and>
     refcnt a = refcnt b \<and> b_data a = b_data b"
  by (cases a; cases b) (simp add: strip_def)

lemma links_next: "links nx pv a xs z \<Longrightarrow> links nx pv a xs z \<and> nx a = hd (xs @ [z])"
  by (simp add: links_first)

lemma bget_cached_eq:
  assumes "links (\<lambda>i. b_next (B i)) pv a L NBUF" and "NBUF \<notin> set L"
  shows "bget_cached dev n (b_next (B a)) B = Some (List.find (\<lambda>i. b_dev (B i) = dev \<and> b_blockno (B i) = n) L)"
  using assms by (induction L arbitrary: a) (auto simp: bget_cached.simps [of _ _ NBUF] bget_cached.simps)

lemma bget_unused_eq:
  assumes "links nx (\<lambda>i. b_prev (B i)) NBUF L z" and "NBUF \<notin> set L"
  shows "bget_unused (b_prev (B z)) B = Some (List.find (\<lambda>i. refcnt (B i) = 0) (rev L))"
  using assms
proof (induction L arbitrary: z rule: rev_induct)
  case Nil
  then show ?case by (simp add: bget_unused.simps)
next
  case (snoc x xs)
  then have "links nx (\<lambda>i. b_prev (B i)) NBUF xs x" "b_prev (B z) = x" "x \<noteq> NBUF" by (auto simp: links_append)
  then show ?case using snoc by (subst bget_unused.simps) simp
qed

text \<open>Moving a released buffer to the front.\<close>

lemma upd_buf_simps [simp]:
  "bufs (upd_buf i f s) = (bufs s)(i := f (bufs s i))" "held (upd_buf i f s) = held s" "procs (upd_buf i f s) = procs s"
  "cur (upd_buf i f s) = cur s" "slocks (upd_buf i f s) = slocks s" "disk (upd_buf i f s) = disk s"
  "dwrites (upd_buf i f s) = dwrites s"
  by (simp_all add: upd_buf_def)

lemma strip_link [simp]: "strip (q\<lparr>b_prev := c\<rparr>) = strip q" "strip (q\<lparr>b_next := c\<rparr>) = strip q"
  by (simp_all add: strip_def)

lemma strip_upd_link:
  "strip (bufs (upd_buf k (\<lambda>q. q\<lparr>b_prev := c\<rparr>) s) i) = strip (bufs s i)"
  "strip (bufs (upd_buf k (\<lambda>q. q\<lparr>b_next := c\<rparr>) s) i) = strip (bufs s i)"
  by simp_all

lemma strip_lru: "strip (bufs (lru_insert b s) i) = strip (bufs s i)" "strip (bufs (lru_remove b s) i) = strip (bufs s i)"
  unfolding lru_insert_def lru_remove_def Let_def strip_upd_link by simp_all

lemma lru_insert_links:
  assumes l: "links (\<lambda>i. b_next (bufs s i)) (\<lambda>i. b_prev (bufs s i)) NBUF xs NBUF"
    and d: "distinct xs" "NBUF \<notin> set xs" "b \<notin> set xs" "b \<noteq> NBUF"
  shows "links (\<lambda>i. b_next (bufs (lru_insert b s) i)) (\<lambda>i. b_prev (bufs (lru_insert b s) i)) NBUF (b # xs) NBUF"
proof -
  let ?nx = "\<lambda>i. b_next (bufs s i)" and ?pv = "\<lambda>i. b_prev (bufs s i)" and ?i = "lru_insert b s"
  have nn: "?nx NBUF \<noteq> b" using links_first [OF l] hd_in_set [of "xs @ [NBUF]"] d by auto
  have "(\<lambda>i. b_next (bufs ?i i)) = ?nx(b := ?nx NBUF, NBUF := b)" "(\<lambda>i. b_prev (bufs ?i i)) = ?pv(b := NBUF, ?nx NBUF := b)"
    using nn d by (auto simp: lru_insert_def Let_def fun_eq_iff)
  then show ?thesis using links_insert [OF l, of b] d by simp
qed

lemma lru_move:
  assumes "lru (bufs s) (xs @ b # ys)"
  shows "lru (bufs (lru_insert b (lru_remove b s))) (b # xs @ ys)"
    and "strip (bufs (lru_insert b (lru_remove b s)) i) = strip (bufs s i)"
proof -
  let ?nx = "\<lambda>i. b_next (bufs s i)" and ?pv = "\<lambda>i. b_prev (bufs s i)"
  let ?r = "lru_remove b s"
  let ?nx1 = "?nx(?pv b := ?nx b)" and ?pv1 = "?pv(?nx b := ?pv b)"
  have l: "links ?nx ?pv NBUF (xs @ b # ys) NBUF" and d: "distinct (xs @ b # ys)" and st: "set (xs @ b # ys) = {..<NBUF}"
    using assms by (simp_all add: lru_def)
  have nb: "NBUF \<notin> set (xs @ b # ys)" unfolding st by simp
  have ends: "?nx b \<noteq> b" "?pv b \<noteq> b"
    using l d nb links_first [of ?nx ?pv b ys NBUF] links_last [of ?nx ?pv NBUF xs b]
      hd_in_set [of "ys @ [NBUF]"] last_in_set [of "NBUF # xs"]
    by (auto simp: links_append)
  have nx1: "(\<lambda>i. b_next (bufs ?r i)) = ?nx1" and pv1: "(\<lambda>i. b_prev (bufs ?r i)) = ?pv1"
    using ends by (auto simp: lru_remove_def Let_def fun_eq_iff)
  have l1: "links ?nx1 ?pv1 NBUF (xs @ ys) NBUF" using links_remove [OF l] d nb by simp
  let ?i = "lru_insert b ?r"
  show "lru (bufs ?i) (b # xs @ ys)"
    using lru_insert_links [of ?r "xs @ ys" b] l1 d nb st unfolding nx1 pv1 by (auto simp: lru_def)
  show "strip (bufs ?i i) = strip (bufs s i)"
    by (simp add: strip_lru)
qed

subsection \<open>The block store a cache implements\<close>


definition slot_of :: "(nat \<Rightarrow> buf_t) \<Rightarrow> u32 \<Rightarrow> nat option" where
  "slot_of B n = List.find (\<lambda>i. b_dev (B i) = ROOTDEV \<and> b_blockno (B i) = n) [0..<NBUF]"

text \<open>Current content, number of references and owner of a block.\<close>

definition view :: "'a bio_st_scheme \<Rightarrow> u32 \<Rightarrow> bytes" where
  "view s n = (case slot_of (bufs s) n of
     Some i \<Rightarrow> if b_valid (bufs s i) then b_data (bufs s i) else disk s n | None \<Rightarrow> disk s n)"

definition rc :: "'a bio_st_scheme \<Rightarrow> u32 \<Rightarrow> nat" where
  "rc s n = (case slot_of (bufs s) n of Some i \<Rightarrow> unat (refcnt (bufs s i)) | None \<Rightarrow> 0)"

definition lk :: "'a bio_st_scheme \<Rightarrow> u32 \<Rightarrow> int option" where
  "lk s n = (case slot_of (bufs s) n of
     Some i \<Rightarrow> if sl_locked (slocks s (BufLock i)) \<noteq> 0 then Some (sl_pid (slocks s (BufLock i))) else None | None \<Rightarrow> None)"

text \<open>A buffer in use stands for a block.\<close>

definition buf_of :: "'a bio_st_scheme \<Rightarrow> nat \<Rightarrow> u32 \<Rightarrow> bool" where
  "buf_of s i n \<longleftrightarrow> slot_of (bufs s) n = Some i \<and> b_valid (bufs s i)"

text \<open>The invariant: blocks have one size and at most one buffer, only the root device is cached, an unused buffer
  agrees with the disk, and a locked one is in use.\<close>

definition bufs_ok :: "(nat \<Rightarrow> buf_t) \<Rightarrow> (u32 \<Rightarrow> bytes) \<Rightarrow> (sleeplock_id \<Rightarrow> sleeplock) \<Rightarrow> bool" where
  "bufs_ok B D K \<longleftrightarrow>
     (\<forall>i<NBUF. length (b_data (B i)) = BSIZE) \<and> (\<forall>n. length (D n) = BSIZE) \<and>
     (\<forall>i<NBUF. \<forall>j<NBUF. b_dev (B i) = ROOTDEV \<and> b_dev (B j) = ROOTDEV \<and> b_blockno (B i) = b_blockno (B j) \<longrightarrow> i = j) \<and>
     (\<forall>i<NBUF. refcnt (B i) \<noteq> 0 \<or> b_valid (B i) \<longrightarrow> b_dev (B i) = ROOTDEV) \<and>
     (\<forall>i<NBUF. b_valid (B i) \<and> refcnt (B i) = 0 \<longrightarrow> b_data (B i) = D (b_blockno (B i))) \<and>
     (\<forall>i<NBUF. sl_locked (K (BufLock i)) \<noteq> 0 \<longrightarrow> refcnt (B i) \<noteq> 0)"

definition bio_ok :: "'a bio_st_scheme \<Rightarrow> bool" where
  "bio_ok s \<longleftrightarrow> (\<exists>L. lru (bufs s) L) \<and> bufs_ok (bufs s) (disk s) (slocks s)"

text \<open>A caller that holds none of the locks the cache takes.\<close>

definition calm :: "'a bio_st_scheme \<Rightarrow> nat \<Rightarrow> bool" where
  "calm s p \<longleftrightarrow> cur s = Some p \<and> pstate (procs s p) \<noteq> SLEEPING \<and> BcacheLock \<notin> held s \<and>
     (\<forall>l. SleepLk l \<notin> held s) \<and> (\<forall>i. ProcLock i \<notin> held s)"

text \<open>What cache operations may change: the cache, the disk, the buffer locks, and processes that wake up.\<close>

definition woke :: "(nat \<Rightarrow> proc) \<Rightarrow> (nat \<Rightarrow> proc) \<Rightarrow> bool" where
  "woke P Q \<longleftrightarrow> (\<forall>i. Q i = P i \<or> pstate (P i) = SLEEPING \<and> Q i = (P i)\<lparr>pstate := RUNNABLE\<rparr>)"

definition bio_only :: "'a bio_st_scheme \<Rightarrow> 'a bio_st_scheme \<Rightarrow> bool" where
  "bio_only s t \<longleftrightarrow> woke (procs s) (procs t) \<and> (\<forall>k. slocks t (InodeLock k) = slocks s (InodeLock k)) \<and>
     t = s\<lparr>procs := procs t, slocks := slocks t, bufs := bufs t, disk := disk t, dwrites := dwrites t\<rparr>"

lemma woke_refl [simp]: "woke P P"
  by (simp add: woke_def)

lemma woke_trans: "woke P Q \<Longrightarrow> woke Q R \<Longrightarrow> woke P R"
  unfolding woke_def by (metis proc.select_convs(1) proc.surjective proc.update_convs(1) procstate.distinct(29))

lemma woke_woken: "woke P (woken ch me P)"
  by (simp add: woke_def woken_def)

lemma bio_only_refl [simp]: "bio_only s s"
  by (simp add: bio_only_def)

lemma bio_only_trans:
  assumes "bio_only s t" and "bio_only t u" shows "bio_only s u"
proof -
  have t: "t = s\<lparr>procs := procs t, slocks := slocks t, bufs := bufs t, disk := disk t, dwrites := dwrites t\<rparr>"
    and u: "u = t\<lparr>procs := procs u, slocks := slocks u, bufs := bufs u, disk := disk u, dwrites := dwrites u\<rparr>"
    using assms by (simp_all add: bio_only_def)
  have "u = s\<lparr>procs := procs u, slocks := slocks u, bufs := bufs u, disk := disk u, dwrites := dwrites u\<rparr>"
    by (subst u, subst t) simp
  then show ?thesis using assms woke_trans unfolding bio_only_def by metis
qed

lemma bio_onlyE:
  assumes "bio_only s t"
  obtains P K B D W where "t = s\<lparr>procs := P, slocks := K, bufs := B, disk := D, dwrites := W\<rparr>"
    "woke (procs s) P" "\<And>k. K (InodeLock k) = slocks s (InodeLock k)"
  using assms that [where P = "procs t" and K = "slocks t" and B = "bufs t" and D = "disk t" and W = "dwrites t"] by (simp add: bio_only_def)

lemma bio_only_fields:
  assumes "bio_only s t"
  shows "held t = held s" "cur t = cur s" "mem t = mem s" "freelist t = freelist s"
    "slocks t (InodeLock k) = slocks s (InodeLock k)" "woke (procs s) (procs t)"
  using assms by (auto elim: bio_onlyE)

lemma woke_awake: "woke P Q \<Longrightarrow> pstate (P p) \<noteq> SLEEPING \<Longrightarrow> Q p = P p"
  by (auto simp: woke_def)

lemma calm_only: "bio_only s t \<Longrightarrow> calm s p \<Longrightarrow> calm t p \<and> procs t p = procs s p"
  using bio_only_fields [of s t] woke_awake [of "procs s" "procs t" p] by (auto simp: calm_def)

lemma calm_locks:
  "calm s p \<Longrightarrow> BcacheLock \<notin> held s \<and> SleepLk l \<notin> held s \<and> proc_locks_free s \<and> cur s = Some p"
  by (simp add: calm_def proc_locks_free_def)

subsection \<open>Reading a block\<close>

lemma find_unique:
  "(\<And>i j. i \<in> set L \<Longrightarrow> j \<in> set L \<Longrightarrow> P i \<Longrightarrow> P j \<Longrightarrow> i = j) \<Longrightarrow> List.find P L = Some i \<longleftrightarrow> i \<in> set L \<and> P i"
  by (induction L) auto

lemma find_in: "List.find P L = Some i \<Longrightarrow> i \<in> set L \<and> P i"
  by (induction L) (auto split: if_splits)

lemma bufs_okD:
  assumes "bufs_ok B D K" and "i < NBUF"
  shows "length (b_data (B i)) = BSIZE" "length (D n) = BSIZE"
    "j < NBUF \<Longrightarrow> b_dev (B i) = ROOTDEV \<Longrightarrow> b_dev (B j) = ROOTDEV \<Longrightarrow> b_blockno (B i) = b_blockno (B j) \<Longrightarrow> i = j"
    "refcnt (B i) \<noteq> 0 \<or> b_valid (B i) \<Longrightarrow> b_dev (B i) = ROOTDEV"
    "b_valid (B i) \<Longrightarrow> refcnt (B i) = 0 \<Longrightarrow> b_data (B i) = D (b_blockno (B i))"
    "sl_locked (K (BufLock i)) \<noteq> 0 \<Longrightarrow> refcnt (B i) \<noteq> 0"
  using assms unfolding bufs_ok_def by blast+

lemma slot_of_iff:
  "bufs_ok B D K \<Longrightarrow> slot_of B n = Some i \<longleftrightarrow> i < NBUF \<and> b_dev (B i) = ROOTDEV \<and> b_blockno (B i) = n"
  unfolding slot_of_def by (subst find_unique) (auto dest: bufs_okD(3))

lemma find_slot:
  assumes "bufs_ok B D K" and "lru B L"
  shows "List.find (\<lambda>i. b_dev (B i) = ROOTDEV \<and> b_blockno (B i) = n) L = slot_of B n"
proof (rule option_eqI)
  fix i
  show "List.find (\<lambda>i. b_dev (B i) = ROOTDEV \<and> b_blockno (B i) = n) L = Some i \<longleftrightarrow> slot_of B n = Some i"
    using assms by (subst find_unique) (auto simp: lru_def slot_of_iff dest: bufs_okD(3))
qed

text \<open>The buffer \<^verbatim>\<open>bread\<close> returns and what it holds afterwards; nothing else changes but its lock.\<close>

definition loaded :: "nat \<Rightarrow> u32 \<Rightarrow> 'a bio_st_scheme \<Rightarrow> buf_t" where
  "loaded i n s = (bufs s i)\<lparr>b_valid := True, b_dev := ROOTDEV, b_blockno := n,
     refcnt := (if slot_of (bufs s) n = None then 1 else refcnt (bufs s i) + 1), b_data := view s n\<rparr>"

definition lock_buf :: "nat \<Rightarrow> int \<Rightarrow> 'a bio_st_scheme \<Rightarrow> 'a bio_st_scheme" where
  "lock_buf i n s = s\<lparr>slocks := (slocks s)(BufLock i := (slocks s (BufLock i))\<lparr>sl_locked := 1, sl_pid := n\<rparr>)\<rparr>"

lemma bread_cached:
  assumes "bio_ok s" and "calm s p" and "slot_of (bufs s) n = Some i" and "lk s n = None"
  shows "bread ROOTDEV n s = Some (i, upd_buf i (\<lambda>_. loaded i n s) (lock_buf i (pid (procs s p)) s))"
proof -
  obtain L where L: "lru (bufs s) L" and B: "bufs_ok (bufs s) (disk s) (slocks s)" using assms(1) by (auto simp: bio_ok_def)
  have i: "i < NBUF" "b_dev (bufs s i) = ROOTDEV" "b_blockno (bufs s i) = n" using assms(3) slot_of_iff [OF B] by auto
  have fc: "bget_cached ROOTDEV n (b_next (bufs s NBUF)) (bufs s) = Some (Some i)"
    using bget_cached_eq [of "bufs s" "\<lambda>i. b_prev (bufs s i)" NBUF L] L find_slot [OF B L, of n] assms(3)
    by (auto simp: lru_def)
  have free: "sl_locked (slocks s (BufLock i)) = 0" using assms(3,4) by (simp add: lk_def split: if_splits)
  let ?u = "upd_buf i (\<lambda>q. q\<lparr>refcnt := refcnt q + 1\<rparr>) s"
  have "bget ROOTDEV n s = Some (i, lock_buf i (pid (procs s p)) ?u)"
    using fc calm_locks [OF assms(2)] free acquiresleep_free [of "BufLock i" ?u p]
    by (simp add: bget_def lock_simps lock_buf_def upd_buf_def)
  moreover have "loaded i n s = (bufs s i)\<lparr>refcnt := refcnt (bufs s i) + 1\<rparr>" if "b_valid (bufs s i)"
    using i that assms(3) by (cases "bufs s i") (simp add: loaded_def view_def)
  moreover have "loaded i n s = (bufs s i)\<lparr>refcnt := refcnt (bufs s i) + 1, b_data := disk s n, b_valid := True\<rparr>"
    if "\<not> b_valid (bufs s i)"
    using i that assms(3) by (cases "bufs s i") (simp add: loaded_def view_def)
  ultimately show ?thesis using i(3)
    by (cases "b_valid (bufs s i)") (simp_all add: bread_def lock_buf_def upd_buf_def disk_rw_def set_data_def)
qed

lemma bread_fresh:
  assumes "bio_ok s" and "calm s p" and "slot_of (bufs s) n = None" and "i < NBUF" "refcnt (bufs s i) = 0"
  shows "\<exists>i<NBUF. refcnt (bufs s i) = 0 \<and> bread ROOTDEV n s = Some (i, upd_buf i (\<lambda>_. loaded i n s) (lock_buf i (pid (procs s p)) s))"
proof -
  obtain L where L: "lru (bufs s) L" and B: "bufs_ok (bufs s) (disk s) (slocks s)" using assms(1) by (auto simp: bio_ok_def)
  have fc: "bget_cached ROOTDEV n (b_next (bufs s NBUF)) (bufs s) = Some None"
    using bget_cached_eq [of "bufs s" "\<lambda>i. b_prev (bufs s i)" NBUF L] L find_slot [OF B L, of n] assms(3)
    by (auto simp: lru_def)
  obtain j where j: "List.find (\<lambda>i. refcnt (bufs s i) = 0) (rev L) = Some j"
    using assms(4,5) L find_None_iff [of "\<lambda>i. refcnt (bufs s i) = 0" "rev L"] by (fastforce simp: lru_def)
  then have j': "j < NBUF" "refcnt (bufs s j) = 0" using L find_in [OF j] by (auto simp: lru_def)
  have fu: "bget_unused (b_prev (bufs s NBUF)) (bufs s) = Some (Some j)"
    using bget_unused_eq [of "\<lambda>i. b_next (bufs s i)" "bufs s" L NBUF] L j by (auto simp: lru_def)
  have free: "sl_locked (slocks s (BufLock j)) = 0" using bufs_okD(6) [OF B j'(1)] j'(2) by blast
  let ?u = "upd_buf j (\<lambda>q. q\<lparr>b_dev := ROOTDEV, b_blockno := n, b_valid := False, refcnt := 1\<rparr>) s"
  have "bget ROOTDEV n s = Some (j, lock_buf j (pid (procs s p)) ?u)"
    using fc fu calm_locks [OF assms(2)] free acquiresleep_free [of "BufLock j" ?u p]
    by (simp add: bget_def lock_simps lock_buf_def upd_buf_def)
  moreover have "loaded j n s = (bufs s j)\<lparr>b_dev := ROOTDEV, b_blockno := n, b_valid := False, refcnt := 1, b_data := disk s n, b_valid := True\<rparr>"
    using assms(3) by (cases "bufs s j") (simp add: loaded_def view_def)
  ultimately have "bread ROOTDEV n s = Some (j, upd_buf j (\<lambda>_. loaded j n s) (lock_buf j (pid (procs s p)) s))"
    by (simp add: bread_def lock_buf_def upd_buf_def disk_rw_def set_data_def)
  then show ?thesis using j' by blast
qed

text \<open>The blocks in use; while there are fewer of them than buffers, some buffer is unused.\<close>

definition in_use :: "'a bio_st_scheme \<Rightarrow> u32 set" where
  "in_use s = {n. 0 < rc s n}"

lemma in_use_room:
  assumes "bio_ok s" and "card (in_use s) < NBUF"
  shows "\<exists>i<NBUF. refcnt (bufs s i) = 0"
proof (rule ccontr)
  assume all: "\<not> ?thesis"
  have B: "bufs_ok (bufs s) (disk s) (slocks s)" using assms(1) by (simp add: bio_ok_def)
  have dev: "b_dev (bufs s i) = ROOTDEV" if "i < NBUF" for i using bufs_okD(4) [OF B that] all that by blast
  have sl: "slot_of (bufs s) (b_blockno (bufs s i)) = Some i" if "i < NBUF" for i
    using dev [OF that] that by (simp add: slot_of_iff [OF B])
  have "inj_on (\<lambda>i. b_blockno (bufs s i)) {..<NBUF}"
    using sl by (intro inj_onI) (metis lessThan_iff option.inject)
  moreover have "(\<lambda>i. b_blockno (bufs s i)) ` {..<NBUF} \<subseteq> in_use s"
    using sl all by (auto simp: in_use_def rc_def unat_gt_0)
  ultimately have "card {..<NBUF} \<le> card (in_use s)" by (rule card_inj_on_le) simp
  then show False using assms(2) by simp
qed

lemma lru_strip:
  assumes "lru B L" and "\<And>i. b_next (C i) = b_next (B i)" and "\<And>i. b_prev (C i) = b_prev (B i)"
  shows "lru C L"
  using assms by (simp add: lru_def)

lemma slot_of_upd:
  assumes B: "bufs_ok B D K" and C: "bufs_ok (B(i := q)) D' K'" and "i < NBUF"
    and "b_dev q = ROOTDEV" and "b_blockno q = n"
  shows "slot_of (B(i := q)) m = (if m = n then Some i else if slot_of B m = Some i then None else slot_of B m)"
proof (rule option_eqI)
  fix j
  show "slot_of (B(i := q)) m = Some j \<longleftrightarrow> (if m = n then Some i else if slot_of B m = Some i then None else slot_of B m) = Some j"
    using assms(3-5) bufs_okD(3) [OF B, of i j] bufs_okD(3) [OF C, of i j]
    by (auto simp: slot_of_iff [OF B] slot_of_iff [OF C] split: if_splits)
qed

lemma bufs_okI:
  assumes "\<And>i. i < NBUF \<Longrightarrow> length (b_data (B i)) = BSIZE" and "\<And>n. length (D n) = BSIZE"
    and "\<And>i j. i < NBUF \<Longrightarrow> j < NBUF \<Longrightarrow> b_dev (B i) = ROOTDEV \<Longrightarrow> b_dev (B j) = ROOTDEV \<Longrightarrow> b_blockno (B i) = b_blockno (B j) \<Longrightarrow> i = j"
    and "\<And>i. i < NBUF \<Longrightarrow> refcnt (B i) \<noteq> 0 \<or> b_valid (B i) \<Longrightarrow> b_dev (B i) = ROOTDEV"
    and "\<And>i. i < NBUF \<Longrightarrow> b_valid (B i) \<Longrightarrow> refcnt (B i) = 0 \<Longrightarrow> b_data (B i) = D (b_blockno (B i))"
    and "\<And>i. i < NBUF \<Longrightarrow> sl_locked (K (BufLock i)) \<noteq> 0 \<Longrightarrow> refcnt (B i) \<noteq> 0"
  shows "bufs_ok B D K"
  unfolding bufs_ok_def using assms by blast

lemma bufs_ok_upd:
  assumes B: "bufs_ok B D K" and len: "length (b_data q) = BSIZE"
    and key: "\<And>j. j < NBUF \<Longrightarrow> j \<noteq> i \<Longrightarrow> b_dev (B j) = ROOTDEV \<Longrightarrow> b_dev q = ROOTDEV \<Longrightarrow> b_blockno (B j) \<noteq> b_blockno q"
    and dev: "refcnt q \<noteq> 0 \<or> b_valid q \<Longrightarrow> b_dev q = ROOTDEV"
    and clean: "b_valid q \<Longrightarrow> refcnt q = 0 \<Longrightarrow> b_data q = D (b_blockno q)"
    and locked: "sl_locked (K' (BufLock i)) \<noteq> 0 \<Longrightarrow> refcnt q \<noteq> 0" and other: "\<And>j. j \<noteq> i \<Longrightarrow> K' (BufLock j) = K (BufLock j)"
  shows "bufs_ok (B(i := q)) D K'"
proof (rule bufs_okI)
  note d = bufs_okD [OF B]
  show "a = b" if "a < NBUF" "b < NBUF" "b_dev ((B(i := q)) a) = ROOTDEV" "b_dev ((B(i := q)) b) = ROOTDEV"
    "b_blockno ((B(i := q)) a) = b_blockno ((B(i := q)) b)" for a b
    using that d(3) [of a b] key [of a] key [of b] by (cases "a = i"; cases "b = i") auto
  show "length (b_data ((B(i := q)) a)) = BSIZE" if "a < NBUF" for a using d(1) [OF that] len by simp
  show "length (D n) = BSIZE" for n using d(2) [of 0] by simp
  show "b_dev ((B(i := q)) a) = ROOTDEV" if "a < NBUF" "refcnt ((B(i := q)) a) \<noteq> 0 \<or> b_valid ((B(i := q)) a)" for a
    using that d(4) [of a] dev by (cases "a = i") auto
  show "b_data ((B(i := q)) a) = D (b_blockno ((B(i := q)) a))"
    if "a < NBUF" "b_valid ((B(i := q)) a)" "refcnt ((B(i := q)) a) = 0" for a
    using that d(5) [of a] clean by (cases "a = i") auto
  show "refcnt ((B(i := q)) a) \<noteq> 0" if "a < NBUF" "sl_locked (K' (BufLock a)) \<noteq> 0" for a
    using that d(6) [of a] locked other [of a] by (cases "a = i") auto
qed

lemma loaded_ok:
  assumes B: "bufs_ok (bufs s) (disk s) (slocks s)" and i: "i < NBUF"
    and sl: "slot_of (bufs s) n = Some i \<or> slot_of (bufs s) n = None \<and> refcnt (bufs s i) = 0"
    and rc: "rc s n + 1 < 2 ^ 32"
  shows "bufs_ok ((bufs s)(i := loaded i n s)) (disk s) (slocks (lock_buf i k s))"
    and "unat (refcnt (loaded i n s)) = rc s n + 1"
proof -
  show rc': "unat (refcnt (loaded i n s)) = rc s n + 1"
  proof (cases "slot_of (bufs s) n")
    case (Some j)
    then have "unat (refcnt (bufs s j) + 1) = unat (refcnt (bufs s j)) + 1"
      using rc by (subst unat_add_lem [THEN iffD1]) (auto simp: rc_def)
    then show ?thesis using sl Some by (simp add: loaded_def rc_def)
  qed (use sl in \<open>simp add: loaded_def rc_def\<close>)
  have len: "length (view s n) = BSIZE"
    using bufs_okD(1,2) [OF B] slot_of_iff [OF B] i by (auto simp: view_def split: option.splits)
  have uniq: "j = i" if "j < NBUF" "b_dev (bufs s j) = ROOTDEV" "b_blockno (bufs s j) = n" for j
    using sl that slot_of_iff [OF B, of n j] by auto
  have nz: "refcnt (loaded i n s) \<noteq> 0" using rc' by auto
  have [simp]: "b_dev (loaded i n s) = ROOTDEV" "b_blockno (loaded i n s) = n" "b_data (loaded i n s) = view s n"
    by (simp_all add: loaded_def)
  show "bufs_ok ((bufs s)(i := loaded i n s)) (disk s) (slocks (lock_buf i k s))"
    by (rule bufs_ok_upd [OF B]) (use uniq len nz in \<open>auto simp: lock_buf_def\<close>)
qed

subsection \<open>The operations as steps of the block store\<close>

record store =
  st_view :: "u32 \<Rightarrow> bytes"
  st_disk :: "u32 \<Rightarrow> bytes"
  st_rc :: "u32 \<Rightarrow> nat"
  st_lk :: "u32 \<Rightarrow> int option"
  st_writes :: "(u32 \<times> bytes) list"

definition store_of :: "'a bio_st_scheme \<Rightarrow> store" where
  "store_of s = \<lparr>st_view = view s, st_disk = disk s, st_rc = rc s, st_lk = lk s, st_writes = dwrites s\<rparr>"

definition a_read :: "int \<Rightarrow> u32 \<Rightarrow> store \<Rightarrow> store" where
  "a_read k n a = a\<lparr>st_rc := (st_rc a)(n := st_rc a n + 1), st_lk := (st_lk a)(n := Some k)\<rparr>"

definition a_set :: "u32 \<Rightarrow> bytes \<Rightarrow> store \<Rightarrow> store" where
  "a_set n d a = a\<lparr>st_view := (st_view a)(n := d)\<rparr>"

definition a_write :: "u32 \<Rightarrow> store \<Rightarrow> store" where
  "a_write n a = a\<lparr>st_disk := (st_disk a)(n := st_view a n), st_writes := st_writes a @ [(n, st_view a n)]\<rparr>"

definition a_release :: "u32 \<Rightarrow> store \<Rightarrow> store" where
  "a_release n a = a\<lparr>st_rc := (st_rc a)(n := st_rc a n - 1), st_lk := (st_lk a)(n := None)\<rparr>"

definition a_pin :: "u32 \<Rightarrow> store \<Rightarrow> store" where
  "a_pin n a = a\<lparr>st_rc := (st_rc a)(n := st_rc a n + 1)\<rparr>"

definition a_unpin :: "u32 \<Rightarrow> store \<Rightarrow> store" where
  "a_unpin n a = a\<lparr>st_rc := (st_rc a)(n := st_rc a n - 1)\<rparr>"

definition ready :: "int \<Rightarrow> 'a bio_st_scheme \<Rightarrow> bool" where
  "ready k s \<longleftrightarrow> bio_ok s \<and> (\<exists>p. calm s p \<and> pid (procs s p) = k)"

lemma readyI: "ready k s \<Longrightarrow> bio_only s t \<Longrightarrow> bio_ok t \<Longrightarrow> ready k t"
  unfolding ready_def using calm_only by metis

lemma store_of_loaded:
  assumes B: "bufs_ok (bufs s) (disk s) (slocks s)" and i: "i < NBUF"
    and sl: "slot_of (bufs s) n = Some i \<or> slot_of (bufs s) n = None \<and> refcnt (bufs s i) = 0"
    and rc: "rc s n + 1 < 2 ^ 32" and t_def: "t = upd_buf i (\<lambda>_. loaded i n s) (lock_buf i k s)"
  shows "store_of t = a_read k n (store_of s)" and "buf_of t i n"
    and "buf_of s j m \<Longrightarrow> 0 < rc s m \<Longrightarrow> buf_of t j m"
proof -
  note C = loaded_ok(1) [OF B i sl rc, of k]
  have t: "bufs t = (bufs s)(i := loaded i n s)" "disk t = disk s" "dwrites t = dwrites s" "slocks t = slocks (lock_buf i k s)"
    by (simp_all add: t_def lock_buf_def)
  have l: "b_valid (loaded i n s)" "b_dev (loaded i n s) = ROOTDEV" "b_blockno (loaded i n s) = n" "b_data (loaded i n s) = view s n"
    by (simp_all add: loaded_def)
  have slot: "slot_of (bufs t) m = (if m = n then Some i else if slot_of (bufs s) m = Some i then None else slot_of (bufs s) m)" for m
    unfolding t by (rule slot_of_upd [OF B C i l(2,3)])
  have ev: "refcnt (bufs s i) = 0" if "slot_of (bufs s) m = Some i" "m \<noteq> n" for m
    using sl that slot_of_iff [OF B] by auto
  have "view t m = view s m \<and> rc t m = ((rc s)(n := rc s n + 1)) m \<and> lk t m = ((lk s)(n := Some k)) m" for m
  proof (cases "m = n")
    case True
    then have sn: "slot_of (bufs t) m = Some i" using slot by simp
    show ?thesis unfolding view_def [of t] rc_def [of t] lk_def [of t] sn
      using True loaded_ok(2) [OF B i sl rc] by (simp add: t l lock_buf_def)
  next
    case False
    show ?thesis
    proof (cases "slot_of (bufs s) m = Some i")
      case True
      have sn: "slot_of (bufs t) m = None" using slot True False by simp
      have "refcnt (bufs s i) = 0" "b_blockno (bufs s i) = m" using ev True False slot_of_iff [OF B] by auto
      then have "view s m = disk s m" "rc s m = 0" "lk s m = None"
        using True bufs_okD(5,6) [OF B i] by (auto simp: view_def rc_def lk_def)
      then show ?thesis unfolding view_def [of t] rc_def [of t] lk_def [of t] sn using False t(2) by simp
    next
      case sj: False
      have sn: "slot_of (bufs t) m = slot_of (bufs s) m" using slot False sj by simp
      show ?thesis unfolding view_def rc_def lk_def sn
        using False sj t by (auto simp: lock_buf_def split: option.splits)
    qed
  qed
  then show "store_of t = a_read k n (store_of s)"
    using t by (simp add: store_of_def a_read_def fun_eq_iff)
  show "buf_of t i n" unfolding buf_of_def slot by (simp add: t l)
  show "buf_of t j m" if "buf_of s j m" "0 < rc s m"
    unfolding buf_of_def slot using that ev [of m] l(1) sl by (auto simp: buf_of_def t rc_def)
qed

lemma bread_law:
  assumes "ready k s" and "lk s n = None" and "0 < rc s n \<or> card (in_use s) < NBUF" and "rc s n + 1 < 2 ^ 32"
  shows "\<exists>i t. bread ROOTDEV n s = Some (i, t) \<and> ready k t \<and> bio_only s t \<and> buf_of t i n \<and>
    store_of t = a_read k n (store_of s) \<and> (\<forall>j m. buf_of s j m \<and> 0 < rc s m \<longrightarrow> buf_of t j m)"
proof -
  obtain p L where p: "calm s p" "pid (procs s p) = k" and L: "lru (bufs s) L" and ok: "bio_ok s"
    and B: "bufs_ok (bufs s) (disk s) (slocks s)" using assms(1) by (auto simp: ready_def bio_ok_def)
  have "\<exists>i<NBUF. (slot_of (bufs s) n = Some i \<or> slot_of (bufs s) n = None \<and> refcnt (bufs s i) = 0) \<and>
      bread ROOTDEV n s = Some (i, upd_buf i (\<lambda>_. loaded i n s) (lock_buf i k s))"
  proof (cases "slot_of (bufs s) n")
    case None
    then have "card (in_use s) < NBUF" using assms(3) by (simp add: rc_def)
    then show ?thesis using bread_fresh [OF ok p(1) None] in_use_room [OF ok] None p(2) by blast
  next
    case (Some i)
    then show ?thesis using bread_cached [OF ok p(1) Some assms(2)] slot_of_iff [OF B] p(2) by blast
  qed
  then obtain i where i: "i < NBUF" and sl: "slot_of (bufs s) n = Some i \<or> slot_of (bufs s) n = None \<and> refcnt (bufs s i) = 0"
    and r: "bread ROOTDEV n s = Some (i, upd_buf i (\<lambda>_. loaded i n s) (lock_buf i k s))" by blast
  let ?t = "upd_buf i (\<lambda>_. loaded i n s) (lock_buf i k s)"
  have "lru (bufs ?t) L" using L by (rule lru_strip) (simp_all add: loaded_def lock_buf_def)
  then have "bio_ok ?t" using loaded_ok(1) [OF B i sl assms(4), of k] by (auto simp: bio_ok_def lock_buf_def)
  moreover have "bio_only s ?t" by (simp add: bio_only_def upd_buf_def lock_buf_def)
  ultimately show ?thesis using r store_of_loaded [OF B i sl assms(4) refl] readyI [OF assms(1)] by blast
qed

text \<open>The other operations keep every buffer's block.\<close>

lemma slot_of_cong:
  "(\<And>i. i < NBUF \<Longrightarrow> b_dev (C i) = b_dev (B i) \<and> b_blockno (C i) = b_blockno (B i)) \<Longrightarrow> slot_of C n = slot_of B n"
  unfolding slot_of_def by (rule find_cong) auto

lemma buf_ofD:
  assumes "buf_of s i n" and "bio_ok s"
  shows "i < NBUF" "b_dev (bufs s i) = ROOTDEV" "b_blockno (bufs s i) = n" "b_valid (bufs s i)" "b_data (bufs s i) = view s n"
    "rc s n = unat (refcnt (bufs s i))" "lk s n = (if sl_locked (slocks s (BufLock i)) \<noteq> 0 then Some (sl_pid (slocks s (BufLock i))) else None)"
  using assms slot_of_iff [of "bufs s" "disk s" "slocks s" n i]
  by (auto simp: buf_of_def bio_ok_def view_def rc_def lk_def)

lemma bufs_ok_same:
  assumes B: "bufs_ok B D K" and i: "i < NBUF" "b_dev (B i) = ROOTDEV"
    and q: "b_dev q = ROOTDEV" "b_blockno q = b_blockno (B i)" "length (b_data q) = BSIZE"
    and "refcnt q = 0 \<Longrightarrow> b_data q = D (b_blockno (B i))"
    and "sl_locked (K' (BufLock i)) = 0 \<or> refcnt q \<noteq> 0" and "\<And>j. j \<noteq> i \<Longrightarrow> K' (BufLock j) = K (BufLock j)"
  shows "bufs_ok (B(i := q)) D K'"
proof (rule bufs_ok_upd [OF B])
  show "b_blockno (B j) \<noteq> b_blockno q" if "j < NBUF" "j \<noteq> i" "b_dev (B j) = ROOTDEV" for j
    using bufs_okD(3) [OF B that(1) i(1) that(3) i(2)] that(2) q(2) by auto
qed (use assms in simp_all)

text \<open>An update of one buffer in use that keeps its block.\<close>

lemma store_upd:
  assumes s: "bio_ok s" "buf_of s i n" and q: "b_dev q = ROOTDEV" "b_blockno q = n" "b_valid q"
    and t: "bufs t = (bufs s)(i := q)" and K: "\<forall>j. j \<noteq> i \<longrightarrow> slocks t (BufLock j) = slocks s (BufLock j)"
    and D: "\<forall>m. m \<noteq> n \<longrightarrow> disk t m = disk s m"
  shows "view t = (view s)(n := b_data q)" and "rc t = (rc s)(n := unat (refcnt q))"
    and "lk t = (lk s)(n := (if sl_locked (slocks t (BufLock i)) \<noteq> 0 then Some (sl_pid (slocks t (BufLock i))) else None))"
    and "buf_of t j m \<longleftrightarrow> buf_of s j m"
proof -
  have B: "bufs_ok (bufs s) (disk s) (slocks s)" using s(1) by (simp add: bio_ok_def)
  note d = buf_ofD [OF s(2,1)]
  have slot: "slot_of (bufs t) m = slot_of (bufs s) m" for m
    unfolding t by (rule slot_of_cong) (use d q in auto)
  have n: "slot_of (bufs s) n = Some i" using s(2) by (simp add: buf_of_def)
  have other: "slot_of (bufs s) m \<noteq> Some i" if "m \<noteq> n" for m using that slot_of_iff [OF B] d by auto
  show "view t = (view s)(n := b_data q)"
  proof
    fix m show "view t m = ((view s)(n := b_data q)) m"
      unfolding view_def slot using n q t D other [of m] by (cases "m = n") (auto split: option.splits)
  qed
  show "rc t = (rc s)(n := unat (refcnt q))"
  proof
    fix m show "rc t m = ((rc s)(n := unat (refcnt q))) m"
      unfolding rc_def slot using n t other [of m] by (cases "m = n") (auto split: option.splits)
  qed
  show "lk t = (lk s)(n := (if sl_locked (slocks t (BufLock i)) \<noteq> 0 then Some (sl_pid (slocks t (BufLock i))) else None))"
  proof
    fix m show "lk t m = ((lk s)(n := (if sl_locked (slocks t (BufLock i)) \<noteq> 0 then Some (sl_pid (slocks t (BufLock i))) else None))) m"
      unfolding lk_def slot using n K other [of m] by (cases "m = n") (auto split: option.splits)
  qed
  show "buf_of t j m \<longleftrightarrow> buf_of s j m"
    unfolding buf_of_def slot using t q d by auto
qed

lemma store_upd_same:
  assumes "bio_ok s" "buf_of s i n" and "b_dev q = ROOTDEV" "b_blockno q = n" "b_valid q"
    and "bufs t = (bufs s)(i := q)" and "slocks t = slocks s" and "\<forall>m. m \<noteq> n \<longrightarrow> disk t m = disk s m"
  shows "store_of t = \<lparr>st_view = (view s)(n := b_data q), st_disk = disk t, st_rc = (rc s)(n := unat (refcnt q)), st_lk = lk s, st_writes = dwrites t\<rparr>"
    and "buf_of t j m \<longleftrightarrow> buf_of s j m"
proof -
  have K: "\<forall>j. j \<noteq> i \<longrightarrow> slocks t (BufLock j) = slocks s (BufLock j)" using assms(7) by simp
  note u = store_upd [OF assms(1-6) K assms(8)]
  have e: "(if sl_locked (slocks t (BufLock i)) \<noteq> 0 then Some (sl_pid (slocks t (BufLock i))) else None) = lk s n"
    using buf_ofD(7) [OF assms(2,1)] assms(7) by simp
  have "lk t = (lk s)(n := lk s n)" using u(3) unfolding e .
  then have "lk t = lk s" by (simp only: fun_upd_triv)
  then show "store_of t = \<lparr>st_view = (view s)(n := b_data q), st_disk = disk t, st_rc = (rc s)(n := unat (refcnt q)), st_lk = lk s, st_writes = dwrites t\<rparr>"
    using u(1,2) by (simp only: store_of_def)
  show "buf_of t j m \<longleftrightarrow> buf_of s j m" by (rule u(4))
qed

lemma set_data_law:
  assumes "ready k s" and "buf_of s i n" and "0 < rc s n" and "length d = BSIZE"
  shows "ready k (set_data i d s)" and "bio_only s (set_data i d s)"
    and "store_of (set_data i d s) = a_set n d (store_of s)" and "buf_of (set_data i d s) j m \<longleftrightarrow> buf_of s j m"
proof -
  have ok: "bio_ok s" using assms(1) by (simp add: ready_def)
  note b = buf_ofD [OF assms(2) ok]
  obtain L where L: "lru (bufs s) L" and B: "bufs_ok (bufs s) (disk s) (slocks s)" using ok by (auto simp: bio_ok_def)
  let ?t = "set_data i d s" and ?q = "(bufs s i)\<lparr>b_data := d\<rparr>"
  have t: "bufs ?t = (bufs s)(i := ?q)" "disk ?t = disk s" "slocks ?t = slocks s" "dwrites ?t = dwrites s"
    by (simp_all add: set_data_def)
  have nz: "refcnt (bufs s i) \<noteq> 0" using assms(3) b(6) by auto
  have "bufs_ok (bufs ?t) (disk ?t) (slocks ?t)" unfolding t
    by (rule bufs_ok_same [OF B b(1,2)]) (use assms(4) nz b(2) in simp_all)
  moreover have "lru (bufs ?t) L" using L by (rule lru_strip) (simp_all add: t)
  ultimately have ok': "bio_ok ?t" by (auto simp: bio_ok_def)
  show o: "bio_only s ?t" by (simp add: bio_only_def set_data_def upd_buf_def)
  show "ready k ?t" by (rule readyI [OF assms(1) o ok'])
  have u: "store_of ?t = \<lparr>st_view = (view s)(n := b_data ?q), st_disk = disk ?t, st_rc = (rc s)(n := unat (refcnt ?q)), st_lk = lk s, st_writes = dwrites ?t\<rparr>"
    "buf_of ?t j m \<longleftrightarrow> buf_of s j m" for j m
    by (rule store_upd_same [OF ok assms(2)]; use b t in simp)+
  show "buf_of ?t j m \<longleftrightarrow> buf_of s j m" by (rule u(2))
  show "store_of ?t = a_set n d (store_of s)"
    unfolding u(1) using b(6) t by (simp add: a_set_def store_of_def fun_upd_idem)
qed

lemma disk_rw_read: "disk_rw i False s = set_data i (disk s (b_blockno (bufs s i))) s"
  by (simp add: disk_rw_def)

lemma holding_buf:
  assumes "ready k s" and "buf_of s i n" and "lk s n = Some k"
  shows "holdingsleep (BufLock i) s = Some (True, s)"
proof -
  obtain p where p: "calm s p" "pid (procs s p) = k" and ok: "bio_ok s" using assms(1) by (auto simp: ready_def)
  show ?thesis using holdingsleep_eq [of "BufLock i" s p] calm_locks [OF p(1)] p(2) buf_ofD(7) [OF assms(2) ok] assms(3)
    by (simp split: if_splits)
qed

lemma bwrite_law:
  assumes "ready k s" and "buf_of s i n" and "lk s n = Some k"
  shows "\<exists>t. bwrite i s = Some t \<and> ready k t \<and> bio_only s t \<and> store_of t = a_write n (store_of s) \<and>
    (\<forall>j m. buf_of t j m \<longleftrightarrow> buf_of s j m)"
proof -
  have ok: "bio_ok s" using assms(1) by (simp add: ready_def)
  note b = buf_ofD [OF assms(2) ok]
  obtain L where L: "lru (bufs s) L" and B: "bufs_ok (bufs s) (disk s) (slocks s)" using ok by (auto simp: bio_ok_def)
  let ?t = "disk_rw i True s"
  have t: "bufs ?t = bufs s" "disk ?t = (disk s)(n := view s n)" "slocks ?t = slocks s" "dwrites ?t = dwrites s @ [(n, view s n)]"
    using b by (simp_all add: disk_rw_def)
  have "bufs_ok (bufs s) ((disk s)(n := view s n)) (slocks s)"
  proof (rule bufs_okI)
    note d = bufs_okD [OF B]
    show "a = c" if "a < NBUF" "c < NBUF" "b_dev (bufs s a) = ROOTDEV" "b_dev (bufs s c) = ROOTDEV"
      "b_blockno (bufs s a) = b_blockno (bufs s c)" for a c
      using d(3) that by blast
    show "length (((disk s)(n := view s n)) m) = BSIZE" for m using d(1,2) [OF b(1)] b(5) by simp
    show "b_data (bufs s a) = ((disk s)(n := view s n)) (b_blockno (bufs s a))"
      if "a < NBUF" "b_valid (bufs s a)" "refcnt (bufs s a) = 0" for a
      using d(5) [OF that] d(3) [OF that(1) b(1)] d(4) [OF that(1)] that b by (cases "a = i") auto
  qed (use bufs_okD [OF B] in blast)+
  then have ok': "bio_ok ?t" using L t by (auto simp: bio_ok_def)
  have o: "bio_only s ?t" by (simp add: bio_only_def disk_rw_def)
  have u: "store_of ?t = \<lparr>st_view = (view s)(n := b_data (bufs s i)), st_disk = disk ?t, st_rc = (rc s)(n := unat (refcnt (bufs s i))), st_lk = lk s, st_writes = dwrites ?t\<rparr>"
    "buf_of ?t j m \<longleftrightarrow> buf_of s j m" for j m
    by (rule store_upd_same [OF ok assms(2), where q = "bufs s i"]; use b(2-4) t in \<open>simp only: fun_upd_triv fun_upd_apply; simp\<close>)+
  have "store_of ?t = a_write n (store_of s)"
    unfolding u(1) using b(5,6) t by (simp add: a_write_def store_of_def fun_upd_idem)
  moreover have "bwrite i s = Some ?t" using holding_buf [OF assms] by (simp add: bwrite_def)
  ultimately show ?thesis using readyI [OF assms(1) o ok'] o u(2) by blast
qed

lemma unat_dec: "(w :: u32) \<noteq> 0 \<Longrightarrow> unat (w - 1) = unat w - 1"
  by (subst unat_sub) (auto simp: word_le_nat_alt unat_gt_0 Suc_le_eq)

lemma unat_inc: "unat (w :: u32) + 1 < 2 ^ 32 \<Longrightarrow> unat (w + 1) = unat w + 1"
  by (subst unat_add_lem [THEN iffD1]) auto

lemma refcnt_law:
  assumes "ready k s" and "buf_of s i n" and r: "r \<noteq> 0 \<or> lk s n = None \<and> view s n = disk s n"
  shows "ready k (upd_buf i (\<lambda>q. q\<lparr>refcnt := r\<rparr>) s)" and "bio_only s (upd_buf i (\<lambda>q. q\<lparr>refcnt := r\<rparr>) s)"
    and "store_of (upd_buf i (\<lambda>q. q\<lparr>refcnt := r\<rparr>) s) = (store_of s)\<lparr>st_rc := (rc s)(n := unat r)\<rparr>"
    and "buf_of (upd_buf i (\<lambda>q. q\<lparr>refcnt := r\<rparr>) s) j m \<longleftrightarrow> buf_of s j m"
proof -
  have ok: "bio_ok s" using assms(1) by (simp add: ready_def)
  note b = buf_ofD [OF assms(2) ok]
  obtain L where L: "lru (bufs s) L" and B: "bufs_ok (bufs s) (disk s) (slocks s)" using ok by (auto simp: bio_ok_def)
  let ?q = "(bufs s i)\<lparr>refcnt := r\<rparr>" and ?t = "upd_buf i (\<lambda>q. q\<lparr>refcnt := r\<rparr>) s"
  have t: "bufs ?t = (bufs s)(i := ?q)" "disk ?t = disk s" "slocks ?t = slocks s" "dwrites ?t = dwrites s" by simp_all
  have len: "length (b_data (bufs s i)) = BSIZE" using bufs_okD(1) [OF B b(1)] .
  have fr: "sl_locked (slocks s (BufLock i)) = 0" if "lk s n = None" using that b(7) by (simp split: if_splits)
  have "bufs_ok (bufs ?t) (disk ?t) (slocks ?t)" unfolding t
    by (rule bufs_ok_same [OF B b(1,2)]) (use r len fr b(2-5) in auto)
  moreover have "lru (bufs ?t) L" using L by (rule lru_strip) simp_all
  ultimately have ok': "bio_ok ?t" by (auto simp: bio_ok_def)
  show o: "bio_only s ?t" by (simp add: bio_only_def upd_buf_def)
  show "ready k ?t" by (rule readyI [OF assms(1) o ok'])
  have u: "store_of ?t = \<lparr>st_view = (view s)(n := b_data ?q), st_disk = disk ?t, st_rc = (rc s)(n := unat (refcnt ?q)), st_lk = lk s, st_writes = dwrites ?t\<rparr>"
    "buf_of ?t j m \<longleftrightarrow> buf_of s j m" for j m
    by (rule store_upd_same [OF ok assms(2), where q = ?q]; use b(2-4) t in simp)+
  show "buf_of ?t j m \<longleftrightarrow> buf_of s j m" by (rule u(2))
  show "store_of ?t = (store_of s)\<lparr>st_rc := (rc s)(n := unat r)\<rparr>"
    unfolding u(1) using b(5) t by (simp add: store_of_def fun_upd_idem)
qed

lemma bpin_law:
  assumes "ready k s" and "buf_of s i n" and "rc s n + 1 < 2 ^ 32"
  shows "\<exists>t. bpin i s = Some t \<and> ready k t \<and> bio_only s t \<and> store_of t = a_pin n (store_of s) \<and>
    (\<forall>j m. buf_of t j m \<longleftrightarrow> buf_of s j m)"
proof -
  have ok: "bio_ok s" and free: "BcacheLock \<notin> held s" using assms(1) by (auto simp: ready_def calm_def)
  note b = buf_ofD [OF assms(2) ok]
  let ?r = "refcnt (bufs s i) + 1"
  have r: "unat ?r = rc s n + 1" using assms(3) b(6) by (simp add: unat_inc)
  then have nz: "?r \<noteq> 0" by auto
  have "bpin i s = Some (upd_buf i (\<lambda>q. q\<lparr>refcnt := ?r\<rparr>) s)"
    using free by (simp add: bpin_def lock_simps upd_buf_def)
  then show ?thesis using refcnt_law [OF assms(1,2), of ?r] nz r by (simp add: a_pin_def store_of_def)
qed

lemma bunpin_law:
  assumes "ready k s" and "buf_of s i n" and "1 < rc s n"
  shows "\<exists>t. bunpin i s = Some t \<and> ready k t \<and> bio_only s t \<and> store_of t = a_unpin n (store_of s) \<and>
    (\<forall>j m. buf_of t j m \<longleftrightarrow> buf_of s j m)"
proof -
  have ok: "bio_ok s" and free: "BcacheLock \<notin> held s" using assms(1) by (auto simp: ready_def calm_def)
  note b = buf_ofD [OF assms(2) ok]
  let ?r = "refcnt (bufs s i) - 1"
  have "refcnt (bufs s i) \<noteq> 0" using assms(3) b(6) by auto
  then have r: "unat ?r = rc s n - 1" using b(6) by (simp add: unat_dec)
  then have nz: "?r \<noteq> 0" using assms(3) by auto
  have "bunpin i s = Some (upd_buf i (\<lambda>q. q\<lparr>refcnt := ?r\<rparr>) s)"
    using free by (simp add: bunpin_def lock_simps upd_buf_def)
  then show ?thesis using refcnt_law [OF assms(1,2), of ?r] nz r by (simp add: a_unpin_def store_of_def)
qed

lemma unlock_buf:
  assumes "ready k s" and "buf_of s i n" and "0 < rc s n"
  shows "\<exists>t. releasesleep (BufLock i) s = Some t \<and> ready k t \<and> bio_only s t \<and> bufs t = bufs s \<and>
    store_of t = (store_of s)\<lparr>st_lk := (lk s)(n := None)\<rparr> \<and> (\<forall>j m. buf_of t j m \<longleftrightarrow> buf_of s j m)"
proof -
  obtain p where p: "calm s p" "pid (procs s p) = k" and ok: "bio_ok s" using assms(1) by (auto simp: ready_def)
  note b = buf_ofD [OF assms(2) ok]
  obtain L where L: "lru (bufs s) L" and B: "bufs_ok (bufs s) (disk s) (slocks s)" using ok by (auto simp: bio_ok_def)
  let ?t = "s\<lparr>procs := woken (ChSleepLock (BufLock i)) (cur s) (procs s),
    slocks := (slocks s)(BufLock i := (slocks s (BufLock i))\<lparr>sl_locked := 0, sl_pid := 0\<rparr>)\<rparr>"
  have rel: "releasesleep (BufLock i) s = Some ?t" using calm_locks [OF p(1), of "BufLock i"] by (simp add: releasesleep_eq)
  have K: "\<forall>j. j \<noteq> i \<longrightarrow> slocks ?t (BufLock j) = slocks s (BufLock j)" by simp
  have nz: "refcnt (bufs s i) \<noteq> 0" using assms(3) b(6) by auto
  have "bufs_ok ((bufs s)(i := bufs s i)) (disk s) (slocks ?t)"
    by (rule bufs_ok_same [OF B b(1,2)]) (use b(2) nz K bufs_okD(1) [OF B b(1)] in simp_all)
  then have ok': "bio_ok ?t" using L by (auto simp: bio_ok_def)
  have o: "bio_only s ?t" by (simp add: bio_only_def woke_woken)
  have tb: "bufs ?t = (bufs s)(i := bufs s i)" and D: "\<forall>m. m \<noteq> n \<longrightarrow> disk ?t m = disk s m" by simp_all
  note u = store_upd [OF ok assms(2) b(2-4) tb K D]
  have "store_of ?t = (store_of s)\<lparr>st_lk := (lk s)(n := None)\<rparr>"
    using u(1-3) b(5,6) by (simp add: store_of_def fun_upd_idem)
  then show ?thesis using rel readyI [OF assms(1) o ok'] o u(4) by simp
qed

lemma store_strip:
  assumes "\<And>i. strip (bufs t i) = strip (bufs s i)" and "disk t = disk s" "slocks t = slocks s" "dwrites t = dwrites s"
  shows "store_of t = store_of s" and "buf_of t j m \<longleftrightarrow> buf_of s j m"
    and "bufs_ok (bufs t) (disk t) (slocks t) \<longleftrightarrow> bufs_ok (bufs s) (disk s) (slocks s)"
proof -
  have e: "b_valid (bufs t i) = b_valid (bufs s i)" "b_dev (bufs t i) = b_dev (bufs s i)" "b_blockno (bufs t i) = b_blockno (bufs s i)"
    "refcnt (bufs t i) = refcnt (bufs s i)" "b_data (bufs t i) = b_data (bufs s i)" for i
    using assms(1) [of i] by (simp_all add: strip_eq)
  have sl: "slot_of (bufs t) n = slot_of (bufs s) n" for n by (simp add: slot_of_def e)
  have "view t = view s" "rc t = rc s" "lk t = lk s"
    by (simp_all add: fun_eq_iff view_def rc_def lk_def sl e assms(2,3) cong: option.case_cong if_cong)
  then show "store_of t = store_of s" using assms by (simp add: store_of_def)
  show "buf_of t j m \<longleftrightarrow> buf_of s j m" by (simp add: buf_of_def sl e)
  show "bufs_ok (bufs t) (disk t) (slocks t) \<longleftrightarrow> bufs_ok (bufs s) (disk s) (slocks s)"
    by (simp add: bufs_ok_def e assms(2,3))
qed

lemma lru_move_law:
  assumes "ready k s" and "i < NBUF"
  shows "ready k (lru_insert i (lru_remove i s))" and "bio_only s (lru_insert i (lru_remove i s))"
    and "store_of (lru_insert i (lru_remove i s)) = store_of s"
    and "buf_of (lru_insert i (lru_remove i s)) j m \<longleftrightarrow> buf_of s j m"
proof -
  let ?t = "lru_insert i (lru_remove i s)"
  obtain L where L: "lru (bufs s) L" and B: "bufs_ok (bufs s) (disk s) (slocks s)" using assms(1) by (auto simp: ready_def bio_ok_def)
  then obtain xs ys where L': "L = xs @ i # ys" using assms(2) by (metis lessThan_iff lru_def split_list)
  have f: "disk ?t = disk s" "slocks ?t = slocks s" "dwrites ?t = dwrites s"
    by (simp_all add: lru_insert_def lru_remove_def Let_def)
  have st: "strip (bufs ?t j) = strip (bufs s j)" for j by (simp add: strip_lru)
  note u = store_strip [of ?t s, OF st f]
  show o: "bio_only s ?t" by (simp add: bio_only_def lru_insert_def lru_remove_def Let_def upd_buf_def)
  have "bio_ok ?t" using lru_move(1) [of s xs i ys] L L' B u(3) by (auto simp: bio_ok_def)
  with assms(1) o show "ready k ?t" by (rule readyI)
  show "store_of ?t = store_of s" "buf_of ?t j m \<longleftrightarrow> buf_of s j m" by (rule u)+
qed

lemma brelse_law:
  assumes "ready k s" and "buf_of s i n" and "lk s n = Some k" and "0 < rc s n" and "1 < rc s n \<or> view s n = disk s n"
  shows "\<exists>t. brelse i s = Some t \<and> ready k t \<and> bio_only s t \<and> store_of t = a_release n (store_of s) \<and>
    (\<forall>j m. buf_of t j m \<longleftrightarrow> buf_of s j m)"
proof -
  have ok: "bio_ok s" using assms(1) by (simp add: ready_def)
  note b = buf_ofD [OF assms(2) ok]
  obtain u where u: "releasesleep (BufLock i) s = Some u" "ready k u" "bio_only s u" "bufs u = bufs s"
    "store_of u = (store_of s)\<lparr>st_lk := (lk s)(n := None)\<rparr>" "\<And>j m. buf_of u j m \<longleftrightarrow> buf_of s j m"
    using unlock_buf [OF assms(1,2,4)] by blast
  have su: "view u = view s" "disk u = disk s" "rc u = rc s" "lk u = (lk s)(n := None)" "dwrites u = dwrites s"
    using u(5) by (simp_all add: store_of_def)
  let ?r = "refcnt (bufs s i) - 1" and ?v = "upd_buf i (\<lambda>q. q\<lparr>refcnt := refcnt (bufs s i) - 1\<rparr>) u"
  have "refcnt (bufs s i) \<noteq> 0" using assms(4) b(6) by auto
  then have r: "unat ?r = rc s n - 1" using b(6) by (simp add: unat_dec)
  have nz: "?r \<noteq> 0 \<or> lk u n = None \<and> view u n = disk u n" using assms(5) r su by (auto simp: unat_eq_zero)
  have bu: "buf_of u i n" using u(6) assms(2) by simp
  note v = refcnt_law [OF u(2) bu nz]
  have sv: "store_of ?v = a_release n (store_of s)" using v(3) u(5) r by (simp add: su a_release_def store_of_def)
  let ?w = "if ?r = 0 then lru_insert i (lru_remove i ?v) else ?v"
  have w: "ready k ?w" "bio_only ?v ?w" "store_of ?w = store_of ?v" "buf_of ?w j m \<longleftrightarrow> buf_of ?v j m" for j m
    using lru_move_law [OF v(1) b(1)] v(1) by (auto simp del: One_nat_def)
  have free: "BcacheLock \<notin> held u" using u(2) by (auto simp: ready_def calm_def)
  have ins: "lru_insert a (lru_remove a (c\<lparr>held := h\<rparr>)) = (lru_insert a (lru_remove a c))\<lparr>held := h\<rparr>"
    "upd_buf a f (c\<lparr>held := h\<rparr>) = (upd_buf a f c)\<lparr>held := h\<rparr>" for a c h f
    by (simp_all add: lru_insert_def lru_remove_def Let_def upd_buf_def)
  have dec: "upd_buf i (\<lambda>q. q\<lparr>refcnt := refcnt q - 1\<rparr>) u = ?v" by (simp add: upd_buf_def u(4))
  have hw: "held ?w = held u" using bio_only_fields(1) [OF w(2)] by simp
  have "brelse i s = rel BcacheLock (?w\<lparr>held := insert BcacheLock (held u)\<rparr>)"
    using u(1,4) free holding_buf [OF assms(1-3)] by (simp add: brelse_def lock_simps ins dec)
  also have "\<dots> = Some (?w\<lparr>held := held u\<rparr>)" using free by (simp add: rel_def)
  also have "?w\<lparr>held := held u\<rparr> = ?w" unfolding hw [symmetric] by simp
  finally have "brelse i s = Some ?w" .
  moreover have "bio_only s ?w" using u(3) v(2) w(2) bio_only_trans by blast
  ultimately show ?thesis using w sv v(4) u(6) by auto
qed

subsection \<open>The interface the log and the file system use\<close>

lemma store_wf:
  assumes "ready k s"
  shows "length (view s n) = BSIZE" "length (disk s n) = BSIZE" "rc s n = 0 \<Longrightarrow> view s n = disk s n"
    "rc s n = 0 \<Longrightarrow> lk s n = None"
proof -
  have B: "bufs_ok (bufs s) (disk s) (slocks s)" using assms by (simp add: ready_def bio_ok_def)
  show l: "length (disk s n) = BSIZE" using bufs_okD(2) [OF B, of 0] by simp
  have sl: "i < NBUF \<and> b_dev (bufs s i) = ROOTDEV \<and> b_blockno (bufs s i) = n" if "slot_of (bufs s) n = Some i" for i
    using that slot_of_iff [OF B] by simp
  show "length (view s n) = BSIZE"
    by (cases "slot_of (bufs s) n") (use sl bufs_okD(1) [OF B] l in \<open>auto simp: view_def\<close>)
  show "view s n = disk s n" if "rc s n = 0"
    by (cases "slot_of (bufs s) n") (use that sl bufs_okD(5) [OF B] in \<open>auto simp: view_def rc_def unat_eq_zero\<close>)
  show "lk s n = None" if "rc s n = 0"
    by (cases "slot_of (bufs s) n") (use that sl bufs_okD(6) [OF B] in \<open>auto simp: lk_def rc_def unat_eq_zero\<close>)
qed

text \<open>A block can be read when nobody owns it and there is a buffer for it.\<close>

definition readable :: "u32 \<Rightarrow> store \<Rightarrow> bool" where
  "readable n a \<longleftrightarrow> st_lk a n = None \<and> (0 < st_rc a n \<or> card {m. 0 < st_rc a m} < NBUF) \<and> st_rc a n + 1 < 2 ^ 32"

locale block_store =
  fixes abs :: "'s \<Rightarrow> store" and ok :: "int \<Rightarrow> 's \<Rightarrow> bool" and only :: "'s \<Rightarrow> 's \<Rightarrow> bool"
    and handle :: "'s \<Rightarrow> nat \<Rightarrow> u32 \<Rightarrow> bool" and rd :: "u32 \<Rightarrow> 's \<Rightarrow> (nat \<times> 's) option"
    and data :: "'s \<Rightarrow> nat \<Rightarrow> bytes" and put :: "nat \<Rightarrow> bytes \<Rightarrow> 's \<Rightarrow> 's"
    and wr :: "nat \<Rightarrow> 's \<Rightarrow> 's option" and rls :: "nat \<Rightarrow> 's \<Rightarrow> 's option"
  assumes only_trans: "only s t \<Longrightarrow> only t u \<Longrightarrow> only s u"
    and wf: "ok k s \<Longrightarrow> length (st_view (abs s) n) = BSIZE \<and> (st_rc (abs s) n = 0 \<longrightarrow> st_view (abs s) n = st_disk (abs s) n)"
    and data_law: "ok k s \<Longrightarrow> handle s i n \<Longrightarrow> data s i = st_view (abs s) n"
    and rd_law: "ok k s \<Longrightarrow> readable n (abs s) \<Longrightarrow> \<exists>i t. rd n s = Some (i, t) \<and> ok k t \<and> only s t \<and> handle t i n \<and>
      abs t = a_read k n (abs s) \<and> (\<forall>j m. handle s j m \<and> 0 < st_rc (abs s) m \<longrightarrow> handle t j m)"
    and put_law: "ok k s \<Longrightarrow> handle s i n \<Longrightarrow> 0 < st_rc (abs s) n \<Longrightarrow> length d = BSIZE \<Longrightarrow>
      ok k (put i d s) \<and> only s (put i d s) \<and> abs (put i d s) = a_set n d (abs s) \<and> (\<forall>j m. handle (put i d s) j m \<longleftrightarrow> handle s j m)"
    and wr_law: "ok k s \<Longrightarrow> handle s i n \<Longrightarrow> st_lk (abs s) n = Some k \<Longrightarrow>
      \<exists>t. wr i s = Some t \<and> ok k t \<and> only s t \<and> abs t = a_write n (abs s) \<and> (\<forall>j m. handle t j m \<longleftrightarrow> handle s j m)"
    and rls_law: "ok k s \<Longrightarrow> handle s i n \<Longrightarrow> st_lk (abs s) n = Some k \<Longrightarrow> 0 < st_rc (abs s) n \<Longrightarrow>
      1 < st_rc (abs s) n \<or> st_view (abs s) n = st_disk (abs s) n \<Longrightarrow>
      \<exists>t. rls i s = Some t \<and> ok k t \<and> only s t \<and> abs t = a_release n (abs s) \<and> (\<forall>j m. handle t j m \<longleftrightarrow> handle s j m)"
begin

text \<open>Looking at a block: read it, use it, release it.\<close>

lemma peek:
  assumes "ok k s" and "readable n (abs s)"
  shows "\<exists>i u t. rd n s = Some (i, u) \<and> data u i = st_view (abs s) n \<and> ok k u \<and> only s u \<and> abs u = a_read k n (abs s) \<and>
    handle u i n \<and> rls i u = Some t \<and> ok k t \<and> only s t \<and> abs t = (abs s)\<lparr>st_lk := (st_lk (abs s))(n := None)\<rparr>"
proof -
  obtain i u where u: "rd n s = Some (i, u)" "ok k u" "only s u" "handle u i n" "abs u = a_read k n (abs s)"
    using rd_law [OF assms] by blast
  have "1 < st_rc (abs u) n \<or> st_view (abs u) n = st_disk (abs u) n"
    using wf [OF assms(1), of n] u(5) by (auto simp: a_read_def)
  then obtain t where "rls i u = Some t" "ok k t" "only u t" "abs t = a_release n (abs u)"
    using rls_law [OF u(2,4)] u(5) by (auto simp: a_read_def)
  moreover have "a_release n (abs u) = (abs s)\<lparr>st_lk := (st_lk (abs s))(n := None)\<rparr>"
    by (simp add: u(5) a_release_def a_read_def)
  moreover have "data u i = st_view (abs s) n" using data_law [OF u(2,4)] u(5) by (simp add: a_read_def)
  ultimately show ?thesis using u only_trans by metis
qed

text \<open>Replacing a block on disk: read it, change it, write it, release it.\<close>

lemma poke:
  assumes "ok k s" and "readable n (abs s)" and "\<And>d. length d = BSIZE \<Longrightarrow> length (f d) = BSIZE"
  shows "\<exists>i u v t. rd n s = Some (i, u) \<and> data u i = st_view (abs s) n \<and> only s u \<and> wr i (put i (f (data u i)) u) = Some v \<and>
    rls i v = Some t \<and> ok k t \<and> only s t \<and>
    abs t = (a_write n (a_set n (f (st_view (abs s) n)) (abs s)))\<lparr>st_lk := (st_lk (abs s))(n := None)\<rparr>"
proof -
  obtain i u where u: "rd n s = Some (i, u)" "ok k u" "only s u" "handle u i n" "abs u = a_read k n (abs s)"
    using rd_law [OF assms(1,2)] by blast
  have d: "data u i = st_view (abs s) n" using data_law [OF u(2,4)] u(5) by (simp add: a_read_def)
  let ?p = "put i (f (data u i)) u"
  have rcu: "0 < st_rc (abs u) n" using u(5) by (simp add: a_read_def)
  have len: "length (f (data u i)) = BSIZE" using assms(3) wf [OF assms(1)] d by simp
  have p: "ok k ?p" "only u ?p" "abs ?p = a_set n (f (data u i)) (abs u)" "handle ?p i n"
    using put_law [OF u(2,4) rcu len] u(4) by auto
  have "st_lk (abs ?p) n = Some k" using p(3) u(5) by (simp add: a_set_def a_read_def)
  then obtain v where v: "wr i ?p = Some v" "ok k v" "only ?p v" "abs v = a_write n (abs ?p)" "handle v i n"
    using wr_law [OF p(1,4)] p(4) by blast
  have "st_lk (abs v) n = Some k" "0 < st_rc (abs v) n" "st_view (abs v) n = st_disk (abs v) n"
    using v(4) p(3) u(5) by (simp_all add: a_write_def a_set_def a_read_def)
  then obtain t where t: "rls i v = Some t" "ok k t" "only v t" "abs t = a_release n (abs v)"
    using rls_law [OF v(2,5)] by blast
  have "abs t = (a_write n (a_set n (f (st_view (abs s) n)) (abs s)))\<lparr>st_lk := (st_lk (abs s))(n := None)\<rparr>"
    by (simp add: t(4) v(4) p(3) [unfolded d] u(5) d a_release_def a_write_def a_set_def a_read_def)
  moreover have "only s t" using u(3) p(2) v(3) t(3) only_trans by blast
  ultimately show ?thesis using u(1,3) d v(1) t by blast
qed

text \<open>Two blocks at once.\<close>

lemma rd_two:
  assumes "ok k s" and "readable m (abs s)" and "m \<noteq> n" and "readable n (a_read k m (abs s))"
  shows "\<exists>i u j t. rd m s = Some (i, u) \<and> only s u \<and> rd n u = Some (j, t) \<and> ok k t \<and> only s t \<and> handle t i m \<and> handle t j n \<and>
    abs t = a_read k n (a_read k m (abs s))"
proof -
  obtain i u where u: "rd m s = Some (i, u)" "ok k u" "only s u" "handle u i m" "abs u = a_read k m (abs s)"
    using rd_law [OF assms(1,2)] by blast
  have r: "readable n (abs u)" using u(5) assms(4) by simp
  have "0 < st_rc (abs u) m" using u(5) by (simp add: a_read_def)
  then show ?thesis using rd_law [OF u(2) r] u only_trans by metis
qed

end

interpretation bc: block_store store_of ready bio_only buf_of "bread ROOTDEV" "\<lambda>s i. b_data (bufs s i)" set_data bwrite brelse
proof
  fix k s n i d and t u :: "'a bio_st_scheme"
  have f: "st_view (store_of s) = view s" "st_disk (store_of s) = disk s" "st_rc (store_of s) = rc s" "st_lk (store_of s) = lk s"
    for s :: "'a bio_st_scheme" by (simp_all add: store_of_def)
  show "bio_only s t \<Longrightarrow> bio_only t u \<Longrightarrow> bio_only s u" by (rule bio_only_trans)
  show "ready k s \<Longrightarrow> length (st_view (store_of s) n) = BSIZE \<and>
      (st_rc (store_of s) n = 0 \<longrightarrow> st_view (store_of s) n = st_disk (store_of s) n)" for s :: "'a bio_st_scheme"
    using store_wf [of k s n] by (simp add: f)
  show "ready k s \<Longrightarrow> buf_of s i n \<Longrightarrow> b_data (bufs s i) = st_view (store_of s) n" for s :: "'a bio_st_scheme"
    using buf_ofD(5) [of s i n] by (simp add: f ready_def)
  show "ready k s \<Longrightarrow> readable n (store_of s) \<Longrightarrow> \<exists>i t. bread ROOTDEV n s = Some (i, t) \<and> ready k t \<and> bio_only s t \<and> buf_of t i n \<and>
      store_of t = a_read k n (store_of s) \<and> (\<forall>j m. buf_of s j m \<and> 0 < st_rc (store_of s) m \<longrightarrow> buf_of t j m)" for s :: "'a bio_st_scheme"
    unfolding f using bread_law [of k s n] by (simp add: readable_def f in_use_def)
  show "ready k s \<Longrightarrow> buf_of s i n \<Longrightarrow> 0 < st_rc (store_of s) n \<Longrightarrow> length d = BSIZE \<Longrightarrow>
      ready k (set_data i d s) \<and> bio_only s (set_data i d s) \<and> store_of (set_data i d s) = a_set n d (store_of s) \<and>
      (\<forall>j m. buf_of (set_data i d s) j m \<longleftrightarrow> buf_of s j m)" for s :: "'a bio_st_scheme"
    using set_data_law [of k s i n d] by (simp add: f)
  show "ready k s \<Longrightarrow> buf_of s i n \<Longrightarrow> st_lk (store_of s) n = Some k \<Longrightarrow>
      \<exists>t. bwrite i s = Some t \<and> ready k t \<and> bio_only s t \<and> store_of t = a_write n (store_of s) \<and> (\<forall>j m. buf_of t j m \<longleftrightarrow> buf_of s j m)"
    for s :: "'a bio_st_scheme"
    using bwrite_law [of k s i n] by (simp add: f)
  show "ready k s \<Longrightarrow> buf_of s i n \<Longrightarrow> st_lk (store_of s) n = Some k \<Longrightarrow> 0 < st_rc (store_of s) n \<Longrightarrow>
      1 < st_rc (store_of s) n \<or> st_view (store_of s) n = st_disk (store_of s) n \<Longrightarrow>
      \<exists>t. brelse i s = Some t \<and> ready k t \<and> bio_only s t \<and> store_of t = a_release n (store_of s) \<and> (\<forall>j m. buf_of t j m \<longleftrightarrow> buf_of s j m)"
    for s :: "'a bio_st_scheme"
    using brelse_law [of k s i n] by (simp add: f)
qed

subsection \<open>Initialisation\<close>

text \<open>The cache as the loader leaves it: empty buffers.\<close>

definition blank_cache :: "'a bio_st_scheme \<Rightarrow> bool" where
  "blank_cache s \<longleftrightarrow> (\<forall>i<NBUF. \<not> b_valid (bufs s i) \<and> b_dev (bufs s i) = 0 \<and> refcnt (bufs s i) = 0 \<and> length (b_data (bufs s i)) = BSIZE) \<and>
     (\<forall>n. length (disk s n) = BSIZE)"

definition binit_step :: "nat \<Rightarrow> 'a bio_st_scheme \<Rightarrow> 'a bio_st_scheme" where
  "binit_step b s = initsleeplock (BufLock b) (lru_insert b s)"

lemma binit_fold:
  assumes "links (\<lambda>i. b_next (bufs s i)) (\<lambda>i. b_prev (bufs s i)) NBUF [] NBUF" and "j \<le> NBUF"
  shows "links (\<lambda>i. b_next (bufs (fold binit_step [0..<j] s) i)) (\<lambda>i. b_prev (bufs (fold binit_step [0..<j] s) i)) NBUF (rev [0..<j]) NBUF \<and>
    (\<forall>i. strip (bufs (fold binit_step [0..<j] s) i) = strip (bufs s i)) \<and>
    (\<forall>i<j. sl_locked (slocks (fold binit_step [0..<j] s) (BufLock i)) = 0) \<and>
    (\<exists>B K. fold binit_step [0..<j] s = s\<lparr>bufs := B, slocks := K\<rparr> \<and> (\<forall>i. K (InodeLock i) = slocks s (InodeLock i)))"
  using assms(2)
proof (induction j)
  case 0
  have "\<exists>B K. s = s\<lparr>bufs := B, slocks := K\<rparr> \<and> (\<forall>i. K (InodeLock i) = slocks s (InodeLock i))"
    by (rule exI [of _ "bufs s"], rule exI [of _ "slocks s"]) simp
  then show ?case using assms(1) by simp
next
  case (Suc j)
  let ?u = "fold binit_step [0..<j] s"
  obtain B K where u: "?u = s\<lparr>bufs := B, slocks := K\<rparr>" "\<And>i. K (InodeLock i) = slocks s (InodeLock i)" using Suc by auto
  have e: "fold binit_step [0..<Suc j] s = binit_step j ?u" by simp
  have b: "bufs (binit_step j ?u) = bufs (lru_insert j ?u)"
    "slocks (binit_step j ?u) = (slocks ?u)(BufLock j := (slocks ?u (BufLock j))\<lparr>sl_locked := 0, sl_pid := 0\<rparr>)"
    by (simp_all add: binit_step_def initsleeplock_def upd_sl_def lru_insert_def Let_def upd_buf_def)
  have "binit_step j ?u = s\<lparr>bufs := bufs (binit_step j ?u), slocks := slocks (binit_step j ?u)\<rparr>"
    unfolding u(1) by (simp add: binit_step_def initsleeplock_def upd_sl_def lru_insert_def Let_def upd_buf_def)
  moreover have "\<forall>i. slocks (binit_step j ?u) (InodeLock i) = slocks s (InodeLock i)" using b(2) u by simp
  ultimately have "\<exists>B K. binit_step j ?u = s\<lparr>bufs := B, slocks := K\<rparr> \<and> (\<forall>i. K (InodeLock i) = slocks s (InodeLock i))" by blast
  moreover have "links (\<lambda>i. b_next (bufs (lru_insert j ?u) i)) (\<lambda>i. b_prev (bufs (lru_insert j ?u) i)) NBUF (j # rev [0..<j]) NBUF"
    by (rule lru_insert_links) (use Suc in auto)
  moreover have "\<forall>i. strip (bufs (lru_insert j ?u) i) = strip (bufs s i)" using Suc by (simp add: strip_lru)
  moreover have "\<forall>i<Suc j. sl_locked (slocks (binit_step j ?u) (BufLock i)) = 0" using Suc b(2) by (auto simp: less_Suc_eq)
  ultimately show ?case unfolding e using b(1) by simp
qed

lemma binit_cold:
  assumes "blank_cache s" and "calm s p"
  shows "lru (bufs (binit s)) (rev [0..<NBUF])" and "ready (pid (procs s p)) (binit s)" and "bio_only s (binit s)"
    and "store_of (binit s) = \<lparr>st_view = disk s, st_disk = disk s, st_rc = (\<lambda>_. 0), st_lk = (\<lambda>_. None), st_writes = dwrites s\<rparr>"
proof -
  let ?s = "upd_buf NBUF (\<lambda>q. q\<lparr>b_next := NBUF\<rparr>) (upd_buf NBUF (\<lambda>q. q\<lparr>b_prev := NBUF\<rparr>) s)"
  let ?t = "fold binit_step [0..<NBUF] ?s"
  have t: "binit s = ?t" unfolding binit_def binit_step_def Let_def by simp
  note f = binit_fold [of ?s NBUF, simplified fun_upd_apply upd_buf_simps links.simps, simplified]
  have st: "strip (bufs ?t i) = strip (bufs s i)" for i using f by (simp add: strip_upd_link)
  obtain B K where e: "?t = ?s\<lparr>bufs := B, slocks := K\<rparr>" "\<And>i. K (InodeLock i) = slocks s (InodeLock i)" using f by auto
  have c: "\<not> b_valid (bufs ?t i) \<and> b_dev (bufs ?t i) = 0 \<and> refcnt (bufs ?t i) = 0 \<and> length (b_data (bufs ?t i)) = BSIZE"
    if "i < NBUF" for i
    using st [of i] assms(1) that by (auto simp: strip_eq blank_cache_def)
  show l: "lru (bufs (binit s)) (rev [0..<NBUF])" unfolding t lru_def using f by auto
  show o: "bio_only s (binit s)" unfolding t e(1) using e(2) by (simp add: bio_only_def upd_buf_def)
  have d: "disk ?t = disk s" "dwrites ?t = dwrites s" unfolding e(1) by simp_all
  have lkf: "sl_locked (slocks ?t (BufLock i)) = 0" if "i < NBUF" for i using f that by blast
  have len: "length (disk s n) = BSIZE" for n using assms(1) by (simp add: blank_cache_def)
  have "bufs_ok (bufs ?t) (disk ?t) (slocks ?t)"
    by (rule bufs_okI) (simp_all add: c lkf d len)
  then have ok: "bio_ok (binit s)" using l t by (auto simp: bio_ok_def)
  have "calm (binit s) p \<and> procs (binit s) p = procs s p" by (rule calm_only [OF o assms(2)])
  then show "ready (pid (procs s p)) (binit s)" using ok by (auto simp: ready_def)
  have "slot_of (bufs ?t) n = None" for n unfolding slot_of_def using c by (auto simp: find_None_iff)
  then show "store_of (binit s) = \<lparr>st_view = disk s, st_disk = disk s, st_rc = (\<lambda>_. 0), st_lk = (\<lambda>_. None), st_writes = dwrites s\<rparr>"
    unfolding t by (simp add: store_of_def view_def rc_def lk_def d fun_eq_iff)
qed

subsection \<open>Properties\<close>

text \<open>C8: the buffer cache implements a block store.  In a state that satisfies the cache invariant, with a caller
  that holds none of the locks involved: \<^verbatim>\<open>bread\<close> of a block nobody owns returns, whenever the block is
  in use or some buffer is not, a buffer that holds the block's current content, owned by the
  caller, and no block changes its content, not even the one whose buffer is recycled;
  \<^verbatim>\<open>bwrite\<close> puts the content on the disk; \<^verbatim>\<open>brelse\<close> drops the reference and the ownership.  Each keeps the invariant.\<close>

theorem cache_implements_store:
  assumes "ready k s"
  shows "(readable n (store_of s) \<longrightarrow> (\<exists>i t. bread ROOTDEV n s = Some (i, t) \<and> ready k t \<and> b_data (bufs t i) = view s n \<and>
      buf_of t i n \<and> store_of t = a_read k n (store_of s))) \<and>
    (buf_of s i n \<and> lk s n = Some k \<longrightarrow>
      (\<exists>t. bwrite i s = Some t \<and> ready k t \<and> store_of t = a_write n (store_of s)) \<and>
      (0 < rc s n \<and> (1 < rc s n \<or> view s n = disk s n) \<longrightarrow>
        (\<exists>t. brelse i s = Some t \<and> ready k t \<and> store_of t = a_release n (store_of s))))"
proof (intro conjI impI)
  assume "readable n (store_of s)"
  then show "\<exists>i t. bread ROOTDEV n s = Some (i, t) \<and> ready k t \<and> b_data (bufs t i) = view s n \<and> buf_of t i n \<and>
      store_of t = a_read k n (store_of s)"
    using bc.peek [OF assms, of n] by (auto simp: store_of_def)
next
  assume "buf_of s i n \<and> lk s n = Some k"
  then show "\<exists>t. bwrite i s = Some t \<and> ready k t \<and> store_of t = a_write n (store_of s)"
    using bwrite_law [OF assms, of i n] by blast
next
  assume "buf_of s i n \<and> lk s n = Some k" "0 < rc s n \<and> (1 < rc s n \<or> view s n = disk s n)"
  then show "\<exists>t. brelse i s = Some t \<and> ready k t \<and> store_of t = a_release n (store_of s)"
    using brelse_law [OF assms, of i n] by blast
qed

text \<open>\<^verbatim>\<open>binit\<close> turns the blank buffers into one list of all buffers, most recently inserted first, and
  establishes the cache invariant with nothing in use, so that the current content of every
  block is what is on the disk.\<close>

theorem binit_establishes_cache:
  assumes "blank_cache s" and "calm s p"
  shows "lru (bufs (binit s)) (rev [0..<NBUF]) \<and> ready (pid (procs s p)) (binit s) \<and> (\<forall>n. rc (binit s) n = 0 \<and> view (binit s) n = disk s n)"
  using binit_cold [OF assms] by (auto simp: store_of_def)

text \<open>A blank cache on a blank disk, under the small process table.\<close>

definition demo_bio :: bio_st where
  "demo_bio = sl_st.extend demo_sl (bio_st.fields
     (\<lambda>_. \<lparr>b_valid = False, b_dev = 0, b_blockno = 0, refcnt = 0, b_prev = 0, b_next = 0, b_data = replicate BSIZE 0\<rparr>)
     (\<lambda>_. replicate BSIZE 0) [])"

lemma demo_bio_blank: "blank_cache demo_bio" and demo_bio_calm: "calm demo_bio 0"
  and demo_bio_simps: "procs demo_bio = demo_procs" "disk demo_bio = (\<lambda>_. replicate BSIZE 0)" "dwrites demo_bio = []"
  by (simp_all add: demo_bio_def blank_cache_def calm_def demo_sl_def demo_st_def proc_st.defs sl_st.defs bio_st.defs
      demo_procs_def demo_proc_def)

theorem binit_establishes_cache_witness: "view (binit demo_bio) 7 = replicate BSIZE 0"
  using binit_establishes_cache [OF demo_bio_blank demo_bio_calm] by (simp add: demo_bio_simps)

theorem cache_implements_store_witness:
  "\<exists>i t. bread ROOTDEV 7 (binit demo_bio) = Some (i, t) \<and> b_data (bufs t i) = replicate BSIZE 0 \<and> lk t 7 = Some 1"
proof -
  have pid: "pid (procs demo_bio 0) = 1" by (simp add: demo_bio_simps demo_procs_def demo_proc_def)
  have r: "ready 1 (binit demo_bio)" using binit_cold(2) [OF demo_bio_blank demo_bio_calm] pid by simp
  have st: "store_of (binit demo_bio) = \<lparr>st_view = disk demo_bio, st_disk = disk demo_bio, st_rc = (\<lambda>_. 0), st_lk = (\<lambda>_. None), st_writes = dwrites demo_bio\<rparr>"
    by (rule binit_cold(4) [OF demo_bio_blank demo_bio_calm])
  have "readable 7 (store_of (binit demo_bio))" by (simp add: readable_def st)
  then show ?thesis using cache_implements_store [OF r, of 7] st
    by (auto simp: a_read_def store_of_def demo_bio_simps)
qed

end
