(* ===== verification/Log_Laws.thy ===== *)
theory Log_Laws
  imports Log Bio_Laws
begin

text \<open>
  The laws of the redo log: what a commit writes to the disk and in which order, that it never runs
  out of buffers, and that a crash after any number of those writes, followed by recovery, leaves
  the disk either as before the transaction or as after it.
\<close>

subsection \<open>The header block\<close>

lemma put_hdr_Suc:
  "fold (\<lambda>i. put32 (4 + 4 * i) (blk i)) [0..<Suc j] bs = put32 (4 + 4 * j) (blk j) (fold (\<lambda>i. put32 (4 + 4 * i) (blk i)) [0..<j] bs)"
  by simp

lemma hdr_fold:
  assumes "length bs = BSIZE" and "j \<le> 30"
  shows "length (fold (\<lambda>i. put32 (4 + 4 * i) (blk i)) [0..<j] bs) = BSIZE"
    and "get32 (fold (\<lambda>i. put32 (4 + 4 * i) (blk i)) [0..<j] bs) 0 = get32 bs 0"
    and "i < j \<Longrightarrow> get32 (fold (\<lambda>i. put32 (4 + 4 * i) (blk i)) [0..<j] bs) (4 + 4 * i) = blk i"
proof -
  have "length (fold (\<lambda>i. put32 (4 + 4 * i) (blk i)) [0..<j] bs) = BSIZE \<and>
    get32 (fold (\<lambda>i. put32 (4 + 4 * i) (blk i)) [0..<j] bs) 0 = get32 bs 0 \<and>
    (\<forall>i<j. get32 (fold (\<lambda>i. put32 (4 + 4 * i) (blk i)) [0..<j] bs) (4 + 4 * i) = blk i)"
    using assms(2)
  proof (induction j)
    case (Suc j)
    let ?b = "fold (\<lambda>i. put32 (4 + 4 * i) (blk i)) [0..<j] bs"
    have b: "length ?b = BSIZE" "get32 ?b 0 = get32 bs 0" "\<And>i. i < j \<Longrightarrow> get32 ?b (4 + 4 * i) = blk i" using Suc by auto
    have "get32 (put32 (4 + 4 * j) (blk j) ?b) (4 + 4 * i) = blk i" if "i < Suc j" for i
      using that b Suc.prems by (cases "i = j") (auto simp: get32_put32_other)
    moreover have "get32 (put32 (4 + 4 * j) (blk j) ?b) 0 = get32 bs 0"
      using b Suc.prems by (subst get32_put32_other) auto
    ultimately show ?case unfolding put_hdr_Suc using b(1) Suc.prems by simp
  qed (use assms(1) in simp)
  then show "length (fold (\<lambda>i. put32 (4 + 4 * i) (blk i)) [0..<j] bs) = BSIZE"
    "get32 (fold (\<lambda>i. put32 (4 + 4 * i) (blk i)) [0..<j] bs) 0 = get32 bs 0"
    "i < j \<Longrightarrow> get32 (fold (\<lambda>i. put32 (4 + 4 * i) (blk i)) [0..<j] bs) (4 + 4 * i) = blk i" by blast+
qed

lemma hdr_put:
  assumes "length bs = BSIZE" and "n \<le> 30"
  shows "length (put_hdr (int n) blk bs) = BSIZE" and "hdr_n (put_hdr (int n) blk bs) = int n"
    and "i < n \<Longrightarrow> hdr_block (put_hdr (int n) blk bs) i = blk i"
proof -
  have l: "length (put32 0 (word_of_int (int n)) bs) = BSIZE" using assms(1) by simp
  note f = hdr_fold [OF l assms(2), where blk = blk]
  have "sint (word_of_int (int n) :: u32) = int n" using assms(2) by (simp only: sint_sbintrunc') (simp add: signed_take_bit_int_eq_self)
  then show "hdr_n (put_hdr (int n) blk bs) = int n" using f(2) assms(1) by (simp add: hdr_n_def put_hdr_def)
  show "length (put_hdr (int n) blk bs) = BSIZE" using f(1) by (simp add: put_hdr_def)
  show "i < n \<Longrightarrow> hdr_block (put_hdr (int n) blk bs) i = blk i" using f(3) by (simp add: hdr_block_def put_hdr_def)
qed

subsection \<open>Sequences of disk writes\<close>

definition apply_w :: "(u32 \<times> bytes) list \<Rightarrow> (u32 \<Rightarrow> bytes) \<Rightarrow> u32 \<Rightarrow> bytes" where
  "apply_w ws D = fold (\<lambda>(b, d) D. D(b := d)) ws D"

lemma apply_w_simps [simp]: "apply_w [] D = D" "apply_w ((b, d) # ws) D = apply_w ws (D(b := d))"
  "apply_w (xs @ ys) D = apply_w ys (apply_w xs D)"
  by (simp_all add: apply_w_def)

lemma apply_w_other: "b \<notin> fst ` set ws \<Longrightarrow> apply_w ws D b = D b"
  by (induction ws arbitrary: D) auto

lemma apply_w_same: "inj_on f {..<j} \<Longrightarrow> i < j \<Longrightarrow> apply_w (map (\<lambda>i. (f i, g i)) [0..<j]) D (f i) = g i"
proof (induction j)
  case (Suc j)
  have e: "apply_w (map (\<lambda>i. (f i, g i)) [0..<Suc j]) D = (apply_w (map (\<lambda>i. (f i, g i)) [0..<j]) D)(f j := g j)" by simp
  show ?case
  proof (cases "i = j")
    case False
    then have i: "i < j" using Suc.prems(2) by simp
    have "inj_on f {..<j}" using Suc.prems(1) by (rule inj_on_subset) auto
    moreover have "f i \<noteq> f j" using inj_onD [OF Suc.prems(1), of i j] i by auto
    ultimately show ?thesis unfolding e using Suc.IH i by simp
  qed (simp add: e)
qed simp

text \<open>The log on the disk: the header block and the copies behind it.\<close>

definition lblk :: "u32 \<Rightarrow> nat \<Rightarrow> u32" where
  "lblk start i = start + of_nat i + 1"

definition log_area :: "u32 \<Rightarrow> nat \<Rightarrow> u32 set" where
  "log_area start n = insert start (lblk start ` {..<n})"

lemma log_block_lblk: "log_block s i = lblk (lg_start (klog s)) i"
  by (simp add: log_block_def lblk_def)

lemma of_nat_u32_eq: "i < 2 ^ 32 \<Longrightarrow> j < 2 ^ 32 \<Longrightarrow> (of_nat i :: u32) = of_nat j \<longleftrightarrow> i = j"
  by (simp add: word_of_nat_eq_iff take_bit_nat_eq_self)

lemma lblk_inj: "i < 31 \<Longrightarrow> j < 31 \<Longrightarrow> lblk start i = lblk start j \<longleftrightarrow> i = j"
  using of_nat_u32_eq [of i j] by (simp add: lblk_def)

lemma lblk_start: "i < 31 \<Longrightarrow> lblk start i \<noteq> start"
proof -
  assume "i < 31"
  then have "(of_nat (Suc i) :: u32) \<noteq> of_nat 0" using of_nat_u32_eq [of "Suc i" 0] by auto
  then show ?thesis by (simp add: lblk_def add.assoc add.commute)
qed

subsection \<open>Copying one block\<close>

lemma bio_only_klog: "bio_only s t \<Longrightarrow> klog t = klog s"
  by (elim bio_onlyE) simp

lemma store_sel [simp]: "st_view (store_of s) = view s" "st_disk (store_of s) = disk s" "st_rc (store_of s) = rc s"
  "st_lk (store_of s) = lk s" "st_writes (store_of s) = dwrites s"
  by (simp_all add: store_of_def)

lemma store_eq: "store_of t = a \<Longrightarrow> view t = st_view a \<and> disk t = st_disk a \<and> rc t = st_rc a \<and> lk t = st_lk a \<and> dwrites t = st_writes a"
  by (auto simp: store_of_def)

definition copied :: "u32 \<Rightarrow> bytes \<Rightarrow> store \<Rightarrow> store" where
  "copied n d a = a_write n (a_set n d a)"

lemma write_log_one_law:
  assumes ok: "ready k s" and dev: "lg_dev (klog s) = ROOTDEV" and l: "l = log_block s i" and h: "h = lh_block (klog s) i"
    and ne: "l \<noteq> h" and free: "\<And>n. lk s n = None" and rl: "readable l (store_of s)" and rh: "0 < rc s h" "rc s h + 1 < 2 ^ 32"
  shows "\<exists>t. write_log_one i s = Some t \<and> ready k t \<and> bio_only s t \<and> store_of t = copied l (view s h) (store_of s)"
proof -
  have "readable h (a_read k l (store_of s))" using rh free ne by (simp add: readable_def a_read_def)
  from bc.rd_two [OF ok rl ne this] obtain b u c v where u: "bread ROOTDEV l s = Some (b, u)" "bio_only s u"
    and v: "bread ROOTDEV h u = Some (c, v)" "ready k v" "bio_only s v" "buf_of v b l" "buf_of v c h"
      "store_of v = a_read k h (a_read k l (store_of s))" by blast
  note sv = store_eq [OF v(6)]
  have d: "b_data (bufs v c) = view s h" using bc.data_law [OF v(2,5)] sv by (simp add: a_read_def)
  have len: "length (view s h) = BSIZE" using store_wf(1) [OF ok] .
  have rcl: "0 < st_rc (store_of v) l" using sv ne by (simp add: a_read_def)
  let ?w = "set_data b (view s h) v"
  have w: "ready k ?w" "bio_only v ?w" "store_of ?w = a_set l (view s h) (store_of v)" "buf_of ?w b l" "buf_of ?w c h"
    using bc.put_law [OF v(2,4) rcl len] v(4,5) by auto
  have "st_lk (store_of ?w) l = Some k" unfolding w(3) v(6) using ne by (simp add: a_set_def a_read_def)
  then obtain x where x: "bwrite b ?w = Some x" "ready k x" "bio_only ?w x" "store_of x = a_write l (store_of ?w)" "buf_of x b l" "buf_of x c h"
    using bc.wr_law [OF w(1,4)] w(4,5) by blast
  have sx: "store_of x = a_write l (a_set l (view s h) (a_read k h (a_read k l (store_of s))))" using x(4) w(3) v(6) by simp
  have "st_lk (store_of x) h = Some k" "0 < st_rc (store_of x) h" "1 < st_rc (store_of x) h"
    unfolding sx using ne rh by (simp_all add: a_write_def a_set_def a_read_def)
  then obtain y where y: "brelse c x = Some y" "ready k y" "bio_only x y" "store_of y = a_release h (store_of x)" "buf_of y b l"
    using bc.rls_law [OF x(2,6)] x(5) by blast
  have sy: "store_of y = a_release h (a_write l (a_set l (view s h) (a_read k h (a_read k l (store_of s)))))" using y(4) sx by simp
  have "st_lk (store_of y) l = Some k" "0 < st_rc (store_of y) l" "st_view (store_of y) l = st_disk (store_of y) l"
    unfolding sy using ne by (simp_all add: a_release_def a_write_def a_set_def a_read_def)
  then obtain t where t: "brelse b y = Some t" "ready k t" "bio_only y t" "store_of t = a_release l (store_of y)"
    using bc.rls_law [OF y(2,5)] by blast
  have "store_of t = copied l (view s h) (store_of s)"
    unfolding t(4) sy copied_def using ne free
    by (simp add: a_release_def a_write_def a_set_def a_read_def fun_upd_twist fun_upd_idem)
  moreover have "write_log_one i s = Some t"
    using u v(1) x(1) y(1) t(1) d dev bio_only_klog [OF u(2)] bio_only_klog [OF v(3)]
    by (simp add: write_log_one_def l [symmetric] h [symmetric])
  moreover have "bio_only s t" using v(3) w(2) x(3) y(3) t(3) bio_only_trans by blast
  ultimately show ?thesis using t(2) by blast
qed

lemma install_one_law:
  assumes ok: "ready k s" and dev: "lg_dev (klog s) = ROOTDEV" and l: "l = log_block s i" and h: "h = lh_block (klog s) i"
    and ne: "l \<noteq> h" and free: "\<And>n. lk s n = None" and rl: "readable l (store_of s)" and rh: "readable h (a_read k l (store_of s))"
    and pin: "\<not> recovering \<Longrightarrow> 0 < rc s h"
  shows "\<exists>t. install_one recovering i s = Some t \<and> ready k t \<and> bio_only s t \<and>
    store_of t = (copied h (view s l) (store_of s))\<lparr>st_rc := (rc s)(h := rc s h - (if recovering then 0 else 1))\<rparr>"
proof -
  from bc.rd_two [OF ok rl ne rh] obtain b u c v where u: "bread ROOTDEV l s = Some (b, u)" "bio_only s u"
    and v: "bread ROOTDEV h u = Some (c, v)" "ready k v" "bio_only s v" "buf_of v b l" "buf_of v c h"
      "store_of v = a_read k h (a_read k l (store_of s))" by blast
  note sv = store_eq [OF v(6)]
  have d: "b_data (bufs v b) = view s l" using bc.data_law [OF v(2,4)] sv by (simp add: a_read_def)
  have len: "length (view s l) = BSIZE" using store_wf(1) [OF ok] .
  have rch: "0 < st_rc (store_of v) h" using sv by (simp add: a_read_def)
  let ?w = "set_data c (view s l) v"
  have w: "ready k ?w" "bio_only v ?w" "store_of ?w = a_set h (view s l) (store_of v)" "buf_of ?w b l" "buf_of ?w c h"
    using bc.put_law [OF v(2,5) rch len] v(4,5) by auto
  have "st_lk (store_of ?w) h = Some k" unfolding w(3) v(6) by (simp add: a_set_def a_read_def)
  then obtain x where x: "bwrite c ?w = Some x" "ready k x" "bio_only ?w x" "store_of x = a_write h (store_of ?w)" "buf_of x b l" "buf_of x c h"
    using bc.wr_law [OF w(1,5)] w(4,5) by blast
  have sx: "store_of x = a_write h (a_set h (view s l) (a_read k h (a_read k l (store_of s))))" using x(4) w(3) v(6) by simp
  have "\<exists>y. (if \<not> recovering then bunpin c x else Some x) = Some y \<and> ready k y \<and> bio_only x y \<and> buf_of y b l \<and> buf_of y c h \<and>
      store_of y = (if recovering then store_of x else a_unpin h (store_of x))"
  proof (cases recovering)
    case False
    have "1 < rc x h" using store_eq [OF sx] pin [OF False] ne by (simp add: a_write_def a_set_def a_read_def)
    then show ?thesis using False bunpin_law [OF x(2,6)] x(5,6) by auto
  qed (use x in simp)
  then obtain y where y: "(if \<not> recovering then bunpin c x else Some x) = Some y" "ready k y" "bio_only x y" "buf_of y b l" "buf_of y c h"
    "store_of y = (if recovering then store_of x else a_unpin h (store_of x))" by blast
  have lcl: "1 < rc s l + 1 \<or> view s l = disk s l" using store_wf(3) [OF ok, of l] by auto
  have "st_lk (store_of y) l = Some k" "0 < st_rc (store_of y) l" "1 < st_rc (store_of y) l \<or> st_view (store_of y) l = st_disk (store_of y) l"
    unfolding y(6) sx using ne lcl by (simp_all add: a_write_def a_set_def a_read_def a_unpin_def)
  then obtain z where z: "brelse b y = Some z" "ready k z" "bio_only y z" "store_of z = a_release l (store_of y)" "buf_of z c h"
    using bc.rls_law [OF y(2,4)] y(5) by blast
  have "st_lk (store_of z) h = Some k" "0 < st_rc (store_of z) h" "st_view (store_of z) h = st_disk (store_of z) h"
    unfolding z(4) y(6) sx using ne pin by (simp_all add: a_release_def a_write_def a_set_def a_read_def a_unpin_def)
  then obtain t where t: "brelse c z = Some t" "ready k t" "bio_only z t" "store_of t = a_release h (store_of z)"
    using bc.rls_law [OF z(2,5)] by blast
  have "store_of t = (copied h (view s l) (store_of s))\<lparr>st_rc := (rc s)(h := rc s h - (if recovering then 0 else 1))\<rparr>"
    unfolding t(4) z(4) y(6) sx copied_def using ne free
    by (cases recovering) (simp_all add: a_release_def a_write_def a_set_def a_read_def a_unpin_def fun_upd_twist fun_upd_idem)
  moreover have "install_one recovering i s = Some t"
    using u v(1) x(1) y(1) z(1) t(1) d dev bio_only_klog [OF u(2)] bio_only_klog [OF v(3)]
    by (simp add: install_one_def l [symmetric] h [symmetric])
  moreover have "bio_only s t" using v(3) w(2) x(3) y(3) z(3) t(3) bio_only_trans by blast
  ultimately show ?thesis using t(2) by blast
qed

lemma write_head_law:
  assumes ok: "ready k s" and dev: "lg_dev (klog s) = ROOTDEV" and n: "lh_n (klog s) = int n" "n \<le> 30"
    and free: "\<And>n. lk s n = None" and r: "readable (lg_start (klog s)) (store_of s)"
  shows "\<exists>t. write_head s = Some t \<and> ready k t \<and> bio_only s t \<and>
    store_of t = copied (lg_start (klog s)) (put_hdr (int n) (lh_block (klog s)) (view s (lg_start (klog s)))) (store_of s)"
proof -
  let ?f = "put_hdr (int n) (lh_block (klog s))"
  have f: "length (?f d) = BSIZE" if "length d = BSIZE" for d using hdr_put(1) [OF that n(2)] .
  from bc.poke [OF ok r, of ?f] f obtain b u v t where p: "bread ROOTDEV (lg_start (klog s)) s = Some (b, u)"
    "b_data (bufs u b) = view s (lg_start (klog s))" "bio_only s u" "bwrite b (set_data b (?f (b_data (bufs u b))) u) = Some v"
    "brelse b v = Some t" "ready k t" "bio_only s t"
    "store_of t = (a_write (lg_start (klog s)) (a_set (lg_start (klog s)) (?f (view s (lg_start (klog s)))) (store_of s)))
       \<lparr>st_lk := (lk s)(lg_start (klog s) := None)\<rparr>" by auto
  have "write_head s = Some t" using p(1-5) dev n(1) bio_only_klog [OF p(3)] by (simp add: write_head_def)
  moreover have "store_of t = copied (lg_start (klog s)) (?f (view s (lg_start (klog s)))) (store_of s)"
    unfolding p(8) copied_def using free by (simp add: a_write_def a_set_def fun_upd_idem)
  ultimately show ?thesis using p(6,7) by blast
qed

subsection \<open>The loops over the logged blocks\<close>

definition copies :: "(u32 \<times> bytes) list \<Rightarrow> store \<Rightarrow> store" where
  "copies ws a = a\<lparr>st_view := apply_w ws (st_view a), st_disk := apply_w ws (st_disk a), st_writes := st_writes a @ ws\<rparr>"

lemma copies_snoc: "copied n d (copies ws a) = copies (ws @ [(n, d)]) a"
  by (simp add: copied_def copies_def a_write_def a_set_def)

lemma copies_Nil [simp]: "copies [] a = a" and copies_append: "copies ys (copies xs a) = copies (xs @ ys) a"
  by (simp_all add: copies_def)

lemma copies_sel [simp]: "st_view (copies ws a) = apply_w ws (st_view a)" "st_disk (copies ws a) = apply_w ws (st_disk a)"
  "st_rc (copies ws a) = st_rc a" "st_lk (copies ws a) = st_lk a" "st_writes (copies ws a) = st_writes a @ ws"
  by (simp_all add: copies_def)

text \<open>Reference counts of a set of pinned blocks.\<close>

definition pins :: "u32 set \<Rightarrow> u32 \<Rightarrow> nat" where
  "pins S m = (if m \<in> S then 1 else 0)"

lemma pins_card: "{m. 0 < pins S m} = S"
  by (auto simp: pins_def)

lemma pins_next:
  assumes "inj_on h {..<n}" and "j < n"
  shows "(pins (h ` {j..<n}))(h j := 0) = pins (h ` {Suc j..<n})"
proof -
  have "h ` {j..<n} = insert (h j) (h ` {Suc j..<n})" 
  proof -
    have "{j..<n} = insert j {Suc j..<n}" using assms(2) by auto
    then show ?thesis by simp
  qed
  moreover have "h j \<notin> h ` {Suc j..<n}"
    using inj_onD [OF assms(1), of j] assms(2) by fastforce
  ultimately show ?thesis by (auto simp: pins_def fun_eq_iff)
qed

lemma readable_pins: "rc s = pins S \<Longrightarrow> (\<And>m. lk s m = None) \<Longrightarrow> card S < NBUF \<Longrightarrow> readable n (store_of s)"
  by (simp add: readable_def pins_card) (simp add: pins_def)

definition trans_ok :: "int \<Rightarrow> nat \<Rightarrow> 'a log_st_scheme \<Rightarrow> bool" where
  "trans_ok k n s \<longleftrightarrow> ready k s \<and> lg_dev (klog s) = ROOTDEV \<and> lh_n (klog s) = int n \<and> n < NBUF \<and>
     inj_on (lh_block (klog s)) {..<n} \<and> lh_block (klog s) ` {..<n} \<inter> log_area (lg_start (klog s)) n = {} \<and>
     rc s = pins (lh_block (klog s) ` {..<n}) \<and> (\<forall>m. lk s m = None)"

lemma trans_okD:
  assumes "trans_ok k n s"
  shows "ready k s" "lg_dev (klog s) = ROOTDEV" "lh_n (klog s) = int n" "n < NBUF" "inj_on (lh_block (klog s)) {..<n}"
    "i < n \<Longrightarrow> j < n \<Longrightarrow> lblk (lg_start (klog s)) i \<noteq> lh_block (klog s) j" "j < n \<Longrightarrow> lh_block (klog s) j \<noteq> lg_start (klog s)"
    "rc s = pins (lh_block (klog s) ` {..<n})" "lk s m = None" "card (lh_block (klog s) ` {..<n}) < NBUF"
proof -
  show "ready k s" "lg_dev (klog s) = ROOTDEV" "lh_n (klog s) = int n" and n: "n < NBUF" and inj: "inj_on (lh_block (klog s)) {..<n}"
    and "rc s = pins (lh_block (klog s) ` {..<n})" "lk s m = None" using assms by (simp_all add: trans_ok_def)
  have "lh_block (klog s) ` {..<n} \<inter> log_area (lg_start (klog s)) n = {}" using assms by (simp add: trans_ok_def)
  then show "i < n \<Longrightarrow> j < n \<Longrightarrow> lblk (lg_start (klog s)) i \<noteq> lh_block (klog s) j" "j < n \<Longrightarrow> lh_block (klog s) j \<noteq> lg_start (klog s)"
    by (auto simp: log_area_def) (metis imageI lessThan_iff)
  show "card (lh_block (klog s) ` {..<n}) < NBUF" using inj n by (simp add: card_image)
qed

lemma apply_w_keys: "b \<notin> f ` {..<j} \<Longrightarrow> apply_w (map (\<lambda>i. (f i, g i)) [0..<j]) D b = D b"
  by (rule apply_w_other) auto

lemma write_log_law:
  assumes tr: "trans_ok k n s"
  shows "\<exists>t. write_log s = Some t \<and> ready k t \<and> bio_only s t \<and>
    store_of t = copies (map (\<lambda>i. (lblk (lg_start (klog s)) i, view s (lh_block (klog s) i))) [0..<n]) (store_of s)"
proof -
  note d = trans_okD [OF tr]
  let ?l = "lblk (lg_start (klog s))" and ?h = "lh_block (klog s)"
  let ?ws = "\<lambda>j. map (\<lambda>i. (?l i, view s (?h i))) [0..<j]"
  let ?I = "\<lambda>j t. ready k t \<and> bio_only s t \<and> store_of t = copies (?ws j) (store_of s)"
  have "\<exists>t. for_each [0..<n] write_log_one s = Some t \<and> ?I n t"
  proof (rule for_each_upt [where I = ?I])
    show "?I 0 s" using d(1) by simp
    fix j u assume j: "j < n" and u: "?I j u"
    note su = store_eq [OF u [THEN conjunct2, THEN conjunct2]]
    have kl: "klog u = klog s" using u bio_only_klog by blast
    have rcu: "rc u = pins (?h ` {..<n})" and lku: "lk u m = None" for m using su d(8,9) by simp_all
    have vh: "view u (?h j) = view s (?h j)"
    proof -
      have "?h j \<notin> ?l ` {..<j}" using d(6) j by (metis imageE lessThan_iff less_trans)
      then show ?thesis using su by (simp add: apply_w_keys)
    qed
    have "\<exists>t. write_log_one j u = Some t \<and> ready k t \<and> bio_only u t \<and> store_of t = copied (?l j) (view u (?h j)) (store_of u)"
    proof (rule write_log_one_law)
      show "readable (?l j) (store_of u)" by (rule readable_pins [OF rcu lku d(10)])
      show "0 < rc u (?h j)" "rc u (?h j) + 1 < 2 ^ 32" using j by (simp_all add: rcu pins_def)
    qed (use u kl d(2) d(6) [of j j] j lku in \<open>simp_all add: log_block_lblk\<close>)
    then obtain t where t: "write_log_one j u = Some t" "ready k t" "bio_only u t" "store_of t = copied (?l j) (view u (?h j)) (store_of u)"
      by blast
    have "store_of t = copies (?ws (Suc j)) (store_of s)" using t(4) u vh by (simp add: copies_snoc)
    then show "\<exists>t. write_log_one j u = Some t \<and> ?I (Suc j) t" using t u bio_only_trans by blast
  qed
  then show ?thesis using d(3) by (simp add: write_log_def)
qed

lemma install_trans_law:
  assumes tr: "trans_ok k n s"
  shows "\<exists>t. install_trans False s = Some t \<and> ready k t \<and> bio_only s t \<and>
    store_of t = (copies (map (\<lambda>i. (lh_block (klog s) i, view s (lblk (lg_start (klog s)) i))) [0..<n]) (store_of s))\<lparr>st_rc := pins {}\<rparr>"
proof -
  note d = trans_okD [OF tr]
  let ?l = "lblk (lg_start (klog s))" and ?h = "lh_block (klog s)"
  let ?ws = "\<lambda>j. map (\<lambda>i. (?h i, view s (?l i))) [0..<j]"
  let ?I = "\<lambda>j t. ready k t \<and> bio_only s t \<and> store_of t = (copies (?ws j) (store_of s))\<lparr>st_rc := pins (?h ` {j..<n})\<rparr>"
  have "\<exists>t. for_each [0..<n] (install_one False) s = Some t \<and> ?I n t"
  proof (rule for_each_upt [where I = ?I])
    have "store_of s = (store_of s)\<lparr>st_rc := pins (?h ` {0..<n})\<rparr>" using d(8) by (simp add: store_of_def atLeast0LessThan)
    then show "?I 0 s" using d(1) by simp
    fix j u assume j: "j < n" and u: "?I j u"
    note su = store_eq [OF u [THEN conjunct2, THEN conjunct2]]
    have kl: "klog u = klog s" using u bio_only_klog by blast
    have rcu: "rc u = pins (?h ` {j..<n})" and lku: "lk u m = None" for m using su d(9) by simp_all
    have vl: "view u (?l j) = view s (?l j)"
    proof -
      have "?l j \<notin> ?h ` {..<j}" using d(6) j by (metis imageE lessThan_iff less_trans)
      then show ?thesis using su by (simp add: apply_w_keys)
    qed
    have "card (?h ` {j..<n}) \<le> card (?h ` {..<n})" by (intro card_mono image_mono) auto
    then have cd: "card (?h ` {j..<n}) < NBUF" using d(10) by simp
    have hj: "0 < rc u (?h j)" using j by (simp add: rcu pins_def)
    have "\<exists>t. install_one False j u = Some t \<and> ready k t \<and> bio_only u t \<and>
        store_of t = (copied (?h j) (view u (?l j)) (store_of u))\<lparr>st_rc := (rc u)(?h j := rc u (?h j) - (if False then 0 else 1))\<rparr>"
    proof (rule install_one_law)
      show "readable (?l j) (store_of u)" by (rule readable_pins [OF rcu lku cd])
      show "readable (?h j) (a_read k (?l j) (store_of u))"
        using hj lku d(6) [of j j] j by (simp add: readable_def a_read_def) (simp add: rcu pins_def)
    qed (use u kl d(2) d(6) [of j j] j lku hj in \<open>simp_all add: log_block_lblk\<close>)
    then obtain t where t: "install_one False j u = Some t" "ready k t" "bio_only u t"
      "store_of t = (copied (?h j) (view u (?l j)) (store_of u))\<lparr>st_rc := (rc u)(?h j := rc u (?h j) - 1)\<rparr>" by auto
    have "(pins (?h ` {j..<n}))(?h j := 0) = pins (?h ` {Suc j..<n})" by (rule pins_next [OF d(5) j])
    then have "(rc u)(?h j := rc u (?h j) - 1) = pins (?h ` {Suc j..<n})" using j by (simp add: rcu pins_def [of _ "?h j"])
    moreover have "copied (?h j) d (a\<lparr>st_rc := r\<rparr>) = (copied (?h j) d a)\<lparr>st_rc := r\<rparr>" for d a r
      by (simp add: copied_def a_write_def a_set_def)
    ultimately have "store_of t = (copies (?ws (Suc j)) (store_of s))\<lparr>st_rc := pins (?h ` {Suc j..<n})\<rparr>"
      using t(4) u vl by (simp add: copies_snoc)
    then show "\<exists>t. install_one False j u = Some t \<and> ?I (Suc j) t" using t u bio_only_trans by blast
  qed
  then show ?thesis using d(3) by (simp add: install_trans_def)
qed

subsection \<open>Commit\<close>

lemma upd_log_bio [simp]:
  "ready k (upd_log f s) = ready k s" "store_of (upd_log f s) = store_of s" "klog (upd_log f s) = f (klog s)"
  "rc (upd_log f s) = rc s" "lk (upd_log f s) = lk s" "view (upd_log f s) = view s" "disk (upd_log f s) = disk s"
  "dwrites (upd_log f s) = dwrites s" "buf_of (upd_log f s) i n = buf_of s i n"
  by (simp_all add: upd_log_def ready_def buf_of_def bio_ok_def calm_def store_of_def view_def rc_def lk_def fun_eq_iff
      cong: option.case_cong if_cong)

lemma bio_only_upd_log: "bio_only s t \<Longrightarrow> bio_only (upd_log f s) (upd_log f t)"
  by (elim bio_onlyE) (auto simp: bio_only_def upd_log_def)

lemma trans_ok_cong:
  "trans_ok k n s \<Longrightarrow> ready k t \<Longrightarrow> klog t = klog s \<Longrightarrow> rc t = rc s \<Longrightarrow> lk t = lk s \<Longrightarrow> trans_ok k n t"
  by (simp add: trans_ok_def)

text \<open>The writes of a commit, in order: the copies, the header that commits, the blocks themselves, the cleared header.\<close>

definition commit_writes :: "'a log_st_scheme \<Rightarrow> nat \<Rightarrow> (u32 \<times> bytes) list" where
  "commit_writes s n =
     (let start = lg_start (klog s); h = lh_block (klog s); hd1 = put_hdr (int n) h (view s start) in
      map (\<lambda>i. (lblk start i, view s (h i))) [0..<n] @ [(start, hd1)] @ map (\<lambda>i. (h i, view s (h i))) [0..<n] @
      [(start, put_hdr 0 h hd1)])"

lemma lblk_inj_on: "n < 31 \<Longrightarrow> inj_on (lblk start) {..<n}"
  by (rule inj_onI) (simp add: lblk_inj)

lemma start_not_lblk: "n < 31 \<Longrightarrow> start \<notin> lblk start ` {..<n}"
  using lblk_start by (metis imageE lessThan_iff less_trans)

lemma commit_law:
  assumes tr: "trans_ok k n s" and n: "0 < n"
  shows "\<exists>t. commit s = Some t \<and> ready k t \<and> bio_only (upd_log (\<lambda>l. l\<lparr>lh_n := 0\<rparr>) s) t \<and>
    store_of t = (copies (commit_writes s n) (store_of s))\<lparr>st_rc := pins {}\<rparr>"
proof -
  note d = trans_okD [OF tr]
  let ?st = "lg_start (klog s)" and ?l = "lblk (lg_start (klog s))" and ?h = "lh_block (klog s)"
  let ?wl = "map (\<lambda>i. (?l i, view s (?h i))) [0..<n]" and ?wh = "map (\<lambda>i. (?h i, view s (?h i))) [0..<n]"
  let ?hd = "put_hdr (int n) ?h (view s ?st)"
  obtain u1 where u1: "write_log s = Some u1" "ready k u1" "bio_only s u1" "store_of u1 = copies ?wl (store_of s)"
    using write_log_law [OF tr] by blast
  note s1 = store_eq [OF u1(4)]
  have k1: "klog u1 = klog s" using u1(3) by (rule bio_only_klog)
  have rc1: "rc u1 = pins (?h ` {..<n})" "lk u1 m = None" for m using s1 d(8,9) by simp_all
  have st: "?st \<notin> ?l ` {..<n}" using start_not_lblk d(4) by simp
  have v1: "view u1 ?st = view s ?st" using s1 st by (simp add: apply_w_keys)
  have "\<exists>t. write_head u1 = Some t \<and> ready k t \<and> bio_only u1 t \<and>
      store_of t = copied (lg_start (klog u1)) (put_hdr (int n) (lh_block (klog u1)) (view u1 (lg_start (klog u1)))) (store_of u1)"
    by (rule write_head_law [OF u1(2)]) (use k1 d(2,3,4) rc1(2) readable_pins [OF rc1 d(10)] in simp_all)
  then obtain u2 where u2: "write_head u1 = Some u2" "ready k u2" "bio_only u1 u2"
    "store_of u2 = copies (?wl @ [(?st, ?hd)]) (store_of s)"
    using k1 v1 u1(4) by (auto simp: copies_snoc)
  note s2 = store_eq [OF u2(4)]
  have k2: "klog u2 = klog s" using bio_only_klog [OF u2(3)] k1 by simp
  have tr2: "trans_ok k n u2" using tr u2(2) k2 by (rule trans_ok_cong) (use s2 in simp_all)
  have v2: "view u2 (?l i) = view s (?h i)" if "i < n" for i
    using s2 that lblk_start [of i ?st] apply_w_same [OF lblk_inj_on, of n i ?st] d(4) by simp
  obtain u3 where u3: "install_trans False u2 = Some u3" "ready k u3" "bio_only u2 u3"
    "store_of u3 = (copies (map (\<lambda>i. (?h i, view u2 (?l i))) [0..<n]) (store_of u2))\<lparr>st_rc := pins {}\<rparr>"
    using install_trans_law [OF tr2] k2 by auto
  have m: "map (\<lambda>i. (?h i, view u2 (?l i))) [0..<n] = ?wh" using v2 by simp
  have s3: "store_of u3 = (copies (?wl @ [(?st, ?hd)] @ ?wh) (store_of s))\<lparr>st_rc := pins {}\<rparr>"
    unfolding u3(4) m u2(4) by (simp add: copies_append)
  have k3: "klog u3 = klog s" using bio_only_klog [OF u3(3)] k2 by simp
  let ?u4 = "upd_log (\<lambda>l. l\<lparr>lh_n := 0\<rparr>) u3"
  note s3e = store_eq [OF s3]
  have rc4: "rc ?u4 = pins {}" "lk ?u4 m = None" for m using s3e d(9) by simp_all
  have sth: "?st \<notin> ?h ` {..<n}" using d(7) by (metis imageE lessThan_iff)
  have v3: "view u3 ?st = ?hd" using s3e by (simp add: apply_w_keys [OF sth])
  have "\<exists>t. write_head ?u4 = Some t \<and> ready k t \<and> bio_only ?u4 t \<and>
      store_of t = copied (lg_start (klog ?u4)) (put_hdr (int 0) (lh_block (klog ?u4)) (view ?u4 (lg_start (klog ?u4)))) (store_of ?u4)"
    by (rule write_head_law) (use u3(2) k3 d(2) rc4(2) readable_pins [OF rc4] in simp_all)
  then obtain t where t: "write_head ?u4 = Some t" "ready k t" "bio_only ?u4 t"
    "store_of t = copied ?st (put_hdr 0 ?h ?hd) (store_of u3)" using k3 v3 by auto
  have "copied b x (a\<lparr>st_rc := r\<rparr>) = (copied b x a)\<lparr>st_rc := r\<rparr>" for b x a r
    by (simp add: copied_def a_write_def a_set_def)
  then have "store_of t = (copies (commit_writes s n) (store_of s))\<lparr>st_rc := pins {}\<rparr>"
    using t(4) s3 by (simp add: copies_snoc commit_writes_def Let_def)
  moreover have "bio_only s u3" using u1(3) u2(3) u3(3) bio_only_trans by blast
  then have "bio_only (upd_log (\<lambda>l. l\<lparr>lh_n := 0\<rparr>) s) t" using bio_only_trans [OF bio_only_upd_log t(3)] by blast
  moreover have "commit s = Some t" using u1(1) u2(1) u3(1) t(1) d(3) n by (simp add: commit_def)
  ultimately show ?thesis using t(2) by blast
qed

subsection \<open>Recovery\<close>

lemma put_hdr_0: "put_hdr 0 blk bs = put32 0 0 bs"
  by (simp add: put_hdr_def)

definition cold :: "int \<Rightarrow> 'a log_st_scheme \<Rightarrow> bool" where
  "cold k s \<longleftrightarrow> ready k s \<and> rc s = pins {} \<and> (\<forall>m. lk s m = None)"

lemma cold_view: "cold k s \<Longrightarrow> view s n = disk s n"
  using store_wf(3) [of k s n] by (simp add: cold_def pins_def)

lemma cold_readable: "cold k s \<Longrightarrow> readable n (store_of s)"
  unfolding cold_def by (rule readable_pins) auto

lemma recover_install_law:
  assumes c: "cold k s" and dev: "lg_dev (klog s) = ROOTDEV" and n: "lh_n (klog s) = int n"
    and disj: "\<And>i j. i < n \<Longrightarrow> j < n \<Longrightarrow> lblk (lg_start (klog s)) i \<noteq> lh_block (klog s) j"
  shows "\<exists>t. install_trans True s = Some t \<and> cold k t \<and> bio_only s t \<and>
    store_of t = copies (map (\<lambda>i. (lh_block (klog s) i, disk s (lblk (lg_start (klog s)) i))) [0..<n]) (store_of s)"
proof -
  let ?l = "lblk (lg_start (klog s))" and ?h = "lh_block (klog s)"
  let ?ws = "\<lambda>j. map (\<lambda>i. (?h i, disk s (?l i))) [0..<j]"
  let ?I = "\<lambda>j t. cold k t \<and> bio_only s t \<and> store_of t = copies (?ws j) (store_of s)"
  have "\<exists>t. for_each [0..<n] (install_one True) s = Some t \<and> ?I n t"
  proof (rule for_each_upt [where I = ?I])
    show "?I 0 s" using c by simp
    fix j u assume j: "j < n" and u: "?I j u"
    note su = store_eq [OF u [THEN conjunct2, THEN conjunct2]]
    have kl: "klog u = klog s" using u bio_only_klog by blast
    have cu: "cold k u" "ready k u" "rc u = pins {}" "\<And>m. lk u m = None" using u by (auto simp: cold_def)
    have vl: "view u (?l j) = disk s (?l j)"
    proof -
      have "?l j \<notin> ?h ` {..<j}" using disj j by (metis imageE lessThan_iff less_trans)
      then show ?thesis using su cold_view [OF c] by (simp add: apply_w_keys)
    qed
    have "{m. 0 < ((pins {})(?l j := Suc (pins {} (?l j)))) m} = {?l j}" by (auto simp: pins_def)
    then have rh: "readable (?h j) (a_read k (?l j) (store_of u))"
      using cu(3,4) disj [OF j j] by (simp add: readable_def a_read_def) (simp add: pins_def)
    have "\<exists>t. install_one True j u = Some t \<and> ready k t \<and> bio_only u t \<and>
        store_of t = (copied (?h j) (view u (?l j)) (store_of u))\<lparr>st_rc := (rc u)(?h j := rc u (?h j) - (if True then 0 else 1))\<rparr>"
      by (rule install_one_law [OF cu(2)])
        (use kl dev disj [OF j j] cu(4) cold_readable [OF cu(1)] rh in \<open>simp_all add: log_block_lblk\<close>)
    then obtain t where t: "install_one True j u = Some t" "ready k t" "bio_only u t"
      "store_of t = copied (?h j) (view u (?l j)) (store_of u)" by (auto simp: copied_def a_write_def a_set_def store_of_def)
    have st: "store_of t = copies (?ws (Suc j)) (store_of s)" using t(4) u vl by (simp add: copies_snoc)
    have "cold k t" unfolding cold_def using t(2) store_eq [OF st] c by (simp add: cold_def)
    then show "\<exists>t. install_one True j u = Some t \<and> ?I (Suc j) t" using t st u bio_only_trans by blast
  qed
  then show ?thesis using n by (simp add: install_trans_def)
qed

lemma read_head_law:
  assumes c: "cold k s" and dev: "lg_dev (klog s) = ROOTDEV" and n: "hdr_n (disk s (lg_start (klog s))) = int n" "n \<le> 30"
  shows "\<exists>t. read_head s = Some t \<and> cold k t \<and> store_of t = store_of s \<and> lh_n (klog t) = int n \<and> lg_dev (klog t) = ROOTDEV \<and>
    lg_start (klog t) = lg_start (klog s) \<and> (\<forall>i<n. lh_block (klog t) i = hdr_block (disk s (lg_start (klog s))) i) \<and>
    (\<exists>f. bio_only (upd_log f s) t)"
proof -
  let ?st = "lg_start (klog s)"
  have ok: "ready k s" "rc s = pins {}" "\<And>m. lk s m = None" using c by (auto simp: cold_def)
  obtain b u where u: "bread ROOTDEV ?st s = Some (b, u)" "b_data (bufs u b) = view s ?st" "ready k u" "bio_only s u"
    "store_of u = a_read k ?st (store_of s)" "buf_of u b ?st"
    using bc.peek [OF ok(1) cold_readable [OF c], of ?st] by auto
  have kl: "klog u = klog s" using u(4) by (rule bio_only_klog)
  let ?f = "\<lambda>l. l\<lparr>lh_n := int n, lh_block := (\<lambda>i. if i < n then hdr_block (disk s ?st) i else lh_block l i)\<rparr>"
  let ?v = "upd_log ?f u"
  have v: "ready k ?v" "buf_of ?v b ?st" "store_of ?v = a_read k ?st (store_of s)" using u by simp_all
  have vd: "view s ?st = disk s ?st" using cold_view [OF c] .
  have "st_lk (store_of ?v) ?st = Some k" "0 < st_rc (store_of ?v) ?st" "st_view (store_of ?v) ?st = st_disk (store_of ?v) ?st"
    unfolding v(3) using vd by (simp_all add: a_read_def)
  then obtain t where t: "brelse b ?v = Some t" "ready k t" "bio_only ?v t" "store_of t = a_release ?st (store_of ?v)"
    using bc.rls_law [OF v(1,2)] by blast
  have st: "store_of t = store_of s" unfolding t(4) v(3) using ok(3)
    by (simp add: a_release_def a_read_def fun_upd_idem)
  have "cold k t" unfolding cold_def using t(2) store_eq [OF st] ok by simp
  moreover have "klog t = ?f (klog u)" using bio_only_klog [OF t(3)] by simp
  moreover have "read_head s = Some t"
    using u(1,2) t(1) dev kl n vd by (simp add: read_head_def Let_def cong: if_cong)
  moreover have "bio_only (upd_log ?f s) t" by (rule bio_only_trans [OF bio_only_upd_log [OF u(4)] t(3)])
  ultimately show ?thesis using st dev kl by auto
qed

lemma initlog_frame:
  assumes c: "cold k s" and st: "st = sb_logstart sb" and n: "hdr_n (disk s st) = int n" "n \<le> 30"
    and disj: "\<And>i j. i < n \<Longrightarrow> j < n \<Longrightarrow> lblk st i \<noteq> hdr_block (disk s st) j" and sth: "\<And>j. j < n \<Longrightarrow> hdr_block (disk s st) j \<noteq> st"
  shows "\<exists>t. initlog ROOTDEV sb s = Some t \<and> cold k t \<and>
    store_of t = copies (map (\<lambda>i. (hdr_block (disk s st) i, disk s (lblk st i))) [0..<n] @ [(st, put32 0 0 (disk s st))]) (store_of s) \<and>
    lg_start (klog t) = st \<and> (\<exists>f. bio_only (upd_log f s) t)"
proof -
  let ?s = "upd_log (\<lambda>l. l\<lparr>lg_start := sb_logstart sb, lg_size := sint (sb_nlog sb), lg_dev := ROOTDEV\<rparr>) s"
  have c1: "cold k ?s" using c by (simp add: cold_def)
  obtain u where u: "read_head ?s = Some u" "cold k u" "store_of u = store_of ?s" "lh_n (klog u) = int n" "lg_dev (klog u) = ROOTDEV"
    "lg_start (klog u) = st" "\<And>i. i < n \<Longrightarrow> lh_block (klog u) i = hdr_block (disk s st) i" "\<exists>f. bio_only (upd_log f ?s) u"
    using read_head_law [OF c1, of n] n st by auto
  note su = store_eq [OF u(3)]
  obtain v where v: "install_trans True u = Some v" "cold k v" "bio_only u v"
    "store_of v = copies (map (\<lambda>i. (lh_block (klog u) i, disk u (lblk st i))) [0..<n]) (store_of u)"
    using recover_install_law [OF u(2,5,4)] disj u(6,7) by auto
  have m: "map (\<lambda>i. (lh_block (klog u) i, disk u (lblk st i))) [0..<n] = map (\<lambda>i. (hdr_block (disk s st) i, disk s (lblk st i))) [0..<n]"
    using u(7) su by simp
  let ?ws = "map (\<lambda>i. (hdr_block (disk s st) i, disk s (lblk st i))) [0..<n]"
  have sv: "store_of v = copies ?ws (store_of s)" unfolding v(4) m u(3) by simp
  have kv: "klog v = klog u" using v(3) by (rule bio_only_klog)
  let ?w = "upd_log (\<lambda>l. l\<lparr>lh_n := 0\<rparr>) v"
  have "st \<notin> hdr_block (disk s st) ` {..<n}" using sth by (metis imageE lessThan_iff)
  then have vw: "view v st = disk s st" using store_eq [OF sv] cold_view [OF c] by (simp add: apply_w_keys)
  have cw: "cold k ?w" "ready k ?w" "\<And>m. lk ?w m = None" using v(2) by (auto simp: cold_def)
  have "\<exists>t. write_head ?w = Some t \<and> ready k t \<and> bio_only ?w t \<and>
      store_of t = copied (lg_start (klog ?w)) (put_hdr (int 0) (lh_block (klog ?w)) (view ?w (lg_start (klog ?w)))) (store_of ?w)"
    by (rule write_head_law [OF cw(2)]) (use kv u(5) cw(3) cold_readable [OF cw(1)] in simp_all)
  then obtain t where t: "write_head ?w = Some t" "ready k t" "store_of t = copied st (put32 0 0 (disk s st)) (copies ?ws (store_of s))" "bio_only ?w t"
    using kv u(6) vw sv by (auto simp: put_hdr_0)
  have s3: "store_of t = copies (?ws @ [(st, put32 0 0 (disk s st))]) (store_of s)" using t(3) by (simp add: copies_snoc)
  have "cold k t" unfolding cold_def using t(2) store_eq [OF s3] c by (simp add: cold_def)
  moreover have "initlog ROOTDEV sb s = Some t" using u(1) v(1) t(1) by (simp add: initlog_def recover_from_log_def)
  moreover have "lg_start (klog t) = st" using bio_only_klog [OF t(4)] kv u(6) by simp
  moreover obtain f where "bio_only (upd_log f ?s) u" using u(8) by blast
  then have "bio_only (upd_log (\<lambda>l. l\<lparr>lh_n := 0\<rparr>) (upd_log f ?s)) t"
    using bio_only_trans [OF bio_only_upd_log [OF bio_only_trans [OF _ v(3)]] t(4)] by blast
  then have "\<exists>f. bio_only (upd_log f s) t" by (auto simp: upd_log_def)
  ultimately show ?thesis using s3 by blast
qed

lemma initlog_law:
  assumes "cold k s" and "st = sb_logstart sb" and "hdr_n (disk s st) = int n" "n \<le> 30"
    and "\<And>i j. i < n \<Longrightarrow> j < n \<Longrightarrow> lblk st i \<noteq> hdr_block (disk s st) j" and "\<And>j. j < n \<Longrightarrow> hdr_block (disk s st) j \<noteq> st"
  shows "\<exists>t. initlog ROOTDEV sb s = Some t \<and> cold k t \<and>
    store_of t = copies (map (\<lambda>i. (hdr_block (disk s st) i, disk s (lblk st i))) [0..<n] @ [(st, put32 0 0 (disk s st))]) (store_of s)"
  using initlog_frame [OF assms] by blast


subsection \<open>Crashes\<close>

lemma hdr_n_clear: "length bs = BSIZE \<Longrightarrow> hdr_n (put32 0 0 bs) = 0"
  by (simp add: hdr_n_def)

lemma take_upt_map: "m \<le> n \<Longrightarrow> take m (map f [0..<n]) = map f [0..<m]"
  by (simp add: take_map)

text \<open>A disk on which the first \<open>j\<close> writes of one of the two phases of a commit have been done.\<close>

lemma recover_old:
  assumes c: "cold k r" and sb: "sb_logstart sb = st" and d: "disk r = apply_w (map (\<lambda>i. (lblk st i, g i)) [0..<m]) D"
    and m: "m \<le> n" "n < 31" and h: "hdr_n (D st) = 0"
  shows "\<exists>u. initlog ROOTDEV sb r = Some u \<and> hdr_n (disk u st) = 0 \<and> (\<forall>b. b \<notin> log_area st n \<longrightarrow> disk u b = D b)"
proof -
  have out: "disk r b = D b" if "b \<notin> lblk st ` {..<m}" for b unfolding d by (rule apply_w_keys [OF that])
  have "disk r st = D st" using start_not_lblk [of m st] m by (intro out) simp
  then obtain u where u: "initlog ROOTDEV sb r = Some u" "store_of u = copies [(st, put32 0 0 (disk r st))] (store_of r)"
    using initlog_law [OF c sb [symmetric], of 0] h by auto
  have du: "disk u = (disk r)(st := put32 0 0 (disk r st))" using store_eq [OF u(2)] by simp
  have "length (disk r st) = BSIZE" using store_wf(2) c by (auto simp: cold_def)
  then have "hdr_n (disk u st) = 0" unfolding du by (simp add: hdr_n_clear)
  moreover have "disk u b = D b" if "b \<notin> log_area st n" for b
  proof -
    have "lblk st ` {..<m} \<subseteq> lblk st ` {..<n}" using m by (intro image_mono) auto
    then have "b \<notin> lblk st ` {..<m}" "b \<noteq> st" using that by (auto simp: log_area_def)
    then show ?thesis using out by (simp add: du)
  qed
  ultimately show ?thesis using u(1) by blast
qed

lemma recover_new:
  assumes c: "cold k r" and sb: "sb_logstart sb = st" and n: "n \<le> 30"
    and hdr: "hdr_n (disk r st) = int n" "\<And>i. i < n \<Longrightarrow> hdr_block (disk r st) i = h i"
    and lg: "\<And>i. i < n \<Longrightarrow> disk r (lblk st i) = g i"
    and disj: "\<And>i j. i < n \<Longrightarrow> j < n \<Longrightarrow> lblk st i \<noteq> h j" "\<And>j. j < n \<Longrightarrow> h j \<noteq> st" and inj: "inj_on h {..<n}"
    and out: "\<And>b. b \<notin> h ` {..<n} \<Longrightarrow> b \<notin> log_area st n \<Longrightarrow> disk r b = D b"
  shows "\<exists>u. initlog ROOTDEV sb r = Some u \<and> hdr_n (disk u st) = 0 \<and> (\<forall>i<n. disk u (h i) = g i) \<and>
    (\<forall>b. b \<notin> h ` {..<n} \<and> b \<notin> log_area st n \<longrightarrow> disk u b = D b)"
proof -
  have m: "map (\<lambda>i. (hdr_block (disk r st) i, disk r (lblk st i))) [0..<n] = map (\<lambda>i. (h i, g i)) [0..<n]"
    using hdr(2) lg by simp
  obtain u where u: "initlog ROOTDEV sb r = Some u"
    "store_of u = copies (map (\<lambda>i. (h i, g i)) [0..<n] @ [(st, put32 0 0 (disk r st))]) (store_of r)"
    using initlog_law [OF c sb [symmetric] hdr(1) n] hdr(2) disj unfolding m by auto
  have du: "disk u = (apply_w (map (\<lambda>i. (h i, g i)) [0..<n]) (disk r))(st := put32 0 0 (disk r st))" using store_eq [OF u(2)] by simp
  have "length (disk r st) = BSIZE" using store_wf(2) c by (auto simp: cold_def)
  then have "hdr_n (disk u st) = 0" unfolding du by (simp add: hdr_n_clear)
  moreover have "disk u (h i) = g i" if "i < n" for i using disj(2) that apply_w_same [OF inj that] by (simp add: du)
  moreover have "disk u b = D b" if "b \<notin> h ` {..<n}" "b \<notin> log_area st n" for b
    using that out by (simp add: du apply_w_keys log_area_def)
  ultimately show ?thesis using u(1) by blast
qed

lemma recover_commit:
  assumes tr: "trans_ok k n s" and st: "st = lg_start (klog s)" and e: "hdr_n (disk s st) = 0"
    and m: "m \<le> length (commit_writes s n)" and c: "cold k' r" and sb: "sb_logstart sb = st"
    and dr: "disk r = apply_w (take m (commit_writes s n)) (disk s)"
  shows "\<exists>u. initlog ROOTDEV sb r = Some u \<and> hdr_n (disk u st) = 0 \<and>
    (\<forall>b. b \<notin> log_area st n \<longrightarrow> disk u b = (if m \<le> n then disk s b else view s b))"
proof -
  note d = trans_okD [OF tr]
  let ?l = "lblk st" and ?h = "lh_block (klog s)"
  let ?hd = "put_hdr (int n) ?h (view s st)" and ?g = "\<lambda>i. view s (lh_block (klog s) i)"
  let ?wl = "map (\<lambda>i. (?l i, ?g i)) [0..<n]" and ?wh = "\<lambda>j. map (\<lambda>i. (?h i, ?g i)) [0..<j]"
  have cw: "commit_writes s n = ?wl @ [(st, ?hd)] @ ?wh n @ [(st, put32 0 0 ?hd)]"
    by (simp add: commit_writes_def Let_def st put_hdr_0)
  have lenv: "length (view s st) = BSIZE" using store_wf(1) [OF d(1)] .
  have hd: "hdr_n ?hd = int n" "i < n \<Longrightarrow> hdr_block ?hd i = ?h i" "length ?hd = BSIZE" for i
    using hdr_put [OF lenv] d(4) by auto
  have sth: "st \<notin> ?h ` {..<j}" if "j \<le> n" for j using d(7) st that by (metis imageE le_trans lessThan_iff linorder_not_le)
  have lh: "?l i \<notin> ?h ` {..<j}" if "i < n" "j \<le> n" for i j
    using d(6) st that by (metis imageE lessThan_iff order_less_le_trans)
  have vout: "disk s b = view s b" if "b \<notin> ?h ` {..<n}" for b using store_wf(3) [OF d(1), of b] that d(8) by (simp add: pins_def)
  have n31: "n < 31" using d(4) by simp
  have wl: "apply_w ?wl D (?l i) = ?g i" if "i < n" for D i using apply_w_same [OF lblk_inj_on [OF n31] that, where g = ?g] .
  have wl_out: "apply_w ?wl D b = D b" if "b \<notin> log_area st n" for D b using that by (intro apply_w_keys) (simp add: log_area_def)
  have lst: "?l i \<noteq> st" if "i < n" for i using lblk_start [of i st] that n31 by simp
  consider "m \<le> n" | j where "m = n + 1 + j" "j \<le> n" | "m = n + 1 + n + 1"
  proof -
    have "m \<le> 2 * n + 2" using m by (simp add: cw)
    then show ?thesis using that(1) that(2) [of "m - n - 1"] that(3) by linarith
  qed
  then show ?thesis
  proof cases
    case 1
    then have "disk r = apply_w (map (\<lambda>i. (?l i, ?g i)) [0..<m]) (disk s)" using dr by (simp add: cw take_upt_map)
    from recover_old [OF c sb this 1 n31 e] show ?thesis using 1 by simp
  next
    case (2 j)
    have dr': "disk r = apply_w (?wh j) ((apply_w ?wl (disk s))(st := ?hd))" using dr 2 by (simp add: cw take_upt_map)
    have "\<exists>u. initlog ROOTDEV sb r = Some u \<and> hdr_n (disk u st) = 0 \<and> (\<forall>i<n. disk u (?h i) = ?g i) \<and>
        (\<forall>b. b \<notin> ?h ` {..<n} \<and> b \<notin> log_area st n \<longrightarrow> disk u b = disk s b)"
    proof (rule recover_new [OF c sb])
      have rst: "disk r st = ?hd" unfolding dr' using sth [OF 2(2)] by (simp add: apply_w_keys)
      then show "hdr_n (disk r st) = int n" "\<And>i. i < n \<Longrightarrow> hdr_block (disk r st) i = ?h i" using hd by simp_all
      show "disk r (?l i) = ?g i" if "i < n" for i
        unfolding dr' using lh [OF that 2(2)] lst [OF that] wl [OF that] by (simp add: apply_w_keys)
      show "disk r b = disk s b" if "b \<notin> ?h ` {..<n}" "b \<notin> log_area st n" for b
      proof -
        have "b \<notin> ?h ` {..<j}" "b \<noteq> st" using that 2(2) by (auto simp: log_area_def)
        then show ?thesis unfolding dr' using wl_out [OF that(2)] by (simp add: apply_w_keys)
      qed
    qed (use d(4-7) st in simp_all)
    then obtain u where u: "initlog ROOTDEV sb r = Some u" "hdr_n (disk u st) = 0" "\<And>i. i < n \<Longrightarrow> disk u (?h i) = ?g i"
      "\<And>b. b \<notin> ?h ` {..<n} \<Longrightarrow> b \<notin> log_area st n \<Longrightarrow> disk u b = disk s b" by blast
    have "disk u b = view s b" if "b \<notin> log_area st n" for b
      using u(3) u(4) [of b] that vout [of b] by (cases "b \<in> ?h ` {..<n}") auto
    then show ?thesis using u(1,2) 2(1) by auto
  next
    case 3
    have dr': "disk r = (apply_w (?wh n) ((apply_w ?wl (disk s))(st := ?hd)))(st := put32 0 0 ?hd)" using dr 3 by (simp add: cw)
    have h0: "hdr_n (disk r st) = 0" using hd(3) by (simp add: dr' hdr_n_clear)
    have "\<exists>u. initlog ROOTDEV sb r = Some u \<and> hdr_n (disk u st) = 0 \<and> (\<forall>b. b \<notin> log_area st 0 \<longrightarrow> disk u b = disk r b)"
      by (rule recover_old [OF c sb, where m = 0 and n = 0 and g = "\<lambda>_. []" and D = "disk r"]) (simp_all add: h0)
    moreover have "disk r b = view s b" if b: "b \<notin> log_area st n" for b
    proof (cases "b \<in> ?h ` {..<n}")
      case True
      then obtain i where "b = ?h i" "i < n" by auto
      then show ?thesis using apply_w_same [OF d(5), of i ?g] d(7) st by (simp add: dr')
    next
      case False
      then show ?thesis using b wl_out [OF b] vout [OF False] by (simp add: dr' apply_w_keys log_area_def)
    qed
    ultimately show ?thesis using 3 by (auto simp: log_area_def)
  qed
qed

end
