(* ===== verification/Log_Tx.thy ===== *)
theory Log_Tx
  imports Log_Laws
begin

text \<open>
  Transactions as the file system uses them.  Inside a transaction the caller reads blocks, changes
  them, hands them to \<^verbatim>\<open>log_write\<close> and releases them; the changes are visible at once and reach the
  disk with the commit at the last \<^verbatim>\<open>end_op\<close>.
\<close>

text \<open>\<open>H\<close> is the set of blocks the caller owns, \<open>S\<close> the set of blocks logged so far.\<close>

definition home :: "'a log_st_scheme \<Rightarrow> u32 \<Rightarrow> bool" where
  "home s b \<longleftrightarrow> b \<notin> log_area (lg_start (klog s)) 29"

definition in_tx :: "int \<Rightarrow> u32 set \<Rightarrow> u32 set \<Rightarrow> 'a log_st_scheme \<Rightarrow> bool" where
  "in_tx k H S s \<longleftrightarrow> ready k s \<and> LogLock \<notin> held s \<and> lg_dev (klog s) = ROOTDEV \<and> lg_size (klog s) = 30 \<and> 1 \<le> lg_outstanding (klog s) \<and>
     \<not> lg_committing (klog s) \<and> lh_n (klog s) = int (card S) \<and> card S \<le> 29 \<and> lh_block (klog s) ` {..<card S} = S \<and>
     (\<forall>b\<in>S. home s b) \<and> rc s = (\<lambda>m. pins S m + pins H m) \<and> lk s = (\<lambda>m. if m \<in> H then Some k else None)"

text \<open>What an operation inside a transaction may change besides the cache: the list of logged blocks.\<close>

definition tx_only :: "'a log_st_scheme \<Rightarrow> 'a log_st_scheme \<Rightarrow> bool" where
  "tx_only s t \<longleftrightarrow> (\<exists>n bl. bio_only (upd_log (\<lambda>l. l\<lparr>lh_n := n, lh_block := bl\<rparr>) s) t)"

lemma bio_only_tx: "bio_only s t \<Longrightarrow> tx_only s t"
proof -
  assume a: "bio_only s t"
  have "upd_log (\<lambda>l. l\<lparr>lh_n := lh_n (klog s), lh_block := lh_block (klog s)\<rparr>) s = s" by (simp add: upd_log_def)
  then show ?thesis unfolding tx_only_def using a by metis
qed

lemma tx_only_trans:
  assumes "tx_only s t" and "tx_only t u" shows "tx_only s u"
proof -
  obtain n bl where st: "bio_only (upd_log (\<lambda>l. l\<lparr>lh_n := n, lh_block := bl\<rparr>) s) t" using assms(1) by (auto simp: tx_only_def)
  obtain n' bl' where tu: "bio_only (upd_log (\<lambda>l. l\<lparr>lh_n := n', lh_block := bl'\<rparr>) t) u" using assms(2) by (auto simp: tx_only_def)
  have "upd_log (\<lambda>l. l\<lparr>lh_n := n', lh_block := bl'\<rparr>) (upd_log (\<lambda>l. l\<lparr>lh_n := n, lh_block := bl\<rparr>) s) =
      upd_log (\<lambda>l. l\<lparr>lh_n := n', lh_block := bl'\<rparr>) s" by (simp add: upd_log_def)
  then have "bio_only (upd_log (\<lambda>l. l\<lparr>lh_n := n', lh_block := bl'\<rparr>) s) (upd_log (\<lambda>l. l\<lparr>lh_n := n', lh_block := bl'\<rparr>) t)"
    using bio_only_upd_log [OF st, of "\<lambda>l. l\<lparr>lh_n := n', lh_block := bl'\<rparr>"] by simp
  then show ?thesis unfolding tx_only_def using tu bio_only_trans by blast
qed

lemma tx_only_refl [simp]: "tx_only s s"
  by (rule bio_only_tx) simp

lemma tx_only_fields:
  assumes "tx_only s t"
  shows "held t = held s" "cur t = cur s" "mem t = mem s" "slocks t (InodeLock k) = slocks s (InodeLock k)"
    "woke (procs s) (procs t)" "lg_start (klog t) = lg_start (klog s)" "home t b = home s b"
  using assms by (auto simp: tx_only_def upd_log_def home_def elim!: bio_onlyE)

lemma in_txD:
  assumes "in_tx k H S s"
  shows "ready k s" "LogLock \<notin> held s" "lg_dev (klog s) = ROOTDEV" "lg_size (klog s) = 30" "1 \<le> lg_outstanding (klog s)"
    "\<not> lg_committing (klog s)" "lh_n (klog s) = int (card S)" "card S \<le> 29" "lh_block (klog s) ` {..<card S} = S"
    "\<And>b. b \<in> S \<Longrightarrow> home s b" "rc s b = pins S b + pins H b" "lk s b = (if b \<in> H then Some k else None)"
    "inj_on (lh_block (klog s)) {..<card S}"
  using assms by (auto simp: in_tx_def intro: eq_card_imp_inj_on)

lemma in_tx_bio:
  assumes "in_tx k H S s" and "ready k t" and "bio_only s t" and "rc t = (\<lambda>m. pins S m + pins H' m)"
    and "lk t = (\<lambda>m. if m \<in> H' then Some k else None)"
  shows "in_tx k H' S t"
  using assms bio_only_klog [OF assms(3)] bio_only_fields(1) [OF assms(3)] by (simp add: in_tx_def home_def)

lemma tx_bread:
  assumes "in_tx k H S s" and "b \<notin> H" and "b \<in> S \<or> card (S \<union> H) < NBUF"
  shows "\<exists>i t. bread ROOTDEV b s = Some (i, t) \<and> in_tx k (insert b H) S t \<and> bio_only s t \<and> buf_of t i b \<and> b_data (bufs t i) = view s b \<and>
    view t = view s \<and> disk t = disk s \<and> dwrites t = dwrites s \<and> (\<forall>j m. buf_of s j m \<and> m \<in> H \<longrightarrow> buf_of t j m)"
proof -
  note d = in_txD [OF assms(1)]
  have "{m. 0 < rc s m} = S \<union> H" using d(11) by (auto simp: pins_def)
  then have r: "readable b (store_of s)"
    using assms(2,3) d(11,12) [of b] by (auto simp: readable_def pins_def)
  obtain i t where t: "bread ROOTDEV b s = Some (i, t)" "ready k t" "bio_only s t" "buf_of t i b"
    "store_of t = a_read k b (store_of s)" "\<And>j m. buf_of s j m \<Longrightarrow> 0 < rc s m \<Longrightarrow> buf_of t j m"
    using bc.rd_law [OF d(1) r] by auto
  note st = store_eq [OF t(5)]
  have "in_tx k (insert b H) S t"
    by (rule in_tx_bio [OF assms(1) t(2,3)]) (use st d(11,12) assms(2) in \<open>auto simp: a_read_def pins_def fun_eq_iff\<close>)
  moreover have "b_data (bufs t i) = view s b" using bc.data_law [OF t(2,4)] st by (simp add: a_read_def)
  moreover have "\<forall>j m. buf_of s j m \<and> m \<in> H \<longrightarrow> buf_of t j m" using t(6) d(11) by (simp add: pins_def)
  ultimately show ?thesis using t(1,3,4) st by (simp add: a_read_def)
qed

lemma tx_set:
  assumes "in_tx k H S s" and "buf_of s i b" and "b \<in> H" and "length x = BSIZE"
  shows "in_tx k H S (set_data i x s)" and "bio_only s (set_data i x s)" and "view (set_data i x s) = (view s)(b := x)"
    and "disk (set_data i x s) = disk s" and "buf_of (set_data i x s) j m = buf_of s j m"
proof -
  note d = in_txD [OF assms(1)]
  have "0 < rc s b" using d(11) assms(3) by (simp add: pins_def)
  note w = set_data_law [OF d(1) assms(2) this assms(4)]
  note sw = store_eq [OF w(3)]
  show "in_tx k H S (set_data i x s)"
    by (rule in_tx_bio [OF assms(1) w(1,2)]) (use sw assms(1) in \<open>simp_all add: a_set_def in_tx_def\<close>)
  show "bio_only s (set_data i x s)" "buf_of (set_data i x s) j m = buf_of s j m" by (rule w)+
  show "view (set_data i x s) = (view s)(b := x)" "disk (set_data i x s) = disk s" using sw by (simp_all add: a_set_def)
qed

lemma tx_brelse:
  assumes "in_tx k H S s" and "buf_of s i b" and "b \<in> H" and "b \<in> S \<or> view s b = disk s b"
  shows "\<exists>t. brelse i s = Some t \<and> in_tx k (H - {b}) S t \<and> bio_only s t \<and> view t = view s \<and> disk t = disk s \<and> dwrites t = dwrites s \<and>
    (\<forall>j m. buf_of t j m = buf_of s j m)"
proof -
  note d = in_txD [OF assms(1)]
  obtain t where t: "brelse i s = Some t" "ready k t" "bio_only s t" "store_of t = a_release b (store_of s)" "\<And>j m. buf_of t j m = buf_of s j m"
    using brelse_law [OF d(1) assms(2)] d(11,12) [of b] assms(3,4) by (auto simp: pins_def)
  note st = store_eq [OF t(4)]
  have "in_tx k (H - {b}) S t"
    by (rule in_tx_bio [OF assms(1) t(2,3)]) (use st d(11,12) assms(3) in \<open>auto simp: a_release_def pins_def fun_eq_iff\<close>)
  then show ?thesis using t st by (simp add: a_release_def)
qed

subsection \<open>Logging a block\<close>

lemma held_bio [simp]:
  "store_of (s\<lparr>held := h\<rparr>) = store_of s" "buf_of (s\<lparr>held := h\<rparr>) i n = buf_of s i n" "view (s\<lparr>held := h\<rparr>) = view s"
  "rc (s\<lparr>held := h\<rparr>) = rc s" "lk (s\<lparr>held := h\<rparr>) = lk s"
  by (simp_all add: store_of_def buf_of_def view_def rc_def lk_def fun_eq_iff cong: option.case_cong if_cong)

lemma ready_held:
  "ready k s \<Longrightarrow> BcacheLock \<notin> h \<Longrightarrow> (\<And>l. SleepLk l \<notin> h) \<Longrightarrow> (\<And>i. ProcLock i \<notin> h) \<Longrightarrow> ready k (s\<lparr>held := h\<rparr>)"
  by (auto simp: ready_def bio_ok_def calm_def)

lemma ready_locks: "ready k s \<Longrightarrow> BcacheLock \<notin> held s \<and> SleepLk l \<notin> held s \<and> ProcLock i \<notin> held s"
  by (auto simp: ready_def calm_def)

lemma tx_log_write:
  assumes tx: "in_tx k H S s" and b: "buf_of s i b" "b \<in> H" "home s b" and room: "card S < 29"
  shows "\<exists>t. log_write i s = Some t \<and> in_tx k H (insert b S) t \<and> tx_only s t \<and> view t = view s \<and> disk t = disk s \<and> dwrites t = dwrites s \<and>
    (\<forall>j m. buf_of t j m = buf_of s j m)"
proof -
  note d = in_txD [OF tx]
  let ?n = "card S" and ?h = "lh_block (klog s)" and ?s = "s\<lparr>held := insert LogLock (held s)\<rparr>"
  have bno: "b_blockno (bufs s i) = b" using buf_ofD(3) [OF b(1)] d(1) by (simp add: ready_def)
  show ?thesis
  proof (cases "b \<in> S")
    case True
    then have "b \<in> ?h ` {..<?n}" using d(9) by simp
    then obtain j0 where "j0 < ?n" "?h j0 = b" by auto
    then obtain j where j: "List.find (\<lambda>i. ?h i = b) [0..<?n] = Some j"
      using find_upt_None [of "\<lambda>i. ?h i = b" ?n] by (cases "List.find (\<lambda>i. ?h i = b) [0..<?n]") auto
    then have "j < ?n" "?h j = b" by (auto simp: find_upt)
    then have "?h(j := b) = ?h" "j \<noteq> ?n" by auto
    then have "log_write i s = Some s"
      using d(2,4,5,7) room j bno by (simp add: log_write_def lock_simps upd_log_def)
    then show ?thesis using tx True by (auto simp: insert_absorb)
  next
    case False
    then have "List.find (\<lambda>i. ?h i = b) [0..<?n] = None" using d(9) by (auto simp: find_upt_None)
    let ?f = "\<lambda>l. l\<lparr>lh_block := (lh_block l)(?n := b)\<rparr>"
    let ?u = "upd_log ?f ?s"
    have rs: "ready k ?s" by (rule ready_held [OF d(1)]) (use ready_locks [OF d(1)] in auto)
    then have u: "ready k ?u" "buf_of ?u i b" "rc ?u b + 1 < 2 ^ 32" using b(1,2) d(11) [of b] False by (simp_all add: pins_def)
    obtain v where v: "bpin i ?u = Some v" "ready k v" "bio_only ?u v" "store_of v = a_pin b (store_of ?u)" "\<And>j m. buf_of v j m = buf_of s j m"
      using bpin_law [OF u] by auto
    let ?g = "\<lambda>l. l\<lparr>lh_n := lh_n l + 1\<rparr>"
    let ?t = "(upd_log ?g v)\<lparr>held := held s\<rparr>"
    have hv: "held v = insert LogLock (held s)" using bio_only_fields(1) [OF v(3)] by (simp add: upd_log_def)
    have kv: "klog v = ?f (klog s)" using bio_only_klog [OF v(3)] by simp
    have "rel LogLock (upd_log ?g v) = Some ?t" using d(2) hv by (simp add: rel_def upd_log_def)
    then have lw: "log_write i s = Some ?t"
      using d(2,4,5,7) room bno v(1) \<open>List.find _ _ = None\<close> by (simp add: log_write_def lock_simps)
    have kt: "klog ?t = (klog s)\<lparr>lh_n := int ?n + 1, lh_block := ?h(?n := b)\<rparr>" using kv d(7) by simp
    have st: "store_of ?t = a_pin b (store_of s)" using v(4) by simp
    note se = store_eq [OF st]
    have rt: "ready k ?t" by (rule ready_held) (use v(2) ready_locks [OF d(1)] in auto)
    have fin: "finite S" by simp
    have cs: "card (insert b S) = Suc ?n" using False fin by simp
    have "?h(?n := b) ` {..<Suc ?n} = insert b (?h ` {..<?n})" by (auto simp: lessThan_Suc)
    then have img: "?h(?n := b) ` {..<Suc ?n} = insert b S" using d(9) by simp
    have "in_tx k H (insert b S) ?t"
      unfolding in_tx_def cs
      using rt kt img d se room b(3) False by (auto simp: a_pin_def pins_def fun_eq_iff home_def)
    moreover have "tx_only s ?t"
    proof -
      let ?w = "upd_log (\<lambda>l. l\<lparr>lh_n := int ?n + 1, lh_block := ?h(?n := b)\<rparr>) s"
      have "bio_only ?w ?t"
        using v(3) d(7) by (elim bio_onlyE) (auto simp: bio_only_def upd_log_def)
      then show ?thesis unfolding tx_only_def by blast
    qed
    ultimately show ?thesis using lw se v(5) by (auto simp: a_pin_def)
  qed
qed

text \<open>The idiom of the file system: read, change, log, release.\<close>

lemma tx_update:
  assumes tx: "in_tx k H S s" and b: "b \<notin> H" "home s b" and room: "card S < 29" "b \<in> S \<or> card (S \<union> H) < NBUF"
    and f: "length (f (view s b)) = BSIZE"
  shows "\<exists>i u v t. bread ROOTDEV b s = Some (i, u) \<and> b_data (bufs u i) = view s b \<and> bio_only s u \<and>
    log_write i (set_data i (f (view s b)) u) = Some v \<and> brelse i v = Some t \<and> in_tx k H (insert b S) t \<and> tx_only s t \<and>
    view t = (view s)(b := f (view s b)) \<and> disk t = disk s \<and> (\<forall>j m. buf_of s j m \<and> m \<in> H \<longrightarrow> buf_of t j m)"
proof -
  obtain i u where u: "bread ROOTDEV b s = Some (i, u)" "in_tx k (insert b H) S u" "bio_only s u" "buf_of u i b" "b_data (bufs u i) = view s b"
    "view u = view s" "disk u = disk s" "\<forall>j m. buf_of s j m \<and> m \<in> H \<longrightarrow> buf_of u j m"
    using tx_bread [OF tx b(1) room(2)] by blast
  let ?w = "set_data i (f (view s b)) u"
  have w: "in_tx k (insert b H) S ?w" "bio_only u ?w" "view ?w = (view s)(b := f (view s b))" "disk ?w = disk s" "buf_of ?w j m = buf_of u j m" for j m
    using tx_set [OF u(2,4) insertI1 f] u(6,7) by simp_all
  have "home ?w b" using b(2) tx_only_fields(7) [OF bio_only_tx [OF bio_only_trans [OF u(3) w(2)]]] by simp
  then obtain v where v: "log_write i ?w = Some v" "in_tx k (insert b H) (insert b S) v" "tx_only ?w v" "view v = view ?w" "disk v = disk ?w"
    "\<And>j m. buf_of v j m = buf_of u j m"
    using tx_log_write [OF w(1) _ insertI1 _ room(1), of i] u(4) w(5) by auto
  obtain t where t: "brelse i v = Some t" "in_tx k (insert b H - {b}) (insert b S) t" "bio_only v t" "view t = view v" "disk t = disk v"
    "\<And>j m. buf_of t j m = buf_of v j m"
    using tx_brelse [OF v(2), of i b] v(6) u(4) by auto
  have "insert b H - {b} = H" using b(1) by auto
  moreover have "tx_only s t" using bio_only_tx [OF u(3)] bio_only_tx [OF w(2)] v(3) bio_only_tx [OF t(3)] tx_only_trans by metis
  ultimately show ?thesis using u w v t by auto
qed

lemma tx_peek:
  assumes tx: "in_tx k H S s" and b: "b \<notin> H" and room: "b \<in> S \<or> card (S \<union> H) < NBUF"
  shows "\<exists>i u t. bread ROOTDEV b s = Some (i, u) \<and> b_data (bufs u i) = view s b \<and> bio_only s u \<and> brelse i u = Some t \<and>
    in_tx k H S t \<and> bio_only s t \<and> view t = view s \<and> disk t = disk s \<and> (\<forall>j m. buf_of s j m \<and> m \<in> H \<longrightarrow> buf_of t j m)"
proof -
  obtain i u where u: "bread ROOTDEV b s = Some (i, u)" "in_tx k (insert b H) S u" "bio_only s u" "buf_of u i b" "b_data (bufs u i) = view s b"
    "view u = view s" "disk u = disk s" "\<forall>j m. buf_of s j m \<and> m \<in> H \<longrightarrow> buf_of u j m"
    using tx_bread [OF tx b room] by blast
  have "b \<in> S \<or> view u b = disk u b"
    using in_txD(11) [OF tx, of b] b store_wf(3) [OF in_txD(1) [OF tx], of b] u(6,7) by (cases "b \<in> S") (simp_all add: pins_def)
  then obtain t where t: "brelse i u = Some t" "in_tx k (insert b H - {b}) S t" "bio_only u t" "view t = view u" "disk t = disk u"
    "\<And>j m. buf_of t j m = buf_of u j m"
    using tx_brelse [OF u(2,4) insertI1] by auto
  have "insert b H - {b} = H" using b by auto
  moreover have "bio_only s t" using u(3) t(3) by (rule bio_only_trans)
  ultimately show ?thesis using u t by auto
qed

subsection \<open>Beginning and ending\<close>

lemma begin_op_law:
  assumes "ready k s" and "LogLock \<notin> held s" and "\<not> lg_committing (klog s)"
    and "lh_n (klog s) + (lg_outstanding (klog s) + 1) * MAXOPBLOCKS \<le> LOGSIZE"
  shows "begin_op s = Some (Returns (), upd_log (\<lambda>l. l\<lparr>lg_outstanding := lg_outstanding l + 1\<rparr>) s)"
  using assms by (simp add: begin_op_def begin_op_loop_def lock_simps upd_log_def)

lemma in_tx_trans:
  assumes "in_tx k {} S s" shows "trans_ok k (card S) s"
proof -
  note d = in_txD [OF assms]
  have "log_area (lg_start (klog s)) (card S) \<subseteq> log_area (lg_start (klog s)) 29" using d(8) by (auto simp: log_area_def)
  then have "S \<inter> log_area (lg_start (klog s)) (card S) = {}" using d(10) by (auto simp: home_def)
  then show ?thesis using d by (auto simp: trans_ok_def pins_def fun_eq_iff)
qed

lemma wakeup_bio:
  assumes "ready k s"
  shows "\<exists>t. wakeup ch s = Some t \<and> ready k t \<and> bio_only s t \<and> store_of t = store_of s \<and> (\<forall>i n. buf_of t i n = buf_of s i n)"
proof -
  let ?t = "s\<lparr>procs := woken ch (cur s) (procs s)\<rparr>"
  have "proc_locks_free s" using ready_locks [OF assms] by (simp add: proc_locks_free_def)
  then have w: "wakeup ch s = Some ?t" by (rule wakeup_eq)
  have o: "bio_only s ?t" by (simp add: bio_only_def woke_woken)
  have "bio_ok ?t" using assms by (simp add: ready_def bio_ok_def)
  then have "ready k ?t" using readyI [OF assms o] by blast
  moreover have "store_of ?t = store_of s" "\<forall>i n. buf_of ?t i n = buf_of s i n"
    by (simp_all add: store_of_def buf_of_def view_def rc_def lk_def fun_eq_iff cong: option.case_cong if_cong)
  ultimately show ?thesis using w o by blast
qed

lemma commit_all_law:
  assumes "trans_ok k n s"
  shows "\<exists>t. commit s = Some t \<and> ready k t \<and> bio_only (upd_log (\<lambda>l. l\<lparr>lh_n := 0\<rparr>) s) t \<and> rc t = pins {} \<and> (\<forall>m. lk t m = None) \<and>
    (\<forall>b. b \<notin> log_area (lg_start (klog s)) n \<longrightarrow> view t b = view s b \<and> disk t b = view s b)"
proof -
  note d = trans_okD [OF assms]
  let ?st = "lg_start (klog s)" and ?h = "lh_block (klog s)"
  have out: "disk s b = view s b" if "b \<notin> ?h ` {..<n}" for b using store_wf(3) [OF d(1), of b] that d(8) by (simp add: pins_def)
  show ?thesis
  proof (cases "n = 0")
    case True
    then have "commit s = Some s" "upd_log (\<lambda>l. l\<lparr>lh_n := 0\<rparr>) s = s" using d(3) by (simp_all add: commit_def upd_log_def)
    then show ?thesis using True d(1,8,9) out by simp
  next
    case False
    then obtain t where t: "commit s = Some t" "ready k t" "bio_only (upd_log (\<lambda>l. l\<lparr>lh_n := 0\<rparr>) s) t"
      "store_of t = (copies (commit_writes s n) (store_of s))\<lparr>st_rc := pins {}\<rparr>" using commit_law [OF assms] by auto
    note st = store_eq [OF t(4)]
    have "disk t b = view s b" if b: "b \<notin> log_area ?st n" for b
    proof (cases "b \<in> ?h ` {..<n}")
      case True
      then obtain i where "b = ?h i" "i < n" by auto
      moreover have "?h i \<noteq> ?st" using d(7) \<open>i < n\<close> by blast
      ultimately show ?thesis using st apply_w_same [OF d(5), of i "\<lambda>i. view s (?h i)"] by (simp add: commit_writes_def Let_def)
    next
      case False
      then have "b \<noteq> ?st" "b \<notin> lblk ?st ` {..<n}" using b by (auto simp: log_area_def)
      then show ?thesis using st out [OF False] False by (simp add: commit_writes_def Let_def apply_w_keys)
    qed
    moreover have "view t b = disk t b" for b using store_wf(3) [OF t(2), of b] st by (simp add: pins_def)
    ultimately show ?thesis using t(1-3) st d(9) by auto
  qed
qed

lemma end_op_law:
  assumes tx: "in_tx k {} S s" and last: "lg_outstanding (klog s) = 1"
  shows "\<exists>t. end_op s = Some t \<and> cold k t \<and> bio_only (upd_log (\<lambda>l. l\<lparr>lh_n := 0, lg_outstanding := 0\<rparr>) s) t \<and> (\<forall>b. home s b \<longrightarrow> view t b = view s b \<and> disk t b = view s b)"
proof -
  note d = in_txD [OF tx]
  let ?f = "\<lambda>l. l\<lparr>lg_outstanding := 0, lg_committing := True\<rparr>"
  let ?u = "upd_log ?f s"
  have "trans_ok k (card S) ?u" using in_tx_trans [OF tx] by (simp add: trans_ok_def)
  from commit_all_law [OF this] obtain v where v: "commit ?u = Some v" "ready k v" "bio_only (upd_log (\<lambda>l. l\<lparr>lh_n := 0\<rparr>) ?u) v" "rc v = pins {}" "\<And>m. lk v m = None"
    "\<And>b. b \<notin> log_area (lg_start (klog s)) (card S) \<Longrightarrow> view v b = view s b \<and> disk v b = view s b" by auto
  have hv: "held v = held s" using bio_only_fields(1) [OF v(3)] by (simp add: upd_log_def)
  let ?g = "\<lambda>l. l\<lparr>lg_committing := False\<rparr>"
  let ?w = "upd_log ?g (v\<lparr>held := insert LogLock (held v)\<rparr>)"
  have "ready k ?w" using ready_held [OF v(2), of "insert LogLock (held v)"] ready_locks [OF v(2)] by auto
  then obtain x where x: "wakeup ChLog ?w = Some x" "ready k x" "bio_only ?w x" "store_of x = store_of ?w" using wakeup_bio by blast
  let ?t = "x\<lparr>held := held s\<rparr>"
  have hx: "held x = insert LogLock (held s)" using bio_only_fields(1) [OF x(3)] hv by (simp add: upd_log_def)
  let ?k = "\<lambda>l. l\<lparr>lh_n := 0, lg_outstanding := 0\<rparr>"
  have e1: "upd_log ?g (upd_log (\<lambda>l. l\<lparr>lh_n := 0\<rparr>) ?u) = upd_log ?k s" using d(6) by (cases "klog s") (simp add: upd_log_def)
  have "bio_only (upd_log ?k s) (upd_log ?g v)" using bio_only_upd_log [OF v(3), of ?g] unfolding e1 .
  moreover have "bio_only (upd_log ?g v) ?t" using x(3) hv by (elim bio_onlyE) (auto simp: bio_only_def upd_log_def)
  ultimately have fr: "bio_only (upd_log ?k s) ?t" by (rule bio_only_trans)
  have e: "end_op s = Some ?t"
    using d(2,6) last v(1) hv x(1) hx by (simp add: end_op_def lock_simps upd_log_def)
  have sx: "store_of ?t = store_of v" using x(4) by simp
  note se = store_eq [OF sx]
  have "ready k ?t" by (rule ready_held [OF x(2)]) (use ready_locks [OF d(1)] in auto)
  then have "cold k ?t" unfolding cold_def using se v(4,5) by simp
  moreover have "view ?t b = view s b \<and> disk ?t b = view s b" if "home s b" for b
  proof -
    have "log_area (lg_start (klog s)) (card S) \<subseteq> log_area (lg_start (klog s)) 29" using d(8) by (auto simp: log_area_def)
    then show ?thesis using v(6) [of b] that se by (auto simp: home_def)
  qed
  ultimately show ?thesis using e fr by blast
qed

subsection \<open>Properties\<close>

text \<open>C1: a transaction is atomic under crashes.  Let a commit of \<open>n\<close> logged blocks start with an empty log on
  the disk, let the machine stop after any number of the block writes the commit makes, and let it
  boot from the disk as it is then.  Recovery returns, leaves the log empty, and every block
  outside the log has its content from before the transaction if the header had not been
  written, and the content the transaction gave it if it had.\<close>

theorem commit_crash_atomic:
  assumes "trans_ok k n s" and "0 < n" and "hdr_n (disk s (lg_start (klog s))) = 0"
    and "commit s = Some t" and "dwrites t = dwrites s @ ws @ rest"
    and "cold k' r" and "disk r = apply_w ws (disk s)" and "sb_logstart sb = lg_start (klog s)"
  shows "\<exists>u. initlog ROOTDEV sb r = Some u \<and> hdr_n (disk u (lg_start (klog s))) = 0 \<and>
    (\<forall>b. b \<notin> log_area (lg_start (klog s)) n \<longrightarrow> disk u b = (if length ws \<le> n then disk s b else view s b))"
proof -
  obtain t' where t': "commit s = Some t'" "store_of t' = (copies (commit_writes s n) (store_of s))\<lparr>st_rc := pins {}\<rparr>"
    using commit_law [OF assms(1,2)] by blast
  have "dwrites t = dwrites s @ commit_writes s n" using t'(1) assms(4) store_eq [OF t'(2)] by simp
  then have cw: "commit_writes s n = ws @ rest" using assms(5) by simp
  then have "take (length ws) (commit_writes s n) = ws" by simp
  then show ?thesis using recover_commit [OF assms(1) refl assms(3) _ assms(6,8), of "length ws"] cw assms(7) by simp
qed

text \<open>C23: recovery may itself be interrupted.  If it stops after any number of its block writes and starts again
  from the disk as it is then, it ends with the same content in every block outside the log.\<close>

theorem recovery_idempotent:
  assumes "cold k r" and "sb_logstart sb = st" and "hdr_n (disk r st) = int n" and "n \<le> 30"
    and "inj_on (hdr_block (disk r st)) {..<n}" and "hdr_block (disk r st) ` {..<n} \<inter> log_area st n = {}"
    and "initlog ROOTDEV sb r = Some u" and "dwrites u = dwrites r @ ws @ rest"
    and "cold k' r'" and "disk r' = apply_w ws (disk r)"
  shows "\<exists>u'. initlog ROOTDEV sb r' = Some u' \<and> (\<forall>b. b \<notin> log_area st n \<longrightarrow> disk u' b = disk u b)"
proof -
  let ?h = "hdr_block (disk r st)" and ?g = "\<lambda>i. disk r (lblk st i)"
  have disj: "i < n \<Longrightarrow> j < n \<Longrightarrow> lblk st i \<noteq> ?h j" "j < n \<Longrightarrow> ?h j \<noteq> st" for i j
    using assms(6) by (auto simp: log_area_def) (metis imageI lessThan_iff)
  obtain v where "initlog ROOTDEV sb r = Some v"
    "store_of v = copies (map (\<lambda>i. (?h i, ?g i)) [0..<n] @ [(st, put32 0 0 (disk r st))]) (store_of r)"
    using initlog_law [OF assms(1) assms(2) [symmetric] assms(3,4)] disj by blast
  then have su: "store_of u = copies (map (\<lambda>i. (?h i, ?g i)) [0..<n] @ [(st, put32 0 0 (disk r st))]) (store_of r)" using assms(7) by simp
  note se = store_eq [OF su]
  have uh: "disk u (?h i) = ?g i" if "i < n" for i using se disj(2) [OF that] apply_w_same [OF assms(5) that] by simp
  have uo: "disk u b = disk r b" if "b \<notin> ?h ` {..<n}" "b \<noteq> st" for b using se that by (simp add: apply_w_keys)
  have ws: "ws @ rest = map (\<lambda>i. (?h i, ?g i)) [0..<n] @ [(st, put32 0 0 (disk r st))]" using se assms(8) by simp
  have lenst: "length (disk r st) = BSIZE" using store_wf(2) assms(1) by (auto simp: cold_def)
  have lh: "lblk st i \<notin> ?h ` {..<j}" if "i < n" "j \<le> n" for i j
    using disj(1) that by (metis imageE lessThan_iff order_less_le_trans)
  have sth: "st \<notin> ?h ` {..<j}" if "j \<le> n" for j using disj(2) that by (metis imageE lessThan_iff order_less_le_trans)
  define m where "m = length ws"
  have wst: "ws = take m (map (\<lambda>i. (?h i, ?g i)) [0..<n] @ [(st, put32 0 0 (disk r st))])" unfolding ws [symmetric] by (simp add: m_def)
  show ?thesis
  proof (cases "m \<le> n")
    case True
    then have d: "disk r' = apply_w (map (\<lambda>i. (?h i, ?g i)) [0..<m]) (disk r)" using assms(10) wst by (simp add: take_upt_map)
    have r'st: "disk r' st = disk r st" using sth [OF True] by (simp add: d apply_w_keys)
    have "\<exists>u'. initlog ROOTDEV sb r' = Some u' \<and> hdr_n (disk u' st) = 0 \<and> (\<forall>i<n. disk u' (?h i) = ?g i) \<and>
        (\<forall>b. b \<notin> ?h ` {..<n} \<and> b \<notin> log_area st n \<longrightarrow> disk u' b = disk r b)"
    proof (rule recover_new [OF assms(9,2,4)])
      show "disk r' (lblk st i) = ?g i" if "i < n" for i using lh [OF that True] by (simp add: d apply_w_keys)
      show "disk r' b = disk r b" if "b \<notin> ?h ` {..<n}" for b
      proof -
        have "b \<notin> ?h ` {..<m}" using that True by auto
        then show ?thesis by (simp add: d apply_w_keys)
      qed
    qed (use assms(3,5) disj r'st in simp_all)
    then obtain u' where u': "initlog ROOTDEV sb r' = Some u'" "\<And>i. i < n \<Longrightarrow> disk u' (?h i) = ?g i"
      "\<And>b. b \<notin> ?h ` {..<n} \<Longrightarrow> b \<notin> log_area st n \<Longrightarrow> disk u' b = disk r b" by blast
    have "disk u' b = disk u b" if "b \<notin> log_area st n" for b
      using u'(2) u'(3) [of b] uh uo [of b] that by (cases "b \<in> ?h ` {..<n}") (auto simp: log_area_def)
    then show ?thesis using u'(1) by blast
  next
    case False
    then have "ws = map (\<lambda>i. (?h i, ?g i)) [0..<n] @ [(st, put32 0 0 (disk r st))]" using wst by simp
    then have d: "disk r' = disk u" using assms(10) se by simp
    have h0: "hdr_n (disk r' st) = 0" using se lenst by (simp add: d hdr_n_clear)
    have "\<exists>u'. initlog ROOTDEV sb r' = Some u' \<and> hdr_n (disk u' st) = 0 \<and> (\<forall>b. b \<notin> log_area st 0 \<longrightarrow> disk u' b = disk r' b)"
      by (rule recover_old [OF assms(9,2), where m = 0 and n = 0 and g = "\<lambda>_. []" and D = "disk r'"]) (simp_all add: h0)
    then show ?thesis using d by (auto simp: log_area_def)
  qed
qed

text \<open>C22: the last \<^verbatim>\<open>end_op\<close> commits and returns.  With at most 29 logged blocks, which is what \<^verbatim>\<open>log_write\<close> admits,
  the commit always finds the buffers it needs; afterwards every block outside the log is on the
  disk as the transaction left it, no buffer is in use, and the log is empty and open again.\<close>

theorem end_op_commits:
  assumes "in_tx k {} S s" and "lg_outstanding (klog s) = 1"
  shows "\<exists>t. end_op s = Some t \<and> (\<forall>b. home s b \<longrightarrow> disk t b = view s b \<and> view t b = view s b) \<and> (\<forall>b. rc t b = 0) \<and>
    lh_n (klog t) = 0 \<and> lg_outstanding (klog t) = 0 \<and> \<not> lg_committing (klog t)"
proof -
  obtain t where t: "end_op s = Some t" "cold k t" "bio_only (upd_log (\<lambda>l. l\<lparr>lh_n := 0, lg_outstanding := 0\<rparr>) s) t"
    "\<forall>b. home s b \<longrightarrow> view t b = view s b \<and> disk t b = view s b" using end_op_law [OF assms] by blast
  have "klog t = (klog s)\<lparr>lh_n := 0, lg_outstanding := 0\<rparr>" using bio_only_klog [OF t(3)] by simp
  then show ?thesis using t in_txD(6) [OF assms(1)] by (auto simp: cold_def pins_def)
qed

text \<open>A transaction that fills block 100 with sevens on a blank disk whose log starts at block 2.\<close>

definition demo_log :: log_st where
  "demo_log = bio_st.extend demo_bio (log_st.fields \<lparr>lg_start = 2, lg_size = 30, lg_outstanding = 1, lg_committing = False,
     lg_dev = ROOTDEV, lh_n = 0, lh_block = (\<lambda>_. 0)\<rparr>)"

definition demo_sb :: superblock where
  "demo_sb = \<lparr>sb_magic = 0x10203040, sb_size = 1000, sb_nblocks = 954, sb_ninodes = 200, sb_nlog = 30, sb_logstart = 2,
     sb_inodestart = 32, sb_bmapstart = 45\<rparr>"

abbreviation sevens :: bytes where "sevens \<equiv> replicate BSIZE 7"
abbreviation zeros :: bytes where "zeros \<equiv> replicate BSIZE 0"

lemma demo_log_blank: "blank_cache (demo_log\<lparr>disk := D\<rparr>)" if "\<And>n. length (D n) = BSIZE" for D
  using that by (simp add: demo_log_def blank_cache_def demo_bio_def sl_st.defs bio_st.defs log_st.defs)

lemma demo_log_simps: "klog demo_log = \<lparr>lg_start = 2, lg_size = 30, lg_outstanding = 1, lg_committing = False,
     lg_dev = ROOTDEV, lh_n = 0, lh_block = (\<lambda>_. 0)\<rparr>" "disk demo_log = (\<lambda>_. zeros)" "dwrites demo_log = []" "held demo_log = {}"
  "procs demo_log = demo_procs" "cur demo_log = Some 0"
  by (simp_all add: demo_log_def demo_bio_def demo_sl_def demo_st_def proc_st.defs sl_st.defs bio_st.defs log_st.defs)

lemma demo_log_calm: "calm (demo_log\<lparr>disk := D\<rparr>) 0" "pid (procs demo_log 0) = 1"
  by (simp_all add: calm_def demo_log_simps demo_procs_def demo_proc_def)

lemma demo_cold:
  assumes "\<And>n. length (D n) = BSIZE"
  shows "cold 1 (binit (demo_log\<lparr>disk := D\<rparr>))" and "disk (binit (demo_log\<lparr>disk := D\<rparr>)) = D"
    and "store_of (binit (demo_log\<lparr>disk := D\<rparr>)) = \<lparr>st_view = D, st_disk = D, st_rc = pins {}, st_lk = (\<lambda>_. None), st_writes = []\<rparr>"
    and "klog (binit (demo_log\<lparr>disk := D\<rparr>)) = klog demo_log" and "held (binit (demo_log\<lparr>disk := D\<rparr>)) = {}"
proof -
  note b = binit_cold [OF demo_log_blank [OF assms] demo_log_calm(1)]
  show s: "store_of (binit (demo_log\<lparr>disk := D\<rparr>)) = \<lparr>st_view = D, st_disk = D, st_rc = pins {}, st_lk = (\<lambda>_. None), st_writes = []\<rparr>"
    using b(4) by (simp add: demo_log_simps pins_def fun_eq_iff)
  note se = store_eq [OF s]
  show "disk (binit (demo_log\<lparr>disk := D\<rparr>)) = D" using se by simp
  show "cold 1 (binit (demo_log\<lparr>disk := D\<rparr>))" using b(2) se demo_log_calm(2) by (simp add: cold_def)
  show "klog (binit (demo_log\<lparr>disk := D\<rparr>)) = klog demo_log" using bio_only_klog [OF b(3)] by simp
  show "held (binit (demo_log\<lparr>disk := D\<rparr>)) = {}" using bio_only_fields(1) [OF b(3)] by (simp add: demo_log_simps)
qed

lemma demo_tx:
  obtains s :: log_st where "in_tx 1 {} {100} s" and "view s 100 = sevens" and "disk s = (\<lambda>_. zeros)"
    and "lg_start (klog s) = 2" and "lg_outstanding (klog s) = 1" and "home s 100"
proof -
  let ?s = "binit (demo_log\<lparr>disk := \<lambda>_. zeros\<rparr>)"
  have z: "length ((\<lambda>_. zeros) n) = BSIZE" for n :: u32 by simp
  note c = demo_cold [OF z]
  have tx: "in_tx 1 {} {} ?s"
    using c(1,4,5) by (simp add: in_tx_def cold_def demo_log_simps pins_def fun_eq_iff)
  have i: "of_nat i + 3 \<noteq> (100 :: u32)" if "i < 29" for i
  proof -
    have "(of_nat i :: u32) \<noteq> of_nat 97" using that of_nat_u32_eq [of i 97] by simp
    then show ?thesis by (simp add: eq_diff_eq [symmetric])
  qed
  have h: "home ?s 100" using c(4) i by (auto simp: home_def log_area_def lblk_def demo_log_simps)
  obtain t where t: "in_tx 1 {} (insert 100 {}) t" "tx_only ?s t" "view t = (view ?s)(100 := sevens)" "disk t = disk ?s"
    using tx_update [OF tx _ h, of "\<lambda>_. sevens"] by auto
  have "lg_outstanding (klog t) = lg_outstanding (klog ?s)" using t(2) by (auto simp: tx_only_def upd_log_def elim!: bio_onlyE)
  then show ?thesis using that [of t] t c tx_only_fields(6,7) [OF t(2)] h by (simp add: demo_log_simps)
qed

lemma hdr_zeros: "hdr_n zeros = 0"
  by (simp add: hdr_n_def get32_def get_at_def numeral_eq_Suc)

theorem end_op_commits_witness: "\<exists>s t. end_op (s :: log_st) = Some t \<and> disk s 100 = zeros \<and> disk t 100 = sevens"
proof (rule demo_tx)
  fix s :: log_st assume s: "in_tx 1 {} {100} s" "view s 100 = sevens" "disk s = (\<lambda>_. zeros)" "lg_outstanding (klog s) = 1" "home s 100"
  show ?thesis using end_op_commits [OF s(1,4)] s by metis
qed

theorem commit_crash_atomic_witness:
  "\<exists>s t r u. commit (s :: log_st) = Some t \<and> initlog ROOTDEV demo_sb (r :: log_st) = Some u \<and> disk r 100 = zeros \<and> disk u 100 = sevens"
proof (rule demo_tx)
  fix s :: log_st assume s: "in_tx 1 {} {100} s" "view s 100 = sevens" "disk s = (\<lambda>_. zeros)" "lg_start (klog s) = 2" "home s 100"
  have tr: "trans_ok 1 1 s" using in_tx_trans [OF s(1)] by simp
  have b0: "lh_block (klog s) 0 = 100" using in_txD(9) [OF s(1)] by (simp add: lessThan_Suc)
  obtain t where t: "commit s = Some t" "store_of t = (copies (commit_writes s 1) (store_of s))\<lparr>st_rc := pins {}\<rparr>"
    using commit_law [OF tr] by auto
  let ?hd = "put_hdr 1 (lh_block (klog s)) (view s 2)"
  let ?ws = "[(3, sevens), (2, ?hd)]"
  have ws: "commit_writes s 1 = ?ws @ [(100, sevens), (2, put_hdr 0 (lh_block (klog s)) ?hd)]"
    by (simp add: commit_writes_def Let_def s(2,4) b0 lblk_def)
  have wt: "dwrites t = dwrites s @ ?ws @ [(100, sevens), (2, put_hdr 0 (lh_block (klog s)) ?hd)]"
    using store_eq [OF t(2)] ws by simp
  have "length (view s 2) = BSIZE" using store_wf(1) [OF in_txD(1) [OF s(1)]] .
  then have lh: "length ?hd = BSIZE" using hdr_put(1) [where bs = "view s 2" and n = 1 and blk = "lh_block (klog s)"] by simp
  define D where "D = apply_w ?ws (disk s)"
  have len: "length (D n) = BSIZE" for n using lh s(3) by (simp add: D_def)
  let ?r = "binit (demo_log\<lparr>disk := D\<rparr>)"
  note c = demo_cold [of D, OF len]
  have "100 \<notin> log_area 2 1" by (simp add: log_area_def lblk_def lessThan_Suc)
  moreover have "sb_logstart demo_sb = lg_start (klog s)" "hdr_n (disk s (lg_start (klog s))) = 0" using s by (simp_all add: hdr_zeros demo_sb_def)
  ultimately obtain u where "initlog ROOTDEV demo_sb ?r = Some u" "disk u 100 = sevens"
    using commit_crash_atomic [OF tr _ _ t(1) wt c(1), where sb = demo_sb] c(2) D_def s(2,4) by auto
  moreover have "disk ?r 100 = zeros" using c(2) s(3) by (simp add: D_def)
  ultimately show ?thesis using t(1) by blast
qed

theorem recovery_idempotent_witness:
  "\<exists>r u r' u'. initlog ROOTDEV demo_sb (r :: log_st) = Some u \<and> disk u 100 = sevens \<and> initlog ROOTDEV demo_sb (r' :: log_st) = Some u' \<and> disk u' 100 = sevens"
proof -
  let ?hd = "put_hdr 1 (\<lambda>_. 100) zeros"
  define D where "D = (\<lambda>_ :: u32. zeros)(2 := ?hd, 3 := sevens)"
  note h = hdr_put [where bs = zeros and n = 1 and blk = "\<lambda>_. 100"]
  have len: "length (D n) = BSIZE" for n using h(1) by (simp add: D_def)
  let ?r = "binit (demo_log\<lparr>disk := D\<rparr>)"
  note c = demo_cold [of D, OF len]
  have hd: "hdr_n (disk ?r 2) = int 1" "hdr_block (disk ?r 2) 0 = 100" unfolding c(2) using h(2) h(3) [where i = 0] by (simp_all add: D_def)
  have d3: "disk ?r 3 = sevens" unfolding c(2) by (simp add: D_def)
  have inj: "inj_on (hdr_block (disk ?r 2)) {..<1}" by (simp add: lessThan_Suc)
  have dis: "hdr_block (disk ?r 2) ` {..<1} \<inter> log_area 2 1 = {}" using hd(2) by (simp add: lessThan_Suc log_area_def lblk_def)
  have "\<exists>t. initlog ROOTDEV demo_sb ?r = Some t \<and> cold 1 t \<and>
      store_of t = copies (map (\<lambda>i. (hdr_block (disk ?r 2) i, disk ?r (lblk 2 i))) [0..<1] @ [(2, put32 0 0 (disk ?r 2))]) (store_of ?r)"
    by (rule initlog_law [OF c(1) _ hd(1)]) (use hd(2) in \<open>simp_all add: demo_sb_def lblk_def\<close>)
  then obtain u where u: "initlog ROOTDEV demo_sb ?r = Some u" "store_of u = copies [(100, sevens), (2, put32 0 0 (disk ?r 2))] (store_of ?r)"
    using hd(2) d3 by (auto simp: lblk_def)
  note su = store_eq [OF u(2)]
  have d100: "disk u 100 = sevens" using su by simp
  have wu: "dwrites u = dwrites ?r @ [(100, sevens)] @ [(2, put32 0 0 (disk ?r 2))]" using su by simp
  define E where "E = apply_w [(100, sevens)] (disk ?r)"
  have len': "length (E n) = BSIZE" for n using len by (simp add: E_def c(2))
  note c' = demo_cold [of E, OF len']
  have sb: "sb_logstart demo_sb = 2" by (simp add: demo_sb_def)
  have "100 \<notin> log_area 2 1" by (simp add: log_area_def lblk_def lessThan_Suc)
  then show ?thesis
    using recovery_idempotent [OF c(1) sb hd(1) _ inj dis u(1) wu c'(1)] c'(2) E_def u(1) d100 by fastforce
qed

end
