(* ===== verification/Fs.thy ===== *)
theory Fs
  imports Log
begin

text \<open>
  The file system below the system calls, \<^verbatim>\<open>kernel/fs.c\<close>: the block allocator, the table of inodes in
  use, the block map of an inode, reading and writing of file contents, directories and path names.

  An inode pointer is an index of the table.  The fields of \<^verbatim>\<open>struct inode\<close> that copy the disk inode
  are kept together in \<open>i_d\<close>.  A path is the byte string before its null byte.
\<close>

abbreviation NINODE :: nat where "NINODE \<equiv> 50"
abbreviation ROOTINO :: u32 where "ROOTINO \<equiv> 1"
abbreviation FSMAGIC :: u32 where "FSMAGIC \<equiv> 0x10203040"
abbreviation NDIRECT :: nat where "NDIRECT \<equiv> 12"
abbreviation NINDIRECT :: nat where "NINDIRECT \<equiv> 256"
abbreviation MAXFILE :: nat where "MAXFILE \<equiv> 268"
abbreviation IPB :: nat where "IPB \<equiv> 16"
abbreviation BPB :: nat where "BPB \<equiv> 8192"
abbreviation DIRSIZ :: nat where "DIRSIZ \<equiv> 14"
abbreviation DESIZE :: nat where "DESIZE \<equiv> 16"
abbreviation T_DIR :: u16 where "T_DIR \<equiv> 1"
abbreviation T_FILE :: u16 where "T_FILE \<equiv> 2"
abbreviation T_DEVICE :: u16 where "T_DEVICE \<equiv> 3"

record dinode =
  di_type :: u16
  di_major :: u16
  di_minor :: u16
  di_nlink :: u16
  di_size :: u32
  di_addrs :: "u32 list"

record inode =
  i_dev :: u32
  i_inum :: u32
  i_ref :: int
  i_valid :: bool
  i_d :: dinode

record fs_st = log_st +
  sb :: superblock
  inodes :: "nat \<Rightarrow> inode"

definition upd_inode :: "nat \<Rightarrow> (inode \<Rightarrow> inode) \<Rightarrow> 'a fs_st_scheme \<Rightarrow> 'a fs_st_scheme" where
  "upd_inode i f s = s\<lparr>inodes := (inodes s)(i := f (inodes s i))\<rparr>"

definition upd_d :: "nat \<Rightarrow> (dinode \<Rightarrow> dinode) \<Rightarrow> 'a fs_st_scheme \<Rightarrow> 'a fs_st_scheme" where
  "upd_d i f s = upd_inode i (\<lambda>ip. ip\<lparr>i_d := f (i_d ip)\<rparr>) s"

text \<open>The layout of \<^verbatim>\<open>struct dinode\<close> in a block, at byte offset \<open>k\<close>.\<close>

definition get_dinode :: "nat \<Rightarrow> bytes \<Rightarrow> dinode" where
  "get_dinode k bs = \<lparr>di_type = get16 bs k, di_major = get16 bs (k + 2), di_minor = get16 bs (k + 4),
     di_nlink = get16 bs (k + 6), di_size = get32 bs (k + 8),
     di_addrs = map (\<lambda>i. get32 bs (k + 12 + 4 * i)) [0..<NDIRECT + 1]\<rparr>"

definition put_dinode :: "nat \<Rightarrow> dinode \<Rightarrow> bytes \<Rightarrow> bytes" where
  "put_dinode k d bs =
     (let bs = put16 k (di_type d) bs;
          bs = put16 (k + 2) (di_major d) bs;
          bs = put16 (k + 4) (di_minor d) bs;
          bs = put16 (k + 6) (di_nlink d) bs;
          bs = put32 (k + 8) (di_size d) bs in
      fold (\<lambda>i. put32 (k + 12 + 4 * i) (di_addrs d ! i)) [0..<NDIRECT + 1] bs)"

definition IBLOCK :: "u32 \<Rightarrow> superblock \<Rightarrow> u32" where
  "IBLOCK i b = i div of_nat IPB + sb_inodestart b"

definition BBLOCK :: "u32 \<Rightarrow> superblock \<Rightarrow> u32" where
  "BBLOCK i b = i div of_nat BPB + sb_bmapstart b"

text \<open>The offset of an inode in its block.\<close>

definition ioff :: "u32 \<Rightarrow> nat" where
  "ioff inum = 64 * (unat inum mod IPB)"

subsection \<open>Super block and free map\<close>

definition decode_sb :: "bytes \<Rightarrow> superblock" where
  "decode_sb bs = \<lparr>sb_magic = get32 bs 0, sb_size = get32 bs 4, sb_nblocks = get32 bs 8, sb_ninodes = get32 bs 12,
     sb_nlog = get32 bs 16, sb_logstart = get32 bs 20, sb_inodestart = get32 bs 24, sb_bmapstart = get32 bs 28\<rparr>"

definition readsb :: "u32 \<Rightarrow> 'a fs_st_scheme \<Rightarrow> 'a fs_st_scheme option" where
  "readsb dev s = do {
     (bp, s) \<leftarrow> bread dev 1 s;
     let s = s\<lparr>sb := decode_sb (b_data (bufs s bp))\<rparr>;
     brelse bp s }"

definition fsinit :: "u32 \<Rightarrow> 'a fs_st_scheme \<Rightarrow> 'a fs_st_scheme option" where
  "fsinit dev s = do {
     s \<leftarrow> readsb dev s;
     _ \<leftarrow> panic_if (sb_magic (sb s) \<noteq> FSMAGIC);
     initlog dev (sb s) s }"

definition bzero :: "u32 \<Rightarrow> u32 \<Rightarrow> 'a fs_st_scheme \<Rightarrow> 'a fs_st_scheme option" where
  "bzero dev bno s = do {
     (bp, s) \<leftarrow> bread dev bno s;
     let s = set_data bp (replicate BSIZE 0) s;
     s \<leftarrow> log_write bp s;
     brelse bp s }"

text \<open>\<^verbatim>\<open>1 << (bi % 8)\<close>, and the scan of one bitmap block from block \<open>b\<close> on for a clear bit.\<close>

definition bit_mask :: "nat \<Rightarrow> u8" where
  "bit_mask bi = push_bit (bi mod 8) 1"

definition bm_find :: "nat \<Rightarrow> nat \<Rightarrow> bytes \<Rightarrow> nat option" where
  "bm_find b n bs = List.find (\<lambda>bi. bs ! (bi div 8) AND bit_mask bi = 0) [0..<min BPB (n - b)]"

definition bm_set :: "nat \<Rightarrow> bytes \<Rightarrow> bytes" where
  "bm_set bi bs = bs[bi div 8 := bs ! (bi div 8) OR bit_mask bi]"

definition bm_clear :: "nat \<Rightarrow> bytes \<Rightarrow> bytes" where
  "bm_clear bi bs = bs[bi div 8 := bs ! (bi div 8) AND NOT (bit_mask bi)]"

fun balloc_scan :: "u32 \<Rightarrow> nat list \<Rightarrow> 'a fs_st_scheme \<Rightarrow> (u32 \<times> 'a fs_st_scheme) option" where
  "balloc_scan dev [] s = None"
| "balloc_scan dev (b # bs) s = do {
     (bp, s) \<leftarrow> bread dev (BBLOCK (of_nat b) (sb s)) s;
     case bm_find b (unat (sb_size (sb s))) (b_data (bufs s bp)) of
       Some bi \<Rightarrow> do {
         let s = set_data bp (bm_set bi (b_data (bufs s bp))) s;
         s \<leftarrow> log_write bp s;
         s \<leftarrow> brelse bp s;
         s \<leftarrow> bzero dev (of_nat (b + bi)) s;
         Some (of_nat (b + bi), s) }
     | None \<Rightarrow> do {
         s \<leftarrow> brelse bp s;
         balloc_scan dev bs s } }"

text \<open>The loop variable takes the multiples of \<^verbatim>\<open>BPB\<close> below the size of the file system.\<close>

definition balloc :: "u32 \<Rightarrow> 'a fs_st_scheme \<Rightarrow> (u32 \<times> 'a fs_st_scheme) option" where
  "balloc dev s = balloc_scan dev (map ((*) BPB) [0..<(unat (sb_size (sb s)) + (BPB - 1)) div BPB]) s"

definition bfree :: "u32 \<Rightarrow> u32 \<Rightarrow> 'a fs_st_scheme \<Rightarrow> 'a fs_st_scheme option" where
  "bfree dev b s = do {
     (bp, s) \<leftarrow> bread dev (BBLOCK b (sb s)) s;
     let bi = unat b mod BPB;
     _ \<leftarrow> panic_if (b_data (bufs s bp) ! (bi div 8) AND bit_mask bi = 0);
     let s = set_data bp (bm_clear bi (b_data (bufs s bp))) s;
     s \<leftarrow> log_write bp s;
     brelse bp s }"

subsection \<open>Inodes\<close>

definition iinit :: "'a fs_st_scheme \<Rightarrow> 'a fs_st_scheme" where
  "iinit s = fold (\<lambda>i s. initsleeplock (InodeLock i) s) [0..<NINODE] s"

definition iget :: "u32 \<Rightarrow> u32 \<Rightarrow> 'a fs_st_scheme \<Rightarrow> (nat \<times> 'a fs_st_scheme) option" where
  "iget dev inum s = do {
     s \<leftarrow> acq ItableLock s;
     case List.find (\<lambda>i. i_ref (inodes s i) > 0 \<and> i_dev (inodes s i) = dev \<and> i_inum (inodes s i) = inum) [0..<NINODE] of
       Some ip \<Rightarrow> do {
         let s = upd_inode ip (\<lambda>n. n\<lparr>i_ref := i_ref n + 1\<rparr>) s;
         s \<leftarrow> rel ItableLock s;
         Some (ip, s) }
     | None \<Rightarrow> do {
         ip \<leftarrow> List.find (\<lambda>i. i_ref (inodes s i) = 0) [0..<NINODE];
         let s = upd_inode ip (\<lambda>n. n\<lparr>i_dev := dev, i_inum := inum, i_ref := 1, i_valid := False\<rparr>) s;
         s \<leftarrow> rel ItableLock s;
         Some (ip, s) } }"

fun ialloc_scan :: "u32 \<Rightarrow> u16 \<Rightarrow> nat list \<Rightarrow> 'a fs_st_scheme \<Rightarrow> (nat \<times> 'a fs_st_scheme) option" where
  "ialloc_scan dev type [] s = None"
| "ialloc_scan dev type (n # ns) s = do {
     let inum = of_nat n;
     (bp, s) \<leftarrow> bread dev (IBLOCK inum (sb s)) s;
     if di_type (get_dinode (ioff inum) (b_data (bufs s bp))) = 0 then do {
       let s = set_data bp (put_at (ioff inum) (replicate 64 0) (b_data (bufs s bp))) s;
       let s = set_data bp (put16 (ioff inum) type (b_data (bufs s bp))) s;
       s \<leftarrow> log_write bp s;
       s \<leftarrow> brelse bp s;
       iget dev inum s }
     else do {
       s \<leftarrow> brelse bp s;
       ialloc_scan dev type ns s } }"

definition ialloc :: "u32 \<Rightarrow> u16 \<Rightarrow> 'a fs_st_scheme \<Rightarrow> (nat \<times> 'a fs_st_scheme) option" where
  "ialloc dev type s = ialloc_scan dev type [1..<unat (sb_ninodes (sb s))] s"

definition iupdate :: "nat \<Rightarrow> 'a fs_st_scheme \<Rightarrow> 'a fs_st_scheme option" where
  "iupdate ip s = do {
     (bp, s) \<leftarrow> bread (i_dev (inodes s ip)) (IBLOCK (i_inum (inodes s ip)) (sb s)) s;
     let s = set_data bp (put_dinode (ioff (i_inum (inodes s ip))) (i_d (inodes s ip)) (b_data (bufs s bp))) s;
     s \<leftarrow> log_write bp s;
     brelse bp s }"

definition idup :: "nat \<Rightarrow> 'a fs_st_scheme \<Rightarrow> 'a fs_st_scheme option" where
  "idup ip s = do {
     s \<leftarrow> acq ItableLock s;
     let s = upd_inode ip (\<lambda>n. n\<lparr>i_ref := i_ref n + 1\<rparr>) s;
     rel ItableLock s }"

definition ilock :: "nat \<Rightarrow> 'a fs_st_scheme \<Rightarrow> 'a fs_st_scheme option" where
  "ilock ip s = do {
     _ \<leftarrow> panic_if (i_ref (inodes s ip) < 1);
     (_, s) \<leftarrow> returned (acquiresleep (InodeLock ip) s);
     if \<not> i_valid (inodes s ip) then do {
       (bp, s) \<leftarrow> bread (i_dev (inodes s ip)) (IBLOCK (i_inum (inodes s ip)) (sb s)) s;
       let s = upd_d ip (\<lambda>_. get_dinode (ioff (i_inum (inodes s ip))) (b_data (bufs s bp))) s;
       s \<leftarrow> brelse bp s;
       let s = upd_inode ip (\<lambda>n. n\<lparr>i_valid := True\<rparr>) s;
       _ \<leftarrow> panic_if (di_type (i_d (inodes s ip)) = 0);
       Some s }
     else Some s }"

definition iunlock :: "nat \<Rightarrow> 'a fs_st_scheme \<Rightarrow> 'a fs_st_scheme option" where
  "iunlock ip s = do {
     (h, s) \<leftarrow> holdingsleep (InodeLock ip) s;
     _ \<leftarrow> panic_if (\<not> h \<or> i_ref (inodes s ip) < 1);
     releasesleep (InodeLock ip) s }"

subsection \<open>Block map of an inode\<close>

text \<open>\<^verbatim>\<open>ip->addrs[k] = addr\<close>, and \<^verbatim>\<open>a[k]\<close> in an indirect block.\<close>

definition set_addr :: "nat \<Rightarrow> nat \<Rightarrow> u32 \<Rightarrow> 'a fs_st_scheme \<Rightarrow> 'a fs_st_scheme" where
  "set_addr ip k addr s = upd_d ip (\<lambda>d. d\<lparr>di_addrs := (di_addrs d)[k := addr]\<rparr>) s"

definition addr_of :: "nat \<Rightarrow> nat \<Rightarrow> 'a fs_st_scheme \<Rightarrow> u32" where
  "addr_of ip k s = di_addrs (i_d (inodes s ip)) ! k"

definition bmap_slot :: "nat \<Rightarrow> nat \<Rightarrow> 'a fs_st_scheme \<Rightarrow> (u32 \<times> 'a fs_st_scheme) option" where
  "bmap_slot ip k s =
     (if addr_of ip k s = 0 then do {
        (addr, s) \<leftarrow> balloc (i_dev (inodes s ip)) s;
        Some (addr, set_addr ip k addr s) }
      else Some (addr_of ip k s, s))"

definition bmap :: "nat \<Rightarrow> nat \<Rightarrow> 'a fs_st_scheme \<Rightarrow> (u32 \<times> 'a fs_st_scheme) option" where
  "bmap ip bn s =
     (if bn < NDIRECT then bmap_slot ip bn s
      else if bn - NDIRECT < NINDIRECT then do {
        let bn = bn - NDIRECT;
        (addr, s) \<leftarrow> bmap_slot ip NDIRECT s;
        (bp, s) \<leftarrow> bread (i_dev (inodes s ip)) addr s;
        let addr = get32 (b_data (bufs s bp)) (4 * bn);
        (addr, s) \<leftarrow> (if addr = 0 then do {
             (addr, s) \<leftarrow> balloc (i_dev (inodes s ip)) s;
             let s = set_data bp (put32 (4 * bn) addr (b_data (bufs s bp))) s;
             s \<leftarrow> log_write bp s;
             Some (addr, s) }
           else Some (addr, s));
        s \<leftarrow> brelse bp s;
        Some (addr, s) }
      else None)"

definition itrunc :: "nat \<Rightarrow> 'a fs_st_scheme \<Rightarrow> 'a fs_st_scheme option" where
  "itrunc ip s = do {
     s \<leftarrow> for_each [0..<NDIRECT] (\<lambda>i s.
            if addr_of ip i s \<noteq> 0 then do {
              s \<leftarrow> bfree (i_dev (inodes s ip)) (addr_of ip i s) s;
              Some (set_addr ip i 0 s) }
            else Some s) s;
     s \<leftarrow> (if addr_of ip NDIRECT s \<noteq> 0 then do {
             (bp, s) \<leftarrow> bread (i_dev (inodes s ip)) (addr_of ip NDIRECT s) s;
             s \<leftarrow> for_each [0..<NINDIRECT] (\<lambda>j s.
                    if get32 (b_data (bufs s bp)) (4 * j) \<noteq> 0
                    then bfree (i_dev (inodes s ip)) (get32 (b_data (bufs s bp)) (4 * j)) s
                    else Some s) s;
             s \<leftarrow> brelse bp s;
             s \<leftarrow> bfree (i_dev (inodes s ip)) (addr_of ip NDIRECT s) s;
             Some (set_addr ip NDIRECT 0 s) }
           else Some s);
     let s = upd_d ip (\<lambda>d. d\<lparr>di_size := 0\<rparr>) s;
     iupdate ip s }"

definition iput :: "nat \<Rightarrow> 'a fs_st_scheme \<Rightarrow> 'a fs_st_scheme option" where
  "iput ip s = do {
     s \<leftarrow> acq ItableLock s;
     s \<leftarrow> (if i_ref (inodes s ip) = 1 \<and> i_valid (inodes s ip) \<and> di_nlink (i_d (inodes s ip)) = 0 then do {
             (_, s) \<leftarrow> returned (acquiresleep (InodeLock ip) s);
             s \<leftarrow> rel ItableLock s;
             s \<leftarrow> itrunc ip s;
             let s = upd_d ip (\<lambda>d. d\<lparr>di_type := 0\<rparr>) s;
             s \<leftarrow> iupdate ip s;
             let s = upd_inode ip (\<lambda>n. n\<lparr>i_valid := False\<rparr>) s;
             s \<leftarrow> releasesleep (InodeLock ip) s;
             acq ItableLock s }
           else Some s);
     let s = upd_inode ip (\<lambda>n. n\<lparr>i_ref := i_ref n - 1\<rparr>) s;
     rel ItableLock s }"

definition iunlockput :: "nat \<Rightarrow> 'a fs_st_scheme \<Rightarrow> 'a fs_st_scheme option" where
  "iunlockput ip s = do { s \<leftarrow> iunlock ip s; iput ip s }"

subsection \<open>Contents\<close>

record stat =
  st_dev :: u32
  st_ino :: u32
  st_type :: u16
  st_nlink :: u16
  st_size :: u64

definition stati :: "nat \<Rightarrow> 'a fs_st_scheme \<Rightarrow> stat" where
  "stati ip s = \<lparr>st_dev = i_dev (inodes s ip), st_ino = i_inum (inodes s ip), st_type = di_type (i_d (inodes s ip)),
     st_nlink = di_nlink (i_d (inodes s ip)), st_size = ucast (di_size (i_d (inodes s ip)))\<rparr>"

definition isize :: "nat \<Rightarrow> 'a fs_st_scheme \<Rightarrow> u32" where
  "isize ip s = di_size (i_d (inodes s ip))"

text \<open>The loops of \<^verbatim>\<open>readi\<close> and \<^verbatim>\<open>writei\<close>: \<open>k\<close> is \<^verbatim>\<open>n - tot\<close>.  The guards before them keep \<^verbatim>\<open>off + n\<close> below
  \<open>2 ^ 32\<close>, so the offsets are natural numbers.\<close>

function readi_loop :: "nat \<Rightarrow> bool \<Rightarrow> u64 \<Rightarrow> nat \<Rightarrow> nat \<Rightarrow> 'a fs_st_scheme \<Rightarrow> (int \<times> 'a fs_st_scheme) option" where
  "readi_loop ip user_dst dst off k s =
     (if k = 0 then Some (0, s)
      else do {
        (addr, s) \<leftarrow> bmap ip (off div BSIZE) s;
        (bp, s) \<leftarrow> bread (i_dev (inodes s ip)) addr s;
        let m = min k (BSIZE - off mod BSIZE);
        (r, s) \<leftarrow> either_copyout user_dst dst (get_at (off mod BSIZE) m (b_data (bufs s bp))) s;
        s \<leftarrow> brelse bp s;
        if r = - 1 then Some (- 1, s)
        else do {
          (r, s) \<leftarrow> readi_loop ip user_dst (dst + of_nat m) (off + m) (k - m) s;
          Some (if r = - 1 then - 1 else int m + r, s) } })"
  by pat_completeness auto
termination
  by (relation "measure (\<lambda>(ip, u, dst, off, k, s). k)") auto

definition readi :: "nat \<Rightarrow> bool \<Rightarrow> u64 \<Rightarrow> u32 \<Rightarrow> u32 \<Rightarrow> 'a fs_st_scheme \<Rightarrow> (int \<times> 'a fs_st_scheme) option" where
  "readi ip user_dst dst off n s =
     (if off > isize ip s \<or> off + n < off then Some (0, s)
      else do {
        let n = (if off + n > isize ip s then isize ip s - off else n);
        readi_loop ip user_dst dst (unat off) (unat n) s })"

function writei_loop :: "nat \<Rightarrow> bool \<Rightarrow> u64 \<Rightarrow> nat \<Rightarrow> nat \<Rightarrow> 'a fs_st_scheme \<Rightarrow> (nat \<times> 'a fs_st_scheme) option" where
  "writei_loop ip user_src src off k s =
     (if k = 0 then Some (0, s)
      else do {
        (addr, s) \<leftarrow> bmap ip (off div BSIZE) s;
        (bp, s) \<leftarrow> bread (i_dev (inodes s ip)) addr s;
        let m = min k (BSIZE - off mod BSIZE);
        (r, xs) \<leftarrow> either_copyin user_src src m s;
        let s = set_data bp (put_at (off mod BSIZE) xs (b_data (bufs s bp))) s;
        if r = - 1 then do { s \<leftarrow> brelse bp s; Some (0, s) }
        else do {
          s \<leftarrow> log_write bp s;
          s \<leftarrow> brelse bp s;
          (tot, s) \<leftarrow> writei_loop ip user_src (src + of_nat m) (off + m) (k - m) s;
          Some (m + tot, s) } })"
  by pat_completeness auto
termination
  by (relation "measure (\<lambda>(ip, u, src, off, k, s). k)") auto

declare readi_loop.simps [simp del] writei_loop.simps [simp del]

definition writei :: "nat \<Rightarrow> bool \<Rightarrow> u64 \<Rightarrow> u32 \<Rightarrow> u32 \<Rightarrow> 'a fs_st_scheme \<Rightarrow> (int \<times> 'a fs_st_scheme) option" where
  "writei ip user_src src off n s =
     (if off > isize ip s \<or> off + n < off then Some (- 1, s)
      else if unat (off + n) > MAXFILE * BSIZE then Some (- 1, s)
      else do {
        (tot, s) \<leftarrow> writei_loop ip user_src src (unat off) (unat n) s;
        let off = off + of_nat tot;
        let s = (if off > isize ip s then upd_d ip (\<lambda>d. d\<lparr>di_size := off\<rparr>) s else s);
        s \<leftarrow> iupdate ip s;
        Some (int tot, s) })"

subsection \<open>Directories\<close>

text \<open>\<^verbatim>\<open>struct dirent de\<close> is a local variable; it is read and written through its address.\<close>

definition de_inum :: "'a proc_st_scheme \<Rightarrow> u16" where
  "de_inum s = get16 (bytes_at (mem s) (kbuf s) DESIZE) 0"

definition de_name :: "'a proc_st_scheme \<Rightarrow> buf" where
  "de_name s = (\<lambda>i. mem s (kbuf s + 2 + of_nat i))"

definition namecmp :: "buf \<Rightarrow> buf \<Rightarrow> int" where
  "namecmp s t = strncmp s t DIRSIZ"

text \<open>The offsets \<^verbatim>\<open>0, sizeof(de), ...\<close> below the size of a directory.\<close>

definition de_offs :: "u32 \<Rightarrow> nat list" where
  "de_offs n = map ((*) DESIZE) [0..<(unat n + (DESIZE - 1)) div DESIZE]"

fun dirlookup_scan :: "nat \<Rightarrow> buf \<Rightarrow> nat list \<Rightarrow> 'a fs_st_scheme \<Rightarrow> ((nat \<times> u32) option \<times> 'a fs_st_scheme) option" where
  "dirlookup_scan dp name [] s = Some (None, s)"
| "dirlookup_scan dp name (off # offs) s = do {
     (r, s) \<leftarrow> readi dp False (kbuf s) (of_nat off) (of_nat DESIZE) s;
     _ \<leftarrow> panic_if (r \<noteq> int DESIZE);
     if de_inum s = 0 then dirlookup_scan dp name offs s
     else if namecmp name (de_name s) = 0 then do {
       (ip, s) \<leftarrow> iget (i_dev (inodes s dp)) (ucast (de_inum s)) s;
       Some (Some (ip, of_nat off), s) }
     else dirlookup_scan dp name offs s }"

text \<open>The result carries the offset the code stores in \<^verbatim>\<open>*poff\<close>.\<close>

definition dirlookup :: "nat \<Rightarrow> buf \<Rightarrow> 'a fs_st_scheme \<Rightarrow> ((nat \<times> u32) option \<times> 'a fs_st_scheme) option" where
  "dirlookup dp name s = do {
     _ \<leftarrow> panic_if (di_type (i_d (inodes s dp)) \<noteq> T_DIR);
     dirlookup_scan dp name (de_offs (isize dp s)) s }"

fun dirlink_scan :: "nat \<Rightarrow> nat list \<Rightarrow> 'a fs_st_scheme \<Rightarrow> (nat \<times> 'a fs_st_scheme) option" where
  "dirlink_scan dp [] s = Some (DESIZE * ((unat (isize dp s) + (DESIZE - 1)) div DESIZE), s)"
| "dirlink_scan dp (off # offs) s = do {
     (r, s) \<leftarrow> readi dp False (kbuf s) (of_nat off) (of_nat DESIZE) s;
     _ \<leftarrow> panic_if (r \<noteq> int DESIZE);
     if de_inum s = 0 then Some (off, s) else dirlink_scan dp offs s }"

definition dirlink :: "nat \<Rightarrow> buf \<Rightarrow> u32 \<Rightarrow> 'a fs_st_scheme \<Rightarrow> (int \<times> 'a fs_st_scheme) option" where
  "dirlink dp name inum s = do {
     (r, s) \<leftarrow> dirlookup dp name s;
     case r of Some (ip, _) \<Rightarrow> do { s \<leftarrow> iput ip s; Some (- 1, s) }
     | None \<Rightarrow> do {
         (off, s) \<leftarrow> dirlink_scan dp (de_offs (isize dp s)) s;
         let nm = strncpy (de_name s) name (int DIRSIZ);
         let s = s\<lparr>mem := put_bytes (kbuf s + 2) (map nm [0..<DIRSIZ]) (mem s)\<rparr>;
         let s = s\<lparr>mem := put_bytes (kbuf s) (to_le 2 (ucast inum :: u16)) (mem s)\<rparr>;
         (r, s) \<leftarrow> writei dp False (kbuf s) (of_nat off) (of_nat DESIZE) s;
         _ \<leftarrow> panic_if (r \<noteq> int DESIZE);
         Some (0, s) } }"

subsection \<open>Path names\<close>

abbreviation slash :: u8 where "slash \<equiv> 47"

definition memmove_buf :: "buf \<Rightarrow> bytes \<Rightarrow> nat \<Rightarrow> buf" where
  "memmove_buf dst src n = (\<lambda>i. if i < n then src ! i else dst i)"

definition skipelem :: "bytes \<Rightarrow> buf \<Rightarrow> (bytes \<times> buf) option" where
  "skipelem path name =
     (let path = dropWhile (\<lambda>c. c = slash) path in
      if path = [] then None
      else
        let s = path;
            path = dropWhile (\<lambda>c. c \<noteq> slash) path;
            len = length s - length path;
            name = (if len \<ge> DIRSIZ then memmove_buf name s DIRSIZ
                    else (memmove_buf name s len)(len := 0));
            path = dropWhile (\<lambda>c. c = slash) path in
        Some (path, name))"

lemma skipelem_shorter: "skipelem path name = Some (path', name') \<Longrightarrow> length path' < length path"
proof -
  assume s: "skipelem path name = Some (path', name')"
  let ?p = "dropWhile (\<lambda>c. c = slash) path"
  have ne: "?p \<noteq> []" and p': "path' = dropWhile (\<lambda>c. c = slash) (dropWhile (\<lambda>c. c \<noteq> slash) ?p)"
    using s by (auto simp: skipelem_def Let_def split: if_splits)
  have "hd ?p \<noteq> slash" using hd_dropWhile [OF ne] by simp
  then have "length (dropWhile (\<lambda>c. c \<noteq> slash) ?p) < length ?p"
    using ne by (cases ?p) (auto intro: le_less_trans [OF length_dropWhile_le])
  then show "length path' < length path"
    unfolding p' using length_dropWhile_le [of "\<lambda>c. c = slash" path]
      length_dropWhile_le [of "\<lambda>c. c = slash" "dropWhile (\<lambda>c. c \<noteq> slash) ?p"] by linarith
qed

function namex_loop :: "nat \<Rightarrow> bytes \<Rightarrow> bool \<Rightarrow> buf \<Rightarrow> 'a fs_st_scheme \<Rightarrow>
    (nat option \<times> buf \<times> 'a fs_st_scheme) option" where
  "namex_loop ip path nameiparent name s =
     (case skipelem path name of
        None \<Rightarrow> if nameiparent then do { s \<leftarrow> iput ip s; Some (None, name, s) } else Some (Some ip, name, s)
      | Some (path, name) \<Rightarrow> do {
          s \<leftarrow> ilock ip s;
          if di_type (i_d (inodes s ip)) \<noteq> T_DIR then do {
            s \<leftarrow> iunlockput ip s;
            Some (None, name, s) }
          else if nameiparent \<and> path = [] then do {
            s \<leftarrow> iunlock ip s;
            Some (Some ip, name, s) }
          else do {
            (r, s) \<leftarrow> dirlookup ip name s;
            case r of None \<Rightarrow> do { s \<leftarrow> iunlockput ip s; Some (None, name, s) }
            | Some (nxt, _) \<Rightarrow> do {
                s \<leftarrow> iunlockput ip s;
                namex_loop nxt path nameiparent name s } } })"
  by pat_completeness auto
termination
  by (relation "measure (\<lambda>(ip, path, np, name, s). length path)") (auto dest: skipelem_shorter)

declare namex_loop.simps [simp del]

definition namex :: "bytes \<Rightarrow> bool \<Rightarrow> buf \<Rightarrow> 'a fs_st_scheme \<Rightarrow> (nat option \<times> buf \<times> 'a fs_st_scheme) option" where
  "namex path nameiparent name s = do {
     (ip, s) \<leftarrow> (if path \<noteq> [] \<and> hd path = slash then iget ROOTDEV ROOTINO s
                else do {
                  p \<leftarrow> myproc s;
                  ip \<leftarrow> cwd (procs s p);
                  s \<leftarrow> idup ip s;
                  Some (ip, s) });
     namex_loop ip path nameiparent name s }"

text \<open>\<^verbatim>\<open>namei\<close> passes an uninitialised buffer: \<^verbatim>\<open>skipelem\<close> writes what \<^verbatim>\<open>namecmp\<close> reads of it.\<close>

definition namei :: "bytes \<Rightarrow> 'a fs_st_scheme \<Rightarrow> (nat option \<times> 'a fs_st_scheme) option" where
  "namei path s = do {
     (r, _, s) \<leftarrow> namex path False (\<lambda>_. 0) s;
     Some (r, s) }"

definition nameiparent :: "bytes \<Rightarrow> buf \<Rightarrow> 'a fs_st_scheme \<Rightarrow> (nat option \<times> buf \<times> 'a fs_st_scheme) option" where
  "nameiparent path name s = namex path True name s"

end
