(* ===== verification/Uart.thy ===== *)
theory Uart
  imports Fs
begin

text \<open>
  The serial port driver \<^verbatim>\<open>kernel/uart.c\<close>, formatted output \<^verbatim>\<open>kernel/printf.c\<close> and the console
  \<^verbatim>\<open>kernel/console.c\<close>.

  The device is an input of the model: \<open>uart_env reg k\<close> is the value register \<open>reg\<close> shows at the
  \<open>k\<close>-th read of a register, and \<open>uart_wr\<close> is the sequence of register writes the driver has made.
  \<^verbatim>\<open>push_off\<close> and \<^verbatim>\<open>pop_off\<close> around a synchronous write concern the interrupt flag of the processor,
  which the sequential model of the locks does not carry.
\<close>

abbreviation RHR :: nat where "RHR \<equiv> 0"
abbreviation THR :: nat where "THR \<equiv> 0"
abbreviation IER :: nat where "IER \<equiv> 1"
abbreviation FCR :: nat where "FCR \<equiv> 2"
abbreviation LCR :: nat where "LCR \<equiv> 3"
abbreviation LSR :: nat where "LSR \<equiv> 5"
abbreviation LSR_RX_READY :: u8 where "LSR_RX_READY \<equiv> 1"
abbreviation LSR_TX_IDLE :: u8 where "LSR_TX_IDLE \<equiv> 32"
abbreviation UART_TX_BUF_SIZE :: nat where "UART_TX_BUF_SIZE \<equiv> 32"
abbreviation INPUT_BUF :: nat where "INPUT_BUF \<equiv> 128"
abbreviation BACKSPACE :: int where "BACKSPACE \<equiv> 0x100"

record uart_st = fs_st +
  uart_env :: "nat \<Rightarrow> nat \<Rightarrow> u8"
  uart_rd :: nat
  uart_wr :: "(nat \<times> u8) list"
  uart_tx_buf :: "nat \<Rightarrow> u8"
  uart_tx_w :: u64
  uart_tx_r :: u64
  panicked :: bool
  pr_locking :: bool
  cons_buf :: "nat \<Rightarrow> u8"
  cons_r :: u32
  cons_w :: u32
  cons_e :: u32

definition ReadReg :: "nat \<Rightarrow> 'a uart_st_scheme \<Rightarrow> u8 \<times> 'a uart_st_scheme" where
  "ReadReg reg s = (uart_env s reg (uart_rd s), s\<lparr>uart_rd := Suc (uart_rd s)\<rparr>)"

definition WriteReg :: "nat \<Rightarrow> u8 \<Rightarrow> 'a uart_st_scheme \<Rightarrow> 'a uart_st_scheme" where
  "WriteReg reg v s = s\<lparr>uart_wr := uart_wr s @ [(reg, v)]\<rparr>"

definition uartinit :: "'a uart_st_scheme \<Rightarrow> 'a uart_st_scheme" where
  "uartinit s =
     (let s = WriteReg IER 0x00 s;
          s = WriteReg LCR 0x80 s;
          s = WriteReg 0 0x03 s;
          s = WriteReg 1 0x00 s;
          s = WriteReg LCR 0x03 s;
          s = WriteReg FCR (1 OR 6) s in
      WriteReg IER (2 OR 1) s)"

text \<open>The ring of characters to send: full, adding one, the oldest one, dropping it.\<close>

definition tx_full :: "'a uart_st_scheme \<Rightarrow> bool" where
  "tx_full s \<longleftrightarrow> uart_tx_w s = uart_tx_r s + of_nat UART_TX_BUF_SIZE"

definition tx_put :: "u8 \<Rightarrow> 'a uart_st_scheme \<Rightarrow> 'a uart_st_scheme" where
  "tx_put c s = s\<lparr>uart_tx_buf := (uart_tx_buf s)(unat (uart_tx_w s) mod UART_TX_BUF_SIZE := c), uart_tx_w := uart_tx_w s + 1\<rparr>"

definition tx_front :: "'a uart_st_scheme \<Rightarrow> u8" where
  "tx_front s = uart_tx_buf s (unat (uart_tx_r s) mod UART_TX_BUF_SIZE)"

definition tx_adv :: "'a uart_st_scheme \<Rightarrow> 'a uart_st_scheme" where
  "tx_adv s = s\<lparr>uart_tx_r := uart_tx_r s + 1\<rparr>"

partial_function (option) uartstart :: "'a uart_st_scheme \<Rightarrow> 'a uart_st_scheme option" where
  "uartstart s =
     (if uart_tx_w s = uart_tx_r s then Some s
      else do {
        let (lsr, s) = ReadReg LSR s;
        if lsr AND LSR_TX_IDLE = 0 then Some s
        else do {
          let c = tx_front s;
          s \<leftarrow> wakeup ChUartTx (tx_adv s);
          uartstart (WriteReg THR c s) } })"

definition uartputc_loop :: "u8 \<Rightarrow> 'a uart_st_scheme \<Rightarrow> (unit outcome \<times> 'a uart_st_scheme) option" where
  "uartputc_loop c s =
     (if tx_full s then do {
        s \<leftarrow> sleep_enter ChUartTx UartTxLock s;
        Some (Sleeps, s) }
      else do {
        s \<leftarrow> uartstart (tx_put c s);
        s \<leftarrow> rel UartTxLock s;
        Some (Returns (), s) })"

definition uartputc :: "u8 \<Rightarrow> 'a uart_st_scheme \<Rightarrow> (unit outcome \<times> 'a uart_st_scheme) option" where
  "uartputc c s = do {
     s \<leftarrow> acq UartTxLock s;
     _ \<leftarrow> panic_if (panicked s);
     uartputc_loop c s }"

definition uartputc_resume :: "u8 \<Rightarrow> 'a uart_st_scheme \<Rightarrow> (unit outcome \<times> 'a uart_st_scheme) option" where
  "uartputc_resume c s = do { s \<leftarrow> sleep_exit UartTxLock s; uartputc_loop c s }"

partial_function (option) tx_wait :: "'a uart_st_scheme \<Rightarrow> 'a uart_st_scheme option" where
  "tx_wait s = (let (lsr, s) = ReadReg LSR s in if lsr AND LSR_TX_IDLE = 0 then tx_wait s else Some s)"

definition uartputc_sync :: "u8 \<Rightarrow> 'a uart_st_scheme \<Rightarrow> 'a uart_st_scheme option" where
  "uartputc_sync c s = do {
     _ \<leftarrow> panic_if (panicked s);
     s \<leftarrow> tx_wait s;
     Some (WriteReg THR c s) }"

definition uartgetc :: "'a uart_st_scheme \<Rightarrow> int \<times> 'a uart_st_scheme" where
  "uartgetc s =
     (let (lsr, s) = ReadReg LSR s in
      if lsr AND 0x01 \<noteq> 0 then (let (c, s) = ReadReg RHR s in (int (unat c), s)) else (- 1, s))"

subsection \<open>Formatted output\<close>

definition consputc :: "int \<Rightarrow> 'a uart_st_scheme \<Rightarrow> 'a uart_st_scheme option" where
  "consputc c s =
     (if c = BACKSPACE then do { s \<leftarrow> uartputc_sync 8 s; s \<leftarrow> uartputc_sync 32 s; uartputc_sync 8 s }
      else uartputc_sync (word_of_int c) s)"

definition consputs :: "bytes \<Rightarrow> 'a uart_st_scheme \<Rightarrow> 'a uart_st_scheme option" where
  "consputs cs s = for_each cs (\<lambda>c. consputc (int (unat c))) s"

definition chars :: "string \<Rightarrow> bytes" where
  "chars xs = map of_char xs"

definition digits :: "nat \<Rightarrow> u8" where
  "digits i = chars ''0123456789abcdef'' ! i"

text \<open>The \<^verbatim>\<open>do ... while\<close> loop: the digits it puts in the buffer, least significant first.\<close>

partial_function (option) printint_loop :: "nat \<Rightarrow> nat \<Rightarrow> bytes option" where
  "printint_loop x base =
     (if base = 0 then None
      else if x div base \<noteq> 0 then do { ds \<leftarrow> printint_loop (x div base) base; Some (digits (x mod base) # ds) }
      else Some [digits (x mod base)])"

text \<open>The buffer as the second loop prints it.\<close>

definition printint_buf :: "int \<Rightarrow> nat \<Rightarrow> bool \<Rightarrow> bytes option" where
  "printint_buf xx base sign = do {
     let sign = (sign \<and> xx < 0);
     let x = (if sign then word_of_int (- xx) else word_of_int xx :: u32);
     ds \<leftarrow> printint_loop (unat x) base;
     Some (rev (if sign then ds @ [45] else ds)) }"

definition printint :: "int \<Rightarrow> nat \<Rightarrow> bool \<Rightarrow> 'a uart_st_scheme \<Rightarrow> 'a uart_st_scheme option" where
  "printint xx base sign s = do {
     ds \<leftarrow> printint_buf xx base sign;
     consputs ds s }"

definition printptr :: "u64 \<Rightarrow> 'a uart_st_scheme \<Rightarrow> 'a uart_st_scheme option" where
  "printptr x s = do {
     s \<leftarrow> consputc 48 s;
     s \<leftarrow> consputc 120 s;
     for_each [0..<16] (\<lambda>i. consputc (int (unat (digits (unat (drop_bit 60 (push_bit (4 * i) x))))))) s }"

text \<open>An argument in a register, or a pointer to a string.  Reading an argument of the other kind, or
  one that is not there, is undefined.\<close>

datatype fmtarg = AWord u64 | AStr "bytes option"

definition va_word :: "fmtarg list \<Rightarrow> (u64 \<times> fmtarg list) option" where
  "va_word args = (case args of AWord w # as \<Rightarrow> Some (w, as) | _ \<Rightarrow> None)"

definition va_str :: "fmtarg list \<Rightarrow> (bytes option \<times> fmtarg list) option" where
  "va_str args = (case args of AStr x # as \<Rightarrow> Some (x, as) | _ \<Rightarrow> None)"

definition va_int :: "u64 \<Rightarrow> int" where
  "va_int w = sint (ucast w :: u32)"

definition AInt :: "int \<Rightarrow> fmtarg" where
  "AInt i = AWord (word_of_int i)"

fun printf_from :: "bytes \<Rightarrow> fmtarg list \<Rightarrow> 'a uart_st_scheme \<Rightarrow> 'a uart_st_scheme option" where
  "printf_from [] args s = Some s"
| "printf_from [c] args s = (if c \<noteq> 37 then consputc (int (unat c)) s else Some s)"
| "printf_from (c # d # cs) args s =
     (if c \<noteq> 37 then do { s \<leftarrow> consputc (int (unat c)) s; printf_from (d # cs) args s }
      else if d = 100 then do {
        (w, args) \<leftarrow> va_word args;
        s \<leftarrow> printint (va_int w) 10 True s;
        printf_from cs args s }
      else if d = 120 then do {
        (w, args) \<leftarrow> va_word args;
        s \<leftarrow> printint (va_int w) 16 True s;
        printf_from cs args s }
      else if d = 112 then do {
        (w, args) \<leftarrow> va_word args;
        s \<leftarrow> printptr w s;
        printf_from cs args s }
      else if d = 115 then do {
        (x, args) \<leftarrow> va_str args;
        s \<leftarrow> consputs (case x of None \<Rightarrow> chars ''(null)'' | Some cs \<Rightarrow> cs) s;
        printf_from cs args s }
      else if d = 37 then do { s \<leftarrow> consputc 37 s; printf_from cs args s }
      else do {
        s \<leftarrow> consputc 37 s;
        s \<leftarrow> consputc (int (unat d)) s;
        printf_from cs args s })"

definition printf :: "bytes \<Rightarrow> fmtarg list \<Rightarrow> 'a uart_st_scheme \<Rightarrow> 'a uart_st_scheme option" where
  "printf fmt args s = do {
     let locking = pr_locking s;
     s \<leftarrow> (if locking then acq PrLock s else Some s);
     s \<leftarrow> printf_from fmt args s;
     if locking then rel PrLock s else Some s }"

definition printfinit :: "'a uart_st_scheme \<Rightarrow> 'a uart_st_scheme" where
  "printfinit s = s\<lparr>pr_locking := True\<rparr>"

text \<open>\<^verbatim>\<open>procdump\<close> of \<^verbatim>\<open>kernel/proc.c\<close> as the default build compiles it, without \<^verbatim>\<open>PBS\<close>.\<close>

definition procdump :: "'a uart_st_scheme \<Rightarrow> 'a uart_st_scheme option" where
  "procdump s = do {
     s \<leftarrow> printf [10] [] s;
     for_each [0..<NPROC] (\<lambda>i s. if pstate (procs s i) = UNUSED then Some s else printf [10] [] s) s }"

subsection \<open>The console\<close>

text \<open>\<open>c\<close> is the byte the suspended \<^verbatim>\<open>uartputc\<close> has to send, \<open>i\<close> the bytes sent before it.\<close>

function consolewrite_loop :: "bool \<Rightarrow> u64 \<Rightarrow> nat \<Rightarrow> nat \<Rightarrow> 'a uart_st_scheme \<Rightarrow> (int outcome \<times> 'a uart_st_scheme) option" where
  "consolewrite_loop user_src src i n s =
     (if i < n then do {
        (r, c) \<leftarrow> either_copyin user_src (src + of_nat i) 1 s;
        if r = - 1 then Some (Returns (int i), s)
        else do {
          (r, s) \<leftarrow> uartputc (hd c) s;
          case r of Sleeps \<Rightarrow> Some (Sleeps, s)
          | Returns _ \<Rightarrow> consolewrite_loop user_src src (Suc i) n s } }
      else Some (Returns (int i), s))"
  by pat_completeness auto
termination
  by (relation "measure (\<lambda>(u, src, i, n, s). n - i)") auto

declare consolewrite_loop.simps [simp del]

definition consolewrite :: "bool \<Rightarrow> u64 \<Rightarrow> int \<Rightarrow> 'a uart_st_scheme \<Rightarrow> (int outcome \<times> 'a uart_st_scheme) option" where
  "consolewrite user_src src n s = consolewrite_loop user_src src 0 (nat n) s"

definition consolewrite_resume :: "u8 \<Rightarrow> bool \<Rightarrow> u64 \<Rightarrow> nat \<Rightarrow> nat \<Rightarrow> 'a uart_st_scheme \<Rightarrow>
    (int outcome \<times> 'a uart_st_scheme) option" where
  "consolewrite_resume c user_src src i n s = do {
     (r, s) \<leftarrow> uartputc_resume c s;
     case r of Sleeps \<Rightarrow> Some (Sleeps, s)
     | Returns _ \<Rightarrow> consolewrite_loop user_src src (Suc i) n s }"

text \<open>\<open>n\<close> is what is left to read of \<open>target\<close> bytes.\<close>

function consoleread_loop :: "bool \<Rightarrow> nat \<Rightarrow> u64 \<Rightarrow> nat \<Rightarrow> 'a uart_st_scheme \<Rightarrow> (int outcome \<times> 'a uart_st_scheme) option" where
  "consoleread_loop user_dst target dst n s =
     (if n > 0 then
        if cons_r s = cons_w s then do {
          p \<leftarrow> myproc s;
          if killed (procs s p) \<noteq> 0 then do {
            s \<leftarrow> rel ConsLock s;
            Some (Returns (- 1), s) }
          else do {
            s \<leftarrow> sleep_enter ChCons ConsLock s;
            Some (Sleeps, s) } }
        else do {
          let c = cons_buf s (unat (cons_r s) mod INPUT_BUF);
          let s = s\<lparr>cons_r := cons_r s + 1\<rparr>;
          if c = 4 then do {
            let s = (if n < target then s\<lparr>cons_r := cons_r s - 1\<rparr> else s);
            s \<leftarrow> rel ConsLock s;
            Some (Returns (int (target - n)), s) }
          else do {
            (r, s) \<leftarrow> either_copyout user_dst dst [c] s;
            if r = - 1 then do {
              s \<leftarrow> rel ConsLock s;
              Some (Returns (int (target - n)), s) }
            else if c = 10 then do {
              s \<leftarrow> rel ConsLock s;
              Some (Returns (int (target - (n - 1))), s) }
            else consoleread_loop user_dst target (dst + 1) (n - 1) s } }
      else do {
        s \<leftarrow> rel ConsLock s;
        Some (Returns (int (target - n)), s) })"
  by pat_completeness auto
termination
  by (relation "measure (\<lambda>(u, target, dst, n, s). n)") auto

declare consoleread_loop.simps [simp del]

definition consoleread :: "bool \<Rightarrow> u64 \<Rightarrow> int \<Rightarrow> 'a uart_st_scheme \<Rightarrow> (int outcome \<times> 'a uart_st_scheme) option" where
  "consoleread user_dst dst n s = do {
     s \<leftarrow> acq ConsLock s;
     consoleread_loop user_dst (nat n) dst (nat n) s }"

definition consoleread_resume :: "bool \<Rightarrow> nat \<Rightarrow> u64 \<Rightarrow> nat \<Rightarrow> 'a uart_st_scheme \<Rightarrow> (int outcome \<times> 'a uart_st_scheme) option" where
  "consoleread_resume user_dst target dst n s = do {
     s \<leftarrow> sleep_exit ConsLock s;
     consoleread_loop user_dst target dst n s }"

partial_function (option) kill_line :: "'a uart_st_scheme \<Rightarrow> 'a uart_st_scheme option" where
  "kill_line s =
     (if cons_e s \<noteq> cons_w s \<and> cons_buf s (unat (cons_e s - 1) mod INPUT_BUF) \<noteq> 10 then do {
        let s = s\<lparr>cons_e := cons_e s - 1\<rparr>;
        s \<leftarrow> consputc BACKSPACE s;
        kill_line s }
      else Some s)"

definition cons_default :: "int \<Rightarrow> 'a uart_st_scheme \<Rightarrow> 'a uart_st_scheme option" where
  "cons_default c s =
     (if c \<noteq> 0 \<and> cons_e s - cons_r s < of_nat INPUT_BUF then do {
        let c = (if c = 13 then 10 else c);
        s \<leftarrow> consputc c s;
        let s = s\<lparr>cons_buf := (cons_buf s)(unat (cons_e s) mod INPUT_BUF := word_of_int c)\<rparr>;
        let s = s\<lparr>cons_e := cons_e s + 1\<rparr>;
        if c = 10 \<or> c = 4 \<or> cons_e s = cons_r s + of_nat INPUT_BUF then do {
          let s = s\<lparr>cons_w := cons_e s\<rparr>;
          wakeup ChCons s }
        else Some s }
      else Some s)"

definition consoleintr :: "int \<Rightarrow> 'a uart_st_scheme \<Rightarrow> 'a uart_st_scheme option" where
  "consoleintr c s = do {
     s \<leftarrow> acq ConsLock s;
     s \<leftarrow> (if c = 16 then procdump s
           else if c = 21 then kill_line s
           else if c = 8 \<or> c = 127 then
             (if cons_e s \<noteq> cons_w s then consputc BACKSPACE (s\<lparr>cons_e := cons_e s - 1\<rparr>) else Some s)
           else cons_default c s);
     rel ConsLock s }"

partial_function (option) uart_rx :: "'a uart_st_scheme \<Rightarrow> 'a uart_st_scheme option" where
  "uart_rx s =
     (let (c, s) = uartgetc s in
      if c = - 1 then Some s else do { s \<leftarrow> consoleintr c s; uart_rx s })"

definition uartintr :: "'a uart_st_scheme \<Rightarrow> 'a uart_st_scheme option" where
  "uartintr s = do {
     s \<leftarrow> uart_rx s;
     s \<leftarrow> acq UartTxLock s;
     s \<leftarrow> uartstart s;
     rel UartTxLock s }"

end
