(* ===== verification/File.thy ===== *)
theory File
  imports Uart
begin

text \<open>
  Open files \<^verbatim>\<open>kernel/file.c\<close> and pipes \<^verbatim>\<open>kernel/pipe.c\<close>.  A file pointer is an index of the table of open
  files.  A pipe lives in a page of its own; \<open>pipes\<close> is the structure found at the address of the
  page.  The device switch has one device, the console.
\<close>

abbreviation NFILE :: nat where "NFILE \<equiv> 100"
abbreviation NDEV :: nat where "NDEV \<equiv> 10"
abbreviation CONSOLE :: nat where "CONSOLE \<equiv> 1"
abbreviation PIPESIZE :: nat where "PIPESIZE \<equiv> 512"

datatype fdtype = FD_NONE | FD_PIPE | FD_INODE | FD_DEVICE

record kfile =
  f_type :: fdtype
  f_ref :: int
  f_readable :: bool
  f_writable :: bool
  f_pipe :: u64
  f_ip :: nat
  f_off :: u32
  f_major :: u16

record pipe =
  pi_data :: "nat \<Rightarrow> u8"
  nread :: u32
  nwrite :: u32
  readopen :: bool
  writeopen :: bool

datatype devops = ConsoleOps

record file_st = uart_st +
  files :: "nat \<Rightarrow> kfile"
  pipes :: "u64 \<Rightarrow> pipe"
  devsw :: "nat \<Rightarrow> devops option"

definition upd_file :: "nat \<Rightarrow> (kfile \<Rightarrow> kfile) \<Rightarrow> 'a file_st_scheme \<Rightarrow> 'a file_st_scheme" where
  "upd_file i f s = s\<lparr>files := (files s)(i := f (files s i))\<rparr>"

definition upd_pipe :: "u64 \<Rightarrow> (pipe \<Rightarrow> pipe) \<Rightarrow> 'a file_st_scheme \<Rightarrow> 'a file_st_scheme" where
  "upd_pipe a f s = s\<lparr>pipes := (pipes s)(a := f (pipes s a))\<rparr>"

definition consoleinit :: "'a file_st_scheme \<Rightarrow> 'a file_st_scheme" where
  "consoleinit s = (let s = uartinit s in s\<lparr>devsw := (devsw s)(CONSOLE := Some ConsoleOps)\<rparr>)"

definition filealloc :: "'a file_st_scheme \<Rightarrow> (nat option \<times> 'a file_st_scheme) option" where
  "filealloc s = do {
     s \<leftarrow> acq FtableLock s;
     case List.find (\<lambda>i. f_ref (files s i) = 0) [0..<NFILE] of
       Some f \<Rightarrow> do {
         let s = upd_file f (\<lambda>q. q\<lparr>f_ref := 1\<rparr>) s;
         s \<leftarrow> rel FtableLock s;
         Some (Some f, s) }
     | None \<Rightarrow> do {
         s \<leftarrow> rel FtableLock s;
         Some (None, s) } }"

definition filedup :: "nat \<Rightarrow> 'a file_st_scheme \<Rightarrow> 'a file_st_scheme option" where
  "filedup f s = do {
     s \<leftarrow> acq FtableLock s;
     _ \<leftarrow> panic_if (f_ref (files s f) < 1);
     let s = upd_file f (\<lambda>q. q\<lparr>f_ref := f_ref q + 1\<rparr>) s;
     rel FtableLock s }"

subsection \<open>Pipes\<close>

definition pipeclose :: "u64 \<Rightarrow> bool \<Rightarrow> 'a file_st_scheme \<Rightarrow> 'a file_st_scheme option" where
  "pipeclose pi writable s = do {
     s \<leftarrow> acq (PipeLock pi) s;
     s \<leftarrow> (if writable then wakeup (ChPipeRead pi) (upd_pipe pi (\<lambda>q. q\<lparr>writeopen := False\<rparr>) s)
           else wakeup (ChPipeWrite pi) (upd_pipe pi (\<lambda>q. q\<lparr>readopen := False\<rparr>) s));
     if \<not> readopen (pipes s pi) \<and> \<not> writeopen (pipes s pi) then do {
       s \<leftarrow> rel (PipeLock pi) s;
       kfree pi s }
     else rel (PipeLock pi) s }"

text \<open>The ring of a pipe: full, adding a byte, the oldest byte, dropping it.\<close>

definition pipe_full :: "pipe \<Rightarrow> bool" where
  "pipe_full q \<longleftrightarrow> nwrite q = nread q + of_nat PIPESIZE"

definition pipe_put :: "u8 \<Rightarrow> pipe \<Rightarrow> pipe" where
  "pipe_put ch q = q\<lparr>pi_data := (pi_data q)(unat (nwrite q) mod PIPESIZE := ch), nwrite := nwrite q + 1\<rparr>"

definition pipe_front :: "pipe \<Rightarrow> u8" where
  "pipe_front q = pi_data q (unat (nread q) mod PIPESIZE)"

definition pipe_adv :: "pipe \<Rightarrow> pipe" where
  "pipe_adv q = q\<lparr>nread := nread q + 1\<rparr>"

text \<open>\<open>i\<close> bytes have been written when the loop is entered.\<close>

function pipewrite_loop :: "u64 \<Rightarrow> u64 \<Rightarrow> nat \<Rightarrow> nat \<Rightarrow> 'a file_st_scheme \<Rightarrow> (int outcome \<times> 'a file_st_scheme) option" where
  "pipewrite_loop pi addr i n s =
     (if i < n then do {
        pr \<leftarrow> myproc s;
        if \<not> readopen (pipes s pi) \<or> killed (procs s pr) \<noteq> 0 then do {
          s \<leftarrow> rel (PipeLock pi) s;
          Some (Returns (- 1), s) }
        else if pipe_full (pipes s pi) then do {
          s \<leftarrow> wakeup (ChPipeRead pi) s;
          s \<leftarrow> sleep_enter (ChPipeWrite pi) (PipeLock pi) s;
          Some (Sleeps, s) }
        else do {
          (r, ch) \<leftarrow> copyin (pagetable (procs s pr)) (addr + of_nat i) 1 s;
          if r = - 1 then do {
            s \<leftarrow> wakeup (ChPipeRead pi) s;
            s \<leftarrow> rel (PipeLock pi) s;
            Some (Returns (int i), s) }
          else do {
            let s = upd_pipe pi (pipe_put (hd ch)) s;
            pipewrite_loop pi addr (Suc i) n s } } }
      else do {
        s \<leftarrow> wakeup (ChPipeRead pi) s;
        s \<leftarrow> rel (PipeLock pi) s;
        Some (Returns (int i), s) })"
  by pat_completeness auto
termination
  by (relation "measure (\<lambda>(pi, addr, i, n, s). n - i)") auto

definition pipewrite :: "u64 \<Rightarrow> u64 \<Rightarrow> int \<Rightarrow> 'a file_st_scheme \<Rightarrow> (int outcome \<times> 'a file_st_scheme) option" where
  "pipewrite pi addr n s = do {
     s \<leftarrow> acq (PipeLock pi) s;
     pipewrite_loop pi addr 0 (nat n) s }"

definition pipewrite_resume :: "u64 \<Rightarrow> u64 \<Rightarrow> nat \<Rightarrow> nat \<Rightarrow> 'a file_st_scheme \<Rightarrow> (int outcome \<times> 'a file_st_scheme) option" where
  "pipewrite_resume pi addr i n s = do {
     s \<leftarrow> sleep_exit (PipeLock pi) s;
     pipewrite_loop pi addr i n s }"

function piperead_copy :: "u64 \<Rightarrow> u64 \<Rightarrow> nat \<Rightarrow> nat \<Rightarrow> 'a file_st_scheme \<Rightarrow> (nat \<times> 'a file_st_scheme) option" where
  "piperead_copy pi addr i n s =
     (if i < n \<and> nread (pipes s pi) \<noteq> nwrite (pipes s pi) then do {
        pr \<leftarrow> myproc s;
        let ch = pipe_front (pipes s pi);
        let s = upd_pipe pi pipe_adv s;
        (r, s) \<leftarrow> copyout (pagetable (procs s pr)) (addr + of_nat i) [ch] s;
        if r = - 1 then Some (i, s) else piperead_copy pi addr (Suc i) n s }
      else Some (i, s))"
  by pat_completeness auto
termination
  by (relation "measure (\<lambda>(pi, addr, i, n, s). n - i)") auto

declare pipewrite_loop.simps [simp del] piperead_copy.simps [simp del]

definition piperead_loop :: "u64 \<Rightarrow> u64 \<Rightarrow> nat \<Rightarrow> 'a file_st_scheme \<Rightarrow> (int outcome \<times> 'a file_st_scheme) option" where
  "piperead_loop pi addr n s = do {
     pr \<leftarrow> myproc s;
     if nread (pipes s pi) = nwrite (pipes s pi) \<and> writeopen (pipes s pi) then
       if killed (procs s pr) \<noteq> 0 then do {
         s \<leftarrow> rel (PipeLock pi) s;
         Some (Returns (- 1), s) }
       else do {
         s \<leftarrow> sleep_enter (ChPipeRead pi) (PipeLock pi) s;
         Some (Sleeps, s) }
     else do {
       (i, s) \<leftarrow> piperead_copy pi addr 0 n s;
       s \<leftarrow> wakeup (ChPipeWrite pi) s;
       s \<leftarrow> rel (PipeLock pi) s;
       Some (Returns (int i), s) } }"

definition piperead :: "u64 \<Rightarrow> u64 \<Rightarrow> int \<Rightarrow> 'a file_st_scheme \<Rightarrow> (int outcome \<times> 'a file_st_scheme) option" where
  "piperead pi addr n s = do {
     s \<leftarrow> acq (PipeLock pi) s;
     piperead_loop pi addr (nat n) s }"

definition piperead_resume :: "u64 \<Rightarrow> u64 \<Rightarrow> nat \<Rightarrow> 'a file_st_scheme \<Rightarrow> (int outcome \<times> 'a file_st_scheme) option" where
  "piperead_resume pi addr n s = do {
     s \<leftarrow> sleep_exit (PipeLock pi) s;
     piperead_loop pi addr n s }"

subsection \<open>Open files\<close>

definition fileclose :: "nat \<Rightarrow> 'a file_st_scheme \<Rightarrow> 'a file_st_scheme option" where
  "fileclose f s = do {
     s \<leftarrow> acq FtableLock s;
     _ \<leftarrow> panic_if (f_ref (files s f) < 1);
     let s = upd_file f (\<lambda>q. q\<lparr>f_ref := f_ref q - 1\<rparr>) s;
     if f_ref (files s f) > 0 then rel FtableLock s
     else do {
       let ff = files s f;
       let s = upd_file f (\<lambda>q. q\<lparr>f_ref := 0, f_type := FD_NONE\<rparr>) s;
       s \<leftarrow> rel FtableLock s;
       case f_type ff of FD_PIPE \<Rightarrow> pipeclose (f_pipe ff) (f_writable ff) s
       | FD_NONE \<Rightarrow> Some s
       | _ \<Rightarrow> do {
           (_, s) \<leftarrow> returned (begin_op s);
           s \<leftarrow> iput (f_ip ff) s;
           end_op s } } }"

definition pipealloc_bad :: "nat option \<Rightarrow> nat option \<Rightarrow> 'a file_st_scheme \<Rightarrow> ((nat \<times> nat) option \<times> 'a file_st_scheme) option" where
  "pipealloc_bad f0 f1 s = do {
     s \<leftarrow> (case f0 of Some f \<Rightarrow> fileclose f s | None \<Rightarrow> Some s);
     s \<leftarrow> (case f1 of Some f \<Rightarrow> fileclose f s | None \<Rightarrow> Some s);
     Some (None, s) }"

text \<open>Returns the two files, or nothing for \<^verbatim>\<open>-1\<close>.  The label \<^verbatim>\<open>bad\<close> is never reached with a page
  allocated.\<close>

definition pipealloc :: "'a file_st_scheme \<Rightarrow> ((nat \<times> nat) option \<times> 'a file_st_scheme) option" where
  "pipealloc s = do {
     (f0, s) \<leftarrow> filealloc s;
     case f0 of None \<Rightarrow> pipealloc_bad None None s
     | Some r \<Rightarrow> do {
         (f1, s) \<leftarrow> filealloc s;
         case f1 of None \<Rightarrow> pipealloc_bad (Some r) None s
         | Some w \<Rightarrow> do {
             (pi, s) \<leftarrow> kalloc s;
             if pi = 0 then pipealloc_bad (Some r) (Some w) s
             else do {
               let s = upd_pipe pi (\<lambda>q. q\<lparr>readopen := True, writeopen := True, nwrite := 0, nread := 0\<rparr>) s;
               let s = upd_file r (\<lambda>q. q\<lparr>f_type := FD_PIPE, f_readable := True, f_writable := False, f_pipe := pi\<rparr>) s;
               let s = upd_file w (\<lambda>q. q\<lparr>f_type := FD_PIPE, f_readable := False, f_writable := True, f_pipe := pi\<rparr>) s;
               Some (Some (r, w), s) } } } }"

text \<open>\<^verbatim>\<open>struct stat\<close> as it lies in memory; the four bytes of padding hold what the stack held.\<close>

definition stat_bytes :: "bytes \<Rightarrow> stat \<Rightarrow> bytes" where
  "stat_bytes pad st = to_le 4 (st_dev st) @ to_le 4 (st_ino st) @ to_le 2 (st_type st) @ to_le 2 (st_nlink st) @
     pad @ to_le 8 (st_size st)"

definition filestat :: "nat \<Rightarrow> u64 \<Rightarrow> 'a file_st_scheme \<Rightarrow> (int \<times> 'a file_st_scheme) option" where
  "filestat f addr s = do {
     p \<leftarrow> myproc s;
     if f_type (files s f) = FD_INODE \<or> f_type (files s f) = FD_DEVICE then do {
       s \<leftarrow> ilock (f_ip (files s f)) s;
       let st = stati (f_ip (files s f)) s;
       s \<leftarrow> iunlock (f_ip (files s f)) s;
       (r, s) \<leftarrow> copyout (pagetable (procs s p)) addr (stat_bytes (bytes_at (mem s) (kbuf s + 12) 4) st) s;
       if r < 0 then Some (- 1, s) else Some (0, s) }
     else Some (- 1, s) }"

text \<open>The device function behind a major number, if there is one.\<close>

definition dev_of :: "u16 \<Rightarrow> 'a file_st_scheme \<Rightarrow> devops option" where
  "dev_of m s = (if sint m < 0 \<or> sint m \<ge> int NDEV then None else devsw s (nat (sint m)))"

definition fileread :: "nat \<Rightarrow> u64 \<Rightarrow> int \<Rightarrow> 'a file_st_scheme \<Rightarrow> (int outcome \<times> 'a file_st_scheme) option" where
  "fileread f addr n s =
     (if \<not> f_readable (files s f) then Some (Returns (- 1), s)
      else case f_type (files s f) of
        FD_PIPE \<Rightarrow> piperead (f_pipe (files s f)) addr n s
      | FD_DEVICE \<Rightarrow> (case dev_of (f_major (files s f)) s of
            None \<Rightarrow> Some (Returns (- 1), s)
          | Some ConsoleOps \<Rightarrow> consoleread True addr n s)
      | FD_INODE \<Rightarrow> do {
          s \<leftarrow> ilock (f_ip (files s f)) s;
          (r, s) \<leftarrow> readi (f_ip (files s f)) True addr (f_off (files s f)) (word_of_int n) s;
          let s = (if r > 0 then upd_file f (\<lambda>q. q\<lparr>f_off := f_off q + word_of_int r\<rparr>) s else s);
          s \<leftarrow> iunlock (f_ip (files s f)) s;
          Some (Returns r, s) }
      | FD_NONE \<Rightarrow> None)"

text \<open>\<^verbatim>\<open>((MAXOPBLOCKS-1-1-2) / 2) * BSIZE\<close>.\<close>

abbreviation max_write :: nat where "max_write \<equiv> 3072"

function filewrite_loop :: "nat \<Rightarrow> u64 \<Rightarrow> nat \<Rightarrow> nat \<Rightarrow> 'a file_st_scheme \<Rightarrow> (nat \<times> 'a file_st_scheme) option" where
  "filewrite_loop f addr i n s =
     (if i < n then do {
        let n1 = min (n - i) max_write;
        (_, s) \<leftarrow> returned (begin_op s);
        s \<leftarrow> ilock (f_ip (files s f)) s;
        (r, s) \<leftarrow> writei (f_ip (files s f)) True (addr + of_nat i) (f_off (files s f)) (of_nat n1) s;
        let s = (if r > 0 then upd_file f (\<lambda>q. q\<lparr>f_off := f_off q + word_of_int r\<rparr>) s else s);
        s \<leftarrow> iunlock (f_ip (files s f)) s;
        s \<leftarrow> end_op s;
        if r \<noteq> int n1 then Some (i, s) else filewrite_loop f addr (i + n1) n s }
      else Some (i, s))"
  by pat_completeness auto
termination
  by (relation "measure (\<lambda>(f, addr, i, n, s). n - i)") auto

declare filewrite_loop.simps [simp del]

definition filewrite :: "nat \<Rightarrow> u64 \<Rightarrow> int \<Rightarrow> 'a file_st_scheme \<Rightarrow> (int outcome \<times> 'a file_st_scheme) option" where
  "filewrite f addr n s =
     (if \<not> f_writable (files s f) then Some (Returns (- 1), s)
      else case f_type (files s f) of
        FD_PIPE \<Rightarrow> pipewrite (f_pipe (files s f)) addr n s
      | FD_DEVICE \<Rightarrow> (case dev_of (f_major (files s f)) s of
            None \<Rightarrow> Some (Returns (- 1), s)
          | Some ConsoleOps \<Rightarrow> consolewrite True addr n s)
      | FD_INODE \<Rightarrow> do {
          (i, s) \<leftarrow> filewrite_loop f addr 0 (nat n) s;
          Some (Returns (if int i = n then n else - 1), s) }
      | FD_NONE \<Rightarrow> None)"

end
