(* ===== verification/Life.thy ===== *)
theory Life
  imports File
begin

text \<open>
  The life of a process where it touches files and inodes: \<^verbatim>\<open>userinit\<close>, \<^verbatim>\<open>fork\<close> and \<^verbatim>\<open>exit\<close> of
  \<^verbatim>\<open>kernel/proc.c\<close>, and the loader \<^verbatim>\<open>kernel/exec.c\<close>.
\<close>

definition tf_get :: "u64 \<Rightarrow> nat \<Rightarrow> 'a proc_st_scheme \<Rightarrow> u64" where
  "tf_get off p s = ld64 (mem s) (trapframe (procs s p) + off)"

definition tf_set :: "u64 \<Rightarrow> u64 \<Rightarrow> nat \<Rightarrow> 'a proc_st_scheme \<Rightarrow> 'a proc_st_scheme" where
  "tf_set off v p s = s\<lparr>mem := st64 (trapframe (procs s p) + off) v (mem s)\<rparr>"

text \<open>A string constant or a path as the array of its bytes and the null byte behind them.\<close>

definition str_buf :: "bytes \<Rightarrow> buf" where
  "str_buf xs i = (if i < length xs then xs ! i else 0)"

definition initcode :: bytes where
  "initcode = [0x17, 0x05, 0x00, 0x00, 0x13, 0x05, 0x45, 0x02,
     0x97, 0x05, 0x00, 0x00, 0x93, 0x85, 0x35, 0x02,
     0x93, 0x08, 0x70, 0x00, 0x73, 0x00, 0x00, 0x00,
     0x93, 0x08, 0x20, 0x00, 0x73, 0x00, 0x00, 0x00,
     0xef, 0xf0, 0x9f, 0xff, 0x2f, 0x69, 0x6e, 0x69,
     0x74, 0x00, 0x00, 0x24, 0x00, 0x00, 0x00, 0x00,
     0x00, 0x00, 0x00, 0x00]"

definition userinit :: "'a file_st_scheme \<Rightarrow> 'a file_st_scheme option" where
  "userinit s = do {
     (np, s) \<leftarrow> allocproc s;
     p \<leftarrow> np;
     let s = s\<lparr>initproc := Some p\<rparr>;
     s \<leftarrow> uvminit (pagetable (procs s p)) initcode s;
     let s = upd_proc p (\<lambda>q. q\<lparr>sz := PGSIZE\<rparr>) s;
     let s = tf_set tf_epc 0 p s;
     let s = tf_set tf_sp PGSIZE p s;
     let s = upd_proc p (\<lambda>q. q\<lparr>p_name := safestrcpy (p_name q) (str_buf (chars ''initcode'')) 16\<rparr>) s;
     (ip, s) \<leftarrow> namei [slash] s;
     let s = upd_proc p (\<lambda>q. q\<lparr>cwd := ip\<rparr>) s;
     let s = upd_proc p (\<lambda>q. q\<lparr>pstate := RUNNABLE\<rparr>) s;
     rel (ProcLock p) s }"

definition fork_files :: "nat \<Rightarrow> nat \<Rightarrow> 'a file_st_scheme \<Rightarrow> 'a file_st_scheme option" where
  "fork_files p np s =
     for_each [0..<NOFILE] (\<lambda>i s. case ofile (procs s p) i of None \<Rightarrow> Some s
       | Some f \<Rightarrow> do {
           s \<leftarrow> filedup f s;
           Some (upd_proc np (\<lambda>q. q\<lparr>ofile := (ofile q)(i := Some f)\<rparr>) s) }) s"

definition fork :: "'a file_st_scheme \<Rightarrow> (int \<times> 'a file_st_scheme) option" where
  "fork s = do {
     p \<leftarrow> myproc s;
     (r, s) \<leftarrow> allocproc s;
     case r of None \<Rightarrow> Some (- 1, s)
     | Some np \<Rightarrow> do {
         let s = upd_proc np (\<lambda>q. q\<lparr>trace_mask := trace_mask (procs s p)\<rparr>) s;
         (r, s) \<leftarrow> uvmcopy (pagetable (procs s p)) (pagetable (procs s np)) (sz (procs s p)) s;
         if r < 0 then do {
           s \<leftarrow> freeproc np s;
           s \<leftarrow> rel (ProcLock np) s;
           Some (- 1, s) }
         else do {
           let s = upd_proc np (\<lambda>q. q\<lparr>sz := sz (procs s p)\<rparr>) s;
           let s = s\<lparr>mem := put_bytes (trapframe (procs s np)) (bytes_at (mem s) (trapframe (procs s p)) 288) (mem s)\<rparr>;
           let s = tf_set tf_a0 0 np s;
           s \<leftarrow> fork_files p np s;
           ip \<leftarrow> cwd (procs s p);
           s \<leftarrow> idup ip s;
           let s = upd_proc np (\<lambda>q. q\<lparr>cwd := Some ip\<rparr>) s;
           let s = upd_proc np (\<lambda>q. q\<lparr>p_name := safestrcpy (p_name q) (p_name (procs s p)) 16\<rparr>) s;
           let newpid = pid (procs s np);
           s \<leftarrow> rel (ProcLock np) s;
           s \<leftarrow> acq WaitLock s;
           let s = upd_proc np (\<lambda>q. q\<lparr>parent := Some p\<rparr>) s;
           s \<leftarrow> rel WaitLock s;
           s \<leftarrow> acq (ProcLock np) s;
           let s = upd_proc np (\<lambda>q. q\<lparr>pstate := RUNNABLE\<rparr>) s;
           s \<leftarrow> rel (ProcLock np) s;
           Some (newpid, s) } } }"

definition exit_files :: "nat \<Rightarrow> 'a file_st_scheme \<Rightarrow> 'a file_st_scheme option" where
  "exit_files p s =
     for_each [0..<NOFILE] (\<lambda>fd s. case ofile (procs s p) fd of None \<Rightarrow> Some s
       | Some f \<Rightarrow> do {
           s \<leftarrow> fileclose f s;
           Some (upd_proc p (\<lambda>q. q\<lparr>ofile := (ofile q)(fd := None)\<rparr>) s) }) s"

text \<open>\<^verbatim>\<open>exit\<close> up to the switch it does not come back from.  Nobody sleeps on the null channel that
  \<^verbatim>\<open>wakeup\<close> gets from a process without parent.\<close>

definition exit :: "int \<Rightarrow> 'a file_st_scheme \<Rightarrow> 'a file_st_scheme option" where
  "exit status s = do {
     p \<leftarrow> myproc s;
     _ \<leftarrow> panic_if (Some p = initproc s);
     s \<leftarrow> exit_files p s;
     (_, s) \<leftarrow> returned (begin_op s);
     ip \<leftarrow> cwd (procs s p);
     s \<leftarrow> iput ip s;
     s \<leftarrow> end_op s;
     let s = upd_proc p (\<lambda>q. q\<lparr>cwd := None\<rparr>) s;
     s \<leftarrow> acq WaitLock s;
     s \<leftarrow> reparent p s;
     s \<leftarrow> (case parent (procs s p) of None \<Rightarrow> Some s | Some q \<Rightarrow> wakeup (ChProc q) s);
     s \<leftarrow> acq (ProcLock p) s;
     let s = upd_proc p (\<lambda>q. q\<lparr>xstate := status, pstate := ZOMBIE, exit_time := ucast (ticks s)\<rparr>) s;
     s \<leftarrow> rel WaitLock s;
     sched s }"

subsection \<open>Loading a program\<close>

abbreviation MAXARG :: nat where "MAXARG \<equiv> 32"
abbreviation ELF_MAGIC :: u32 where "ELF_MAGIC \<equiv> 0x464C457F"
abbreviation ELFSIZE :: nat where "ELFSIZE \<equiv> 64"
abbreviation PHSIZE :: nat where "PHSIZE \<equiv> 56"

record elfhdr =
  e_magic :: u32
  e_entry :: u64
  e_phoff :: u64
  e_phnum :: u16

record proghdr =
  ph_type :: u32
  ph_off :: u64
  ph_vaddr :: u64
  ph_filesz :: u64
  ph_memsz :: u64

definition get_elfhdr :: "bytes \<Rightarrow> elfhdr" where
  "get_elfhdr bs = \<lparr>e_magic = get32 bs 0, e_entry = get64 bs 24, e_phoff = get64 bs 32, e_phnum = get16 bs 56\<rparr>"

definition get_proghdr :: "bytes \<Rightarrow> proghdr" where
  "get_proghdr bs = \<lparr>ph_type = get32 bs 0, ph_off = get64 bs 8, ph_vaddr = get64 bs 16, ph_filesz = get64 bs 32,
     ph_memsz = get64 bs 40\<rparr>"

fun loadseg_from :: "u64 \<Rightarrow> u64 \<Rightarrow> nat \<Rightarrow> u32 \<Rightarrow> u32 \<Rightarrow> nat list \<Rightarrow> 'a file_st_scheme \<Rightarrow> (int \<times> 'a file_st_scheme) option" where
  "loadseg_from pt va ip offset z [] s = Some (0, s)"
| "loadseg_from pt va ip offset z (i # is) s = do {
     pa \<leftarrow> walkaddr pt (va + of_nat i) s;
     _ \<leftarrow> panic_if (pa = 0);
     let n = (if z - of_nat i < 4096 then z - of_nat i else 4096);
     (r, s) \<leftarrow> readi ip False pa (offset + of_nat i) n s;
     if r \<noteq> int (unat n) then Some (- 1, s) else loadseg_from pt va ip offset z is s }"

definition loadseg :: "u64 \<Rightarrow> u64 \<Rightarrow> nat \<Rightarrow> u32 \<Rightarrow> u32 \<Rightarrow> 'a file_st_scheme \<Rightarrow> (int \<times> 'a file_st_scheme) option" where
  "loadseg pt va ip offset z s =
     loadseg_from pt va ip offset z (map ((*) 4096) [0..<(unat z + 4095) div 4096]) s"

text \<open>The loop over the program headers: the size reached, and whether it got through or went to
  \<^verbatim>\<open>bad\<close>.\<close>

fun exec_load :: "nat \<Rightarrow> u64 \<Rightarrow> u32 \<Rightarrow> nat list \<Rightarrow> u64 \<Rightarrow> 'a file_st_scheme \<Rightarrow> (bool \<times> u64 \<times> 'a file_st_scheme) option" where
  "exec_load ip pt phoff [] z s = Some (True, z, s)"
| "exec_load ip pt phoff (i # is) z s = do {
     (r, s) \<leftarrow> readi ip False (kbuf s) (phoff + of_nat (PHSIZE * i)) (of_nat PHSIZE) s;
     if r \<noteq> int PHSIZE then Some (False, z, s)
     else do {
       let ph = get_proghdr (bytes_at (mem s) (kbuf s) PHSIZE);
       if ph_type ph \<noteq> 1 then exec_load ip pt phoff is z s
       else if ph_memsz ph < ph_filesz ph then Some (False, z, s)
       else if ph_vaddr ph + ph_memsz ph < ph_vaddr ph then Some (False, z, s)
       else do {
         (sz1, s) \<leftarrow> uvmalloc pt z (ph_vaddr ph + ph_memsz ph) s;
         if sz1 = 0 then Some (False, z, s)
         else if ph_vaddr ph mod PGSIZE \<noteq> 0 then Some (False, sz1, s)
         else do {
           (r, s) \<leftarrow> loadseg pt (ph_vaddr ph) ip (ucast (ph_off ph)) (ucast (ph_filesz ph)) s;
           if r < 0 then Some (False, sz1, s) else exec_load ip pt phoff is sz1 s } } } }"

text \<open>The argument strings on the new stack: the stack pointer and the addresses, or nothing for \<^verbatim>\<open>bad\<close>.\<close>

fun exec_args :: "u64 \<Rightarrow> u64 \<Rightarrow> bytes list \<Rightarrow> u64 list \<Rightarrow> u64 \<Rightarrow> 'a file_st_scheme \<Rightarrow>
    ((u64 \<times> u64 list) option \<times> 'a file_st_scheme) option" where
  "exec_args pt stackbase [] ustack usp s = Some (Some (usp, ustack), s)"
| "exec_args pt stackbase (x # xs) ustack usp s =
     (if length ustack \<ge> MAXARG then Some (None, s)
      else do {
        let usp = usp - of_nat (length x + 1);
        let usp = usp - usp mod 16;
        if usp < stackbase then Some (None, s)
        else do {
          (r, s) \<leftarrow> copyout pt usp (x @ [0]) s;
          if r < 0 then Some (None, s) else exec_args pt stackbase xs (ustack @ [usp]) usp s } })"

definition exec_bad :: "u64 \<Rightarrow> u64 \<Rightarrow> nat option \<Rightarrow> 'a file_st_scheme \<Rightarrow> (int \<times> 'a file_st_scheme) option" where
  "exec_bad pt z ip s = do {
     s \<leftarrow> (if pt \<noteq> 0 then proc_freepagetable pt z s else Some s);
     s \<leftarrow> (case ip of None \<Rightarrow> Some s | Some i \<Rightarrow> do { s \<leftarrow> iunlockput i s; end_op s });
     Some (- 1, s) }"

text \<open>From the allocation of the stack on.  \<^verbatim>\<open>ustack[argc] = 0\<close> is outside the array for \<^verbatim>\<open>MAXARG\<close> arguments.\<close>

definition exec_stack :: "nat \<Rightarrow> bytes \<Rightarrow> bytes list \<Rightarrow> elfhdr \<Rightarrow> u64 \<Rightarrow> u64 \<Rightarrow> 'a file_st_scheme \<Rightarrow> (int \<times> 'a file_st_scheme) option" where
  "exec_stack p path argv elf pt z s = do {
     let oldsz = sz (procs s p);
     let z = PGROUNDUP z;
     (sz1, s) \<leftarrow> uvmalloc pt z (z + 2 * PGSIZE) s;
     if sz1 = 0 then exec_bad pt z None s
     else do {
       let z = sz1;
       s \<leftarrow> uvmclear pt (z - 2 * PGSIZE) s;
       let stackbase = z - PGSIZE;
       (r, s) \<leftarrow> exec_args pt stackbase argv [] z s;
       case r of None \<Rightarrow> exec_bad pt z None s
       | Some (usp, ustack) \<Rightarrow> do {
           let argc = length ustack;
           _ \<leftarrow> panic_if (argc \<ge> MAXARG);
           let usp = usp - of_nat ((argc + 1) * 8);
           let usp = usp - usp mod 16;
           if usp < stackbase then exec_bad pt z None s
           else do {
             (r, s) \<leftarrow> copyout pt usp (concat (map (to_le 8) (ustack @ [0]))) s;
             if r < 0 then exec_bad pt z None s
             else do {
               let s = tf_set tf_a1 usp p s;
               let lst = rev (takeWhile (\<lambda>c. c \<noteq> slash) (rev path));
               let s = upd_proc p (\<lambda>q. q\<lparr>p_name := safestrcpy (p_name q) (str_buf lst) 16\<rparr>) s;
               let oldpt = pagetable (procs s p);
               let s = upd_proc p (\<lambda>q. q\<lparr>pagetable := pt, sz := z\<rparr>) s;
               let s = tf_set tf_epc (e_entry elf) p s;
               let s = tf_set tf_sp usp p s;
               s \<leftarrow> proc_freepagetable oldpt oldsz s;
               Some (int argc, s) } } } } }"

definition exec :: "bytes \<Rightarrow> bytes list \<Rightarrow> 'a file_st_scheme \<Rightarrow> (int \<times> 'a file_st_scheme) option" where
  "exec path argv s = do {
     p \<leftarrow> myproc s;
     (_, s) \<leftarrow> returned (begin_op s);
     (r, s) \<leftarrow> namei path s;
     case r of None \<Rightarrow> do { s \<leftarrow> end_op s; Some (- 1, s) }
     | Some ip \<Rightarrow> do {
         s \<leftarrow> ilock ip s;
         (r, s) \<leftarrow> readi ip False (kbuf s) 0 (of_nat ELFSIZE) s;
         let elf = get_elfhdr (bytes_at (mem s) (kbuf s) ELFSIZE);
         if r \<noteq> int ELFSIZE \<or> e_magic elf \<noteq> ELF_MAGIC then exec_bad 0 0 (Some ip) s
         else do {
           (pt, s) \<leftarrow> proc_pagetable p s;
           if pt = 0 then exec_bad 0 0 (Some ip) s
           else do {
             (ok, z, s) \<leftarrow> exec_load ip pt (ucast (e_phoff elf)) [0..<unat (e_phnum elf)] 0 s;
             if \<not> ok then exec_bad pt z (Some ip) s
             else do {
               s \<leftarrow> iunlockput ip s;
               s \<leftarrow> end_op s;
               exec_stack p path argv elf pt z s } } } } }"

end
