(* ===== verification/Sysfile.thy ===== *)
theory Sysfile
  imports Life
begin

text \<open>
  System call arguments, \<^verbatim>\<open>kernel/syscall.c\<close>, and the system calls on files, \<^verbatim>\<open>kernel/sysfile.c\<close>.  The
  value of a system call is the integer the code returns.
\<close>

abbreviation MAXPATH :: nat where "MAXPATH \<equiv> 128"
abbreviation O_WRONLY :: u32 where "O_WRONLY \<equiv> 0x001"
abbreviation O_RDWR :: u32 where "O_RDWR \<equiv> 0x002"
abbreviation O_CREATE :: u32 where "O_CREATE \<equiv> 0x200"
abbreviation O_TRUNC :: u32 where "O_TRUNC \<equiv> 0x400"

subsection \<open>Arguments\<close>

text \<open>\<open>None\<close> inside is the result \<^verbatim>\<open>-1\<close>.\<close>

definition fetchaddr :: "u64 \<Rightarrow> 'a proc_st_scheme \<Rightarrow> u64 option option" where
  "fetchaddr addr s = do {
     p \<leftarrow> myproc s;
     if addr \<ge> sz (procs s p) \<or> addr + 8 > sz (procs s p) then Some None
     else do {
       (r, xs) \<leftarrow> copyin (pagetable (procs s p)) addr 8 s;
       Some (if r \<noteq> 0 then None else Some (of_le xs)) } }"

definition fetchstr :: "u64 \<Rightarrow> nat \<Rightarrow> 'a proc_st_scheme \<Rightarrow> (int \<times> bytes) option" where
  "fetchstr addr mx s = do {
     p \<leftarrow> myproc s;
     (err, xs) \<leftarrow> copyinstr (pagetable (procs s p)) addr mx s;
     Some (if err < 0 then err else int (length xs), xs) }"

definition argraw :: "nat \<Rightarrow> 'a proc_st_scheme \<Rightarrow> u64 option" where
  "argraw n s = do {
     p \<leftarrow> myproc s;
     _ \<leftarrow> panic_if (n > 5);
     Some (tf_get (tf_a0 + 8 * of_nat n) p s) }"

definition argint :: "nat \<Rightarrow> 'a proc_st_scheme \<Rightarrow> int option" where
  "argint n s = do { w \<leftarrow> argraw n s; Some (sint (ucast w :: u32)) }"

definition argaddr :: "nat \<Rightarrow> 'a proc_st_scheme \<Rightarrow> u64 option" where
  "argaddr n s = argraw n s"

definition argstr :: "nat \<Rightarrow> nat \<Rightarrow> 'a proc_st_scheme \<Rightarrow> (int \<times> bytes) option" where
  "argstr n mx s = do { addr \<leftarrow> argaddr n s; fetchstr addr mx s }"

subsection \<open>Descriptors\<close>

definition argfd :: "nat \<Rightarrow> 'a proc_st_scheme \<Rightarrow> (nat \<times> nat) option option" where
  "argfd n s = do {
     fd \<leftarrow> argint n s;
     p \<leftarrow> myproc s;
     Some (if fd < 0 \<or> fd \<ge> int NOFILE then None
           else map_option (\<lambda>f. (nat fd, f)) (ofile (procs s p) (nat fd))) }"

definition fdalloc :: "nat \<Rightarrow> 'a proc_st_scheme \<Rightarrow> (int \<times> 'a proc_st_scheme) option" where
  "fdalloc f s = do {
     p \<leftarrow> myproc s;
     case List.find (\<lambda>fd. ofile (procs s p) fd = None) [0..<NOFILE] of
       Some fd \<Rightarrow> Some (int fd, upd_proc p (\<lambda>q. q\<lparr>ofile := (ofile q)(fd := Some f)\<rparr>) s)
     | None \<Rightarrow> Some (- 1, s) }"

definition fd_clear :: "nat \<Rightarrow> nat \<Rightarrow> 'a proc_st_scheme \<Rightarrow> 'a proc_st_scheme" where
  "fd_clear p fd s = upd_proc p (\<lambda>q. q\<lparr>ofile := (ofile q)(fd := None)\<rparr>) s"

definition sys_dup :: "'a file_st_scheme \<Rightarrow> (int \<times> 'a file_st_scheme) option" where
  "sys_dup s = do {
     a \<leftarrow> argfd 0 s;
     case a of None \<Rightarrow> Some (- 1, s)
     | Some (_, f) \<Rightarrow> do {
         (fd, s) \<leftarrow> fdalloc f s;
         if fd < 0 then Some (- 1, s)
         else do { s \<leftarrow> filedup f s; Some (fd, s) } } }"

definition sys_read :: "'a file_st_scheme \<Rightarrow> (int outcome \<times> 'a file_st_scheme) option" where
  "sys_read s = do {
     a \<leftarrow> argfd 0 s;
     case a of None \<Rightarrow> Some (Returns (- 1), s)
     | Some (_, f) \<Rightarrow> do {
         n \<leftarrow> argint 2 s;
         p \<leftarrow> argaddr 1 s;
         fileread f p n s } }"

definition sys_write :: "'a file_st_scheme \<Rightarrow> (int outcome \<times> 'a file_st_scheme) option" where
  "sys_write s = do {
     a \<leftarrow> argfd 0 s;
     case a of None \<Rightarrow> Some (Returns (- 1), s)
     | Some (_, f) \<Rightarrow> do {
         n \<leftarrow> argint 2 s;
         p \<leftarrow> argaddr 1 s;
         filewrite f p n s } }"

definition sys_close :: "'a file_st_scheme \<Rightarrow> (int \<times> 'a file_st_scheme) option" where
  "sys_close s = do {
     a \<leftarrow> argfd 0 s;
     case a of None \<Rightarrow> Some (- 1, s)
     | Some (fd, f) \<Rightarrow> do {
         p \<leftarrow> myproc s;
         s \<leftarrow> fileclose f (fd_clear p fd s);
         Some (0, s) } }"

definition sys_fstat :: "'a file_st_scheme \<Rightarrow> (int \<times> 'a file_st_scheme) option" where
  "sys_fstat s = do {
     a \<leftarrow> argfd 0 s;
     case a of None \<Rightarrow> Some (- 1, s)
     | Some (_, f) \<Rightarrow> do { st \<leftarrow> argaddr 1 s; filestat f st s } }"

subsection \<open>Names\<close>

definition add_nlink :: "nat \<Rightarrow> u16 \<Rightarrow> 'a fs_st_scheme \<Rightarrow> 'a fs_st_scheme" where
  "add_nlink ip k s = upd_d ip (\<lambda>d. d\<lparr>di_nlink := di_nlink d + k\<rparr>) s"

definition link_bad :: "nat \<Rightarrow> 'a file_st_scheme \<Rightarrow> (int \<times> 'a file_st_scheme) option" where
  "link_bad ip s = do {
     s \<leftarrow> ilock ip s;
     let s = add_nlink ip (- 1) s;
     s \<leftarrow> iupdate ip s;
     s \<leftarrow> iunlockput ip s;
     s \<leftarrow> end_op s;
     Some (- 1, s) }"

definition sys_link :: "'a file_st_scheme \<Rightarrow> (int \<times> 'a file_st_scheme) option" where
  "sys_link s = do {
     (r, old) \<leftarrow> argstr 0 MAXPATH s;
     (r', new) \<leftarrow> (if r < 0 then Some (- 1, []) else argstr 1 MAXPATH s);
     if r < 0 \<or> r' < 0 then Some (- 1, s)
     else do {
       (_, s) \<leftarrow> returned (begin_op s);
       (i, s) \<leftarrow> namei old s;
       case i of None \<Rightarrow> do { s \<leftarrow> end_op s; Some (- 1, s) }
       | Some ip \<Rightarrow> do {
           s \<leftarrow> ilock ip s;
           if di_type (i_d (inodes s ip)) = T_DIR then do {
             s \<leftarrow> iunlockput ip s;
             s \<leftarrow> end_op s;
             Some (- 1, s) }
           else do {
             let s = add_nlink ip 1 s;
             s \<leftarrow> iupdate ip s;
             s \<leftarrow> iunlock ip s;
             (d, name, s) \<leftarrow> nameiparent new (\<lambda>_. 0) s;
             case d of None \<Rightarrow> link_bad ip s
             | Some dp \<Rightarrow> do {
                 s \<leftarrow> ilock dp s;
                 (r, s) \<leftarrow> (if i_dev (inodes s dp) \<noteq> i_dev (inodes s ip) then Some (- 1, s)
                           else dirlink dp name (i_inum (inodes s ip)) s);
                 if r < 0 then do {
                   s \<leftarrow> iunlockput dp s;
                   link_bad ip s }
                 else do {
                   s \<leftarrow> iunlockput dp s;
                   s \<leftarrow> iput ip s;
                   s \<leftarrow> end_op s;
                   Some (0, s) } } } } } }"

fun isdirempty_scan :: "nat \<Rightarrow> nat list \<Rightarrow> 'a fs_st_scheme \<Rightarrow> (bool \<times> 'a fs_st_scheme) option" where
  "isdirempty_scan dp [] s = Some (True, s)"
| "isdirempty_scan dp (off # offs) s = do {
     (r, s) \<leftarrow> readi dp False (kbuf s) (of_nat off) (of_nat DESIZE) s;
     _ \<leftarrow> panic_if (r \<noteq> int DESIZE);
     if de_inum s \<noteq> 0 then Some (False, s) else isdirempty_scan dp offs s }"

definition isdirempty :: "nat \<Rightarrow> 'a fs_st_scheme \<Rightarrow> (bool \<times> 'a fs_st_scheme) option" where
  "isdirempty dp s = isdirempty_scan dp (drop 2 (de_offs (isize dp s))) s"

definition unlink_bad :: "nat \<Rightarrow> 'a file_st_scheme \<Rightarrow> (int \<times> 'a file_st_scheme) option" where
  "unlink_bad dp s = do {
     s \<leftarrow> iunlockput dp s;
     s \<leftarrow> end_op s;
     Some (- 1, s) }"

definition sys_unlink :: "'a file_st_scheme \<Rightarrow> (int \<times> 'a file_st_scheme) option" where
  "sys_unlink s = do {
     (r, path) \<leftarrow> argstr 0 MAXPATH s;
     if r < 0 then Some (- 1, s)
     else do {
       (_, s) \<leftarrow> returned (begin_op s);
       (d, name, s) \<leftarrow> nameiparent path (\<lambda>_. 0) s;
       case d of None \<Rightarrow> do { s \<leftarrow> end_op s; Some (- 1, s) }
       | Some dp \<Rightarrow> do {
           s \<leftarrow> ilock dp s;
           if namecmp name (str_buf [46]) = 0 \<or> namecmp name (str_buf [46, 46]) = 0 then unlink_bad dp s
           else do {
             (e, s) \<leftarrow> dirlookup dp name s;
             case e of None \<Rightarrow> unlink_bad dp s
             | Some (ip, off) \<Rightarrow> do {
                 s \<leftarrow> ilock ip s;
                 _ \<leftarrow> panic_if (sint (di_nlink (i_d (inodes s ip))) < 1);
                 (empty, s) \<leftarrow> (if di_type (i_d (inodes s ip)) = T_DIR then isdirempty ip s else Some (True, s));
                 if \<not> empty then do {
                   s \<leftarrow> iunlockput ip s;
                   unlink_bad dp s }
                 else do {
                   let s = s\<lparr>mem := memset (kbuf s) 0 DESIZE (mem s)\<rparr>;
                   (r, s) \<leftarrow> writei dp False (kbuf s) off (of_nat DESIZE) s;
                   _ \<leftarrow> panic_if (r \<noteq> int DESIZE);
                   s \<leftarrow> (if di_type (i_d (inodes s ip)) = T_DIR then iupdate dp (add_nlink dp (- 1) s) else Some s);
                   s \<leftarrow> iunlockput dp s;
                   let s = add_nlink ip (- 1) s;
                   s \<leftarrow> iupdate ip s;
                   s \<leftarrow> iunlockput ip s;
                   s \<leftarrow> end_op s;
                   Some (0, s) } } } } } }"

definition create_new :: "nat \<Rightarrow> buf \<Rightarrow> u16 \<Rightarrow> u16 \<Rightarrow> u16 \<Rightarrow> 'a file_st_scheme \<Rightarrow> (nat option \<times> 'a file_st_scheme) option" where
  "create_new dp name type major minor s = do {
     (ip, s) \<leftarrow> ialloc (i_dev (inodes s dp)) type s;
     s \<leftarrow> ilock ip s;
     let s = upd_d ip (\<lambda>d. d\<lparr>di_major := major, di_minor := minor, di_nlink := 1\<rparr>) s;
     s \<leftarrow> iupdate ip s;
     s \<leftarrow> (if type = T_DIR then do {
             let s = add_nlink dp 1 s;
             s \<leftarrow> iupdate dp s;
             (r, s) \<leftarrow> dirlink ip (str_buf [46]) (i_inum (inodes s ip)) s;
             _ \<leftarrow> panic_if (r < 0);
             (r, s) \<leftarrow> dirlink ip (str_buf [46, 46]) (i_inum (inodes s dp)) s;
             _ \<leftarrow> panic_if (r < 0);
             Some s }
           else Some s);
     (r, s) \<leftarrow> dirlink dp name (i_inum (inodes s ip)) s;
     _ \<leftarrow> panic_if (r < 0);
     s \<leftarrow> iunlockput dp s;
     Some (Some ip, s) }"

definition create :: "bytes \<Rightarrow> u16 \<Rightarrow> u16 \<Rightarrow> u16 \<Rightarrow> 'a file_st_scheme \<Rightarrow> (nat option \<times> 'a file_st_scheme) option" where
  "create path type major minor s = do {
     (d, name, s) \<leftarrow> nameiparent path (\<lambda>_. 0) s;
     case d of None \<Rightarrow> Some (None, s)
     | Some dp \<Rightarrow> do {
         s \<leftarrow> ilock dp s;
         (e, s) \<leftarrow> dirlookup dp name s;
         case e of Some (ip, _) \<Rightarrow> do {
             s \<leftarrow> iunlockput dp s;
             s \<leftarrow> ilock ip s;
             let t = di_type (i_d (inodes s ip));
             if type = T_FILE \<and> (t = T_FILE \<or> t = T_DEVICE) then Some (Some ip, s)
             else do {
               s \<leftarrow> iunlockput ip s;
               Some (None, s) } }
         | None \<Rightarrow> create_new dp name type major minor s } }"

definition fail_put :: "nat \<Rightarrow> 'a file_st_scheme \<Rightarrow> (int \<times> 'a file_st_scheme) option" where
  "fail_put ip s = do {
     s \<leftarrow> iunlockput ip s;
     s \<leftarrow> end_op s;
     Some (- 1, s) }"

text \<open>The part of \<^verbatim>\<open>sys_open\<close> that starts with the inode found and locked.\<close>

definition open_inode :: "nat \<Rightarrow> u32 \<Rightarrow> 'a file_st_scheme \<Rightarrow> (int \<times> 'a file_st_scheme) option" where
  "open_inode ip omode s = do {
     let d = i_d (inodes s ip);
     if di_type d = T_DEVICE \<and> (sint (di_major d) < 0 \<or> sint (di_major d) \<ge> int NDEV) then fail_put ip s
     else do {
       (fo, s) \<leftarrow> filealloc s;
       case fo of None \<Rightarrow> fail_put ip s
       | Some f \<Rightarrow> do {
           (fd, s) \<leftarrow> fdalloc f s;
           if fd < 0 then do { s \<leftarrow> fileclose f s; fail_put ip s }
           else do {
             let s = (if di_type d = T_DEVICE then upd_file f (\<lambda>q. q\<lparr>f_type := FD_DEVICE, f_major := di_major d\<rparr>) s
                      else upd_file f (\<lambda>q. q\<lparr>f_type := FD_INODE, f_off := 0\<rparr>) s);
             let s = upd_file f (\<lambda>q. q\<lparr>f_ip := ip, f_readable := (omode AND O_WRONLY = 0),
               f_writable := (omode AND O_WRONLY \<noteq> 0 \<or> omode AND O_RDWR \<noteq> 0)\<rparr>) s;
             s \<leftarrow> (if omode AND O_TRUNC \<noteq> 0 \<and> di_type d = T_FILE then itrunc ip s else Some s);
             s \<leftarrow> iunlock ip s;
             s \<leftarrow> end_op s;
             Some (fd, s) } } } }"

definition sys_open :: "'a file_st_scheme \<Rightarrow> (int \<times> 'a file_st_scheme) option" where
  "sys_open s = do {
     (n, path) \<leftarrow> argstr 0 MAXPATH s;
     if n < 0 then Some (- 1, s)
     else do {
       w \<leftarrow> argraw 1 s;
       let omode = (ucast w :: u32);
       (_, s) \<leftarrow> returned (begin_op s);
       if omode AND O_CREATE \<noteq> 0 then do {
         (i, s) \<leftarrow> create path T_FILE 0 0 s;
         case i of None \<Rightarrow> do { s \<leftarrow> end_op s; Some (- 1, s) }
         | Some ip \<Rightarrow> open_inode ip omode s }
       else do {
         (i, s) \<leftarrow> namei path s;
         case i of None \<Rightarrow> do { s \<leftarrow> end_op s; Some (- 1, s) }
         | Some ip \<Rightarrow> do {
             s \<leftarrow> ilock ip s;
             if di_type (i_d (inodes s ip)) = T_DIR \<and> omode \<noteq> 0 then fail_put ip s
             else open_inode ip omode s } } } }"

definition sys_mkdir :: "'a file_st_scheme \<Rightarrow> (int \<times> 'a file_st_scheme) option" where
  "sys_mkdir s = do {
     (_, s) \<leftarrow> returned (begin_op s);
     (r, path) \<leftarrow> argstr 0 MAXPATH s;
     (i, s) \<leftarrow> (if r < 0 then Some (None, s) else create path T_DIR 0 0 s);
     case i of None \<Rightarrow> do { s \<leftarrow> end_op s; Some (- 1, s) }
     | Some ip \<Rightarrow> do {
         s \<leftarrow> iunlockput ip s;
         s \<leftarrow> end_op s;
         Some (0, s) } }"

definition sys_mknod :: "'a file_st_scheme \<Rightarrow> (int \<times> 'a file_st_scheme) option" where
  "sys_mknod s = do {
     (_, s) \<leftarrow> returned (begin_op s);
     (r, path) \<leftarrow> argstr 0 MAXPATH s;
     (i, s) \<leftarrow> (if r < 0 then Some (None, s)
               else do {
                 major \<leftarrow> argraw 1 s;
                 minor \<leftarrow> argraw 2 s;
                 create path T_DEVICE (ucast major) (ucast minor) s });
     case i of None \<Rightarrow> do { s \<leftarrow> end_op s; Some (- 1, s) }
     | Some ip \<Rightarrow> do {
         s \<leftarrow> iunlockput ip s;
         s \<leftarrow> end_op s;
         Some (0, s) } }"

definition sys_chdir :: "'a file_st_scheme \<Rightarrow> (int \<times> 'a file_st_scheme) option" where
  "sys_chdir s = do {
     p \<leftarrow> myproc s;
     (_, s) \<leftarrow> returned (begin_op s);
     (r, path) \<leftarrow> argstr 0 MAXPATH s;
     (i, s) \<leftarrow> (if r < 0 then Some (None, s) else namei path s);
     case i of None \<Rightarrow> do { s \<leftarrow> end_op s; Some (- 1, s) }
     | Some ip \<Rightarrow> do {
         s \<leftarrow> ilock ip s;
         if di_type (i_d (inodes s ip)) \<noteq> T_DIR then fail_put ip s
         else do {
           s \<leftarrow> iunlock ip s;
           old \<leftarrow> cwd (procs s p);
           s \<leftarrow> iput old s;
           s \<leftarrow> end_op s;
           Some (0, upd_proc p (\<lambda>q. q\<lparr>cwd := Some ip\<rparr>) s) } } }"

text \<open>The loop of \<^verbatim>\<open>sys_exec\<close>: the pages taken so far, the strings in them, and whether the null pointer
  that ends the array was reached.\<close>

fun exec_fetch :: "u64 \<Rightarrow> nat list \<Rightarrow> (u64 \<times> bytes) list \<Rightarrow> 'a file_st_scheme \<Rightarrow>
    (bool \<times> (u64 \<times> bytes) list \<times> 'a file_st_scheme) option" where
  "exec_fetch uargv [] acc s = Some (False, acc, s)"
| "exec_fetch uargv (i # is) acc s = do {
     a \<leftarrow> fetchaddr (uargv + 8 * of_nat i) s;
     case a of None \<Rightarrow> Some (False, acc, s)
     | Some uarg \<Rightarrow>
         if uarg = 0 then Some (True, acc, s)
         else do {
           (pg, s) \<leftarrow> kalloc s;
           if pg = 0 then Some (False, acc, s)
           else do {
             (r, xs) \<leftarrow> fetchstr uarg 4096 s;
             let s = s\<lparr>mem := put_bytes pg (if r < 0 then xs else xs @ [0]) (mem s)\<rparr>;
             if r < 0 then Some (False, acc @ [(pg, xs)], s)
             else exec_fetch uargv is (acc @ [(pg, xs)]) s } } }"

definition sys_exec :: "'a file_st_scheme \<Rightarrow> (int \<times> 'a file_st_scheme) option" where
  "sys_exec s = do {
     (r, path) \<leftarrow> argstr 0 MAXPATH s;
     if r < 0 then Some (- 1, s)
     else do {
       uargv \<leftarrow> argaddr 1 s;
       (ok, argv, s) \<leftarrow> exec_fetch uargv [0..<MAXARG] [] s;
       (ret, s) \<leftarrow> (if ok then exec path (map snd argv) s else Some (- 1, s));
       s \<leftarrow> for_each argv (\<lambda>(pg, _). kfree pg) s;
       Some (ret, s) } }"

definition sys_pipe :: "'a file_st_scheme \<Rightarrow> (int \<times> 'a file_st_scheme) option" where
  "sys_pipe s = do {
     p \<leftarrow> myproc s;
     fdarray \<leftarrow> argaddr 0 s;
     (r, s) \<leftarrow> pipealloc s;
     case r of None \<Rightarrow> Some (- 1, s)
     | Some (rfile, wfile) \<Rightarrow> do {
         (fd0, s) \<leftarrow> fdalloc rfile s;
         (fd1, s) \<leftarrow> (if fd0 < 0 then Some (- 1, s) else fdalloc wfile s);
         if fd0 < 0 \<or> fd1 < 0 then do {
           let s = (if fd0 \<ge> 0 then fd_clear p (nat fd0) s else s);
           s \<leftarrow> fileclose rfile s;
           s \<leftarrow> fileclose wfile s;
           Some (- 1, s) }
         else do {
           (r, s) \<leftarrow> copyout (pagetable (procs s p)) fdarray (le32 (word_of_int fd0)) s;
           (r, s) \<leftarrow> (if r < 0 then Some (r, s)
                     else copyout (pagetable (procs s p)) (fdarray + 4) (le32 (word_of_int fd1)) s);
           if r < 0 then do {
             let s = fd_clear p (nat fd1) (fd_clear p (nat fd0) s);
             s \<leftarrow> fileclose rfile s;
             s \<leftarrow> fileclose wfile s;
             Some (- 1, s) }
           else Some (0, s) } } }"

end
