(* ===== verification/Syscall.thy ===== *)
theory Syscall
  imports Sysfile
begin

text \<open>
  The system calls on processes, \<^verbatim>\<open>kernel/sysproc.c\<close>, and the dispatcher with its tracing,
  \<^verbatim>\<open>kernel/syscall.c\<close>.  A system call returns a value, or suspends its process; a suspended call goes on
  with the \<open>_resume\<close> part of the operation it is in, and \<open>syscall_finish\<close> is the rest of the
  dispatcher.
\<close>

definition plain :: "(int \<times> 's) option \<Rightarrow> (int outcome \<times> 's) option" where
  "plain m = do { (r, s) \<leftarrow> m; Some (Returns r, s) }"

definition sys_exit :: "'a file_st_scheme \<Rightarrow> (int outcome \<times> 'a file_st_scheme) option" where
  "sys_exit s = do {
     n \<leftarrow> argint 0 s;
     s \<leftarrow> exit n s;
     Some (Sleeps, s) }"

definition sys_getpid :: "'a file_st_scheme \<Rightarrow> (int \<times> 'a file_st_scheme) option" where
  "sys_getpid s = do { p \<leftarrow> myproc s; Some (pid (procs s p), s) }"

definition sys_fork :: "'a file_st_scheme \<Rightarrow> (int \<times> 'a file_st_scheme) option" where
  "sys_fork s = fork s"

definition sys_wait :: "'a file_st_scheme \<Rightarrow> (int outcome \<times> 'a file_st_scheme) option" where
  "sys_wait s = do { p \<leftarrow> argaddr 0 s; wait p s }"

definition sys_sbrk :: "'a file_st_scheme \<Rightarrow> (int \<times> 'a file_st_scheme) option" where
  "sys_sbrk s = do {
     n \<leftarrow> argint 0 s;
     p \<leftarrow> myproc s;
     let addr = sint (ucast (sz (procs s p)) :: u32);
     (r, s) \<leftarrow> growproc n s;
     if r < 0 then Some (- 1, s) else Some (addr, s) }"

text \<open>\<^verbatim>\<open>ticks - ticks0 < n\<close> compares unsigned numbers.\<close>

definition sys_sleep_loop :: "u32 \<Rightarrow> int \<Rightarrow> 'a file_st_scheme \<Rightarrow> (int outcome \<times> 'a file_st_scheme) option" where
  "sys_sleep_loop ticks0 n s =
     (if ticks s - ticks0 < word_of_int n then do {
        p \<leftarrow> myproc s;
        if killed (procs s p) \<noteq> 0 then do {
          s \<leftarrow> rel TicksLock s;
          Some (Returns (- 1), s) }
        else do {
          s \<leftarrow> sleep_enter ChTicks TicksLock s;
          Some (Sleeps, s) } }
      else do {
        s \<leftarrow> rel TicksLock s;
        Some (Returns 0, s) })"

definition sys_sleep :: "'a file_st_scheme \<Rightarrow> (int outcome \<times> 'a file_st_scheme) option" where
  "sys_sleep s = do {
     n \<leftarrow> argint 0 s;
     s \<leftarrow> acq TicksLock s;
     sys_sleep_loop (ticks s) n s }"

definition sys_sleep_resume :: "u32 \<Rightarrow> int \<Rightarrow> 'a file_st_scheme \<Rightarrow> (int outcome \<times> 'a file_st_scheme) option" where
  "sys_sleep_resume ticks0 n s = do { s \<leftarrow> sleep_exit TicksLock s; sys_sleep_loop ticks0 n s }"

definition sys_kill :: "'a file_st_scheme \<Rightarrow> (int \<times> 'a file_st_scheme) option" where
  "sys_kill s = do { n \<leftarrow> argint 0 s; kill n s }"

definition sys_uptime :: "'a file_st_scheme \<Rightarrow> (int \<times> 'a file_st_scheme) option" where
  "sys_uptime s = do {
     s \<leftarrow> acq TicksLock s;
     let xticks = ticks s;
     s \<leftarrow> rel TicksLock s;
     Some (int (unat xticks), s) }"

definition sys_trace :: "'a file_st_scheme \<Rightarrow> (int \<times> 'a file_st_scheme) option" where
  "sys_trace s = do {
     m \<leftarrow> argint 0 s;
     p \<leftarrow> myproc s;
     Some (0, upd_proc p (\<lambda>q. q\<lparr>trace_mask := m\<rparr>) s) }"

definition sys_setpriority :: "'a file_st_scheme \<Rightarrow> (int outcome \<times> 'a file_st_scheme) option" where
  "sys_setpriority s = do {
     prio \<leftarrow> argint 0 s;
     n \<leftarrow> argint 1 s;
     (prev, yielded, s) \<leftarrow> setpriority prio n s;
     Some (if yielded then Sleeps else Returns prev, s) }"

definition sys_waitx_finish :: "u64 \<Rightarrow> u64 \<Rightarrow> int \<Rightarrow> u32 \<times> u32 \<Rightarrow> 'a file_st_scheme \<Rightarrow> (int \<times> 'a file_st_scheme) option" where
  "sys_waitx_finish rt wt n rw s =
     (if n < 0 then Some (- 1, s)
      else do {
        p \<leftarrow> myproc s;
        (r, s) \<leftarrow> copyout (pagetable (procs s p)) rt (le32 (fst rw)) s;
        if r < 0 then Some (- 1, s)
        else do {
          (r, s) \<leftarrow> copyout (pagetable (procs s p)) wt (le32 (snd rw)) s;
          if r < 0 then Some (- 1, s) else Some (n, s) } })"

text \<open>\<^verbatim>\<open>rtime\<close> and \<^verbatim>\<open>wtime\<close> are set before they are read.\<close>

definition sys_waitx :: "'a file_st_scheme \<Rightarrow> (int outcome \<times> 'a file_st_scheme) option" where
  "sys_waitx s = do {
     p \<leftarrow> argaddr 0 s;
     rt \<leftarrow> argaddr 1 s;
     wt \<leftarrow> argaddr 2 s;
     (r, rw, s) \<leftarrow> waitx p (0, 0) s;
     case r of Sleeps \<Rightarrow> Some (Sleeps, s) | Returns n \<Rightarrow> plain (sys_waitx_finish rt wt n rw s) }"

definition sys_setmemlimit :: "'a file_st_scheme \<Rightarrow> (int \<times> 'a file_st_scheme) option" where
  "sys_setmemlimit s = do {
     lim \<leftarrow> argint 0 s;
     p \<leftarrow> myproc s;
     Some (0, upd_proc p (\<lambda>q. q\<lparr>max_mem := word_of_int lim\<rparr>) s) }"

subsection \<open>The dispatcher\<close>

definition syscalls :: "nat \<Rightarrow> ('a file_st_scheme \<Rightarrow> (int outcome \<times> 'a file_st_scheme) option) option" where
  "syscalls num =
     (if num = 1 then Some (\<lambda>s. plain (sys_fork s))
      else if num = 2 then Some sys_exit
      else if num = 3 then Some sys_wait
      else if num = 4 then Some (\<lambda>s. plain (sys_pipe s))
      else if num = 5 then Some sys_read
      else if num = 6 then Some (\<lambda>s. plain (sys_kill s))
      else if num = 7 then Some (\<lambda>s. plain (sys_exec s))
      else if num = 8 then Some (\<lambda>s. plain (sys_fstat s))
      else if num = 9 then Some (\<lambda>s. plain (sys_chdir s))
      else if num = 10 then Some (\<lambda>s. plain (sys_dup s))
      else if num = 11 then Some (\<lambda>s. plain (sys_getpid s))
      else if num = 12 then Some (\<lambda>s. plain (sys_sbrk s))
      else if num = 13 then Some sys_sleep
      else if num = 14 then Some (\<lambda>s. plain (sys_uptime s))
      else if num = 15 then Some (\<lambda>s. plain (sys_open s))
      else if num = 16 then Some sys_write
      else if num = 17 then Some (\<lambda>s. plain (sys_mknod s))
      else if num = 18 then Some (\<lambda>s. plain (sys_unlink s))
      else if num = 19 then Some (\<lambda>s. plain (sys_link s))
      else if num = 20 then Some (\<lambda>s. plain (sys_mkdir s))
      else if num = 21 then Some (\<lambda>s. plain (sys_close s))
      else if num = 22 then Some (\<lambda>s. plain (sys_trace s))
      else if num = 23 then Some sys_setpriority
      else if num = 24 then Some sys_waitx
      else None)"

definition syscall_names :: "nat \<Rightarrow> bytes" where
  "syscall_names num = map chars ['''', ''fork'', ''exit'', ''wait'', ''pipe'', ''read'', ''kill'', ''exec'', ''fstat'',
     ''chdir'', ''dup'', ''getpid'', ''sbrk'', ''sleep'', ''uptime'', ''open'', ''write'', ''mknod'', ''unlink'',
     ''link'', ''mkdir'', ''close'', ''trace'', ''setpriority'', ''waitx''] ! num"

definition syscall_num :: "nat list" where
  "syscall_num = [0, 0, 1, 1, 1, 3, 1, 2, 2, 1, 1, 0, 1, 1, 0, 2, 3, 3, 1, 2, 1, 1, 1, 2, 3]"

text \<open>After the call: the value goes to \<^verbatim>\<open>a0\<close>, and a traced call prints a line.\<close>

definition syscall_finish :: "nat \<Rightarrow> nat \<Rightarrow> u64 list \<Rightarrow> int \<Rightarrow> 'a file_st_scheme \<Rightarrow> 'a file_st_scheme option" where
  "syscall_finish p num arr v s = do {
     let s = tf_set tf_a0 (word_of_int v) p s;
     if bit (trace_mask (procs s p)) num then do {
       s \<leftarrow> printf (chars ''%d: syscall %s ('') [AInt (pid (procs s p)), AStr (Some (syscall_names num))] s;
       s \<leftarrow> for_each [0..<syscall_num ! num] (\<lambda>i. printf (chars ''%d '') [AWord (arr ! i)]) s;
       s \<leftarrow> printf [8] [] s;
       a0 \<leftarrow> argraw 0 s;
       s \<leftarrow> printf (chars '') -> %d'') [AWord a0] s;
       printf [10] [] s }
     else Some s }"

text \<open>The string in \<^verbatim>\<open>p->name\<close>.\<close>

definition name_str :: "buf \<Rightarrow> bytes" where
  "name_str b = takeWhile (\<lambda>c. c \<noteq> 0) (map b [0..<16])"

text \<open>\<^verbatim>\<open>syscall_num[num]\<close> is read before the number is checked: outside the array the behaviour is
  undefined, and the model does not return.\<close>

definition syscall :: "'a file_st_scheme \<Rightarrow> (unit outcome \<times> 'a file_st_scheme) option" where
  "syscall s = do {
     p \<leftarrow> myproc s;
     let num = sint (ucast (tf_get tf_a7 p s) :: u32);
     _ \<leftarrow> panic_if (num < 0 \<or> num \<ge> int (length syscall_num));
     arr \<leftarrow> those (map (\<lambda>i. argraw i s) [0..<syscall_num ! nat num]);
     case syscalls (nat num) of
       Some f \<Rightarrow> do {
         (r, s) \<leftarrow> f s;
         case r of Sleeps \<Rightarrow> Some (Sleeps, s)
         | Returns v \<Rightarrow> do { s \<leftarrow> syscall_finish p (nat num) arr v s; Some (Returns (), s) } }
     | None \<Rightarrow> do {
         s \<leftarrow> printf (chars ''%d %s: unknown sys call %d'' @ [10])
                [AInt (pid (procs s p)), AStr (Some (name_str (p_name (procs s p)))), AInt num] s;
         Some (Returns (), tf_set tf_a0 (- 1) p s) } }"

end
