(* ===== verification/Virtio.thy ===== *)
theory Virtio
  imports Bio
begin

text \<open>
  The disk driver, \<^verbatim>\<open>kernel/virtio_disk.c\<close>, with the structures of \<^verbatim>\<open>kernel/virtio.h\<close>.  The shared memory of
  driver and device is a record of its own, threaded beside the kernel state.  A descriptor's address
  is one of the three objects the driver points descriptors at; \<open>vd_pages\<close> is where the rings lie.  \<open>vd_busy\<close> is \<^verbatim>\<open>b->disk\<close>, \<open>vd_regs\<close>
  what the device's registers show, \<open>vd_writes\<close> the register writes made.

  \<^verbatim>\<open>virtio_disk_rw\<close> waits twice, for descriptors and for the device; it is cut at these points.
\<close>

abbreviation NUM :: nat where "NUM \<equiv> 8"
abbreviation VRING_DESC_F_NEXT :: u16 where "VRING_DESC_F_NEXT \<equiv> 1"
abbreviation VRING_DESC_F_WRITE :: u16 where "VRING_DESC_F_WRITE \<equiv> 2"
abbreviation VIRTIO_BLK_T_IN :: u32 where "VIRTIO_BLK_T_IN \<equiv> 0"
abbreviation VIRTIO_BLK_T_OUT :: u32 where "VIRTIO_BLK_T_OUT \<equiv> 1"

datatype dma = DNull | DOps nat | DData nat | DStatus nat

record virtq_desc =
  d_addr :: dma
  d_len :: u32
  d_flags :: u16
  d_next :: u16

record virtio_blk_req =
  rq_type :: u32
  rq_reserved :: u32
  rq_sector :: u64

record vdisk =
  vd_desc :: "nat \<Rightarrow> virtq_desc"
  vd_avail_idx :: u16
  vd_avail_ring :: "nat \<Rightarrow> u16"
  vd_dev_idx :: u16
  vd_dev_ring :: "nat \<Rightarrow> u32"
  vd_free :: "nat \<Rightarrow> bool"
  vd_used_idx :: u16
  vd_info_b :: "nat \<Rightarrow> nat option"
  vd_info_status :: "nat \<Rightarrow> u8"
  vd_ops :: "nat \<Rightarrow> virtio_blk_req"
  vd_busy :: "nat \<Rightarrow> bool"
  vd_pages :: u64
  vd_regs :: "nat \<Rightarrow> u32"
  vd_writes :: "(nat \<times> u32) list"

definition vwrite :: "nat \<Rightarrow> u32 \<Rightarrow> vdisk \<Rightarrow> vdisk" where
  "vwrite r v V = V\<lparr>vd_writes := vd_writes V @ [(r, v)]\<rparr>"

abbreviation no_desc :: virtq_desc where "no_desc \<equiv> \<lparr>d_addr = DNull, d_len = 0, d_flags = 0, d_next = 0\<rparr>"

definition virtio_disk_init :: "vdisk \<Rightarrow> vdisk option" where
  "virtio_disk_init V = do {
     _ \<leftarrow> panic_if (vd_regs V 0x000 \<noteq> 0x74726976 \<or> vd_regs V 0x004 \<noteq> 1 \<or> vd_regs V 0x008 \<noteq> 2 \<or>
                    vd_regs V 0x00c \<noteq> 0x554d4551);
     let V = vwrite 0x070 1 V;
     let V = vwrite 0x070 (1 OR 2) V;
     let features = vd_regs V 0x010;
     let features = fold (\<lambda>k f. f AND NOT (push_bit k 1)) [5, 7, 11, 12, 27, 29, 28] features;
     let V = vwrite 0x020 features V;
     let V = vwrite 0x070 (1 OR 2 OR 8) V;
     let V = vwrite 0x070 (1 OR 2 OR 8 OR 4) V;
     let V = vwrite 0x028 4096 V;
     let V = vwrite 0x030 0 V;
     let mx = vd_regs V 0x034;
     _ \<leftarrow> panic_if (mx = 0);
     _ \<leftarrow> panic_if (mx < of_nat NUM);
     let V = vwrite 0x038 (of_nat NUM) V;
     let V = V\<lparr>vd_desc := (\<lambda>_. no_desc), vd_avail_idx := 0, vd_avail_ring := (\<lambda>_. 0), vd_dev_idx := 0,
       vd_dev_ring := (\<lambda>_. 0)\<rparr>;
     let V = vwrite 0x040 (ucast (drop_bit 12 (vd_pages V))) V;
     Some (V\<lparr>vd_free := (\<lambda>i. i < NUM \<or> vd_free V i)\<rparr>) }"

definition alloc_desc :: "vdisk \<Rightarrow> nat option \<times> vdisk" where
  "alloc_desc V =
     (case List.find (vd_free V) [0..<NUM] of
        Some i \<Rightarrow> (Some i, V\<lparr>vd_free := (vd_free V)(i := False)\<rparr>)
      | None \<Rightarrow> (None, V))"

definition free_desc :: "nat \<Rightarrow> vdisk \<Rightarrow> 'a bio_st_scheme \<Rightarrow> (vdisk \<times> 'a bio_st_scheme) option" where
  "free_desc i V s = do {
     _ \<leftarrow> panic_if (i \<ge> NUM);
     _ \<leftarrow> panic_if (vd_free V i);
     let V = V\<lparr>vd_desc := (vd_desc V)(i := no_desc), vd_free := (vd_free V)(i := True)\<rparr>;
     s \<leftarrow> wakeup ChDiskFree s;
     Some (V, s) }"

partial_function (option) free_chain :: "nat \<Rightarrow> vdisk \<Rightarrow> 'a bio_st_scheme \<Rightarrow> (vdisk \<times> 'a bio_st_scheme) option" where
  "free_chain i V s = do {
     let flag = d_flags (vd_desc V i);
     let nxt = d_next (vd_desc V i);
     (V, s) \<leftarrow> free_desc i V s;
     if flag AND VRING_DESC_F_NEXT \<noteq> 0 then free_chain (unat nxt) V s else Some (V, s) }"

text \<open>\<open>idx\<close> holds the descriptors taken so far; \<open>k\<close> are still to be taken.\<close>

fun alloc3_from :: "nat \<Rightarrow> nat list \<Rightarrow> vdisk \<Rightarrow> 'a bio_st_scheme \<Rightarrow> (nat list option \<times> vdisk \<times> 'a bio_st_scheme) option" where
  "alloc3_from 0 idx V s = Some (Some idx, V, s)"
| "alloc3_from (Suc k) idx V s =
     (let (d, V) = alloc_desc V in
      case d of Some i \<Rightarrow> alloc3_from k (idx @ [i]) V s
      | None \<Rightarrow> do {
          (V, s) \<leftarrow> for_each idx (\<lambda>j (V, s). free_desc j V s) (V, s);
          Some (None, V, s) })"

definition alloc3_desc :: "vdisk \<Rightarrow> 'a bio_st_scheme \<Rightarrow> (nat list option \<times> vdisk \<times> 'a bio_st_scheme) option" where
  "alloc3_desc V s = alloc3_from 3 [] V s"

text \<open>The three descriptors of a request, and its head in the ring of available requests.\<close>

definition format_req :: "nat \<Rightarrow> u32 \<Rightarrow> bool \<Rightarrow> nat \<Rightarrow> nat \<Rightarrow> nat \<Rightarrow> vdisk \<Rightarrow> vdisk" where
  "format_req b blockno write i0 i1 i2 V =
     (let sector = (ucast (blockno * 2) :: u64);
          V = V\<lparr>vd_ops := (vd_ops V)(i0 := \<lparr>rq_type = (if write then VIRTIO_BLK_T_OUT else VIRTIO_BLK_T_IN),
                rq_reserved = 0, rq_sector = sector\<rparr>)\<rparr>;
          V = V\<lparr>vd_desc := (vd_desc V)(i0 := \<lparr>d_addr = DOps i0, d_len = 16, d_flags = VRING_DESC_F_NEXT, d_next = of_nat i1\<rparr>)\<rparr>;
          V = V\<lparr>vd_desc := (vd_desc V)(i1 := \<lparr>d_addr = DData b, d_len = of_nat BSIZE,
                d_flags = (if write then 0 else VRING_DESC_F_WRITE) OR VRING_DESC_F_NEXT, d_next = of_nat i2\<rparr>)\<rparr>;
          V = V\<lparr>vd_info_status := (vd_info_status V)(i0 := 0xff)\<rparr>;
          V = V\<lparr>vd_desc := (vd_desc V)(i2 := \<lparr>d_addr = DStatus i0, d_len = 1, d_flags = VRING_DESC_F_WRITE, d_next = 0\<rparr>)\<rparr>;
          V = V\<lparr>vd_busy := (vd_busy V)(b := True)\<rparr>;
          V = V\<lparr>vd_info_b := (vd_info_b V)(i0 := Some b)\<rparr>;
          V = V\<lparr>vd_avail_ring := (vd_avail_ring V)(unat (vd_avail_idx V) mod NUM := of_nat i0)\<rparr>;
          V = V\<lparr>vd_avail_idx := vd_avail_idx V + 1\<rparr> in
      vwrite 0x050 0 V)"

datatype disk_wait = WaitDesc | WaitDevice nat

text \<open>The end of \<^verbatim>\<open>virtio_disk_rw\<close>, from the loop on \<^verbatim>\<open>b->disk\<close> on; the request's head is \<open>i0\<close>.\<close>

definition disk_rw_wait :: "nat \<Rightarrow> nat \<Rightarrow> vdisk \<Rightarrow> 'a bio_st_scheme \<Rightarrow> (disk_wait option \<times> vdisk \<times> 'a bio_st_scheme) option" where
  "disk_rw_wait b i0 V s =
     (if vd_busy V b then do {
        s \<leftarrow> sleep_enter (ChDiskBuf b) VdiskLock s;
        Some (Some (WaitDevice i0), V, s) }
      else do {
        let V = V\<lparr>vd_info_b := (vd_info_b V)(i0 := None)\<rparr>;
        (V, s) \<leftarrow> free_chain i0 V s;
        s \<leftarrow> rel VdiskLock s;
        Some (None, V, s) })"

definition disk_rw_start :: "nat \<Rightarrow> bool \<Rightarrow> vdisk \<Rightarrow> 'a bio_st_scheme \<Rightarrow> (disk_wait option \<times> vdisk \<times> 'a bio_st_scheme) option" where
  "disk_rw_start b write V s = do {
     (r, V, s) \<leftarrow> alloc3_desc V s;
     case r of Some [i0, i1, i2] \<Rightarrow> disk_rw_wait b i0 (format_req b (b_blockno (bufs s b)) write i0 i1 i2 V) s
     | _ \<Rightarrow> do {
         s \<leftarrow> sleep_enter ChDiskFree VdiskLock s;
         Some (Some WaitDesc, V, s) } }"

text \<open>The result says what the caller waits for, if it does.\<close>

definition virtio_disk_rw :: "nat \<Rightarrow> bool \<Rightarrow> vdisk \<Rightarrow> 'a bio_st_scheme \<Rightarrow> (disk_wait option \<times> vdisk \<times> 'a bio_st_scheme) option" where
  "virtio_disk_rw b write V s = do {
     s \<leftarrow> acq VdiskLock s;
     disk_rw_start b write V s }"

definition virtio_disk_rw_resume :: "nat \<Rightarrow> bool \<Rightarrow> disk_wait \<Rightarrow> vdisk \<Rightarrow> 'a bio_st_scheme \<Rightarrow>
    (disk_wait option \<times> vdisk \<times> 'a bio_st_scheme) option" where
  "virtio_disk_rw_resume b write w V s = do {
     s \<leftarrow> sleep_exit VdiskLock s;
     case w of WaitDesc \<Rightarrow> disk_rw_start b write V s
     | WaitDevice i0 \<Rightarrow> disk_rw_wait b i0 V s }"

text \<open>The completions the device has added to its ring since the last interrupt.\<close>

partial_function (option) intr_loop :: "vdisk \<Rightarrow> 'a bio_st_scheme \<Rightarrow> (vdisk \<times> 'a bio_st_scheme) option" where
  "intr_loop V s =
     (if vd_used_idx V \<noteq> vd_dev_idx V then do {
        let i = unat (vd_dev_ring V (unat (vd_used_idx V) mod NUM));
        _ \<leftarrow> panic_if (vd_info_status V i \<noteq> 0);
        b \<leftarrow> vd_info_b V i;
        let V = V\<lparr>vd_busy := (vd_busy V)(b := False)\<rparr>;
        s \<leftarrow> wakeup (ChDiskBuf b) s;
        intr_loop (V\<lparr>vd_used_idx := vd_used_idx V + 1\<rparr>) s }
      else Some (V, s))"

definition virtio_disk_intr :: "vdisk \<Rightarrow> 'a bio_st_scheme \<Rightarrow> (vdisk \<times> 'a bio_st_scheme) option" where
  "virtio_disk_intr V s = do {
     s \<leftarrow> acq VdiskLock s;
     let V = vwrite 0x064 (vd_regs V 0x060 AND 0x3) V;
     (V, s) \<leftarrow> intr_loop V s;
     s \<leftarrow> rel VdiskLock s;
     Some (V, s) }"

end
