(* ===== verification/Trap.thy ===== *)
theory Trap
  imports Syscall Virtio
begin

text \<open>
  Traps and interrupts, \<^verbatim>\<open>kernel/trap.c\<close>, the interrupt controller \<^verbatim>\<open>kernel/plic.c\<close>, \<^verbatim>\<open>forkret\<close> of
  \<^verbatim>\<open>kernel/proc.c\<close>, and the boot sequence of \<^verbatim>\<open>kernel/main.c\<close>.  The build compiles the round-robin
  preemption in.

  The supervisor registers the C code reads and writes are fields of the state.  The addresses of the
  assembly routines are parameters of the state.  \<open>plic_env\<close> is what the claim register shows at
  successive reads.  A handler returns to user space (the arguments of the jump into the trampoline),
  or switches away.
\<close>

record trap_st = file_st +
  sstatus :: u64
  sepc :: u64
  scause :: u64
  stval :: u64
  stvec :: u64
  satp :: u64
  sip :: u64
  tp :: u64
  kernelvec :: u64
  usertrap_pc :: u64
  uservec :: u64
  userret :: u64
  fork_first :: bool
  plic_env :: "nat \<Rightarrow> u32"
  plic_rd :: nat
  plic_wr :: "(u64 \<times> u32) list"
  vd :: vdisk

abbreviation SSTATUS_SIE :: u64 where "SSTATUS_SIE \<equiv> 0x2"
abbreviation SSTATUS_SPIE :: u64 where "SSTATUS_SPIE \<equiv> 0x20"
abbreviation SSTATUS_SPP :: u64 where "SSTATUS_SPP \<equiv> 0x100"
abbreviation UART0_IRQ :: nat where "UART0_IRQ \<equiv> 10"
abbreviation VIRTIO0_IRQ :: nat where "VIRTIO0_IRQ \<equiv> 1"

definition cpu_intr_on :: "'a trap_st_scheme \<Rightarrow> 'a trap_st_scheme" where
  "cpu_intr_on s = s\<lparr>sstatus := sstatus s OR SSTATUS_SIE\<rparr>"

definition cpu_intr_off :: "'a trap_st_scheme \<Rightarrow> 'a trap_st_scheme" where
  "cpu_intr_off s = s\<lparr>sstatus := sstatus s AND NOT SSTATUS_SIE\<rparr>"

definition cpu_intr_get :: "'a trap_st_scheme \<Rightarrow> bool" where
  "cpu_intr_get s \<longleftrightarrow> sstatus s AND SSTATUS_SIE \<noteq> 0"

definition MAKE_SATP :: "u64 \<Rightarrow> u64" where
  "MAKE_SATP pt = push_bit 60 8 OR drop_bit 12 pt"

definition cpuid :: "'a trap_st_scheme \<Rightarrow> u64" where
  "cpuid s = tp s"

subsection \<open>The interrupt controller\<close>

definition PLIC_SENABLE :: "u64 \<Rightarrow> u64" where "PLIC_SENABLE hart = PLIC + 0x2080 + hart * 0x100"
definition PLIC_SPRIORITY :: "u64 \<Rightarrow> u64" where "PLIC_SPRIORITY hart = PLIC + 0x201000 + hart * 0x2000"
definition PLIC_SCLAIM :: "u64 \<Rightarrow> u64" where "PLIC_SCLAIM hart = PLIC + 0x201004 + hart * 0x2000"

definition plic_write :: "u64 \<Rightarrow> u32 \<Rightarrow> 'a trap_st_scheme \<Rightarrow> 'a trap_st_scheme" where
  "plic_write a v s = s\<lparr>plic_wr := plic_wr s @ [(a, v)]\<rparr>"

definition plicinit :: "'a trap_st_scheme \<Rightarrow> 'a trap_st_scheme" where
  "plicinit s =
     (let s = plic_write (PLIC + of_nat UART0_IRQ * 4) 1 s in
      plic_write (PLIC + of_nat VIRTIO0_IRQ * 4) 1 s)"

definition plicinithart :: "'a trap_st_scheme \<Rightarrow> 'a trap_st_scheme" where
  "plicinithart s =
     (let s = plic_write (PLIC_SENABLE (cpuid s)) (push_bit UART0_IRQ 1 OR push_bit VIRTIO0_IRQ 1) s in
      plic_write (PLIC_SPRIORITY (cpuid s)) 0 s)"

definition plic_claim :: "'a trap_st_scheme \<Rightarrow> u32 \<times> 'a trap_st_scheme" where
  "plic_claim s = (plic_env s (plic_rd s), s\<lparr>plic_rd := Suc (plic_rd s)\<rparr>)"

definition plic_complete :: "u32 \<Rightarrow> 'a trap_st_scheme \<Rightarrow> 'a trap_st_scheme" where
  "plic_complete irq s = plic_write (PLIC_SCLAIM (cpuid s)) irq s"

subsection \<open>Interrupts\<close>

definition trapinithart :: "'a trap_st_scheme \<Rightarrow> 'a trap_st_scheme" where
  "trapinithart s = s\<lparr>stvec := kernelvec s\<rparr>"

definition clockintr :: "'a trap_st_scheme \<Rightarrow> 'a trap_st_scheme option" where
  "clockintr s = do {
     s \<leftarrow> acq TicksLock s;
     let s = s\<lparr>ticks := ticks s + 1\<rparr>;
     s \<leftarrow> update_time s;
     s \<leftarrow> wakeup ChTicks s;
     rel TicksLock s }"

definition devintr :: "'a trap_st_scheme \<Rightarrow> (nat \<times> 'a trap_st_scheme) option" where
  "devintr s =
     (if scause s AND 0x8000000000000000 \<noteq> 0 \<and> scause s AND 0xff = 9 then do {
        let (irq, s) = plic_claim s;
        s \<leftarrow> (if irq = of_nat UART0_IRQ then uartintr s
              else if irq = of_nat VIRTIO0_IRQ then do {
                (V, s) \<leftarrow> virtio_disk_intr (vd s) s;
                Some (s\<lparr>vd := V\<rparr>) }
              else if irq \<noteq> 0 then printf (chars ''unexpected interrupt irq=%d'' @ [10]) [AWord (ucast irq)] s
              else Some s);
        let s = (if irq \<noteq> 0 then plic_complete irq s else s);
        Some (1, s) }
      else if scause s = 0x8000000000000001 then do {
        s \<leftarrow> (if cpuid s = 0 then clockintr s else Some s);
        Some (2, s\<lparr>sip := sip s AND NOT 2\<rparr>) }
      else Some (0, s))"

subsection \<open>Traps\<close>

datatype trap_out = ToUser u64 u64 u64 | Away

definition usertrapret :: "'a trap_st_scheme \<Rightarrow> (trap_out \<times> 'a trap_st_scheme) option" where
  "usertrapret s = do {
     p \<leftarrow> myproc s;
     let s = cpu_intr_off s;
     let s = s\<lparr>stvec := TRAMPOLINE + (uservec s - trampoline s)\<rparr>;
     let s = tf_set tf_kernel_satp (satp s) p s;
     let s = tf_set tf_kernel_sp (kstack (procs s p) + PGSIZE) p s;
     let s = tf_set tf_kernel_trap (usertrap_pc s) p s;
     let s = tf_set tf_kernel_hartid (tp s) p s;
     let x = sstatus s;
     let x = x AND NOT SSTATUS_SPP;
     let x = x OR SSTATUS_SPIE;
     let s = s\<lparr>sstatus := x\<rparr>;
     let s = s\<lparr>sepc := tf_get tf_epc p s\<rparr>;
     let fn = TRAMPOLINE + (userret s - trampoline s);
     Some (ToUser fn TRAPFRAME (MAKE_SATP (pagetable (procs s p))), s) }"

text \<open>The end of \<^verbatim>\<open>usertrap\<close>, after the cause has been dealt with.\<close>

definition usertrap_end :: "nat \<Rightarrow> 'a trap_st_scheme \<Rightarrow> (trap_out \<times> 'a trap_st_scheme) option" where
  "usertrap_end which_dev s = do {
     p \<leftarrow> myproc s;
     if killed (procs s p) \<noteq> 0 then do { s \<leftarrow> exit (- 1) s; Some (Away, s) }
     else if which_dev = 2 then do { s \<leftarrow> yield_enter s; Some (Away, s) }
     else usertrapret s }"

definition usertrap :: "'a trap_st_scheme \<Rightarrow> (trap_out \<times> 'a trap_st_scheme) option" where
  "usertrap s = do {
     _ \<leftarrow> panic_if (sstatus s AND SSTATUS_SPP \<noteq> 0);
     let s = s\<lparr>stvec := kernelvec s\<rparr>;
     p \<leftarrow> myproc s;
     let s = tf_set tf_epc (sepc s) p s;
     if scause s = 8 then
       if killed (procs s p) \<noteq> 0 then do { s \<leftarrow> exit (- 1) s; Some (Away, s) }
       else do {
         let s = tf_set tf_epc (tf_get tf_epc p s + 4) p s;
         let s = cpu_intr_on s;
         (r, s) \<leftarrow> syscall s;
         case r of Sleeps \<Rightarrow> Some (Away, s) | Returns _ \<Rightarrow> usertrap_end 0 s }
     else do {
       (which_dev, s) \<leftarrow> devintr s;
       if which_dev \<noteq> 0 then usertrap_end which_dev s
       else do {
         s \<leftarrow> printf (chars ''usertrap(): unexpected scause %p pid=%d'' @ [10]) [AWord (scause s), AInt (pid (procs s p))] s;
         s \<leftarrow> printf (chars ''            sepc=%p stval=%p'' @ [10]) [AWord (sepc s), AWord (stval s)] s;
         usertrap_end 0 (upd_proc p (\<lambda>q. q\<lparr>killed := 1\<rparr>) s) } } }"

definition kerneltrap_end :: "u64 \<Rightarrow> u64 \<Rightarrow> 'a trap_st_scheme \<Rightarrow> 'a trap_st_scheme" where
  "kerneltrap_end pc status s = s\<lparr>sepc := pc, sstatus := status\<rparr>"

text \<open>Returns whether the handler has given up the processor; \<open>kerneltrap_end\<close> follows then.\<close>

definition kerneltrap :: "'a trap_st_scheme \<Rightarrow> (bool \<times> 'a trap_st_scheme) option" where
  "kerneltrap s = do {
     let pc = sepc s;
     let status = sstatus s;
     _ \<leftarrow> panic_if (status AND SSTATUS_SPP = 0);
     _ \<leftarrow> panic_if (cpu_intr_get s);
     (which_dev, s) \<leftarrow> devintr s;
     _ \<leftarrow> panic_if (which_dev = 0);
     if which_dev = 2 \<and> (case myproc s of None \<Rightarrow> False | Some p \<Rightarrow> pstate (procs s p) = RUNNING)
     then do { s \<leftarrow> yield_enter s; Some (True, s) }
     else Some (False, kerneltrap_end pc status s) }"

definition forkret :: "'a trap_st_scheme \<Rightarrow> (trap_out \<times> 'a trap_st_scheme) option" where
  "forkret s = do {
     p \<leftarrow> myproc s;
     s \<leftarrow> rel (ProcLock p) s;
     s \<leftarrow> (if fork_first s then fsinit ROOTDEV (s\<lparr>fork_first := False\<rparr>) else Some s);
     usertrapret s }"

subsection \<open>Boot\<close>

definition kvminithart :: "'a trap_st_scheme \<Rightarrow> 'a trap_st_scheme" where
  "kvminithart s = s\<lparr>satp := MAKE_SATP (kernel_pagetable s)\<rparr>"

text \<open>\<^verbatim>\<open>main\<close> on hart 0, up to the scheduler.  \<^verbatim>\<open>trapinit\<close> and \<^verbatim>\<open>fileinit\<close> only initialise locks, which are free to begin
  with.\<close>

definition main0 :: "'a trap_st_scheme \<Rightarrow> 'a trap_st_scheme option" where
  "main0 s = do {
     let s = consoleinit s;
     let s = printfinit s;
     s \<leftarrow> printf [10] [] s;
     s \<leftarrow> printf (chars ''xv6 kernel is booting'' @ [10]) [] s;
     s \<leftarrow> printf [10] [] s;
     s \<leftarrow> kinit s;
     s \<leftarrow> kvminit s;
     let s = kvminithart s;
     let s = procinit s;
     let s = trapinithart s;
     let s = plicinit s;
     let s = plicinithart s;
     let s = binit s;
     let s = iinit s;
     V \<leftarrow> virtio_disk_init (vd s);
     let s = s\<lparr>vd := V\<rparr>;
     userinit s }"

text \<open>\<^verbatim>\<open>main\<close> on any hart, up to the scheduler; \<open>started\<close> is the flag by which hart 0 lets the others go on.  A hart that
  waits for it does not get past the loop.\<close>

definition main_hart :: "bool \<Rightarrow> 'a trap_st_scheme \<Rightarrow> (bool \<times> 'a trap_st_scheme) option" where
  "main_hart started s =
     (if cpuid s = 0 then do {
        s \<leftarrow> main0 s;
        Some (True, s) }
      else if \<not> started then None
      else do {
        s \<leftarrow> printf (chars ''hart %d starting'' @ [10]) [AInt (sint (cpuid s))] s;
        let s = kvminithart s;
        let s = trapinithart s;
        let s = plicinithart s;
        Some (started, s) })"

end
