(* ===== verification/Riscv.thy ===== *)
theory Riscv
  imports Vm_Laws
begin

text \<open>
  The assembly of the kernel: \<^verbatim>\<open>kernel/trampoline.S\<close>, \<^verbatim>\<open>kernel/swtch.S\<close>, \<^verbatim>\<open>kernel/kernelvec.S\<close> and
  \<^verbatim>\<open>kernel/entry.S\<close>, as lists of the instructions they use, with the part of the RISC-V machine that
  gives these instructions a meaning.

  A machine has 31 general registers, the control registers the code names, a privilege mode and
  physical memory.  Loads and stores go through the Sv39 table of \<^verbatim>\<open>satp\<close> unless the mode is machine mode or
  translation is off; a missing permission, an unmapped page or a misaligned address is a fault, the
  absence of a result.  The fetch of instructions and the caching of translations are not part of the machine, so
  \<^verbatim>\<open>sfence.vma\<close> has no effect.
\<close>

subsection \<open>The machine\<close>

datatype reg = Ra | Sp | Gp | Tp | T0 | T1 | T2 | S0 | S1 | A0 | A1 | A2 | A3 | A4 | A5 | A6 | A7
  | S2 | S3 | S4 | S5 | S6 | S7 | S8 | S9 | S10 | S11 | T3 | T4 | T5 | T6

datatype csr = Sscratch | Satp | Sip | Sie | Mscratch | Mhartid | Mstatus | Mepc | Medeleg | Mideleg
  | Pmpaddr0 | Pmpcfg0 | Mtvec | Mie

datatype priv = PrivU | PrivS | PrivM

record machine =
  regs :: "reg \<Rightarrow> u64"
  csrs :: "csr \<Rightarrow> u64"
  pmem :: memory
  priv :: priv

text \<open>\<^verbatim>\<open>Sd r off b\<close> is \<^verbatim>\<open>sd r, off(b)\<close>; \<^verbatim>\<open>Call f k\<close> leaves the address \<open>k\<close> of the next instruction in \<^verbatim>\<open>ra\<close>.\<close>

datatype instr = Sd reg nat reg | Ld reg nat reg | Csrrw reg csr reg | Csrr reg csr | Csrw csr reg
  | Sfence_vma | Addi reg reg u64 | Add reg reg reg | Mul reg reg reg | Li reg u64 | La reg u64
  | Jr reg | Call u64 u64 | Sret | Mret

datatype leave = Jumps u64 | Srets | Mrets

abbreviation Ret :: instr where "Ret \<equiv> Jr Ra"

definition satp_root :: "u64 \<Rightarrow> u64" where
  "satp_root v = push_bit 12 (v AND 0xFFFFFFFFFFF)"

definition xlate :: "bool \<Rightarrow> machine \<Rightarrow> u64 \<Rightarrow> u64 option" where
  "xlate w st va =
     (if unat va mod 8 \<noteq> 0 then None
      else if priv st = PrivM \<or> drop_bit 60 (csrs st Satp) = 0 then Some va
      else if va \<ge> MAXVA then None
      else case pt_lookup (pmem st) (satp_root (csrs st Satp)) va of None \<Rightarrow> None
        | Some e \<Rightarrow> if e AND (if w then PTE_W else PTE_R) \<noteq> 0 \<and> e AND PTE_U = 0
            then Some (PTE2PA e + (va - PGROUNDDOWN va)) else None)"

definition set_reg :: "reg \<Rightarrow> u64 \<Rightarrow> machine \<Rightarrow> machine" where
  "set_reg r v st = st\<lparr>regs := (regs st)(r := v)\<rparr>"

definition set_csr :: "csr \<Rightarrow> u64 \<Rightarrow> machine \<Rightarrow> machine" where
  "set_csr c v st = st\<lparr>csrs := (csrs st)(c := v)\<rparr>"

text \<open>A routine runs to the instruction that leaves it.\<close>

fun exec_code :: "instr list \<Rightarrow> machine \<Rightarrow> (leave \<times> machine) option" where
  "exec_code [] st = None"
| "exec_code (Sd r off b # is) st = do {
     a \<leftarrow> xlate True st (regs st b + of_nat off);
     exec_code is (st\<lparr>pmem := st64 a (regs st r) (pmem st)\<rparr>) }"
| "exec_code (Ld r off b # is) st = do {
     a \<leftarrow> xlate False st (regs st b + of_nat off);
     exec_code is (set_reg r (ld64 (pmem st) a) st) }"
| "exec_code (Csrrw d c r # is) st = exec_code is (set_reg d (csrs st c) (set_csr c (regs st r) st))"
| "exec_code (Csrr d c # is) st = exec_code is (set_reg d (csrs st c) st)"
| "exec_code (Csrw c r # is) st = exec_code is (set_csr c (regs st r) st)"
| "exec_code (Sfence_vma # is) st = exec_code is st"
| "exec_code (Addi d r n # is) st = exec_code is (set_reg d (regs st r + n) st)"
| "exec_code (Add d r q # is) st = exec_code is (set_reg d (regs st r + regs st q) st)"
| "exec_code (Mul d r q # is) st = exec_code is (set_reg d (regs st r * regs st q) st)"
| "exec_code (Li d n # is) st = exec_code is (set_reg d n st)"
| "exec_code (La d a # is) st = exec_code is (set_reg d a st)"
| "exec_code (Jr r # is) st = Some (Jumps (regs st r), st)"
| "exec_code (Call f k # is) st = Some (Jumps f, set_reg Ra k st)"
| "exec_code (Sret # is) st = Some (Srets, st)"
| "exec_code (Mret # is) st = Some (Mrets, st)"

subsection \<open>The code\<close>

definition uservec_code :: "instr list" where
  "uservec_code =
    [Csrrw A0 Sscratch A0,
     Sd Ra 40 A0, Sd Sp 48 A0, Sd Gp 56 A0, Sd Tp 64 A0, Sd T0 72 A0, Sd T1 80 A0, Sd T2 88 A0, Sd S0 96 A0,
     Sd S1 104 A0, Sd A1 120 A0, Sd A2 128 A0, Sd A3 136 A0, Sd A4 144 A0, Sd A5 152 A0, Sd A6 160 A0,
     Sd A7 168 A0, Sd S2 176 A0, Sd S3 184 A0, Sd S4 192 A0, Sd S5 200 A0, Sd S6 208 A0, Sd S7 216 A0,
     Sd S8 224 A0, Sd S9 232 A0, Sd S10 240 A0, Sd S11 248 A0, Sd T3 256 A0, Sd T4 264 A0, Sd T5 272 A0,
     Sd T6 280 A0,
     Csrr T0 Sscratch, Sd T0 112 A0,
     Ld Sp 8 A0, Ld Tp 32 A0, Ld T0 16 A0,
     Ld T1 0 A0, Csrw Satp T1, Sfence_vma,
     Jr T0]"

definition userret_code :: "instr list" where
  "userret_code =
    [Csrw Satp A1, Sfence_vma,
     Ld T0 112 A0, Csrw Sscratch T0,
     Ld Ra 40 A0, Ld Sp 48 A0, Ld Gp 56 A0, Ld Tp 64 A0, Ld T0 72 A0, Ld T1 80 A0, Ld T2 88 A0, Ld S0 96 A0,
     Ld S1 104 A0, Ld A1 120 A0, Ld A2 128 A0, Ld A3 136 A0, Ld A4 144 A0, Ld A5 152 A0, Ld A6 160 A0,
     Ld A7 168 A0, Ld S2 176 A0, Ld S3 184 A0, Ld S4 192 A0, Ld S5 200 A0, Ld S6 208 A0, Ld S7 216 A0,
     Ld S8 224 A0, Ld S9 232 A0, Ld S10 240 A0, Ld S11 248 A0, Ld T3 256 A0, Ld T4 264 A0, Ld T5 272 A0,
     Ld T6 280 A0,
     Csrrw A0 Sscratch A0,
     Sret]"

definition swtch_code :: "instr list" where
  "swtch_code =
    [Sd Ra 0 A0, Sd Sp 8 A0, Sd S0 16 A0, Sd S1 24 A0, Sd S2 32 A0, Sd S3 40 A0, Sd S4 48 A0, Sd S5 56 A0,
     Sd S6 64 A0, Sd S7 72 A0, Sd S8 80 A0, Sd S9 88 A0, Sd S10 96 A0, Sd S11 104 A0,
     Ld Ra 0 A1, Ld Sp 8 A1, Ld S0 16 A1, Ld S1 24 A1, Ld S2 32 A1, Ld S3 40 A1, Ld S4 48 A1, Ld S5 56 A1,
     Ld S6 64 A1, Ld S7 72 A1, Ld S8 80 A1, Ld S9 88 A1, Ld S10 96 A1, Ld S11 104 A1,
     Ret]"

text \<open>\<^verbatim>\<open>kernelvec\<close> up to its call of \<^verbatim>\<open>kerneltrap\<close>, and from the return of the call on.\<close>

definition kernelvec_save :: "u64 \<Rightarrow> u64 \<Rightarrow> instr list" where
  "kernelvec_save kerneltrap back =
    [Addi Sp Sp (- 256),
     Sd Ra 0 Sp, Sd Sp 8 Sp, Sd Gp 16 Sp, Sd Tp 24 Sp, Sd T0 32 Sp, Sd T1 40 Sp, Sd T2 48 Sp, Sd S0 56 Sp,
     Sd S1 64 Sp, Sd A0 72 Sp, Sd A1 80 Sp, Sd A2 88 Sp, Sd A3 96 Sp, Sd A4 104 Sp, Sd A5 112 Sp, Sd A6 120 Sp,
     Sd A7 128 Sp, Sd S2 136 Sp, Sd S3 144 Sp, Sd S4 152 Sp, Sd S5 160 Sp, Sd S6 168 Sp, Sd S7 176 Sp,
     Sd S8 184 Sp, Sd S9 192 Sp, Sd S10 200 Sp, Sd S11 208 Sp, Sd T3 216 Sp, Sd T4 224 Sp, Sd T5 232 Sp,
     Sd T6 240 Sp,
     Call kerneltrap back]"

definition kernelvec_restore :: "instr list" where
  "kernelvec_restore =
    [Ld Ra 0 Sp, Ld Sp 8 Sp, Ld Gp 16 Sp, Ld T0 32 Sp, Ld T1 40 Sp, Ld T2 48 Sp, Ld S0 56 Sp, Ld S1 64 Sp,
     Ld A0 72 Sp, Ld A1 80 Sp, Ld A2 88 Sp, Ld A3 96 Sp, Ld A4 104 Sp, Ld A5 112 Sp, Ld A6 120 Sp, Ld A7 128 Sp,
     Ld S2 136 Sp, Ld S3 144 Sp, Ld S4 152 Sp, Ld S5 160 Sp, Ld S6 168 Sp, Ld S7 176 Sp, Ld S8 184 Sp,
     Ld S9 192 Sp, Ld S10 200 Sp, Ld S11 208 Sp, Ld T3 216 Sp, Ld T4 224 Sp, Ld T5 232 Sp, Ld T6 240 Sp,
     Addi Sp Sp 256,
     Sret]"

definition timervec_code :: "instr list" where
  "timervec_code =
    [Csrrw A0 Mscratch A0, Sd A1 0 A0, Sd A2 8 A0, Sd A3 16 A0,
     Ld A1 24 A0, Ld A2 32 A0, Ld A3 0 A1, Add A3 A3 A2, Sd A3 0 A1,
     Li A1 2, Csrw Sip A1,
     Ld A3 16 A0, Ld A2 8 A0, Ld A1 0 A0, Csrrw A0 Mscratch A0,
     Mret]"

definition entry_code :: "u64 \<Rightarrow> u64 \<Rightarrow> u64 \<Rightarrow> instr list" where
  "entry_code stack0 start_pc spin_pc =
    [La Sp stack0, Li A0 (1024 * 4), Csrr A1 Mhartid, Addi A1 A1 1, Mul A0 A0 A1, Add Sp Sp A0,
     Call start_pc spin_pc]"

subsection \<open>Saving and restoring registers\<close>

text \<open>An area of \<open>n\<close> bytes at the virtual address \<open>b\<close> that loads and stores reach at the physical address
  \<open>pa\<close>, also after memory has been written at the addresses of \<open>F\<close>, which include the area.\<close>

definition frame :: "u64 set \<Rightarrow> machine \<Rightarrow> u64 \<Rightarrow> u64 \<Rightarrow> nat \<Rightarrow> bool" where
  "frame F st b pa n \<longleftrightarrow> n \<le> 4096 \<and> {a. in_rng a pa n} \<subseteq> F \<and>
     (\<forall>m off w. (\<forall>a. a \<notin> F \<longrightarrow> m a = pmem st a) \<and> 8 dvd off \<and> off < n \<longrightarrow>
     xlate w (st\<lparr>pmem := m\<rparr>) (b + of_nat off) = Some (pa + of_nat off))"

definition slots_ok :: "nat \<Rightarrow> (reg \<times> nat) list \<Rightarrow> bool" where
  "slots_ok n L \<longleftrightarrow> 8 dvd n \<and> n \<le> 4096 \<and> (\<forall>q\<in>set (map snd L). 8 dvd q \<and> q < n) \<and> distinct (map fst L) \<and> distinct (map snd L)"

definition saves :: "(reg \<Rightarrow> u64) \<Rightarrow> u64 \<Rightarrow> (reg \<times> nat) list \<Rightarrow> memory \<Rightarrow> memory" where
  "saves R pa L m = fold (\<lambda>(r, off) m. st64 (pa + of_nat off) (R r) m) L m"

definition loads :: "memory \<Rightarrow> u64 \<Rightarrow> (reg \<times> nat) list \<Rightarrow> (reg \<Rightarrow> u64) \<Rightarrow> (reg \<Rightarrow> u64)" where
  "loads m pa L R = fold (\<lambda>(r, off) R. R(r := ld64 m (pa + of_nat off))) L R"

lemma slot_in_area: "off + 8 \<le> n \<Longrightarrow> n \<le> 4096 \<Longrightarrow> in_rng a (pa + of_nat off) 8 \<Longrightarrow> in_rng a pa n"
proof -
  assume n: "off + 8 \<le> n" "n \<le> 4096" and "in_rng a (pa + of_nat off) 8"
  then obtain i where i: "i < 8" "a = pa + of_nat off + of_nat i" by (auto simp: in_rng_iff)
  then have "a = pa + of_nat (off + i)" by (simp add: add.assoc)
  then show ?thesis using in_rng_offset [of "off + i" n pa] i(1) n by simp
qed

lemma aligned_slot: "8 dvd (off :: nat) \<Longrightarrow> off < n \<Longrightarrow> 8 dvd n \<Longrightarrow> off + 8 \<le> n"
  by (elim dvdE) auto

lemma areas_apart:
  assumes "8 dvd i" and "8 dvd j" and "i \<noteq> j" and "i < 4096" and "j < 4096"
    and "in_rng a (pa + of_nat i) 8" and "in_rng a (pa + of_nat j) 8"
  shows False
proof -
  obtain k l where k: "k < 8" "l < 8" "a = pa + of_nat (i + k)" "a = pa + of_nat (j + l)"
    using assms(6,7) by (auto simp: in_rng_iff add.assoc)
  then have "i + k = j + l" using assms(4,5) offset_inj [of "i + k" "j + l" pa] by auto
  then show False using assms(1,2,3) k(1,2) by (elim dvdE) auto
qed

lemma ld64_st64_slot:
  "8 dvd i \<Longrightarrow> 8 dvd j \<Longrightarrow> i \<noteq> j \<Longrightarrow> i < 4096 \<Longrightarrow> j < 4096 \<Longrightarrow>
     ld64 (st64 (pa + of_nat i) v m) (pa + of_nat j) = ld64 m (pa + of_nat j)"
  using areas_apart [of i j] by (intro ld64_cong st64_other) blast

lemma frame_mem:
  "frame F st b pa n \<Longrightarrow> (\<And>a. a \<notin> F \<Longrightarrow> m a = pmem st a) \<Longrightarrow> frame F (st\<lparr>pmem := m\<rparr>) b pa n"
  unfolding frame_def by simp

lemma xlate_cong:
  assumes "csrs st Satp = csrs st' Satp" and "pmem st = pmem st'" and "priv st = priv st'"
  shows "xlate w st va = xlate w st' va"
  unfolding xlate_def assms by (rule refl)

lemma frame_cong:
  assumes "frame F st b pa n" and "csrs st Satp = csrs st' Satp" and "pmem st = pmem st'" and "priv st = priv st'"
  shows "frame F st' b pa n"
proof -
  have "xlate w (st\<lparr>pmem := m\<rparr>) va = xlate w (st'\<lparr>pmem := m\<rparr>) va" for w m va
    by (rule xlate_cong) (simp_all add: assms(2,4))
  then show ?thesis using assms(1) unfolding frame_def assms(3) by simp
qed

lemma frame_xlate:
  assumes "frame F st b pa n" and "8 dvd off" and "off < n"
  shows "xlate w st (b + of_nat off) = Some (pa + of_nat off)"
proof -
  have "xlate w (st\<lparr>pmem := pmem st\<rparr>) (b + of_nat off) = Some (pa + of_nat off)"
    using assms unfolding frame_def by blast
  then show ?thesis by simp
qed

lemma frame_area: "frame F st b pa n \<Longrightarrow> a \<notin> F \<Longrightarrow> \<not> in_rng a pa n"
  unfolding frame_def by blast

lemma frame_st64:
  assumes "frame F st b pa n" and "off + 8 \<le> n"
  shows "frame F (st\<lparr>pmem := st64 (pa + of_nat off) v (pmem st)\<rparr>) b pa n"
proof (rule frame_mem [OF assms(1)])
  fix a assume "a \<notin> F"
  then have "\<not> in_rng a (pa + of_nat off) 8"
    using frame_area [OF assms(1)] slot_in_area [OF assms(2)] assms(1) unfolding frame_def by blast
  then show "st64 (pa + of_nat off) v (pmem st) a = pmem st a" by (rule st64_other)
qed

lemma exec_saves:
  assumes "slots_ok n L" and "frame F st (regs st b) pa n"
  shows "exec_code (map (\<lambda>(r, off). Sd r off b) L @ is) st = exec_code is (st\<lparr>pmem := saves (regs st) pa L (pmem st)\<rparr>)"
  using assms
proof (induction L arbitrary: st)
  case Nil
  then show ?case by (simp add: saves_def)
next
  case (Cons p L)
  obtain r off where p: "p = (r, off)" by force
  have off: "8 dvd off" "off < n" "off + 8 \<le> n" using Cons.prems(1) aligned_slot by (auto simp: slots_ok_def p)
  let ?st = "st\<lparr>pmem := st64 (pa + of_nat off) (regs st r) (pmem st)\<rparr>"
  have "frame F ?st (regs ?st b) pa n" using frame_st64 [OF Cons.prems(2) off(3)] by simp
  moreover have "slots_ok n L" using Cons.prems(1) by (simp add: slots_ok_def)
  ultimately show ?case using Cons.IH [of ?st] frame_xlate [OF Cons.prems(2) off(1,2)]
    by (simp add: p saves_def)
qed

lemma exec_loads:
  assumes "slots_ok n L" and "frame F st B pa n" and "regs st b = B"
    and "\<And>off. (b, off) \<in> set L \<Longrightarrow> ld64 (pmem st) (pa + of_nat off) = B"
  shows "exec_code (map (\<lambda>(r, off). Ld r off b) L @ is) st = exec_code is (st\<lparr>regs := loads (pmem st) pa L (regs st)\<rparr>)"
  using assms
proof (induction L arbitrary: st)
  case Nil
  then show ?case by (simp add: loads_def)
next
  case (Cons p L)
  obtain r off where p: "p = (r, off)" by force
  have off: "8 dvd off" "off < n" using Cons.prems(1) by (auto simp: slots_ok_def p)
  let ?st = "set_reg r (ld64 (pmem st) (pa + of_nat off)) st"
  have x: "xlate False st (regs st b + of_nat off) = Some (pa + of_nat off)"
    using frame_xlate [OF Cons.prems(2) off] Cons.prems(3) by simp
  have "exec_code (map (\<lambda>(r, off). Ld r off b) L @ is) ?st =
      exec_code is (?st\<lparr>regs := loads (pmem ?st) pa L (regs ?st)\<rparr>)"
  proof (rule Cons.IH)
    show "slots_ok n L" using Cons.prems(1) by (simp add: slots_ok_def)
    show "frame F ?st B pa n" by (rule frame_cong [OF Cons.prems(2)]) (simp_all add: set_reg_def)
    show "regs ?st b = B" using Cons.prems(3,4) by (auto simp: set_reg_def p)
    show "ld64 (pmem ?st) (pa + of_nat o') = B" if "(b, o') \<in> set L" for o'
      using Cons.prems(4) that by (simp add: set_reg_def)
  qed
  then show ?case using x by (simp add: p loads_def set_reg_def)
qed

lemma loads_other: "r \<notin> fst ` set L \<Longrightarrow> loads m pa L R r = R r"
  unfolding loads_def by (induction L arbitrary: R) force+

lemma loads_slot: "distinct (map fst L) \<Longrightarrow> (r, off) \<in> set L \<Longrightarrow> loads m pa L R r = ld64 m (pa + of_nat off)"
proof (induction L arbitrary: R)
  case (Cons p L)
  then show ?case
    using loads_other [of r L m pa] by (cases p) (auto simp: loads_def)
qed simp

lemma saves_frame:
  assumes "slots_ok n L" and "\<not> in_rng a pa n"
  shows "saves R pa L m a = m a"
  using assms
proof (induction L arbitrary: m)
  case (Cons p L)
  then have "slots_ok n L" "snd p + 8 \<le> n" "n \<le> 4096" using aligned_slot by (auto simp: slots_ok_def)
  then show ?case
    using Cons.IH [of "st64 (pa + of_nat (snd p)) (R (fst p)) m"] Cons.prems(2) slot_in_area [of "snd p" n a pa]
    by (cases p) (auto simp: saves_def intro: st64_other)
qed (simp add: saves_def)

lemma saves_ld64:
  assumes "slots_ok n L" and "8 dvd off" and "off < n"
  shows "ld64 (saves R pa L m) (pa + of_nat off) =
    (case List.find (\<lambda>(r, q). q = off) L of Some (r, q) \<Rightarrow> R r | None \<Rightarrow> ld64 m (pa + of_nat off))"
  using assms
proof (induction L arbitrary: m)
  case (Cons p L)
  obtain r q where p: "p = (r, q)" by force
  have L: "slots_ok n L" and q: "8 dvd q" "q < n" "n \<le> 4096" "q \<notin> snd ` set L"
    using Cons.prems(1) by (auto simp: slots_ok_def p)
  have *: "ld64 (saves R pa L m') (pa + of_nat off) =
      (case List.find (\<lambda>(r, q). q = off) L of Some (r, q) \<Rightarrow> R r | None \<Rightarrow> ld64 m' (pa + of_nat off))" for m'
    by (rule Cons.IH [OF L Cons.prems(2,3)])
  have step: "saves R pa (p # L) m = saves R pa L (st64 (pa + of_nat q) (R r) m)" by (simp add: saves_def p)
  show ?case
  proof (cases "q = off")
    case True
    then have "List.find (\<lambda>(r, q). q = off) L = None" using q(4) by (force simp: find_None_iff)
    then show ?thesis unfolding step * by (simp add: p True ld64_st64_same)
  next
    case False
    then show ?thesis unfolding step * using q Cons.prems(2,3) by (simp add: p ld64_st64_slot split: option.split)
  qed
qed (simp add: saves_def)

lemma slots_ok_off: "slots_ok n L \<Longrightarrow> (r, off) \<in> set L \<Longrightarrow> 8 dvd off \<and> off < n \<and> n \<le> 4096 \<and> off + 8 \<le> n"
  unfolding slots_ok_def using aligned_slot [of off n] by fastforce

lemma slots_ok_in: "slots_ok n L \<Longrightarrow> (r, off) \<in> set L \<Longrightarrow> in_rng a (pa + of_nat off) 8 \<Longrightarrow> in_rng a pa n"
  using slot_in_area slots_ok_off by blast

lemma saves_slot:
  assumes "slots_ok n L" and "(r, off) \<in> set L"
  shows "ld64 (saves R pa L m) (pa + of_nat off) = R r"
proof -
  have off: "8 dvd off" "off < n" using slots_ok_off [OF assms] by auto
  have "distinct (map snd L)" using assms(1) by (simp add: slots_ok_def)
  then have "List.find (\<lambda>(r, q). q = off) L = Some (r, off)"
    using assms(2) by (induction L) force+
  then show ?thesis using saves_ld64 [OF assms(1) off, of R pa m] by simp
qed

lemma saves_cong: "(\<And>r. r \<in> fst ` set L \<Longrightarrow> R r = R' r) \<Longrightarrow> saves R pa L m = saves R' pa L m"
  unfolding saves_def by (induction L arbitrary: m) force+

lemma saves_append: "saves R pa (L @ L') m = saves R pa L' (saves R pa L m)"
  by (simp add: saves_def)

lemma loads_append: "loads m pa (L @ L') R = loads m pa L' (loads m pa L R)"
  by (simp add: loads_def)

lemma loads_absorb: "distinct (map fst L) \<Longrightarrow> r \<in> fst ` set L \<Longrightarrow> loads m pa L (R(r := v)) = loads m pa L R"
proof
  fix q
  assume L: "distinct (map fst L)" "r \<in> fst ` set L"
  show "loads m pa L (R(r := v)) q = loads m pa L R q"
  proof (cases "q \<in> fst ` set L")
    case True
    then obtain off where "(q, off) \<in> set L" by force
    then show ?thesis by (simp add: loads_slot [OF L(1)])
  next
    case False
    then show ?thesis using L(2) by (auto simp: loads_other)
  qed
qed

text \<open>The area survives every change outside the translation.\<close>

lemma frame_keep:
  assumes "frame F st b pa n" and "csrs st' Satp = csrs st Satp" and "priv st' = priv st"
    and "\<And>a. a \<notin> F \<Longrightarrow> pmem st' a = pmem st a"
  shows "frame F st' b pa n"
  by (rule frame_cong [OF frame_mem [OF assms(1), of "pmem st'"]]) (simp_all add: assms)

subsection \<open>Between user space and the kernel\<close>

definition user_slots :: "(reg \<times> nat) list" where
  "user_slots = [(Ra, 40), (Sp, 48), (Gp, 56), (Tp, 64), (T0, 72), (T1, 80), (T2, 88), (S0, 96), (S1, 104),
     (A1, 120), (A2, 128), (A3, 136), (A4, 144), (A5, 152), (A6, 160), (A7, 168), (S2, 176), (S3, 184), (S4, 192),
     (S5, 200), (S6, 208), (S7, 216), (S8, 224), (S9, 232), (S10, 240), (S11, 248), (T3, 256), (T4, 264), (T5, 272),
     (T6, 280)]"

text \<open>With \<^verbatim>\<open>a0\<close> these are the registers of \<^verbatim>\<open>struct trapframe\<close>.\<close>

definition tf_slots :: "(reg \<times> nat) list" where
  "tf_slots = user_slots @ [(A0, 112)]"

lemma uservec_parts:
  "uservec_code = Csrrw A0 Sscratch A0 # map (\<lambda>(r, off). Sd r off A0) user_slots @ Csrr T0 Sscratch #
     map (\<lambda>(r, off). Sd r off A0) [(T0, 112)] @ map (\<lambda>(r, off). Ld r off A0) [(Sp, 8), (Tp, 32), (T0, 16), (T1, 0)] @
     [Csrw Satp T1, Sfence_vma, Jr T0]"
  by (simp add: uservec_code_def user_slots_def)

lemma userret_parts:
  "userret_code = Csrw Satp A1 # Sfence_vma # map (\<lambda>(r, off). Ld r off A0) [(T0, 112)] @ Csrw Sscratch T0 #
     map (\<lambda>(r, off). Ld r off A0) user_slots @ [Csrrw A0 Sscratch A0, Sret]"
  by (simp add: userret_code_def user_slots_def)

lemma user_slots_ok: "slots_ok 288 user_slots" "slots_ok 288 tf_slots" "A0 \<notin> fst ` set user_slots"
  "T0 \<in> fst ` set user_slots"
  by (simp_all add: slots_ok_def user_slots_def tf_slots_def)

lemma A0_user_slots [simp]: "(A0, off) \<notin> set user_slots"
  by (simp add: user_slots_def)

lemma distinct_user_slots [simp]: "distinct (map fst user_slots)" "distinct (map fst tf_slots)"
  using user_slots_ok(1,2) by (simp_all add: slots_ok_def)

lemma tf_slots_all: "r \<in> fst ` set tf_slots"
  by (cases r) (simp_all add: tf_slots_def user_slots_def)

text \<open>\<^verbatim>\<open>uservec\<close> saves all registers and enters the kernel with what the trapframe says.\<close>

lemma uservec_spec:
  assumes "frame F st (csrs st Sscratch) pa 288"
  shows "exec_code uservec_code st = Some (Jumps (ld64 (pmem st) (pa + 16)),
    st\<lparr>regs := (regs st)(A0 := csrs st Sscratch, Sp := ld64 (pmem st) (pa + 8), Tp := ld64 (pmem st) (pa + 32),
         T0 := ld64 (pmem st) (pa + 16), T1 := ld64 (pmem st) pa),
       csrs := (csrs st)(Sscratch := regs st A0, Satp := ld64 (pmem st) pa),
       pmem := saves (regs st) pa tf_slots (pmem st)\<rparr>)"
proof -
  let ?b = "csrs st Sscratch"
  define st1 where "st1 = st\<lparr>regs := (regs st)(A0 := ?b), csrs := (csrs st)(Sscratch := regs st A0)\<rparr>"
  define m where "m = saves (regs st) pa user_slots (pmem st)"
  define st2 where "st2 = st1\<lparr>regs := (regs st)(A0 := ?b, T0 := regs st A0), pmem := m\<rparr>"
  define m' where "m' = saves (regs st) pa tf_slots (pmem st)"
  define st3 where "st3 = st2\<lparr>pmem := m'\<rparr>"
  have f1: "frame F st1 (regs st1 A0) pa 288"
    using frame_keep [OF assms, of st1] by (simp add: st1_def)
  have m: "m = saves (regs st1) pa user_slots (pmem st1)"
    unfolding m_def st1_def by (simp, rule saves_cong) auto
  have f2: "frame F st2 (regs st2 A0) pa 288"
    using frame_keep [OF assms, of st2] saves_frame [OF user_slots_ok(1)] frame_area [OF assms] by (simp add: st2_def st1_def m_def)
  have m': "m' = saves (regs st2) pa [(T0, 112)] (pmem st2)"
    by (simp add: m'_def tf_slots_def saves_append st2_def m_def) (simp add: saves_def)
  have f3: "frame F st3 ?b pa 288"
    using frame_keep [OF assms, of st3] saves_frame [OF user_slots_ok(2)] frame_area [OF assms] by (simp add: st3_def st2_def st1_def m'_def)
  have step: "exec_code (Csrr T0 Sscratch # is) (st1\<lparr>pmem := m\<rparr>) = exec_code is st2" for "is"
    unfolding st2_def st1_def by (cases st) (simp add: set_reg_def)
  have ld: "ld64 m' (pa + of_nat off) = ld64 (pmem st) (pa + of_nat off)" if "off \<in> {0, 8, 16, 32}" for off
    using that saves_ld64 [OF user_slots_ok(2), of off "regs st" pa "pmem st"]
    by (auto simp: m'_def tf_slots_def user_slots_def)
  have ld': "ld64 m' (pa + 8) = ld64 (pmem st) (pa + 8)" "ld64 m' (pa + 16) = ld64 (pmem st) (pa + 16)"
    "ld64 m' (pa + 32) = ld64 (pmem st) (pa + 32)" "ld64 m' pa = ld64 (pmem st) pa"
    using ld [of 8] ld [of 16] ld [of 32] ld [of 0] by simp_all
  have "exec_code uservec_code st = exec_code (map (\<lambda>(r, off). Sd r off A0) user_slots @ Csrr T0 Sscratch #
     map (\<lambda>(r, off). Sd r off A0) [(T0, 112)] @ map (\<lambda>(r, off). Ld r off A0) [(Sp, 8), (Tp, 32), (T0, 16), (T1, 0)] @
     [Csrw Satp T1, Sfence_vma, Jr T0]) st1"
    unfolding uservec_parts st1_def by (cases st) (simp add: set_reg_def set_csr_def)
  also have "\<dots> = exec_code (map (\<lambda>(r, off). Sd r off A0) [(T0, 112)] @
     map (\<lambda>(r, off). Ld r off A0) [(Sp, 8), (Tp, 32), (T0, 16), (T1, 0)] @ [Csrw Satp T1, Sfence_vma, Jr T0]) st2"
    unfolding exec_saves [OF user_slots_ok(1) f1] m [symmetric] by (rule step)
  also have "\<dots> = exec_code (map (\<lambda>(r, off). Ld r off A0) [(Sp, 8), (Tp, 32), (T0, 16), (T1, 0)] @
     [Csrw Satp T1, Sfence_vma, Jr T0]) st3"
    unfolding st3_def m' by (rule exec_saves [OF _ f2]) (simp add: slots_ok_def)
  also have "\<dots> = exec_code [Csrw Satp T1, Sfence_vma, Jr T0]
     (st3\<lparr>regs := loads (pmem st3) pa [(Sp, 8), (Tp, 32), (T0, 16), (T1, 0)] (regs st3)\<rparr>)"
    by (rule exec_loads [OF _ f3]) (simp_all add: slots_ok_def st3_def st2_def)
  also have "\<dots> = Some (Jumps (ld64 (pmem st) (pa + 16)),
    st\<lparr>regs := (regs st)(A0 := csrs st Sscratch, Sp := ld64 (pmem st) (pa + 8), Tp := ld64 (pmem st) (pa + 32),
         T0 := ld64 (pmem st) (pa + 16), T1 := ld64 (pmem st) pa),
       csrs := (csrs st)(Sscratch := regs st A0, Satp := ld64 (pmem st) pa), pmem := m'\<rparr>)"
    using ld' by (cases st) (simp add: loads_def st3_def st2_def st1_def set_csr_def fun_upd_twist)
  finally show ?thesis unfolding m'_def .
qed

text \<open>\<^verbatim>\<open>userret\<close> loads all registers from the trapframe.\<close>

lemma userret_spec:
  assumes "frame F (set_csr Satp (regs st A1) st) (regs st A0) pa 288"
  shows "exec_code userret_code st = Some (Srets,
    st\<lparr>regs := loads (pmem st) pa tf_slots (regs st),
       csrs := (csrs st)(Satp := regs st A1, Sscratch := regs st A0)\<rparr>)"
proof -
  let ?b = "regs st A0" let ?a0 = "ld64 (pmem st) (pa + 112)"
  define st1 where "st1 = set_csr Satp (regs st A1) st"
  define st2 where "st2 = st1\<lparr>regs := (regs st)(T0 := ?a0), csrs := (csrs st1)(Sscratch := ?a0)\<rparr>"
  have f2: "frame F st2 ?b pa 288"
    by (rule frame_keep [OF assms]) (simp_all add: st2_def st1_def set_csr_def)
  have step: "exec_code (Csrw Sscratch T0 # is) (st1\<lparr>regs := loads (pmem st1) pa [(T0, 112)] (regs st1)\<rparr>) = exec_code is st2"
    for "is"
    unfolding st2_def st1_def by (cases st) (simp add: loads_def set_csr_def)
  have "exec_code userret_code st = exec_code (map (\<lambda>(r, off). Ld r off A0) [(T0, 112)] @ Csrw Sscratch T0 #
     map (\<lambda>(r, off). Ld r off A0) user_slots @ [Csrrw A0 Sscratch A0, Sret]) st1"
    unfolding userret_parts by (simp add: st1_def)
  also have "\<dots> = exec_code (Csrw Sscratch T0 # map (\<lambda>(r, off). Ld r off A0) user_slots @
     [Csrrw A0 Sscratch A0, Sret]) (st1\<lparr>regs := loads (pmem st1) pa [(T0, 112)] (regs st1)\<rparr>)"
    by (rule exec_loads [OF _ assms [folded st1_def]]) (simp_all add: slots_ok_def st1_def set_csr_def)
  also have "\<dots> = exec_code (map (\<lambda>(r, off). Ld r off A0) user_slots @ [Csrrw A0 Sscratch A0, Sret]) st2"
    by (rule step)
  also have "\<dots> = exec_code [Csrrw A0 Sscratch A0, Sret] (st2\<lparr>regs := loads (pmem st2) pa user_slots (regs st2)\<rparr>)"
    by (rule exec_loads [OF user_slots_ok(1) f2]) (simp_all add: st2_def st1_def)
  also have "loads (pmem st2) pa user_slots (regs st2) = loads (pmem st) pa user_slots (regs st)"
    using loads_absorb [OF _ user_slots_ok(4)] by (simp add: st2_def st1_def set_csr_def)
  finally show ?thesis
    using loads_other [OF user_slots_ok(3)]
    by (simp add: tf_slots_def loads_append st2_def st1_def set_csr_def set_reg_def fun_upd_twist) (simp add: loads_def)
qed

text \<open>Without translation every aligned area is where its address says.\<close>

lemma aligned_add: "unat (b :: u64) mod 8 = 0 \<Longrightarrow> 8 dvd off \<Longrightarrow> unat (b + of_nat off) mod 8 = 0"
proof -
  assume b: "unat b mod 8 = 0" and off: "8 dvd off"
  have "unat (b + of_nat off) = (unat b + off) mod 2 ^ 64"
    by (simp add: unat_word_ariths unat_of_nat take_bit_eq_mod mod_add_right_eq)
  moreover have "(x mod 2 ^ 64) mod 8 = x mod 8" for x :: nat by (rule mod_mod_cancel) simp
  moreover have "(unat b + off) mod 8 = 0" using b off by (simp add: mod_eq_0_iff_dvd)
  ultimately show ?thesis by simp
qed

lemma frame_bare:
  assumes "priv st = PrivM \<or> drop_bit 60 (csrs st Satp) = 0" and "unat b mod 8 = 0" and "n \<le> 4096"
  shows "frame UNIV st b b n"
  using assms aligned_add [OF assms(2)] by (auto simp: frame_def xlate_def)

text \<open>A trap from user space and the return to it are transparent.  When \<^verbatim>\<open>sscratch\<close> holds the address at which the
  trapframe is mapped, \<^verbatim>\<open>uservec\<close> enters the kernel with the page table, the stack, the hart number and the handler
  that the trapframe names and writes nothing outside the trapframe.  Whatever the kernel does then, if it
  calls \<^verbatim>\<open>userret\<close> with the same address and a page table that maps the trapframe there, the user program
  goes on with that page table, with \<^verbatim>\<open>sscratch\<close> as before and with every one of its 31 registers as it was at the trap,
  except those whose saved value the kernel has changed.\<close>

theorem trap_roundtrip:
  assumes "frame F st (csrs st Sscratch) pa 288"
  shows "\<exists>st1. exec_code uservec_code st = Some (Jumps (ld64 (pmem st) (pa + 16)), st1) \<and>
    csrs st1 Satp = ld64 (pmem st) pa \<and> regs st1 Sp = ld64 (pmem st) (pa + 8) \<and>
    regs st1 Tp = ld64 (pmem st) (pa + 32) \<and> (\<forall>a. \<not> in_rng a pa 288 \<longrightarrow> pmem st1 a = pmem st a) \<and>
    (\<forall>G st2. regs st2 A0 = csrs st Sscratch \<and> frame G (set_csr Satp (regs st2 A1) st2) (csrs st Sscratch) pa 288 \<longrightarrow>
      (\<exists>st3. exec_code userret_code st2 = Some (Srets, st3) \<and> csrs st3 Satp = regs st2 A1 \<and>
        csrs st3 Sscratch = csrs st Sscratch \<and> pmem st3 = pmem st2 \<and>
        (\<forall>r off. (r, off) \<in> set tf_slots \<and> ld64 (pmem st2) (pa + of_nat off) = ld64 (pmem st1) (pa + of_nat off) \<longrightarrow>
          regs st3 r = regs st r)))"
proof -
  let ?m = "saves (regs st) pa tf_slots (pmem st)"
  have m: "ld64 ?m (pa + of_nat off) = regs st r" if "(r, off) \<in> set tf_slots" for r off
    by (rule saves_slot [OF user_slots_ok(2) that])
  have "\<exists>st3. exec_code userret_code st2 = Some (Srets, st3) \<and> csrs st3 Satp = regs st2 A1 \<and>
      csrs st3 Sscratch = csrs st Sscratch \<and> pmem st3 = pmem st2 \<and>
      (\<forall>r off. (r, off) \<in> set tf_slots \<and> ld64 (pmem st2) (pa + of_nat off) = ld64 ?m (pa + of_nat off) \<longrightarrow>
        regs st3 r = regs st r)"
    if "regs st2 A0 = csrs st Sscratch" "frame G (set_csr Satp (regs st2 A1) st2) (csrs st Sscratch) pa 288" for G st2
    using userret_spec [of G st2 pa] that m loads_slot [OF distinct_user_slots(2)] by auto
  then show ?thesis
    unfolding uservec_spec [OF assms] using saves_frame [OF user_slots_ok(2)] by auto
qed

subsection \<open>Between kernel threads\<close>

definition ctx_slots :: "(reg \<times> nat) list" where
  "ctx_slots = [(Ra, 0), (Sp, 8), (S0, 16), (S1, 24), (S2, 32), (S3, 40), (S4, 48), (S5, 56), (S6, 64), (S7, 72),
     (S8, 80), (S9, 88), (S10, 96), (S11, 104)]"

lemma ctx_slots_ok: "slots_ok 112 ctx_slots" "A1 \<notin> fst ` set ctx_slots" "(A1, off) \<notin> set ctx_slots" "(Ra, 0) \<in> set ctx_slots"
  "distinct (map fst ctx_slots)"
  by (simp_all add: slots_ok_def ctx_slots_def)

lemma swtch_parts:
  "swtch_code = map (\<lambda>(r, off). Sd r off A0) ctx_slots @ map (\<lambda>(r, off). Ld r off A1) ctx_slots @ [Ret]"
  by (simp add: swtch_code_def ctx_slots_def)

lemma swtch_spec:
  assumes f: "frame F st (regs st A0) pa 112" and g: "frame F st (regs st A1) pb 112"
  defines "m \<equiv> saves (regs st) pa ctx_slots (pmem st)"
  shows "exec_code swtch_code st = Some (Jumps (ld64 m pb), st\<lparr>regs := loads m pb ctx_slots (regs st), pmem := m\<rparr>)"
proof -
  let ?st = "st\<lparr>pmem := m\<rparr>"
  have g': "frame F ?st (regs st A1) pb 112"
    using frame_mem [OF g, of m] saves_frame [OF ctx_slots_ok(1)] frame_area [OF f] by (simp add: m_def)
  have "exec_code swtch_code st = exec_code (map (\<lambda>(r, off). Ld r off A1) ctx_slots @ [Ret]) ?st"
    unfolding swtch_parts m_def by (rule exec_saves [OF ctx_slots_ok(1) f])
  also have "\<dots> = exec_code [Ret] (?st\<lparr>regs := loads (pmem ?st) pb ctx_slots (regs ?st)\<rparr>)"
    by (rule exec_loads [OF ctx_slots_ok(1) g']) (simp_all add: ctx_slots_ok(3))
  finally show ?thesis
    using loads_slot [OF ctx_slots_ok(5,4), of m pb "regs st"] by (cases st) simp
qed

text \<open>C19: A context switch resumes a thread where it left off.  \<^verbatim>\<open>swtch(old, new)\<close> returns to the address in \<^verbatim>\<open>new\<close>
  with the stack pointer and the callee-saved registers stored there, changes no other register and writes nothing but
  \<^verbatim>\<open>old\<close>.  When any later \<^verbatim>\<open>swtch\<close>, from whatever context, is given \<^verbatim>\<open>old\<close> with its content intact, it returns to the
  caller of the first one with these registers as they were.\<close>

theorem swtch_roundtrip:
  assumes "frame F st (regs st A0) pa 112" and "frame F st (regs st A1) pb 112"
    and "\<And>a. in_rng a pa 112 \<Longrightarrow> \<not> in_rng a pb 112"
  shows "\<exists>st1. exec_code swtch_code st = Some (Jumps (ld64 (pmem st) pb), st1) \<and> csrs st1 = csrs st \<and>
    (\<forall>r off. (r, off) \<in> set ctx_slots \<longrightarrow> regs st1 r = ld64 (pmem st) (pb + of_nat off)) \<and>
    (\<forall>r. r \<notin> fst ` set ctx_slots \<longrightarrow> regs st1 r = regs st r) \<and>
    (\<forall>a. \<not> in_rng a pa 112 \<longrightarrow> pmem st1 a = pmem st a) \<and>
    (\<forall>G st2 pc. frame G st2 (regs st2 A0) pc 112 \<and> frame G st2 (regs st2 A1) pa 112 \<and>
       (\<forall>a. in_rng a pa 112 \<longrightarrow> \<not> in_rng a pc 112 \<and> pmem st2 a = pmem st1 a) \<longrightarrow>
      (\<exists>st3. exec_code swtch_code st2 = Some (Jumps (regs st Ra), st3) \<and>
        (\<forall>r off. (r, off) \<in> set ctx_slots \<longrightarrow> regs st3 r = regs st r)))"
proof -
  let ?m = "saves (regs st) pa ctx_slots (pmem st)"
  have other: "ld64 (saves R qa ctx_slots m) (qb + of_nat off) = ld64 m (qb + of_nat off)"
    if "\<And>a. in_rng a qb 112 \<Longrightarrow> \<not> in_rng a qa 112" "(r, off) \<in> set ctx_slots" for R qa qb m r off
    by (rule ld64_cong)
      (use that slots_ok_in [OF ctx_slots_ok(1) that(2)] saves_frame [OF ctx_slots_ok(1)] in blast)
  have m: "ld64 ?m (pa + of_nat off) = regs st r" if "(r, off) \<in> set ctx_slots" for r off
    by (rule saves_slot [OF ctx_slots_ok(1) that])
  have again: "\<exists>st3. exec_code swtch_code st2 = Some (Jumps (regs st Ra), st3) \<and>
      (\<forall>r off. (r, off) \<in> set ctx_slots \<longrightarrow> regs st3 r = regs st r)"
    if f: "frame G st2 (regs st2 A0) pc 112" "frame G st2 (regs st2 A1) pa 112"
      and keep: "\<And>a. in_rng a pa 112 \<Longrightarrow> \<not> in_rng a pc 112 \<and> pmem st2 a = ?m a" for G st2 pc
  proof -
    have "ld64 (saves (regs st2) pc ctx_slots (pmem st2)) (pa + of_nat off) = regs st r"
      if r: "(r, off) \<in> set ctx_slots" for r off
    proof -
      have "ld64 (saves (regs st2) pc ctx_slots (pmem st2)) (pa + of_nat off) = ld64 (pmem st2) (pa + of_nat off)"
        by (rule other [OF _ r]) (use keep in blast)
      also have "\<dots> = ld64 ?m (pa + of_nat off)"
        by (rule ld64_cong) (use keep slots_ok_in [OF ctx_slots_ok(1) r] in blast)
      finally show ?thesis using m [OF r] by simp
    qed
    from this [OF ctx_slots_ok(4)] this show ?thesis
      unfolding swtch_spec [OF f] using loads_slot [OF ctx_slots_ok(5)] by auto
  qed
  have "ld64 ?m (pb + of_nat off) = ld64 (pmem st) (pb + of_nat off)" if "(r, off) \<in> set ctx_slots" for r off
    by (rule other [OF _ that]) (use assms(3) in blast)
  from this [OF ctx_slots_ok(4)] this again show ?thesis
    unfolding swtch_spec [OF assms(1,2)]
    using loads_slot [OF ctx_slots_ok(5)] loads_other saves_frame [OF ctx_slots_ok(1)] by auto
qed

subsection \<open>Interrupts in the kernel\<close>

text \<open>The registers \<^verbatim>\<open>kernelvec\<close> restores, which are all but \<^verbatim>\<open>tp\<close>; it saves \<^verbatim>\<open>tp\<close> as well.\<close>

definition kv_slots :: "(reg \<times> nat) list" where
  "kv_slots = [(Ra, 0), (Sp, 8), (Gp, 16), (T0, 32), (T1, 40), (T2, 48), (S0, 56), (S1, 64), (A0, 72), (A1, 80),
     (A2, 88), (A3, 96), (A4, 104), (A5, 112), (A6, 120), (A7, 128), (S2, 136), (S3, 144), (S4, 152), (S5, 160),
     (S6, 168), (S7, 176), (S8, 184), (S9, 192), (S10, 200), (S11, 208), (T3, 216), (T4, 224), (T5, 232), (T6, 240)]"

definition kv_saved :: "(reg \<times> nat) list" where
  "kv_saved = take 3 kv_slots @ (Tp, 24) # drop 3 kv_slots"

lemma kernelvec_parts:
  "kernelvec_save k ret = Addi Sp Sp (- 256) # map (\<lambda>(r, off). Sd r off Sp) kv_saved @ [Call k ret]"
  "kernelvec_restore = map (\<lambda>(r, off). Ld r off Sp) kv_slots @ [Addi Sp Sp 256, Sret]"
  by (simp_all add: kernelvec_save_def kernelvec_restore_def kv_saved_def kv_slots_def)

lemma kv_slots_ok: "slots_ok 256 kv_slots" "slots_ok 256 kv_saved" "set kv_slots \<subseteq> set kv_saved"
  "(Sp, off) \<in> set kv_slots \<longleftrightarrow> off = 8" "distinct (map fst kv_slots)" "Tp \<notin> fst ` set kv_slots"
  by (auto simp add: slots_ok_def kv_saved_def kv_slots_def)

lemma kv_slots_all: "r \<noteq> Tp \<Longrightarrow> \<exists>off. (r, off) \<in> set kv_slots"
  by (cases r) (auto simp: kv_slots_def)

lemma kernelvec_save_spec:
  assumes "frame F st (regs st Sp - 256) pa 256"
  defines "R \<equiv> (regs st)(Sp := regs st Sp - 256)"
  shows "exec_code (kernelvec_save k ret) st =
    Some (Jumps k, st\<lparr>regs := R(Ra := ret), pmem := saves R pa kv_saved (pmem st)\<rparr>)"
proof -
  let ?st = "st\<lparr>regs := R\<rparr>"
  have f: "frame F ?st (regs ?st Sp) pa 256"
    using frame_keep [OF assms(1), of ?st] by (simp add: R_def)
  have "exec_code (kernelvec_save k ret) st = exec_code (map (\<lambda>(r, off). Sd r off Sp) kv_saved @ [Call k ret]) ?st"
    unfolding kernelvec_parts by (simp add: set_reg_def R_def)
  then show ?thesis unfolding exec_saves [OF kv_slots_ok(2) f] by (cases st) (simp add: set_reg_def)
qed

lemma kernelvec_restore_spec:
  assumes "frame F st (regs st Sp) pa 256" and "ld64 (pmem st) (pa + 8) = regs st Sp"
  defines "R \<equiv> loads (pmem st) pa kv_slots (regs st)"
  shows "exec_code kernelvec_restore st = Some (Srets, st\<lparr>regs := R(Sp := regs st Sp + 256)\<rparr>)"
proof -
  have "exec_code kernelvec_restore st = exec_code [Addi Sp Sp 256, Sret] (st\<lparr>regs := loads (pmem st) pa kv_slots (regs st)\<rparr>)"
    unfolding kernelvec_parts
    by (rule exec_loads [OF kv_slots_ok(1) assms(1)]) (simp_all add: kv_slots_ok(4) assms(2))
  moreover have "loads (pmem st) pa kv_slots (regs st) Sp = regs st Sp"
    using loads_slot [OF kv_slots_ok(5), of Sp 8] kv_slots_ok(4) assms(2) by simp
  ultimately show ?thesis by (simp add: set_reg_def R_def)
qed

text \<open>C21: An interrupt in the kernel is transparent.  \<^verbatim>\<open>kernelvec\<close> calls \<^verbatim>\<open>kerneltrap\<close> on the interrupted stack, having
  written only to the 256 bytes below the stack pointer.  When \<^verbatim>\<open>kerneltrap\<close> returns as C functions do, with its stack
  pointer back and the caller's part of the stack untouched, every register but \<^verbatim>\<open>tp\<close> is as it was at the interrupt;
  \<^verbatim>\<open>tp\<close> is the one of the hart that the thread runs on by then.\<close>

theorem kernelvec_transparent:
  assumes "frame F st (regs st Sp - 256) pa 256"
  shows "\<exists>st1. exec_code (kernelvec_save kerneltrap ret) st = Some (Jumps kerneltrap, st1) \<and>
    regs st1 Ra = ret \<and> csrs st1 = csrs st \<and> (\<forall>a. \<not> in_rng a pa 256 \<longrightarrow> pmem st1 a = pmem st a) \<and>
    (\<forall>G st2. regs st2 Sp = regs st1 Sp \<and> frame G st2 (regs st1 Sp) pa 256 \<and>
       (\<forall>a. in_rng a pa 256 \<longrightarrow> pmem st2 a = pmem st1 a) \<longrightarrow>
      (\<exists>st3. exec_code kernelvec_restore st2 = Some (Srets, st3) \<and> regs st3 = (regs st)(Tp := regs st2 Tp) \<and>
        csrs st3 = csrs st2 \<and> pmem st3 = pmem st2))"
proof -
  let ?R = "(regs st)(Sp := regs st Sp - 256)"
  let ?m = "saves ?R pa kv_saved (pmem st)"
  have "\<exists>st3. exec_code kernelvec_restore st2 = Some (Srets, st3) \<and> regs st3 = (regs st)(Tp := regs st2 Tp) \<and>
        csrs st3 = csrs st2 \<and> pmem st3 = pmem st2"
    if sp: "regs st2 Sp = regs st Sp - 256" and f: "frame G st2 (regs st Sp - 256) pa 256"
      and keep: "\<And>a. in_rng a pa 256 \<Longrightarrow> pmem st2 a = ?m a" for G st2
  proof -
    have m: "ld64 (pmem st2) (pa + of_nat off) = ?R r" if r: "(r, off) \<in> set kv_slots" for r off
    proof -
      have "ld64 (pmem st2) (pa + of_nat off) = ld64 ?m (pa + of_nat off)"
        by (rule ld64_cong) (use keep slots_ok_in [OF kv_slots_ok(1) r] in blast)
      then show ?thesis using saves_slot [OF kv_slots_ok(2)] r kv_slots_ok(3) by (metis subsetD)
    qed
    have "loads (pmem st2) pa kv_slots (regs st2) r = ((regs st)(Tp := regs st2 Tp, Sp := regs st Sp - 256)) r" for r
    proof (cases "r = Tp")
      case True
      then show ?thesis using loads_other [OF kv_slots_ok(6)] by simp
    next
      case False
      then obtain off where "(r, off) \<in> set kv_slots" using kv_slots_all by blast
      then show ?thesis using loads_slot [OF kv_slots_ok(5)] m False by simp
    qed
    then have "loads (pmem st2) pa kv_slots (regs st2) = (regs st)(Tp := regs st2 Tp, Sp := regs st Sp - 256)" by blast
    moreover have "ld64 (pmem st2) (pa + 8) = regs st2 Sp" using m [of Sp 8] kv_slots_ok(4) sp by simp
    ultimately show ?thesis
      using kernelvec_restore_spec [of G st2 pa] f sp by (simp add: fun_upd_twist)
  qed
  then show ?thesis
    unfolding kernelvec_save_spec [OF assms] using saves_frame [OF kv_slots_ok(2)] by auto
qed

subsection \<open>Instances\<close>

definition demo_cpu :: machine where
  "demo_cpu = \<lparr>regs = (\<lambda>r. if r = A0 then 0x9000 else if r = A1 then 0x9100 else if r = Sp then 0xa000 else 7),
     csrs = (\<lambda>c. if c = Sscratch then 0x8000 else 0), pmem = (\<lambda>_. 1), priv = PrivS\<rparr>"

lemma demo_frame: "csrs st Satp = 0 \<Longrightarrow> unat b mod 8 = 0 \<Longrightarrow> n \<le> 4096 \<Longrightarrow> frame UNIV st b b n"
  by (rule frame_bare) simp_all

theorem trap_roundtrip_witness:
  "\<exists>st1 st3. exec_code uservec_code demo_cpu = Some (Jumps (ld64 (\<lambda>_. 1) 0x8010), st1) \<and>
    exec_code userret_code (st1\<lparr>regs := (\<lambda>_. 0)(A0 := 0x8000)\<rparr>) = Some (Srets, st3) \<and>
    regs st3 Gp = 7 \<and> regs st3 A0 = 0x9000"
proof -
  have f: "frame UNIV demo_cpu (csrs demo_cpu Sscratch) 0x8000 288"
    using demo_frame [of demo_cpu "0x8000" 288] by (simp add: demo_cpu_def)
  have slots: "(Gp, 56) \<in> set tf_slots" "(A0, 112) \<in> set tf_slots" by (simp_all add: tf_slots_def user_slots_def)
  from trap_roundtrip [OF f] obtain st1 where st1: "exec_code uservec_code demo_cpu = Some (Jumps (ld64 (\<lambda>_. 1) 0x8010), st1)"
    and *: "\<And>G st2. regs st2 A0 = 0x8000 \<and> frame G (set_csr Satp (regs st2 A1) st2) 0x8000 0x8000 288 \<Longrightarrow>
      \<exists>st3. exec_code userret_code st2 = Some (Srets, st3) \<and> csrs st3 Satp = regs st2 A1 \<and>
        csrs st3 Sscratch = 0x8000 \<and> pmem st3 = pmem st2 \<and>
        (\<forall>r off. (r, off) \<in> set tf_slots \<and> ld64 (pmem st2) (0x8000 + of_nat off) = ld64 (pmem st1) (0x8000 + of_nat off) \<longrightarrow>
          regs st3 r = regs demo_cpu r)"
    by (auto simp: demo_cpu_def)
  have "frame UNIV (set_csr Satp 0 (st1\<lparr>regs := (\<lambda>_. 0)(A0 := 0x8000)\<rparr>)) 0x8000 0x8000 288"
    by (rule demo_frame) (simp_all add: set_csr_def)
  then obtain st3 where "exec_code userret_code (st1\<lparr>regs := (\<lambda>_. 0)(A0 := 0x8000)\<rparr>) = Some (Srets, st3)"
    "\<forall>r off. (r, off) \<in> set tf_slots \<longrightarrow> regs st3 r = regs demo_cpu r"
    using * [of "st1\<lparr>regs := (\<lambda>_. 0)(A0 := 0x8000)\<rparr>" UNIV] by auto
  with st1 slots show ?thesis by (auto simp: demo_cpu_def)
qed

theorem swtch_roundtrip_witness:
  "\<exists>st1 st3. exec_code swtch_code demo_cpu = Some (Jumps (ld64 (\<lambda>_. 1) 0x9100), st1) \<and>
    exec_code swtch_code (st1\<lparr>regs := (\<lambda>_. 0)(A0 := 0x9100, A1 := 0x9000)\<rparr>) = Some (Jumps 7, st3) \<and>
    regs st3 Sp = 0xa000"
proof -
  have f: "frame UNIV demo_cpu (regs demo_cpu A0) 0x9000 112" "frame UNIV demo_cpu (regs demo_cpu A1) 0x9100 112"
    using demo_frame [of demo_cpu "0x9000" 112] demo_frame [of demo_cpu "0x9100" 112] by (simp_all add: demo_cpu_def)
  have apart: "in_rng a 0x9000 112 \<Longrightarrow> \<not> in_rng a 0x9100 112" for a by (simp add: in_rng_nowrap)
  from swtch_roundtrip [OF f apart] obtain st1 where st1: "exec_code swtch_code demo_cpu = Some (Jumps (ld64 (pmem demo_cpu) 0x9100), st1)"
    "csrs st1 = csrs demo_cpu"
    and *: "\<And>G st2 pc. frame G st2 (regs st2 A0) pc 112 \<and> frame G st2 (regs st2 A1) 0x9000 112 \<and>
       (\<forall>a. in_rng a 0x9000 112 \<longrightarrow> \<not> in_rng a pc 112 \<and> pmem st2 a = pmem st1 a) \<Longrightarrow>
      \<exists>st3. exec_code swtch_code st2 = Some (Jumps (regs demo_cpu Ra), st3) \<and>
        (\<forall>r off. (r, off) \<in> set ctx_slots \<longrightarrow> regs st3 r = regs demo_cpu r)"
    by blast
  let ?st = "st1\<lparr>regs := (\<lambda>_. 0)(A0 := 0x9100, A1 := 0x9000)\<rparr>"
  have "frame UNIV ?st (regs ?st A0) 0x9100 112" "frame UNIV ?st (regs ?st A1) 0x9000 112"
    using demo_frame [of ?st "0x9100" 112] demo_frame [of ?st "0x9000" 112] st1(2) by (simp_all add: demo_cpu_def)
  then obtain st3 where "exec_code swtch_code ?st = Some (Jumps (regs demo_cpu Ra), st3)"
    "\<forall>r off. (r, off) \<in> set ctx_slots \<longrightarrow> regs st3 r = regs demo_cpu r"
    using * [of UNIV ?st "0x9100"] apart by auto
  moreover have "(Sp, 8) \<in> set ctx_slots" by (simp add: ctx_slots_def)
  ultimately show ?thesis using st1(1) by (auto simp: demo_cpu_def)
qed

theorem kernelvec_transparent_witness:
  "\<exists>st1 st3. exec_code (kernelvec_save 0x80002000 0x80001048) demo_cpu = Some (Jumps 0x80002000, st1) \<and>
    exec_code kernelvec_restore (st1\<lparr>regs := (\<lambda>_. 0)(Sp := regs st1 Sp, Tp := 2)\<rparr>) = Some (Srets, st3) \<and>
    regs st3 = (regs demo_cpu)(Tp := 2)"
proof -
  have f: "frame UNIV demo_cpu (regs demo_cpu Sp - 256) 0x9f00 256"
    using demo_frame [of demo_cpu "0x9f00" 256] by (simp add: demo_cpu_def)
  have sp: "regs demo_cpu Sp = 0xa000" by (simp add: demo_cpu_def)
  note k = kernelvec_save_spec [OF f, of "0x80002000" "0x80001048"]
  from kernelvec_transparent [OF f, of "0x80002000" "0x80001048"] obtain st1
    where st1: "exec_code (kernelvec_save 0x80002000 0x80001048) demo_cpu = Some (Jumps 0x80002000, st1)"
      "csrs st1 = csrs demo_cpu"
    and *: "\<And>G st2. regs st2 Sp = regs st1 Sp \<and> frame G st2 (regs st1 Sp) 0x9f00 256 \<and>
       (\<forall>a. in_rng a 0x9f00 256 \<longrightarrow> pmem st2 a = pmem st1 a) \<Longrightarrow>
      \<exists>st3. exec_code kernelvec_restore st2 = Some (Srets, st3) \<and> regs st3 = (regs demo_cpu)(Tp := regs st2 Tp) \<and>
        csrs st3 = csrs st2 \<and> pmem st3 = pmem st2"
    by auto
  let ?st = "st1\<lparr>regs := (\<lambda>_. 0)(Sp := regs st1 Sp, Tp := 2)\<rparr>"
  have "regs st1 Sp = 0x9f00" using k st1(1) by (auto simp: demo_cpu_def)
  then have "frame UNIV ?st (regs st1 Sp) 0x9f00 256"
    using demo_frame [of ?st "0x9f00" 256] st1(2) by (simp add: demo_cpu_def)
  with * [of ?st UNIV] st1(1) show ?thesis by auto
qed

end
