(* ===== verification/Ring.thy ===== *)
theory Ring
  imports Xv6_Prelude
begin

text \<open>
  Ring buffers indexed by free-running counters, as the pipe, the serial port and the console have
  them, and the interface they implement: a bounded queue.  The counters wrap around at their word
  size, which the size of the buffer divides.
\<close>

definition ring :: "nat \<Rightarrow> (nat \<Rightarrow> 'b) \<Rightarrow> 'a::len word \<Rightarrow> 'a word \<Rightarrow> 'b list" where
  "ring n b r w = map (\<lambda>k. b (unat (r + of_nat k) mod n)) [0..<unat (w - r)]"

lemma length_ring [simp]: "length (ring n b r w) = unat (w - r)"
  by (simp add: ring_def)

lemma ring_empty: "ring n b r w = [] \<longleftrightarrow> r = w"
  by (auto simp: ring_def unat_eq_0)

lemma unat_Suc_diff: "unat (w - r :: 'a::len word) < 2 ^ LENGTH('a) - 1 \<Longrightarrow> unat (w + 1 - r) = Suc (unat (w - r))"
proof -
  assume a: "unat (w - r) < 2 ^ LENGTH('a) - 1"
  have e: "w + 1 - r = (w - r) + 1" by simp
  show ?thesis unfolding e using a by (simp add: unat_word_ariths)
qed

lemma ring_get:
  assumes "r \<noteq> (w :: 'a::len word)"
  shows "ring n b r w = b (unat r mod n) # ring n b (r + 1) w"
proof -
  obtain m where m: "unat (w - r) = Suc m" using assms by (cases "unat (w - r)") (auto simp: unat_eq_0)
  have "w - r = of_nat (Suc m)" using m by (metis of_nat_unat ucast_id)
  then have "w - (r + 1) = of_nat m" by (simp add: diff_add_eq_diff_diff_swap add.commute)
  moreover have "m < 2 ^ LENGTH('a)" using m unsigned_less [of "w - r", where ?'a = nat] by linarith
  ultimately have "unat (w - (r + 1)) = m" by (simp add: unsigned_of_nat take_bit_nat_eq_self)
  then show ?thesis
    by (simp add: ring_def m map_upt_Suc add.assoc del: upt_Suc)
qed

text \<open>Positions closer than the size of the buffer fall on different cells.\<close>

lemma cells_distinct:
  assumes "n dvd 2 ^ LENGTH('a)" and "i < j" and "j < n" and "n \<le> 2 ^ LENGTH('a)"
  shows "unat (r + of_nat i :: 'a::len word) mod n \<noteq> unat (r + of_nat j) mod n"
proof -
  have u: "unat (r + of_nat k) mod n = (unat r + k) mod n" for k :: nat
    using assms(1) by (simp add: unat_word_ariths unat_of_nat mod_mod_cancel mod_add_right_eq)
  show ?thesis
  proof
    assume "unat (r + of_nat i) mod n = unat (r + of_nat j) mod n"
    then have "(unat r + i) mod n = (unat r + j) mod n" by (simp add: u)
    then have "n dvd (unat r + j) - (unat r + i)" using assms(2) mod_eq_dvd_iff_nat [of "unat r + i" "unat r + j" n] by simp
    then have "n dvd j - i" by simp
    then show False using assms(2,3) by (simp add: nat_dvd_not_less)
  qed
qed

lemma ring_put:
  assumes "n dvd 2 ^ LENGTH('a)" and "unat (w - r) < n" and "n < 2 ^ LENGTH('a)"
  shows "ring n (b(unat w mod n := x)) r (w + 1 :: 'a::len word) = ring n b r w @ [x]"
proof -
  let ?m = "unat (w - r)"
  have w: "r + of_nat ?m = w" by simp
  have m: "unat (w + 1 - r) = Suc ?m" using assms by (intro unat_Suc_diff) simp
  have "unat (r + of_nat k) mod n \<noteq> unat w mod n" if "k < ?m" for k
    using cells_distinct [of n k ?m r] assms that w by simp
  then show ?thesis by (simp add: ring_def m w)
qed

lemma ring_full:
  assumes "n < 2 ^ LENGTH('a)"
  shows "w = r + of_nat n \<longleftrightarrow> length (ring n b r (w :: 'a::len word)) = n"
proof -
  have "w = r + of_nat n \<longleftrightarrow> w - r = of_nat n" by (auto simp: algebra_simps)
  also have "\<dots> \<longleftrightarrow> unat (w - r) = n" 
    using assms by (simp add: word_unat_eq_iff unsigned_of_nat take_bit_nat_eq_self)
  finally show ?thesis by simp
qed

subsection \<open>Bounded queues\<close>

locale bounded_queue =
  fixes cap :: nat
    and ok :: "'s \<Rightarrow> bool"
    and contents :: "'s \<Rightarrow> 'v list"
    and full :: "'s \<Rightarrow> bool"
    and put :: "'v \<Rightarrow> 's \<Rightarrow> 's"
    and front :: "'s \<Rightarrow> 'v"
    and adv :: "'s \<Rightarrow> 's"
  assumes bound: "ok s \<Longrightarrow> length (contents s) \<le> cap"
    and full_iff: "ok s \<Longrightarrow> full s \<longleftrightarrow> length (contents s) = cap"
    and put_law: "ok s \<Longrightarrow> \<not> full s \<Longrightarrow> ok (put v s) \<and> contents (put v s) = contents s @ [v]"
    and adv_law: "ok s \<Longrightarrow> contents s \<noteq> [] \<Longrightarrow> ok (adv s) \<and> contents s = front s # contents (adv s)"
begin

lemma put_all:
  "ok s \<Longrightarrow> length (contents s) + length vs \<le> cap \<Longrightarrow>
     ok (fold put vs s) \<and> contents (fold put vs s) = contents s @ vs"
proof (induction vs arbitrary: s)
  case Nil
  then show ?case by simp
next
  case (Cons v vs)
  then have "\<not> full s" by (simp add: full_iff)
  with put_law [OF Cons.prems(1)] have "ok (put v s)" "contents (put v s) = contents s @ [v]" by auto
  with Cons show ?case by simp
qed

lemma adv_all:
  "ok s \<Longrightarrow> n \<le> length (contents s) \<Longrightarrow> ok ((adv ^^ n) s) \<and> contents s = take n (contents s) @ contents ((adv ^^ n) s)"
proof (induction n arbitrary: s)
  case 0
  then show ?case by simp
next
  case (Suc n)
  then have ne: "contents s \<noteq> []" by auto
  note a = adv_law [OF Suc.prems(1) ne]
  have "n \<le> length (contents (adv s))" using Suc.prems(2) a by (metis Suc_le_mono length_Cons)
  from Suc.IH [OF _ this] a
  have i: "ok ((adv ^^ n) (adv s))" "contents (adv s) = take n (contents (adv s)) @ contents ((adv ^^ n) (adv s))" by auto
  have "contents s = front s # contents (adv s)" using a by simp
  also have "\<dots> = take (Suc n) (front s # contents (adv s)) @ contents ((adv ^^ n) (adv s))" using i(2) by simp
  finally show ?case using i(1) a by (simp add: funpow_swap1)
qed

text \<open>What goes in comes out, in the same order.\<close>

lemma fifo:
  "ok s \<Longrightarrow> contents s = [] \<Longrightarrow> length vs \<le> cap \<Longrightarrow> contents (fold put vs s) = vs \<and>
     contents ((adv ^^ length vs) (fold put vs s)) = []"
  using put_all [of s vs] adv_all [of "fold put vs s" "length vs"] by auto

end

end
