(* ===== verification/Fs_Laws.thy ===== *)
theory Fs_Laws
  imports Fs Log_Tx
begin

text \<open>
  The block allocator and the disk inodes, inside a transaction.  The free map on the disk is a set of
  free blocks: \<^verbatim>\<open>balloc\<close> takes its least element and clears the block, \<^verbatim>\<open>bfree\<close> puts one back.
  \<^verbatim>\<open>iupdate\<close> and \<^verbatim>\<open>ilock\<close> write and read the inode a number stands for, and no other.
\<close>

subsection \<open>Frame\<close>

lemma tx_only_fs:
  assumes "tx_only s t"
  shows "sb t = sb s" "inodes t = inodes s" "nextpid t = nextpid s"
  using assms by (auto simp: tx_only_def upd_log_def elim!: bio_onlyE)

lemma bio_only_fs:
  assumes "bio_only s t"
  shows "sb t = sb s" "inodes t = inodes s" "klog t = klog s"
  using assms by (auto elim!: bio_onlyE)

subsection \<open>Bits of a block\<close>

definition bm_bit :: "bytes \<Rightarrow> nat \<Rightarrow> bool" where
  "bm_bit bs bi \<longleftrightarrow> bit (bs ! (bi div 8)) (bi mod 8)"

lemma bit_mask_iff: "bit (bit_mask i) k \<longleftrightarrow> k = i mod 8"
  by (auto simp: bit_mask_def push_bit_of_1 bit_exp_iff)

lemma mask_bit: "bs ! (bi div 8) AND bit_mask bi = 0 \<longleftrightarrow> \<not> bm_bit bs bi"
  by (simp add: bm_bit_def bit_mask_def push_bit_of_1 and_exp_eq_0_iff_not_bit)

lemma length_bm [simp]: "length (bm_set bi bs) = length bs" "length (bm_clear bi bs) = length bs"
  by (simp_all add: bm_set_def bm_clear_def)

lemma bm_index: "(i :: nat) div 8 = j div 8 \<Longrightarrow> i mod 8 = j mod 8 \<longleftrightarrow> i = j"
  by (metis div_mult_mod_eq)

lemma bm_bit_set: "bi div 8 < length bs \<Longrightarrow> bm_bit (bm_set bi bs) j \<longleftrightarrow> j = bi \<or> bm_bit bs j"
  using bm_index [of j bi] by (cases "j div 8 = bi div 8") (auto simp: bm_bit_def bm_set_def bit_or_iff bit_mask_iff)

lemma bm_bit_clear: "bi div 8 < length bs \<Longrightarrow> bm_bit (bm_clear bi bs) j \<longleftrightarrow> j \<noteq> bi \<and> bm_bit bs j"
  using bm_index [of j bi]
  by (cases "j div 8 = bi div 8") (auto simp: bm_bit_def bm_clear_def bit_and_iff bit_not_iff bit_mask_iff)

subsection \<open>Layout of the file system\<close>

text \<open>The parts are in the order in which \<^verbatim>\<open>mkfs/mkfs.c\<close> puts them: log, inodes, free map, data.\<close>

definition data_start :: "superblock \<Rightarrow> nat" where
  "data_start B = unat (sb_bmapstart B) + unat (sb_size B) div BPB + 1"

definition layout :: "'a fs_st_scheme \<Rightarrow> bool" where
  "layout s \<longleftrightarrow> 0 < unat (lg_start (klog s)) \<and> unat (lg_start (klog s)) + 30 \<le> unat (sb_inodestart (sb s)) \<and>
     unat (sb_inodestart (sb s)) + unat (sb_ninodes (sb s)) div IPB + 1 \<le> unat (sb_bmapstart (sb s)) \<and>
     data_start (sb s) \<le> unat (sb_size (sb s))"

definition used :: "'a fs_st_scheme \<Rightarrow> u32 \<Rightarrow> bool" where
  "used s b \<longleftrightarrow> bm_bit (view s (BBLOCK b (sb s))) (unat b mod BPB)"

definition free_blocks :: "'a fs_st_scheme \<Rightarrow> u32 set" where
  "free_blocks s = {b. unat b < unat (sb_size (sb s)) \<and> \<not> used s b}"

text \<open>Blocks before the data are never free.\<close>

definition meta_used :: "'a fs_st_scheme \<Rightarrow> bool" where
  "meta_used s \<longleftrightarrow> (\<forall>b. unat b < data_start (sb s) \<longrightarrow> used s b)"

definition bm_blocks :: "superblock \<Rightarrow> u32 set" where
  "bm_blocks B = {b. unat (sb_bmapstart B) \<le> unat b \<and> unat b < data_start B}"

lemma layout_frame: "sb t = sb s \<Longrightarrow> lg_start (klog t) = lg_start (klog s) \<Longrightarrow> layout t = layout s"
  by (simp add: layout_def)

lemma used_frame: "sb t = sb s \<Longrightarrow> view t (BBLOCK b (sb s)) = view s (BBLOCK b (sb s)) \<Longrightarrow> used t b = used s b"
  by (simp add: used_def)

lemma home_beyond:
  assumes "unat (lg_start (klog s)) + 30 \<le> unat b"
  shows "home s b"
proof -
  let ?l = "lg_start (klog s)"
  have b: "unat b < 2 ^ 32" using unsigned_less [of b, where ?'a = nat] by simp
  have "unat (lblk ?l i) = unat ?l + i + 1" if "i < 29" for i
  proof -
    have "unat ?l + (i + 1) < 2 ^ 32" using assms b that by linarith
    moreover have "unat (of_nat (i + 1) :: u32) = i + 1" using that by (intro unat_of_nat32) simp
    moreover have "lblk ?l i = ?l + of_nat (i + 1)" by (simp add: lblk_def)
    ultimately show ?thesis by (simp add: unat_word_ariths)
  qed
  then have "b \<noteq> lblk ?l i" if "i < 29" for i using assms that by fastforce
  moreover have "b \<noteq> ?l" using assms by auto
  ultimately show ?thesis by (auto simp: home_def log_area_def)
qed

lemma unat_BBLOCK:
  assumes "layout s" and "unat b < unat (sb_size (sb s))"
  shows "unat (BBLOCK b (sb s)) = unat b div BPB + unat (sb_bmapstart (sb s))"
proof -
  have q: "unat (b div of_nat BPB) = unat b div BPB" by (simp add: unat_div)
  have "unat b div BPB \<le> unat (sb_size (sb s)) div BPB" using assms(2) by (simp add: div_le_mono)
  then have "unat b div BPB + unat (sb_bmapstart (sb s)) < 2 ^ 32"
    using assms(1) unsigned_less [of "sb_size (sb s)", where ?'a = nat] by (simp add: layout_def data_start_def)
  then show ?thesis unfolding BBLOCK_def using q by (subst unat_add_small) simp_all
qed

lemma BBLOCK_bm:
  assumes "layout s" and "unat b < unat (sb_size (sb s))" shows "BBLOCK b (sb s) \<in> bm_blocks (sb s)"
proof -
  have "unat b div BPB \<le> unat (sb_size (sb s)) div BPB" using assms(2) by (simp add: div_le_mono)
  then show ?thesis unfolding bm_blocks_def data_start_def mem_Collect_eq unat_BBLOCK [OF assms] by linarith
qed

lemma bm_home: "layout s \<Longrightarrow> b \<in> bm_blocks (sb s) \<Longrightarrow> home s b"
  by (rule home_beyond) (auto simp: layout_def bm_blocks_def)

lemma data_home: "layout s \<Longrightarrow> data_start (sb s) \<le> unat b \<Longrightarrow> home s b"
  by (rule home_beyond) (auto simp: layout_def data_start_def)

lemma free_data: "meta_used s \<Longrightarrow> b \<in> free_blocks s \<Longrightarrow> data_start (sb s) \<le> unat b \<and> unat b < unat (sb_size (sb s))"
  by (auto simp: meta_used_def free_blocks_def not_less [symmetric])

lemma data_not_bm: "data_start (sb s) \<le> unat b \<Longrightarrow> b \<notin> bm_blocks (sb s)"
  by (auto simp: bm_blocks_def)

lemma in_tx_view_length: "in_tx k H S s \<Longrightarrow> length (view s b) = BSIZE"
  using store_wf(1) [OF in_txD(1)] .

subsection \<open>Allocation\<close>

lemma room_card: "card (S \<union> H) < n \<Longrightarrow> card (S :: u32 set) < n"
  using card_mono [of "S \<union> H" S] by simp

lemma bzero_law:
  assumes "in_tx k H S s" and "b \<notin> H" and "home s b" and "card (S \<union> H) < 29"
  shows "\<exists>t. bzero ROOTDEV b s = Some t \<and> in_tx k H (insert b S) t \<and> tx_only s t \<and> view t = (view s)(b := replicate BSIZE 0) \<and>
    disk t = disk s \<and> (\<forall>j m. buf_of s j m \<and> m \<in> H \<longrightarrow> buf_of t j m)"
proof -
  have "card S < 29" "b \<in> S \<or> card (S \<union> H) < NBUF" using assms(4) room_card by auto
  from tx_update [OF assms(1-3) this, of "\<lambda>_. replicate BSIZE 0"]
  obtain i u v t where "bread ROOTDEV b s = Some (i, u)" "log_write i (set_data i (replicate BSIZE 0) u) = Some v" "brelse i v = Some t"
    "in_tx k H (insert b S) t" "tx_only s t" "view t = (view s)(b := replicate BSIZE 0)" "disk t = disk s"
    "\<forall>j m. buf_of s j m \<and> m \<in> H \<longrightarrow> buf_of t j m" by auto
  then show ?thesis by (simp add: bzero_def)
qed

lemma bm_find_Some:
  assumes "bm_find b n bs = Some bi"
  shows "bi < BPB" and "b + bi < n" and "\<not> bm_bit bs bi" and "j < bi \<Longrightarrow> bm_bit bs j"
  using assms by (auto simp: bm_find_def find_upt mask_bit)

lemma bm_find_None:
  assumes "bm_find b n bs = None" and "bi < BPB" and "b + bi < n"
  shows "bm_bit bs bi"
  using assms by (auto simp: bm_find_def find_upt_None mask_bit)

lemma BBLOCK_same:
  assumes "layout s" and "unat b < unat (sb_size (sb s))" and "unat c < unat (sb_size (sb s))"
  shows "BBLOCK b (sb s) = BBLOCK c (sb s) \<longleftrightarrow> unat b div BPB = unat c div BPB"
  using unat_BBLOCK [OF assms(1,2)] unat_BBLOCK [OF assms(1,3)] by (metis add_right_cancel unsigned_word_eqI)

text \<open>Block \<open>BPB * j + bi\<close> is bit \<open>bi\<close> of block \<open>j\<close> of the map.\<close>

lemma bm_addr:
  fixes s :: "'a fs_st_scheme"
  assumes "layout s" and "bi < BPB" and "BPB * j + bi < unat (sb_size (sb s))"
  defines "b \<equiv> of_nat (BPB * j + bi) :: u32" and "B \<equiv> BBLOCK (of_nat (BPB * j)) (sb s)"
  shows "unat b = BPB * j + bi" and "BBLOCK b (sb s) = B" and "used s b \<longleftrightarrow> bm_bit (view s B) bi" and "unat b mod BPB = bi"
    and "B \<in> bm_blocks (sb s)"
proof -
  let ?z = "of_nat (BPB * j) :: u32"
  have n: "unat (sb_size (sb s)) < 2 ^ 32" using unsigned_less [of "sb_size (sb s)", where ?'a = nat] by simp
  show ub: "unat b = BPB * j + bi" unfolding b_def by (rule unat_of_nat32) (use assms(3) n in linarith)
  have uz: "unat ?z = BPB * j" by (rule unat_of_nat32) (use assms(3) n in linarith)
  have dm: "(BPB * j + bi) div BPB = BPB * j div BPB" "(BPB * j + bi) mod BPB = bi" using assms(2) by simp_all
  have z: "unat ?z < unat (sb_size (sb s))" using uz assms(3) by linarith
  show B: "BBLOCK b (sb s) = B" unfolding B_def using BBLOCK_same [OF assms(1), of b ?z] z assms(3) dm(1) unfolding ub uz by blast
  show m: "unat b mod BPB = bi" unfolding ub by (rule dm(2))
  show "used s b \<longleftrightarrow> bm_bit (view s B) bi" unfolding used_def B m ..
  show "B \<in> bm_blocks (sb s)" unfolding B_def by (rule BBLOCK_bm [OF assms(1) z])
qed

lemma of_nat_split: "m \<le> unat c \<Longrightarrow> (of_nat (m + (unat c - m)) :: u32) = c"
  by simp

text \<open>What a successful \<^verbatim>\<open>balloc\<close> does.\<close>

definition fs_tx :: "int \<Rightarrow> u32 set \<Rightarrow> u32 set \<Rightarrow> 'a fs_st_scheme \<Rightarrow> bool" where
  "fs_tx k H S s \<longleftrightarrow> in_tx k H S s \<and> layout s \<and> meta_used s"

definition took :: "int \<Rightarrow> u32 set \<Rightarrow> u32 set \<Rightarrow> 'a fs_st_scheme \<Rightarrow> u32 \<Rightarrow> 'a fs_st_scheme \<Rightarrow> bool" where
  "took k H S s b t \<longleftrightarrow> b \<in> free_blocks s \<and> (\<forall>c\<in>free_blocks s. unat b \<le> unat c) \<and> in_tx k H ({b, BBLOCK b (sb s)} \<union> S) t \<and> tx_only s t \<and>
     view t = (view s)(BBLOCK b (sb s) := bm_set (unat b mod BPB) (view s (BBLOCK b (sb s))), b := replicate BSIZE 0) \<and> disk t = disk s \<and>
     (\<forall>j m. buf_of s j m \<and> m \<in> H \<longrightarrow> buf_of t j m)"

lemma balloc_step:
  assumes tx: "fs_tx k H S s" and H: "H \<inter> bm_blocks (sb s) = {}" "\<forall>b\<in>H. used s b" and room: "card (S \<union> H) \<le> 27"
    and j: "BPB * j < unat (sb_size (sb s))" and below: "\<And>c. unat c < BPB * j \<Longrightarrow> unat c < unat (sb_size (sb s)) \<Longrightarrow> used s c"
    and f: "bm_find (BPB * j) (unat (sb_size (sb s))) (view s (BBLOCK (of_nat (BPB * j)) (sb s))) = Some bi"
  shows "\<exists>b t. balloc_scan ROOTDEV (BPB * j # js) s = Some (b, t) \<and> took k H S s b t"
proof -
  let ?n = "unat (sb_size (sb s))"
  define b :: u32 where "b = of_nat (BPB * j + bi)"
  define B where "B = BBLOCK (of_nat (BPB * j)) (sb s)"
  have d: "in_tx k H S s" "layout s" "meta_used s" using tx by (simp_all add: fs_tx_def)
  note F = bm_find_Some [OF f, folded B_def]
  note A = bm_addr [OF d(2) F(1,2), folded b_def B_def]
  have nu: "\<not> used s b" using A(3) F(3) by simp
  have free: "b \<in> free_blocks s" using F(2) A(1) nu unfolding free_blocks_def by simp
  have least: "unat b \<le> unat c" if c: "c \<in> free_blocks s" for c
  proof (rule ccontr)
    assume less: "\<not> unat b \<le> unat c"
    have nc: "\<not> used s c" "unat c < ?n" using c by (simp_all add: free_blocks_def)
    then have ge: "BPB * j \<le> unat c" using below not_less by blast
    let ?i = "unat c - BPB * j"
    have i: "?i < bi" "?i < BPB" "BPB * j + ?i < ?n" using ge less A(1) F(1) nc(2) by linarith+
    have "used s c \<longleftrightarrow> bm_bit (view s B) ?i" using bm_addr(3) [OF d(2) i(2,3)] unfolding of_nat_split [OF ge] B_def .
    then show False using F(4) [OF i(1)] nc(1) by simp
  qed
  have bd: "data_start (sb s) \<le> unat b" using free_data [OF d(3) free] by simp
  have BH: "B \<notin> H" "b \<notin> H" using H A(5) nu by auto
  have r1: "card S < 29" "B \<in> S \<or> card (S \<union> H) < NBUF" using room room_card [of S H 29] by auto
  let ?f = "bm_set bi"
  obtain i u v w where u: "bread ROOTDEV B s = Some (i, u)" "b_data (bufs u i) = view s B" "bio_only s u"
    "log_write i (set_data i (?f (view s B)) u) = Some v" "brelse i v = Some w" "in_tx k H (insert B S) w" "tx_only s w"
    "view w = (view s)(B := ?f (view s B))" "disk w = disk s" "\<forall>j m. buf_of s j m \<and> m \<in> H \<longrightarrow> buf_of w j m"
    using tx_update [OF d(1) BH(1) bm_home [OF d(2) A(5)] r1, of ?f] in_tx_view_length [OF d(1)] by auto
  have "card (insert B S \<union> H) < 29" using room by (simp add: card_insert_if)
  moreover have "home w b" using data_home [OF d(2) bd] tx_only_fields(7) [OF u(7)] by blast
  ultimately obtain t where t: "bzero ROOTDEV b w = Some t" "in_tx k H (insert b (insert B S)) t" "tx_only w t"
    "view t = (view w)(b := replicate BSIZE 0)" "disk t = disk w" "\<forall>j m. buf_of w j m \<and> m \<in> H \<longrightarrow> buf_of t j m"
    using bzero_law [OF u(6) BH(2)] by blast
  have "balloc_scan ROOTDEV (BPB * j # js) s = Some (b, t)"
    using u(1-5) t(1) f bio_only_fs(1) [OF u(3)] unfolding b_def B_def by (simp del: of_nat_mult of_nat_add)
  moreover have "took k H S s b t"
    unfolding took_def A(2,4) using free least t u(8,9,10) tx_only_trans [OF u(7) t(3)] by auto
  ultimately show ?thesis by blast
qed

lemma same_view:
  assumes "sb t = sb s" and "view t = view s"
  shows "used t = used s" "free_blocks t = free_blocks s" "meta_used t = meta_used s"
  using assms by (auto simp: used_def free_blocks_def meta_used_def fun_eq_iff)

lemma took_after:
  assumes "took k H S t b u" and "bio_only s t" and "view t = view s" and "disk t = disk s" and "\<forall>j m. buf_of s j m \<and> m \<in> H \<longrightarrow> buf_of t j m"
  shows "took k H S s b u"
  using assms same_view [OF bio_only_fs(1) [OF assms(2)] assms(3)] bio_only_fs(1) [OF assms(2)]
    tx_only_trans [OF bio_only_tx [OF assms(2)]] by (auto simp: took_def)

lemma balloc_scan_law:
  assumes "fs_tx k H S s" and "H \<inter> bm_blocks (sb s) = {}" "\<forall>b\<in>H. used s b" and "card (S \<union> H) \<le> 27"
    and "m = (unat (sb_size (sb s)) + (BPB - 1)) div BPB" and "j \<le> m" and "\<And>c. unat c < BPB * j \<Longrightarrow> unat c < unat (sb_size (sb s)) \<Longrightarrow> used s c"
  shows "(free_blocks s = {} \<longrightarrow> balloc_scan ROOTDEV (map ((*) BPB) [j..<m]) s = None) \<and>
    (free_blocks s \<noteq> {} \<longrightarrow> (\<exists>b t. balloc_scan ROOTDEV (map ((*) BPB) [j..<m]) s = Some (b, t) \<and> took k H S s b t))"
  using assms
proof (induction "m - j" arbitrary: j s)
  case 0
  have "unat (sb_size (sb s)) \<le> BPB * m" using 0(6) by simp
  moreover have "j = m" using 0 by simp
  ultimately have "free_blocks s = {}" using 0(8) by (force simp: free_blocks_def)
  then show ?case using \<open>j = m\<close> by simp
next
  case (Suc n)
  let ?N = "unat (sb_size (sb s))" and ?B = "BBLOCK (of_nat (BPB * j)) (sb s)"
  have jm: "j < m" using Suc(2) by simp
  then have jN: "BPB * j < ?N" using Suc(7) by (simp add: less_eq_Suc_le le_div_geq)
  have up: "[j..<m] = j # [Suc j..<m]" using jm by (rule upt_conv_Cons)
  show ?case
  proof (cases "bm_find (BPB * j) ?N (view s ?B)")
    case (Some bi)
    then have "free_blocks s \<noteq> {}" using balloc_step [OF Suc(3-6) jN Suc(9) Some] by (auto simp: took_def)
    then show ?thesis using balloc_step [OF Suc(3-6) jN Suc(9) Some] unfolding up list.map by blast
  next
    case None
    have d: "in_tx k H S s" "layout s" "meta_used s" using Suc(3) by (simp_all add: fs_tx_def)
    have Bm: "?B \<in> bm_blocks (sb s)" using bm_addr(5) [OF d(2), of 0 j] jN by simp
    then have "?B \<notin> H" "?B \<in> S \<or> card (S \<union> H) < NBUF" using Suc(4,6) by auto
    from tx_peek [OF d(1) this] obtain i u t where u: "bread ROOTDEV ?B s = Some (i, u)" "b_data (bufs u i) = view s ?B" "bio_only s u"
      "brelse i u = Some t" "in_tx k H S t" "bio_only s t" "view t = view s" "disk t = disk s" "\<forall>j m. buf_of s j m \<and> m \<in> H \<longrightarrow> buf_of t j m" by blast
    have sbt: "sb t = sb s" "sb u = sb s" "klog t = klog s" using bio_only_fs u(3,6) by blast+
    note v = same_view [OF sbt(1) u(7)]
    have step: "balloc_scan ROOTDEV (map ((*) BPB) [j..<m]) s = balloc_scan ROOTDEV (map ((*) BPB) [Suc j..<m]) t"
      unfolding up list.map using u(1,2,4) None sbt(2) by (simp del: of_nat_mult)
    have below: "used t c" if c: "unat c < BPB * Suc j" "unat c < ?N" for c
    proof (cases "unat c < BPB * j")
      case True then show ?thesis using Suc(9) c v(1) by simp
    next
      case False
      then have ge: "BPB * j \<le> unat c" by simp
      let ?i = "unat c - BPB * j"
      have i: "?i < BPB" "BPB * j + ?i < ?N" using c ge by simp_all
      show ?thesis using bm_addr(3) [OF d(2) i] bm_find_None [OF None i] unfolding of_nat_split [OF ge] v(1) by blast
    qed
    have "fs_tx k H S t" using u(5) v(3) d layout_frame [of t s] sbt by (simp add: fs_tx_def)
    then have IH: "(free_blocks t = {} \<longrightarrow> balloc_scan ROOTDEV (map ((*) BPB) [Suc j..<m]) t = None) \<and>
      (free_blocks t \<noteq> {} \<longrightarrow> (\<exists>b w. balloc_scan ROOTDEV (map ((*) BPB) [Suc j..<m]) t = Some (b, w) \<and> took k H S t b w))"
      using Suc.hyps(1) [of "Suc j" t] Suc(2,4-7) jm below v(1) sbt(1) by simp
    then show ?thesis unfolding step v(2) using took_after [OF _ u(6-9)] by blast
  qed
qed

lemma bm_pos: "(bi :: nat) < BPB \<Longrightarrow> bi div 8 < BSIZE"
  by simp

lemma bm_change:
  fixes s t :: "'a fs_st_scheme"
  assumes "layout s" and "sb t = sb s" and "unat b < unat (sb_size (sb s))" and "unat c < unat (sb_size (sb s))"
    and "\<And>B. B \<in> bm_blocks (sb s) \<Longrightarrow> view t B = (if B = BBLOCK b (sb s) then bs else view s B)"
    and "\<And>i. bm_bit bs i = (if i = unat b mod BPB then v else bm_bit (view s (BBLOCK b (sb s))) i)"
  shows "used t c \<longleftrightarrow> (if c = b then v else used s c)"
proof -
  have m: "c = b \<longleftrightarrow> BBLOCK c (sb s) = BBLOCK b (sb s) \<and> unat c mod BPB = unat b mod BPB"
    using BBLOCK_same [OF assms(1,4,3)] by (metis div_mult_mod_eq unsigned_word_eqI)
  show ?thesis unfolding used_def assms(2) assms(5) [OF BBLOCK_bm [OF assms(1,4)]] using m assms(6) by auto
qed

lemma took_law:
  assumes "fs_tx k H S s" and "took k H S s b t"
  shows "free_blocks t = free_blocks s - {b}" and "fs_tx k H ({b, BBLOCK b (sb s)} \<union> S) t" and "used t b"
    and "\<And>c. unat c < unat (sb_size (sb s)) \<Longrightarrow> used s c \<Longrightarrow> used t c"
proof -
  have d: "in_tx k H S s" "layout s" "meta_used s" using assms(1) by (simp_all add: fs_tx_def)
  have t: "b \<in> free_blocks s" "in_tx k H ({b, BBLOCK b (sb s)} \<union> S) t" "tx_only s t"
    "view t = (view s)(BBLOCK b (sb s) := bm_set (unat b mod BPB) (view s (BBLOCK b (sb s))), b := replicate BSIZE 0)"
    using assms(2) by (auto simp: took_def)
  note b = free_data [OF d(3) t(1)]
  have sbt: "sb t = sb s" "lg_start (klog t) = lg_start (klog s)" using tx_only_fs [OF t(3)] tx_only_fields [OF t(3)] by auto
  have "used t c \<longleftrightarrow> (if c = b then True else used s c)" if "unat c < unat (sb_size (sb s))" for c
    by (rule bm_change [OF d(2) sbt(1) conjunct2 [OF b] that])
      (use data_not_bm [OF conjunct1 [OF b]] bm_pos in_tx_view_length [OF d(1)] in \<open>auto simp: t(4) bm_bit_set\<close>)
  then have u: "used t c \<longleftrightarrow> c = b \<or> used s c" if "unat c < unat (sb_size (sb s))" for c using that by simp
  then show "free_blocks t = free_blocks s - {b}" "used t b" "\<And>c. unat c < unat (sb_size (sb s)) \<Longrightarrow> used s c \<Longrightarrow> used t c"
    using b by (auto simp: free_blocks_def sbt)
  have "meta_used t" using d(2,3) u by (auto simp: meta_used_def sbt layout_def)
  then show "fs_tx k H ({b, BBLOCK b (sb s)} \<union> S) t" using t(2) d(2) layout_frame [OF sbt] by (simp add: fs_tx_def)
qed

lemma balloc_law:
  assumes "fs_tx k H S s" and "H \<inter> bm_blocks (sb s) = {}" "\<forall>b\<in>H. used s b" and "card (S \<union> H) \<le> 27"
  shows "(free_blocks s = {} \<longrightarrow> balloc ROOTDEV s = None) \<and>
    (free_blocks s \<noteq> {} \<longrightarrow> (\<exists>b t. balloc ROOTDEV s = Some (b, t) \<and> took k H S s b t))"
  unfolding balloc_def using balloc_scan_law [OF assms refl, of 0] by simp

lemma bfree_law:
  assumes tx: "fs_tx k H S s" and b: "unat b < unat (sb_size (sb s))" "BBLOCK b (sb s) \<notin> H" and room: "card (S \<union> H) < 29"
  shows "(used s b \<longrightarrow> (\<exists>t. bfree ROOTDEV b s = Some t \<and> in_tx k H (insert (BBLOCK b (sb s)) S) t \<and> tx_only s t \<and>
       view t = (view s)(BBLOCK b (sb s) := bm_clear (unat b mod BPB) (view s (BBLOCK b (sb s)))) \<and> disk t = disk s \<and>
       free_blocks t = insert b (free_blocks s) \<and> (\<forall>j m. buf_of s j m \<and> m \<in> H \<longrightarrow> buf_of t j m))) \<and>
    (\<not> used s b \<longrightarrow> bfree ROOTDEV b s = None)"
proof -
  let ?B = "BBLOCK b (sb s)" and ?i = "unat b mod BPB"
  have d: "in_tx k H S s" "layout s" "meta_used s" using tx by (simp_all add: fs_tx_def)
  have r1: "card S < 29" "?B \<in> S \<or> card (S \<union> H) < NBUF" using room room_card [of S H 29] by auto
  obtain i u v t where u: "bread ROOTDEV ?B s = Some (i, u)" "b_data (bufs u i) = view s ?B" "bio_only s u"
    "log_write i (set_data i (bm_clear ?i (view s ?B)) u) = Some v" "brelse i v = Some t" "in_tx k H (insert ?B S) t" "tx_only s t"
    "view t = (view s)(?B := bm_clear ?i (view s ?B))" "disk t = disk s" "\<forall>j m. buf_of s j m \<and> m \<in> H \<longrightarrow> buf_of t j m"
    using tx_update [OF d(1) b(2) bm_home [OF d(2) BBLOCK_bm [OF d(2) b(1)]] r1, of "bm_clear ?i"] in_tx_view_length [OF d(1)] by auto
  have sbt: "sb t = sb s" using tx_only_fs [OF u(7)] by auto
  have "used t c \<longleftrightarrow> (if c = b then False else used s c)" if "unat c < unat (sb_size (sb s))" for c
    by (rule bm_change [OF d(2) sbt b(1) that]) (use bm_pos in_tx_view_length [OF d(1)] in \<open>auto simp: u(8) bm_bit_clear\<close>)
  then have "free_blocks t = insert b (free_blocks s)" using b(1) by (auto simp: free_blocks_def sbt split: if_splits)
  moreover have "bfree ROOTDEV b s = (if used s b then Some t else None)"
    using u(1,2,4,5) by (simp add: bfree_def mask_bit used_def panic_if_def)
  ultimately show ?thesis using u by auto
qed

text \<open>C12: \<^verbatim>\<open>balloc\<close> takes the least free block.  Inside a transaction it returns a block that was free, with
  every smaller block in use; afterwards the free blocks are the others, the block reads as zeros, every
  block but it and its part of the map reads as before, and the disk itself is untouched until the commit.
  It panics exactly when no block is free.\<close>

theorem balloc_correct:
  assumes "fs_tx k H S s" and "H \<inter> bm_blocks (sb s) = {}" and "\<forall>b\<in>H. used s b" and "card (S \<union> H) \<le> 27"
  shows "if free_blocks s = {} then balloc ROOTDEV s = None
    else \<exists>b t. balloc ROOTDEV s = Some (b, t) \<and> b \<in> free_blocks s \<and> (\<forall>c\<in>free_blocks s. b \<le> c) \<and> free_blocks t = free_blocks s - {b} \<and>
      view t b = replicate BSIZE 0 \<and> (\<forall>c. c \<noteq> b \<and> c \<noteq> BBLOCK b (sb s) \<longrightarrow> view t c = view s c) \<and> disk t = disk s \<and>
      fs_tx k H ({b, BBLOCK b (sb s)} \<union> S) t"
proof (cases "free_blocks s = {}")
  case True
  then show ?thesis using balloc_law [OF assms] by simp
next
  case False
  then obtain b t where t: "balloc ROOTDEV s = Some (b, t)" "took k H S s b t" using balloc_law [OF assms] by blast
  note l = took_law [OF assms(1) t(2)]
  have "\<forall>c\<in>free_blocks s. b \<le> c" using t(2) by (simp add: took_def word_le_nat_alt)
  then show ?thesis using False t l by (auto simp: took_def)
qed

text \<open>C32: \<^verbatim>\<open>bfree\<close> of a block in use makes exactly that block free, changing only its part of the map; \<^verbatim>\<open>bfree\<close> of
  a block that is already free panics.\<close>

theorem bfree_correct:
  assumes "fs_tx k H S s" and "unat b < unat (sb_size (sb s))" and "BBLOCK b (sb s) \<notin> H" and "card (S \<union> H) < 29"
  shows "if b \<in> free_blocks s then bfree ROOTDEV b s = None
    else \<exists>t. bfree ROOTDEV b s = Some t \<and> free_blocks t = insert b (free_blocks s) \<and> (\<forall>c. c \<noteq> BBLOCK b (sb s) \<longrightarrow> view t c = view s c) \<and>
      disk t = disk s \<and> in_tx k H (insert (BBLOCK b (sb s)) S) t"
  using bfree_law [OF assms] assms(2) by (auto simp: free_blocks_def)

subsection \<open>A concrete file system\<close>

text \<open>The layout of a file system of 1000 blocks, with blocks 0 to 47 in use.\<close>

definition demo_map :: bytes where
  "demo_map = replicate 6 255 @ replicate 1018 0"

definition demo_disk :: "u32 \<Rightarrow> bytes" where
  "demo_disk = (\<lambda>_. replicate BSIZE 0)(45 := demo_map)"

definition demo_inodes :: "nat \<Rightarrow> inode" where
  "demo_inodes = (\<lambda>_. \<lparr>i_dev = 0, i_inum = 0, i_ref = 0, i_valid = False,
     i_d = \<lparr>di_type = 0, di_major = 0, di_minor = 0, di_nlink = 0, di_size = 0, di_addrs = replicate 13 0\<rparr>\<rparr>)
     (0 := \<lparr>i_dev = ROOTDEV, i_inum = 5, i_ref = 1, i_valid = True,
     i_d = \<lparr>di_type = T_FILE, di_major = 0, di_minor = 0, di_nlink = 1, di_size = 0, di_addrs = replicate 13 0\<rparr>\<rparr>)"

definition demo_fs :: "(nat \<Rightarrow> inode) \<Rightarrow> fs_st" where
  "demo_fs I = log_st.extend (demo_log\<lparr>disk := demo_disk\<rparr>) (fs_st.fields demo_sb I)"

lemma demo_disk_length: "length (demo_disk b) = BSIZE"
  by (simp add: demo_disk_def demo_map_def)

lemma demo_fs_binit: "cur (demo_fs I) = Some 0" "bio_only (demo_fs I) (binit (demo_fs I))"
proof -
  have blank: "blank_cache (demo_fs I)"
    using demo_disk_length by (simp add: demo_fs_def demo_log_def blank_cache_def demo_bio_def sl_st.defs bio_st.defs log_st.defs fs_st.defs)
  have f: "held (demo_fs I) = {}" "procs (demo_fs I) = demo_procs" "cur (demo_fs I) = Some 0"
    by (simp_all add: demo_fs_def demo_log_def demo_bio_def demo_sl_def demo_st_def proc_st.defs sl_st.defs bio_st.defs log_st.defs fs_st.defs)
  have calm: "calm (demo_fs I) 0" by (simp add: calm_def f demo_procs_def demo_proc_def)
  show "cur (demo_fs I) = Some 0" "bio_only (demo_fs I) (binit (demo_fs I))" using f(3) binit_cold(3) [OF blank calm] by simp_all
qed

lemma demo_fs_tx:
  "fs_tx 1 {} {} (binit (demo_fs I))" "view (binit (demo_fs I)) = demo_disk" "disk (binit (demo_fs I)) = demo_disk"
  "sb (binit (demo_fs I)) = demo_sb" "inodes (binit (demo_fs I)) = I" "klog (binit (demo_fs I)) = klog demo_log"
  "unat b < 1000 \<Longrightarrow> used (binit (demo_fs I)) b \<longleftrightarrow> unat b < 48" "lg_outstanding (klog (binit (demo_fs I))) = 1"
proof -
  let ?s = "demo_fs I" and ?t = "binit (demo_fs I)"
  have blank: "blank_cache ?s"
    using demo_disk_length by (simp add: demo_fs_def demo_log_def blank_cache_def demo_bio_def sl_st.defs bio_st.defs log_st.defs fs_st.defs)
  have f: "klog ?s = klog demo_log" "disk ?s = demo_disk" "dwrites ?s = []" "held ?s = {}" "procs ?s = demo_procs" "cur ?s = Some 0"
    "sb ?s = demo_sb" "inodes ?s = I"
    by (simp_all add: demo_fs_def demo_log_def demo_bio_def demo_sl_def demo_st_def proc_st.defs sl_st.defs bio_st.defs log_st.defs fs_st.defs)
  have calm: "calm ?s 0" "pid (procs ?s 0) = 1" by (simp_all add: calm_def f demo_procs_def demo_proc_def)
  note b = binit_cold [OF blank calm(1)]
  have st: "store_of ?t = \<lparr>st_view = demo_disk, st_disk = demo_disk, st_rc = pins {}, st_lk = (\<lambda>_. None), st_writes = []\<rparr>"
    using b(4) by (simp add: f pins_def fun_eq_iff)
  note se = store_eq [OF st]
  show v: "view ?t = demo_disk" "disk ?t = demo_disk" using se by simp_all
  show o: "sb ?t = demo_sb" "inodes ?t = I" and kl: "klog ?t = klog demo_log" using bio_only_fs [OF b(3)] f by simp_all
  show "lg_outstanding (klog ?t) = 1" by (simp add: kl demo_log_simps)
  have tx: "in_tx 1 {} {} ?t" using b(2) se calm(2) kl bio_only_fields(1) [OF b(3)]
    by (simp add: in_tx_def f demo_log_simps pins_def fun_eq_iff)
  have lay: "layout ?t" by (simp add: layout_def data_start_def o kl demo_log_simps demo_sb_def)
  show u: "used ?t b \<longleftrightarrow> unat b < 48" if "unat b < 1000" for b
  proof -
    have "unat (BBLOCK b demo_sb) = 45" using unat_BBLOCK [OF lay, of b] that by (simp add: o demo_sb_def)
    then have "BBLOCK b demo_sb = 45" by (simp add: word_unat_eq_iff)
    moreover have "bit (255 :: u8) (unat b mod 8)"
    proof -
      have "(255 :: u8) = - 1" by simp
      then show ?thesis by (simp only:) simp
    qed
    moreover have "demo_map ! i = (if i < 6 then 255 else 0)" if "i < 1024" for i
      using that unfolding demo_map_def nth_append length_replicate by (simp only: nth_replicate split: if_split) auto
    moreover have "unat b div 8 < 1024" "unat b div 8 < 6 \<longleftrightarrow> unat b < 48" using that by auto
    ultimately show ?thesis using that unfolding used_def bm_bit_def o v demo_disk_def by simp
  qed
  have "meta_used ?t" using u by (simp add: meta_used_def data_start_def o demo_sb_def)
  then show "fs_tx 1 {} {} ?t" using tx lay by (simp add: fs_tx_def)
qed

lemma demo_fs_free: "free_blocks (binit (demo_fs I)) = {b. 48 \<le> unat b \<and> unat b < 1000}"
  using demo_fs_tx(7) by (auto simp: free_blocks_def demo_fs_tx demo_sb_def not_less)

theorem balloc_correct_witness:
  "\<exists>t. balloc ROOTDEV (binit (demo_fs demo_inodes)) = Some (48, t) \<and> free_blocks t = {b. 48 \<le> unat b \<and> unat b < 1000} - {48}"
proof -
  let ?s = "binit (demo_fs demo_inodes)"
  have ne: "48 \<in> free_blocks ?s" by (simp add: demo_fs_free)
  obtain b t where t: "balloc ROOTDEV ?s = Some (b, t)" "b \<in> free_blocks ?s" "\<forall>c\<in>free_blocks ?s. b \<le> c" "free_blocks t = free_blocks ?s - {b}"
    using balloc_correct [OF demo_fs_tx(1), of demo_inodes] ne by (auto split: if_splits)
  have "b \<le> 48" using t(3) ne by blast
  then have "unat b \<le> 48" by (simp add: word_le_nat_alt)
  moreover have "48 \<le> unat b" using t(2) by (simp add: demo_fs_free)
  ultimately have "b = 48" by (simp add: word_unat_eq_iff)
  then show ?thesis using t(1,4) unfolding demo_fs_free by blast
qed

theorem bfree_correct_witness:
  "(\<exists>t. bfree ROOTDEV 47 (binit (demo_fs demo_inodes)) = Some t \<and> 47 \<in> free_blocks t) \<and> bfree ROOTDEV 48 (binit (demo_fs demo_inodes)) = None"
  using bfree_correct [OF demo_fs_tx(1) [of demo_inodes], of 47] bfree_correct [OF demo_fs_tx(1) [of demo_inodes], of 48]
  unfolding demo_fs_free demo_fs_tx(4) demo_sb_def by auto

end
