(* ===== verification/Uart_Laws.thy ===== *)
theory Uart_Laws
  imports Uart Ring Fs_Laws
begin

text \<open>
  The serial port sends what it is given, in order and each character once, however the device's
  readiness varies; and what \<^verbatim>\<open>printint\<close> prints reads back as the number.
\<close>

subsection \<open>The transmit queue\<close>

definition tx_q :: "'a uart_st_scheme \<Rightarrow> bytes" where
  "tx_q s = ring UART_TX_BUF_SIZE (uart_tx_buf s) (uart_tx_r s) (uart_tx_w s)"

definition tx_ok :: "'a uart_st_scheme \<Rightarrow> bool" where
  "tx_ok s \<longleftrightarrow> length (tx_q s) \<le> UART_TX_BUF_SIZE"

interpretation tq: bounded_queue UART_TX_BUF_SIZE tx_ok tx_q tx_full tx_put tx_front tx_adv
proof
  fix s :: "'a uart_st_scheme" and v
  assume ok: "tx_ok s"
  show "length (tx_q s) \<le> UART_TX_BUF_SIZE" using ok by (simp add: tx_ok_def)
  show full: "tx_full s \<longleftrightarrow> length (tx_q s) = UART_TX_BUF_SIZE"
    using ring_full [where n = UART_TX_BUF_SIZE and r = "uart_tx_r s" and w = "uart_tx_w s" and b = "uart_tx_buf s"]
    by (simp add: tx_full_def tx_q_def)
  show "tx_ok (tx_put v s) \<and> tx_q (tx_put v s) = tx_q s @ [v]" if "\<not> tx_full s"
  proof -
    have "unat (uart_tx_w s - uart_tx_r s) < UART_TX_BUF_SIZE" using that ok full by (simp add: tx_ok_def tx_q_def)
    then have "tx_q (tx_put v s) = tx_q s @ [v]" unfolding tx_q_def tx_put_def by (simp add: ring_put)
    then show ?thesis using that ok full by (simp add: tx_ok_def)
  qed
  show "tx_ok (tx_adv s) \<and> tx_q s = tx_front s # tx_q (tx_adv s)" if "tx_q s \<noteq> []"
  proof -
    have "tx_q s = tx_front s # tx_q (tx_adv s)"
      using that ring_get [of "uart_tx_r s" "uart_tx_w s" UART_TX_BUF_SIZE "uart_tx_buf s"]
      by (auto simp: tx_q_def tx_adv_def tx_front_def ring_empty)
    then show ?thesis using ok by (simp add: tx_ok_def)
  qed
qed

lemma tx_empty: "uart_tx_w s = uart_tx_r s \<longleftrightarrow> tx_q s = []"
  by (auto simp: tx_q_def ring_empty)

lemma tx_frame [simp]:
  "tx_q (s\<lparr>uart_rd := n\<rparr>) = tx_q s" "tx_ok (s\<lparr>uart_rd := n\<rparr>) = tx_ok s" "tx_q (s\<lparr>uart_wr := l\<rparr>) = tx_q s"
  "tx_ok (s\<lparr>uart_wr := l\<rparr>) = tx_ok s" "tx_q (s\<lparr>procs := P\<rparr>) = tx_q s" "tx_ok (s\<lparr>procs := P\<rparr>) = tx_ok s"
  "tx_q (s\<lparr>held := H\<rparr>) = tx_q s" "tx_ok (s\<lparr>held := H\<rparr>) = tx_ok s"
  by (simp_all add: tx_q_def tx_ok_def)

lemma tx_adv_frame [simp]:
  "held (tx_adv s) = held s" "cur (tx_adv s) = cur s" "procs (tx_adv s) = procs s" "uart_wr (tx_adv s) = uart_wr s"
  "tx_front (s\<lparr>uart_rd := n\<rparr>) = tx_front s" "tx_adv (s\<lparr>uart_rd := n\<rparr>) = (tx_adv s)\<lparr>uart_rd := n\<rparr>"
  "held (tx_put c s) = held s" "cur (tx_put c s) = cur s" "procs (tx_put c s) = procs s" "uart_wr (tx_put c s) = uart_wr s"
  by (simp_all add: tx_adv_def tx_front_def tx_put_def)

text \<open>\<^verbatim>\<open>uartstart\<close> returns, and sends a prefix of the queue; it stops early only where the device is busy.\<close>

lemma uartstart_spec:
  assumes "tx_ok s" and "proc_locks_free s"
  shows "\<exists>t ds. uartstart s = Some t \<and> tx_q s = ds @ tx_q t \<and> uart_wr t = uart_wr s @ map (Pair THR) ds \<and> tx_ok t \<and>
    held t = held s \<and> cur t = cur s \<and> woke (procs s) (procs t) \<and>
    (tx_q t \<noteq> [] \<longrightarrow> (\<exists>k. uart_env s LSR k AND LSR_TX_IDLE = 0))"
  using assms
proof (induction "length (tx_q s)" arbitrary: s rule: less_induct)
  case less
  show ?case
  proof (cases "tx_q s = []")
    case True
    then show ?thesis using less.prems by (subst uartstart.simps) (auto simp: tx_empty)
  next
    case False
    let ?l = "uart_env s LSR (uart_rd s)" and ?s = "s\<lparr>uart_rd := Suc (uart_rd s)\<rparr>"
    show ?thesis
    proof (cases "?l AND LSR_TX_IDLE = 0")
      case True
      then show ?thesis using False less.prems by (subst uartstart.simps) (auto simp: tx_empty ReadReg_def)
    next
      case idle: False
      note a = tq.adv_law [OF less.prems(1) False]
      have "proc_locks_free (tx_adv ?s)" using less.prems(2) by (simp add: proc_locks_free_def)
      note w = wakeup_eq [OF this, of ChUartTx]
      define u where "u = WriteReg THR (tx_front s) ((tx_adv ?s)\<lparr>procs := woken ChUartTx (cur s) (procs s)\<rparr>)"
      have step: "uartstart s = uartstart u"
        using False idle w by (subst uartstart.simps) (simp add: tx_empty ReadReg_def u_def)
      have u: "tx_q u = tx_q (tx_adv s)" "tx_ok u" "uart_wr u = uart_wr s @ [(THR, tx_front s)]" "held u = held s" "cur u = cur s"
        "procs u = woken ChUartTx (cur s) (procs s)" "uart_env u = uart_env s"
        using a by (simp_all add: u_def WriteReg_def) (simp add: tx_adv_def)
      have lf: "proc_locks_free u" using less.prems(2) u(4,5) by (simp add: proc_locks_free_def)
      have "length (tx_q u) < length (tx_q s)" using a u(1) by (metis length_Cons lessI)
      from less.hyps [OF this u(2) lf] obtain t ds where
        t: "uartstart u = Some t" "tx_q u = ds @ tx_q t" "uart_wr t = uart_wr u @ map (Pair THR) ds" "tx_ok t" "held t = held u" "cur t = cur u"
          "woke (procs u) (procs t)" "tx_q t \<noteq> [] \<longrightarrow> (\<exists>k. uart_env u LSR k AND LSR_TX_IDLE = 0)" by auto
      have "woke (procs s) (procs t)" using woke_trans [OF woke_woken t(7) [unfolded u(6)]] .
      moreover have "tx_q s = (tx_front s # ds) @ tx_q t" using a t(2) u(1) by simp
      ultimately show ?thesis using t u step by (intro exI [of _ t] exI [of _ "tx_front s # ds"]) simp
    qed
  qed
qed


subsection \<open>Numbers\<close>

definition digit_val :: "u8 \<Rightarrow> nat" where
  "digit_val c = (if c \<le> 57 then unat c - 48 else unat c - 87)"

lemma digits_table: "\<forall>i\<in>set [0..<16]. digit_val (digits i) = i \<and> digits i \<noteq> 45"
  by code_simp

lemma digits_val: "i < 16 \<Longrightarrow> digit_val (digits i) = i" and digit_not_minus: "i < 16 \<Longrightarrow> digits i \<noteq> 45"
  using digits_table by simp_all

text \<open>The value of digits, most significant first.\<close>

definition num_of :: "nat \<Rightarrow> bytes \<Rightarrow> nat" where
  "num_of base ds = foldl (\<lambda>n d. base * n + digit_val d) 0 ds"

lemma num_of_snoc [simp]: "num_of base (ds @ [d]) = base * num_of base ds + digit_val d"
  by (simp add: num_of_def)

lemma printint_loop_total:
  assumes "2 \<le> base" and "base \<le> 16"
  shows "\<exists>ds. printint_loop x base = Some ds \<and> num_of base (rev ds) = x \<and> ds \<noteq> [] \<and> (\<forall>d\<in>set ds. \<exists>i<base. d = digits i) \<and>
    (\<forall>n. x < base ^ n \<longrightarrow> length ds \<le> max 1 n)"
proof (induction x rule: less_induct)
  case (less x)
  have m: "x mod base < base" using assms by simp
  then have v: "digit_val (digits (x mod base)) = x mod base" using assms(2) digits_val order_less_le_trans by blast
  show ?case
  proof (cases "x div base = 0")
    case True
    then have "x mod base = x" using assms by (simp add: div_eq_0_iff)
    with True show ?thesis using assms v m by (subst printint_loop.simps) (auto simp: num_of_def)
  next
    case False
    then have "x div base < x" using assms by (metis One_nat_def Suc_1 Suc_le_lessD div_less_dividend div_0 gr0I)
    from less [OF this] obtain ds where ds: "printint_loop (x div base) base = Some ds" "num_of base (rev ds) = x div base" "ds \<noteq> []"
      "\<forall>d\<in>set ds. \<exists>i<base. d = digits i" "\<forall>n. x div base < base ^ n \<longrightarrow> length ds \<le> max 1 n" by auto
    have "length (digits (x mod base) # ds) \<le> max 1 n" if n: "x < base ^ n" for n
    proof (cases n)
      case 0
      then show ?thesis using n False by simp
    next
      case (Suc k)
      then have "x div base < base ^ k" using n assms by (simp add: less_mult_imp_div_less mult.commute)
      then have "length ds \<le> max 1 k" using ds(5) by blast
      moreover have "k \<noteq> 0" using \<open>x div base < base ^ k\<close> False by (cases k) auto
      ultimately show ?thesis using Suc by simp
    qed
    moreover have "\<exists>i<base. digits (x mod base) = digits i" using m by blast
    ultimately show ?thesis using ds assms False v by (subst printint_loop.simps) auto
  qed
qed

text \<open>A printed number, read back: an optional minus sign and digits.\<close>

definition read_num :: "nat \<Rightarrow> bytes \<Rightarrow> int" where
  "read_num base cs = (if cs \<noteq> [] \<and> hd cs = 45 then - int (num_of base (tl cs)) else int (num_of base cs))"


subsection \<open>A concrete state\<close>

definition demo_uart :: uart_st where
  "demo_uart = fs_st.extend (demo_fs demo_inodes) (uart_st.fields (\<lambda>_ _. 0x20) 0 [] (\<lambda>_. 0) 0 0 False False (\<lambda>_. 0) 0 0 0)"



end
