(* ===== verification/Pipe_Laws.thy ===== *)
theory Pipe_Laws
  imports File Uart_Laws Vm_User
begin

text \<open>
  The pipe is a bounded queue of bytes: \<^verbatim>\<open>pipewrite\<close> appends what it reads from user memory,
  \<^verbatim>\<open>piperead\<close> removes what it stores there.
\<close>

definition pipe_q :: "pipe \<Rightarrow> bytes" where
  "pipe_q q = ring PIPESIZE (pi_data q) (nread q) (nwrite q)"

definition pipe_ok :: "pipe \<Rightarrow> bool" where
  "pipe_ok q \<longleftrightarrow> length (pipe_q q) \<le> PIPESIZE"

interpretation pq: bounded_queue PIPESIZE pipe_ok pipe_q pipe_full pipe_put pipe_front pipe_adv
proof
  fix q :: pipe and v
  assume ok: "pipe_ok q"
  show "length (pipe_q q) \<le> PIPESIZE" using ok by (simp add: pipe_ok_def)
  show full: "pipe_full q \<longleftrightarrow> length (pipe_q q) = PIPESIZE"
    using ring_full [where n = PIPESIZE and r = "nread q" and w = "nwrite q" and b = "pi_data q"]
    by (simp add: pipe_full_def pipe_q_def)
  show "pipe_ok (pipe_put v q) \<and> pipe_q (pipe_put v q) = pipe_q q @ [v]" if "\<not> pipe_full q"
  proof -
    have "unat (nwrite q - nread q) < PIPESIZE" using that ok full by (simp add: pipe_ok_def pipe_q_def)
    moreover have "(PIPESIZE :: nat) dvd 2 ^ LENGTH(32)" by simp
    ultimately have "pipe_q (pipe_put v q) = pipe_q q @ [v]"
      unfolding pipe_q_def pipe_put_def by (simp add: ring_put)
    then show ?thesis using that ok full by (simp add: pipe_ok_def)
  qed
  show "pipe_ok (pipe_adv q) \<and> pipe_q q = pipe_front q # pipe_q (pipe_adv q)" if "pipe_q q \<noteq> []"
  proof -
    have "pipe_q q = pipe_front q # pipe_q (pipe_adv q)"
      using that ring_get [of "nread q" "nwrite q" PIPESIZE "pi_data q"]
      by (auto simp: pipe_q_def pipe_adv_def pipe_front_def ring_empty)
    then show ?thesis using ok by (simp add: pipe_ok_def)
  qed
qed

lemma pipe_empty: "nread q = nwrite q \<longleftrightarrow> pipe_q q = []"
  by (simp add: pipe_q_def ring_empty)

text \<open>A live process inside a pipe operation: it holds the lock of the pipe and no other.\<close>

definition piping :: "u64 \<Rightarrow> nat \<Rightarrow> u64 \<Rightarrow> u64 set \<Rightarrow> (u64 \<Rightarrow> nat list) \<Rightarrow> 'a file_st_scheme \<Rightarrow> bool" where
  "piping pi p pt T loc s \<longleftrightarrow> cur s = Some p \<and> pagetable (procs s p) = pt \<and> killed (procs s p) = 0 \<and> held s = {PipeLock pi} \<and>
     pt_wf (mem s) pt T loc \<and> pipe_ok (pipes s pi)"

lemma pipingD:
  assumes "piping pi p pt T loc s"
  shows "cur s = Some p" "pagetable (procs s p) = pt" "killed (procs s p) = 0" "held s = {PipeLock pi}"
    "pt_wf (mem s) pt T loc" "pipe_ok (pipes s pi)" "proc_locks_free s"
  using assms by (auto simp: piping_def proc_locks_free_def)

lemma copyin_byte:
  assumes "pt_wf (mem s) pt T loc" and "umapped (mem s) pt va 1"
  shows "copyin pt va 1 s = Some (0, ubytes (mem s) pt va 1)"
  using copyin_spec [OF assms(1), of va 1] assms(2) by auto

lemma ubytes_Suc: "ubytes m pt va (Suc n) = hd (ubytes m pt va 1) # ubytes m pt (va + 1) n"
  using ubytes_split [of 1 "Suc n" m pt va] by (simp add: ubytes_def)

lemma umapped_Suc: "umapped m pt va (Suc n) \<longleftrightarrow> umapped m pt va 1 \<and> umapped m pt (va + 1) n"
  using umapped_split [of 1 "Suc n" m pt va] by simp

lemma upd_pipe_simps [simp]:
  "pipes (upd_pipe a f s) = (pipes s)(a := f (pipes s a))" "mem (upd_pipe a f s) = mem s" "procs (upd_pipe a f s) = procs s"
  "cur (upd_pipe a f s) = cur s" "held (upd_pipe a f s) = held s"
  "upd_pipe a f (upd_pipe a g s) = upd_pipe a (\<lambda>q. f (g q)) s"
  by (simp_all add: upd_pipe_def)

lemma piping_put:
  "piping pi p pt T loc s \<Longrightarrow> \<not> pipe_full (pipes s pi) \<Longrightarrow> piping pi p pt T loc (upd_pipe pi (pipe_put c) s)"
  using pq.put_law by (auto simp: piping_def)

text \<open>The state after \<open>xs\<close> have been put into the pipe and its readers woken.\<close>

definition put_wake :: "u64 \<Rightarrow> bytes \<Rightarrow> 'a file_st_scheme \<Rightarrow> 'a file_st_scheme" where
  "put_wake pi xs s = (upd_pipe pi (fold pipe_put xs) s)\<lparr>procs := woken (ChPipeRead pi) (cur s) (procs s)\<rparr>"

definition asleep :: "chan \<Rightarrow> nat \<Rightarrow> 'a proc_st_scheme \<Rightarrow> 'a proc_st_scheme" where
  "asleep ch p s = s\<lparr>held := {ProcLock p}, procs := (procs s)(p := (procs s p)\<lparr>chan := Some ch, pstate := SLEEPING\<rparr>)\<rparr>"

lemma pipewrite_loop_eq:
  assumes "piping pi p pt T loc s" and "readopen (pipes s pi)" and "i \<le> n" and "umapped (mem s) pt (addr + of_nat i) (n - i)"
  shows "pipewrite_loop pi addr i n s =
    (if length (pipe_q (pipes s pi)) + (n - i) \<le> PIPESIZE
     then Some (Returns (int n), (put_wake pi (ubytes (mem s) pt (addr + of_nat i) (n - i)) s)\<lparr>held := {}\<rparr>)
     else Some (Sleeps, asleep (ChPipeWrite pi) p
       (put_wake pi (ubytes (mem s) pt (addr + of_nat i) (PIPESIZE - length (pipe_q (pipes s pi)))) s)))"
  using assms
proof (induction "n - i" arbitrary: i s)
  case 0
  note d = pipingD [OF 0(2)]
  have "length (pipe_q (pipes s pi)) \<le> PIPESIZE" using pq.bound d(6) by blast
  then show ?case using 0 d by (subst pipewrite_loop.simps)
      (simp add: wakeup_eq lock_simps put_wake_def upd_pipe_def fun_upd_idem)
next
  case (Suc k)
  note d = pipingD [OF Suc.prems(1)]
  let ?a = "addr + of_nat i" and ?q = "pipes s pi"
  have lt: "i < n" using Suc(2) by simp
  have nk: "n - i = Suc k" "n - Suc i = k" using Suc(2) by simp_all
  have um: "umapped (mem s) pt ?a 1" "umapped (mem s) pt (addr + of_nat (Suc i)) k"
    using Suc.prems(4) umapped_Suc [of "mem s" pt ?a k] nk(1) by (simp_all add: algebra_simps)
  show ?case
  proof (cases "pipe_full ?q")
    case True
    then have len: "length (pipe_q ?q) = PIPESIZE" using pq.full_iff d(6) by blast
    let ?w = "s\<lparr>procs := woken (ChPipeRead pi) (cur s) (procs s)\<rparr>"
    have "sleep_enter (ChPipeWrite pi) (PipeLock pi) ?w = Some (asleep (ChPipeWrite pi) p ?w)"
      using sleep_enter_ok [of ?w "PipeLock pi" p] d by (simp add: asleep_def)
    then show ?thesis using True len lt nk Suc.prems(2) d
      by (subst pipewrite_loop.simps) (simp add: myproc_def wakeup_eq put_wake_def upd_pipe_def fun_upd_idem)
  next
    case False
    define c where "c = hd (ubytes (mem s) pt ?a 1)"
    define t where "t = upd_pipe pi (pipe_put c) s"
    have put: "pipe_q (pipes t pi) = pipe_q ?q @ [c]" using pq.put_law [OF d(6) False] by (simp add: t_def)
    have lq: "length (pipe_q ?q) < PIPESIZE" using pq.full_iff [OF d(6)] pq.bound [OF d(6)] False by linarith
    have step: "pipewrite_loop pi addr i n s = pipewrite_loop pi addr (Suc i) n t"
      using lt False d Suc.prems(2) copyin_byte [OF d(5) um(1)]
      by (subst pipewrite_loop.simps) (simp add: myproc_def t_def c_def)
    have t: "piping pi p pt T loc t" "readopen (pipes t pi)" "mem t = mem s"
      using piping_put [OF Suc.prems(1) False, of c] Suc.prems(2) by (simp_all add: t_def pipe_put_def)
    have ub: "ubytes (mem s) pt ?a (Suc m) = c # ubytes (mem s) pt (addr + of_nat (Suc i)) m" for m
      using ubytes_Suc [of "mem s" pt ?a m] by (simp add: algebra_simps c_def)
    have pw: "put_wake pi (ubytes (mem s) pt (addr + of_nat (Suc i)) m) t = put_wake pi (ubytes (mem s) pt ?a (Suc m)) s" for m
      unfolding ub by (simp add: put_wake_def upd_pipe_def t_def)
    have room: "PIPESIZE - length (pipe_q ?q) = Suc (PIPESIZE - length (pipe_q (pipes t pi)))" using lq put by simp
    have le: "length (pipe_q ?q) + Suc k \<le> PIPESIZE \<longleftrightarrow> length (pipe_q (pipes t pi)) + k \<le> PIPESIZE" using put by simp
    have "Suc i \<le> n" using lt by simp
    from Suc(1) [OF nk(2) [symmetric] t(1,2) this] show ?thesis
      unfolding step nk room t(3) pw le using um(2) by blast
  qed
qed

lemma user_sep_upage: "(\<And>v. upage m' pt v = upage m pt v) \<Longrightarrow> user_sep m pt T \<Longrightarrow> user_sep m' pt T"
  by (simp add: user_sep_def)

lemma umapped_upage: "(\<And>v. upage m' pt v = upage m pt v) \<Longrightarrow> umapped m' pt va n = umapped m pt va n"
  by (simp add: umapped_def uaddr_def)

lemma addr_distinct: "j < 2 ^ 64 - 1 \<Longrightarrow> (a :: u64) + 1 + of_nat j \<noteq> a"
proof
  assume j: "j < 2 ^ 64 - 1" and "a + 1 + of_nat j = a"
  then have "unat (of_nat (Suc j) :: u64) = 0" by (simp add: algebra_simps)
  moreover have "unat (of_nat (Suc j) :: u64) = Suc j"
    using j by (simp add: unsigned_of_nat take_bit_nat_eq_self del: of_nat_Suc)
  ultimately show False by simp
qed

lemma piperead_copy_spec:
  assumes "piping pi p pt T loc s" and "user_sep (mem s) pt T" and "i \<le> n"
    and "k = min (n - i) (length (pipe_q (pipes s pi)))" and "umapped (mem s) pt (addr + of_nat i) k"
  shows "\<exists>m. piperead_copy pi addr i n s = Some (i + k, (upd_pipe pi (pipe_adv ^^ k) s)\<lparr>mem := m\<rparr>) \<and>
    pt_wf m pt T loc \<and> (\<forall>v. upage m pt v = upage (mem s) pt v) \<and>
    ubytes m pt (addr + of_nat i) k = take k (pipe_q (pipes s pi)) \<and>
    (\<forall>b. (\<forall>j<k. uaddr (mem s) pt (addr + of_nat i + of_nat j) \<noteq> Some b) \<longrightarrow> m b = mem s b)"
  using assms
proof (induction k arbitrary: i s)
  case 0
  have z: "(upd_pipe pi (pipe_adv ^^ 0) s)\<lparr>mem := mem s\<rparr> = s" by (simp add: upd_pipe_def)
  have "\<not> (i < n \<and> nread (pipes s pi) \<noteq> nwrite (pipes s pi))" using 0(4) by (auto simp: pipe_empty min_def split: if_splits)
  then have "piperead_copy pi addr i n s = Some (i + 0, (upd_pipe pi (pipe_adv ^^ 0) s)\<lparr>mem := mem s\<rparr>)"
    unfolding z by (subst piperead_copy.simps) auto
  then show ?case using pipingD(5) [OF 0(1)] by (intro exI [of _ "mem s"] conjI) (simp_all add: upd_pipe_def)
next
  case (Suc k)
  note d = pipingD [OF Suc.prems(1)]
  let ?a = "addr + of_nat i" and ?q = "pipes s pi"
  have ne: "pipe_q ?q \<noteq> []" and lt: "i < n" using Suc.prems(4) by auto
  have adv: "pipe_ok (pipe_adv ?q)" "pipe_q ?q = pipe_front ?q # pipe_q (pipe_adv ?q)" using pq.adv_law [OF d(6) ne] by auto
  define c where "c = pipe_front ?q"
  define s1 where "s1 = upd_pipe pi pipe_adv s"
  have um: "umapped (mem s) pt ?a 1" "umapped (mem s) pt (addr + of_nat (Suc i)) k"
    using Suc.prems(5) umapped_Suc [of "mem s" pt ?a k] by (simp_all add: algebra_simps)
  have "length [c] < 2 ^ 64" by simp
  from copyout_spec [of s1 pt T loc "[c]" ?a] obtain m1 where
    m1: "copyout pt ?a [c] s1 = Some (0, s1\<lparr>mem := m1\<rparr>)" "pt_wf m1 pt T loc" "\<forall>v. upage m1 pt v = upage (mem s) pt v"
      "ubytes m1 pt ?a 1 = [c]" "\<forall>b. uaddr (mem s) pt ?a \<noteq> Some b \<longrightarrow> m1 b = mem s b"
    using d(5) Suc.prems(2) um(1) by (auto simp: s1_def)
  define t where "t = s1\<lparr>mem := m1\<rparr>"
  have t: "piping pi p pt T loc t" "user_sep (mem t) pt T" "pipe_q (pipes t pi) = pipe_q (pipe_adv ?q)" "mem t = m1"
    using d m1(2,3) adv(1) Suc.prems(2) user_sep_upage [of m1 pt "mem s"] by (auto simp: piping_def t_def s1_def)
  have k: "k = min (n - Suc i) (length (pipe_q (pipes t pi)))" using Suc.prems(4) adv(2) t(3) by simp
  have "umapped (mem t) pt (addr + of_nat (Suc i)) k" using um(2) umapped_upage [of m1 pt "mem s"] m1(3) t(4) by simp
  from Suc.IH [OF t(1,2) _ k this] lt obtain m where
    m: "piperead_copy pi addr (Suc i) n t = Some (Suc i + k, (upd_pipe pi (pipe_adv ^^ k) t)\<lparr>mem := m\<rparr>)" "pt_wf m pt T loc"
      "\<forall>v. upage m pt v = upage m1 pt v" "ubytes m pt (addr + of_nat (Suc i)) k = take k (pipe_q (pipe_adv ?q))"
      "\<forall>b. (\<forall>j<k. uaddr m1 pt (addr + of_nat (Suc i) + of_nat j) \<noteq> Some b) \<longrightarrow> m b = m1 b"
    unfolding t(3,4) by auto
  have ua: "uaddr m1 pt v = uaddr (mem s) pt v" "uaddr m pt v = uaddr (mem s) pt v" for v using m1(3) m(3) by (simp_all add: uaddr_def)
  have step: "piperead_copy pi addr i n s = piperead_copy pi addr (Suc i) n t"
    using lt ne m1(1) d(1,2) by (subst piperead_copy.simps) (simp add: pipe_empty myproc_def t_def s1_def c_def)
  have st: "(upd_pipe pi (pipe_adv ^^ k) t)\<lparr>mem := m\<rparr> = (upd_pipe pi (pipe_adv ^^ Suc k) s)\<lparr>mem := m\<rparr>"
    by (simp add: t_def s1_def upd_pipe_def funpow_swap1)
  have klt: "k < 2 ^ 64 - 1" using k pq.bound [OF adv(1)] t(3) by simp
  obtain a where a: "uaddr (mem s) pt ?a = Some a" using um(1) by (auto simp: umapped_def)
  have far: "uaddr (mem s) pt (addr + of_nat (Suc i) + of_nat j) \<noteq> Some a" if "j < k" for j
  proof
    assume "uaddr (mem s) pt (addr + of_nat (Suc i) + of_nat j) = Some a"
    then have "addr + of_nat (Suc i) + of_nat j = ?a" using uaddr_inj [OF Suc.prems(2) _ a] by blast
    then show False using addr_distinct [of j ?a] that klt by (simp add: algebra_simps)
  qed
  have "m a = m1 a" using m(5) far ua(1) by simp
  moreover have "m1 a = c" using m1(4) a ua(1) by (simp add: ubytes_def)
  ultimately have "ubytes m pt ?a 1 = [c]" using a ua(2) by (simp add: ubytes_def)
  then have "ubytes m pt ?a (Suc k) = take (Suc k) (pipe_q ?q)"
    using ubytes_Suc [of m pt ?a k] m(4) adv(2) by (simp add: c_def algebra_simps)
  moreover have "m b = mem s b" if b: "\<forall>j<Suc k. uaddr (mem s) pt (?a + of_nat j) \<noteq> Some b" for b
  proof -
    have "uaddr m1 pt (addr + of_nat (Suc i) + of_nat j) \<noteq> Some b" if "j < k" for j
      using b [rule_format, of "Suc j"] that by (simp add: ua algebra_simps)
    then have "m b = m1 b" using m(5) by blast
    also have "m1 b = mem s b" using m1(5) b [rule_format, of 0] by simp
    finally show ?thesis .
  qed
  ultimately show ?case using m m1(3) step st by (intro exI [of _ m]) (simp add: comp_def)
qed

text \<open>Entering and leaving the operations.\<close>

lemma piping_enter:
  assumes "cur s = Some p" and "held s = {}" and "killed (procs s p) = 0" and "pt_wf (mem s) (pagetable (procs s p)) T loc"
    and "pipe_ok (pipes s pi)"
  shows "piping pi p (pagetable (procs s p)) T loc (s\<lparr>held := {PipeLock pi}\<rparr>)"
  using assms by (simp add: piping_def)

lemma pipewrite_law:
  assumes s: "cur s = Some p" "held s = {}" "killed (procs s p) = 0" "pt_wf (mem s) pt T loc" "pipe_ok (pipes s pi)"
    and pt: "pagetable (procs s p) = pt" and um: "umapped (mem s) pt addr n" and ro: "readopen (pipes s pi)"
    and k: "k = min n (PIPESIZE - length (pipe_q (pipes s pi)))"
  shows "\<exists>t. pipewrite pi addr (int n) s = Some (if k = n then Returns (int n) else Sleeps, t) \<and> mem t = mem s \<and>
    pipe_ok (pipes t pi) \<and> pipe_q (pipes t pi) = pipe_q (pipes s pi) @ ubytes (mem s) pt addr k"
proof -
  let ?s = "s\<lparr>held := {PipeLock pi}\<rparr>" and ?q = "pipes s pi"
  have pg: "piping pi p pt T loc ?s" using piping_enter [of s p T loc pi] s pt by simp
  have bd: "length (pipe_q ?q) \<le> PIPESIZE" using pq.bound [OF s(5)] .
  have op: "pipewrite pi addr (int n) s = pipewrite_loop pi addr 0 n ?s" using s(2) by (simp add: pipewrite_def lock_simps)
  have put: "pipe_ok (fold pipe_put (ubytes (mem s) pt addr j) ?q) \<and>
      pipe_q (fold pipe_put (ubytes (mem s) pt addr j) ?q) = pipe_q ?q @ ubytes (mem s) pt addr j"
    if "length (pipe_q ?q) + j \<le> PIPESIZE" for j
    using pq.put_all [OF s(5), of "ubytes (mem s) pt addr j"] that by simp
  show ?thesis
  proof (cases "length (pipe_q ?q) + n \<le> PIPESIZE")
    case True
    then have "k = n" using k by simp
    then show ?thesis using pipewrite_loop_eq [OF pg, of 0 n addr] um ro True put [of n] op
      by (simp add: put_wake_def)
  next
    case False
    then have kn: "k \<noteq> n" "k = PIPESIZE - length (pipe_q ?q)" using k bd by auto
    then have "length (pipe_q ?q) + k \<le> PIPESIZE" using bd by simp
    from put [OF this] show ?thesis using pipewrite_loop_eq [OF pg, of 0 n addr] um ro False kn op
      by (simp add: put_wake_def asleep_def)
  qed
qed

lemma piperead_law:
  assumes s: "cur s = Some p" "held s = {}" "killed (procs s p) = 0" "pt_wf (mem s) pt T loc" "pipe_ok (pipes s pi)"
    and pt: "pagetable (procs s p) = pt" and sep: "user_sep (mem s) pt T" and um: "umapped (mem s) pt addr n"
    and av: "pipe_q (pipes s pi) \<noteq> [] \<or> \<not> writeopen (pipes s pi)" and k: "k = min n (length (pipe_q (pipes s pi)))"
  shows "\<exists>t. piperead pi addr (int n) s = Some (Returns (int k), t) \<and> pipe_ok (pipes t pi) \<and>
    pipe_q (pipes s pi) = ubytes (mem t) pt addr k @ pipe_q (pipes t pi) \<and>
    (\<forall>b. (\<forall>j<k. uaddr (mem s) pt (addr + of_nat j) \<noteq> Some b) \<longrightarrow> mem t b = mem s b)"
proof -
  let ?s = "s\<lparr>held := {PipeLock pi}\<rparr>" and ?q = "pipes s pi"
  have pg: "piping pi p pt T loc ?s" using piping_enter [of s p T loc pi] s pt by simp
  have um': "umapped (mem s) pt addr k" using umapped_le [OF um] k by simp
  obtain m where m: "piperead_copy pi addr 0 n ?s = Some (k, (upd_pipe pi (pipe_adv ^^ k) ?s)\<lparr>mem := m\<rparr>)"
      "ubytes m pt addr k = take k (pipe_q ?q)"
      "\<forall>b. (\<forall>j<k. uaddr (mem s) pt (addr + of_nat j) \<noteq> Some b) \<longrightarrow> m b = mem s b"
    using piperead_copy_spec [OF pg, of 0 n k addr] sep um' k by auto
  let ?t = "(upd_pipe pi (pipe_adv ^^ k) ?s)\<lparr>mem := m\<rparr>"
  have "proc_locks_free ?t" by (simp add: proc_locks_free_def)
  then have w: "wakeup (ChPipeWrite pi) ?t = Some (?t\<lparr>procs := woken (ChPipeWrite pi) (cur ?t) (procs ?t)\<rparr>)" by (rule wakeup_eq)
  have "piperead pi addr (int n) s = Some (Returns (int k), ?t\<lparr>procs := woken (ChPipeWrite pi) (cur ?t) (procs ?t), held := {}\<rparr>)"
    using s(1,2) av m(1) w by (auto simp: piperead_def piperead_loop_def lock_simps myproc_def pipe_empty)
  moreover have "k \<le> length (pipe_q ?q)" using k by simp
  from pq.adv_all [OF s(5) this] have "pipe_ok ((pipe_adv ^^ k) ?q)" "pipe_q ?q = take k (pipe_q ?q) @ pipe_q ((pipe_adv ^^ k) ?q)"
    by auto
  ultimately show ?thesis using m(2,3) by simp
qed


subsection \<open>A concrete state\<close>

definition demo_file :: file_st where
  "demo_file = uart_st.extend demo_uart
     (file_st.fields (\<lambda>_. \<lparr>f_type = FD_NONE, f_ref = 0, f_readable = False, f_writable = False, f_pipe = 0, f_ip = 0, f_off = 0, f_major = 0\<rparr>)
        (\<lambda>_. \<lparr>pi_data = (\<lambda>_. 0), nread = 0, nwrite = 0, readopen = True, writeopen = True\<rparr>) (\<lambda>_. None))"

definition demo_piping :: file_st where
  "demo_piping = demo_file\<lparr>mem := mem demo_vm, procs := (procs demo_file)(0 := (procs demo_file 0)\<lparr>pagetable := demo_root, killed := 0\<rparr>)\<rparr>"

lemma demo_piping_simps:
  "cur demo_piping = Some 0" "held demo_piping = {}" "mem demo_piping = mem demo_vm"
  "pagetable (procs demo_piping 0) = demo_root" "killed (procs demo_piping 0) = 0"
  "pipes demo_piping = (\<lambda>_. \<lparr>pi_data = (\<lambda>_. 0), nread = 0, nwrite = 0, readopen = True, writeopen = True\<rparr>)"
  by (simp_all add: demo_piping_def demo_file_def demo_uart_def demo_fs_def demo_log_def demo_bio_def demo_sl_def demo_st_def proc_st.defs sl_st.defs bio_st.defs
      log_st.defs fs_st.defs uart_st.defs file_st.defs)


end
