(* ===== verification/Virtio_Laws.thy ===== *)
theory Virtio_Laws
  imports Virtio Bio_Laws
begin

text \<open>
  The driver and the device together transfer a block.  The device is not part of the kernel: it is a
  function of what the two share, and what is assumed of it is what the VIRTIO standard promises for a
  request it is notified of.  \<open>request\<close> reads a request off the descriptors the way the device does.
\<close>

subsection \<open>Requests as the device sees them\<close>

text \<open>The head descriptor holds the request, the second the data and the third the status byte.\<close>

definition request :: "vdisk \<Rightarrow> nat \<Rightarrow> (bool \<times> u64 \<times> nat) option" where
  "request V h =
     (let d0 = vd_desc V h; d1 = vd_desc V (unat (d_next d0)); d2 = vd_desc V (unat (d_next d1)) in
      case (d_addr d0, d_addr d1, d_addr d2) of
        (DOps i, DData b, DStatus j) \<Rightarrow>
          if d_len d0 = 16 \<and> d_len d1 = of_nat BSIZE \<and> d_len d2 = 1 \<and> j = h \<and>
             d_flags d0 = VRING_DESC_F_NEXT \<and> d_flags d2 = VRING_DESC_F_WRITE \<and>
             (rq_type (vd_ops V i) = VIRTIO_BLK_T_OUT \<and> d_flags d1 = VRING_DESC_F_NEXT \<or>
              rq_type (vd_ops V i) = VIRTIO_BLK_T_IN \<and> d_flags d1 = VRING_DESC_F_WRITE OR VRING_DESC_F_NEXT)
          then Some (rq_type (vd_ops V i) = VIRTIO_BLK_T_OUT, rq_sector (vd_ops V i), b) else None
      | _ \<Rightarrow> None)"

text \<open>The request the driver has made available last.\<close>

definition newest :: "vdisk \<Rightarrow> nat" where
  "newest V = unat (vd_avail_ring V (unat (vd_avail_idx V - 1) mod NUM))"

text \<open>A request is served: data and disk change places, the status is 0, and the head is in the device's ring.  A block is
  two sectors.\<close>

definition complete :: "nat \<Rightarrow> vdisk \<Rightarrow> vdisk" where
  "complete h V = V\<lparr>vd_info_status := (vd_info_status V)(h := 0), vd_dev_ring := (vd_dev_ring V)(unat (vd_dev_idx V) mod NUM := of_nat h),
     vd_dev_idx := vd_dev_idx V + 1\<rparr>"

definition transfer :: "bool \<Rightarrow> u32 \<Rightarrow> nat \<Rightarrow> 'a bio_st_scheme \<Rightarrow> 'a bio_st_scheme" where
  "transfer write blk b s =
     (if write then s\<lparr>disk := (disk s)(blk := b_data (bufs s b)), dwrites := dwrites s @ [(blk, b_data (bufs s b))]\<rparr>
      else set_data b (disk s blk) s)"

definition serves :: "(vdisk \<times> 'a bio_st_scheme \<Rightarrow> vdisk \<times> 'a bio_st_scheme) \<Rightarrow> bool" where
  "serves dev \<longleftrightarrow> (\<forall>V s write blk b. request V (newest V) = Some (write, 2 * ucast blk, b) \<longrightarrow>
     dev (V, s) = (complete (newest V) V, transfer write blk b s))"

lemma transfer_procs [simp]: "procs (transfer write blk b s) = procs s"
  by (simp add: transfer_def set_data_def upd_buf_def)

subsection \<open>Descriptors\<close>

lemma alloc_desc_some:
  assumes "i < NUM" and "vd_free V i"
  obtains j where "j < NUM" "vd_free V j" "alloc_desc V = (Some j, V\<lparr>vd_free := (vd_free V)(j := False)\<rparr>)"
proof -
  have "List.find (vd_free V) [0..<NUM] \<noteq> None" using assms by (auto simp: find_upt_None)
  then obtain j where j: "List.find (vd_free V) [0..<NUM] = Some j" by blast
  then have "alloc_desc V = (Some j, V\<lparr>vd_free := (vd_free V)(j := False)\<rparr>)" by (simp add: alloc_desc_def)
  then show ?thesis using that [of j] j by (simp add: find_upt)
qed

lemma pick_other:
  assumes "card A < card {i. i < NUM \<and> P i}" and "finite A"
  shows "\<exists>i<NUM. P i \<and> i \<notin> A"
proof (rule ccontr)
  assume "\<not> (\<exists>i<NUM. P i \<and> i \<notin> A)"
  then have "{i. i < NUM \<and> P i} \<subseteq> A" by auto
  then have "card {i. i < NUM \<and> P i} \<le> card A" by (rule card_mono [OF assms(2)])
  then show False using assms(1) by linarith
qed

lemma alloc3_some:
  assumes "3 \<le> card {i. i < NUM \<and> vd_free V i}"
  obtains i0 i1 i2 where "i0 < NUM" "i1 < NUM" "i2 < NUM" "distinct [i0, i1, i2]" "vd_free V i0" "vd_free V i1" "vd_free V i2"
    "alloc3_desc V s = Some (Some [i0, i1, i2], V\<lparr>vd_free := (vd_free V)(i0 := False, i1 := False, i2 := False)\<rparr>, s)"
proof -
  obtain i where "i < NUM" "vd_free V i" using pick_other [of "{}" "vd_free V"] assms by auto
  then obtain i0 where i0: "i0 < NUM" "vd_free V i0" "alloc_desc V = (Some i0, V\<lparr>vd_free := (vd_free V)(i0 := False)\<rparr>)"
    by (rule alloc_desc_some)
  let ?V = "V\<lparr>vd_free := (vd_free V)(i0 := False)\<rparr>"
  obtain i where "i < NUM" "vd_free ?V i" using pick_other [of "{i0}" "vd_free V"] assms by auto
  then obtain i1 where i1: "i1 < NUM" "vd_free ?V i1" "alloc_desc ?V = (Some i1, ?V\<lparr>vd_free := (vd_free ?V)(i1 := False)\<rparr>)"
    by (rule alloc_desc_some)
  let ?W = "?V\<lparr>vd_free := (vd_free ?V)(i1 := False)\<rparr>"
  have "card {i0, i1} \<le> 2" by (simp add: card_insert_if)
  then obtain i where "i < NUM" "vd_free ?W i" using pick_other [of "{i0, i1}" "vd_free V"] assms by auto
  then obtain i2 where i2: "i2 < NUM" "vd_free ?W i2" "alloc_desc ?W = (Some i2, ?W\<lparr>vd_free := (vd_free ?W)(i2 := False)\<rparr>)"
    by (rule alloc_desc_some)
  show ?thesis
    by (rule that [of i0 i1 i2]) (use i0 i1 i2 in \<open>auto simp: alloc3_desc_def numeral_3_eq_3 split: if_splits\<close>)
qed

lemma unat_u16: "i < NUM \<Longrightarrow> unat (of_nat i :: u16) = i"
  by (simp add: unsigned_of_nat take_bit_nat_eq_self)

lemma free_desc_eq:
  assumes "i < NUM" and "\<not> vd_free V i" and "proc_locks_free s"
  shows "free_desc i V s = Some (V\<lparr>vd_desc := (vd_desc V)(i := no_desc), vd_free := (vd_free V)(i := True)\<rparr>,
    s\<lparr>procs := woken ChDiskFree (cur s) (procs s)\<rparr>)"
  using assms wakeup_eq [OF assms(3), of ChDiskFree] by (simp add: free_desc_def)

definition freed_desc :: "nat \<Rightarrow> vdisk \<Rightarrow> vdisk" where
  "freed_desc i V = V\<lparr>vd_desc := (vd_desc V)(i := no_desc), vd_free := (vd_free V)(i := True)\<rparr>"

lemma free_chain_step:
  assumes "i < NUM" and "\<not> vd_free V i" and "proc_locks_free s"
  shows "free_chain i V s =
    (if d_flags (vd_desc V i) AND 1 \<noteq> 0
     then free_chain (unat (d_next (vd_desc V i))) (freed_desc i V) (s\<lparr>procs := woken ChDiskFree (cur s) (procs s)\<rparr>)
     else Some (freed_desc i V, s\<lparr>procs := woken ChDiskFree (cur s) (procs s)\<rparr>))"
  using free_desc_eq [OF assms] by (subst free_chain.simps) (simp add: freed_desc_def)

lemma free_chain_three:
  assumes i: "i0 < NUM" "i1 < NUM" "i2 < NUM" "distinct [i0, i1, i2]" and f: "\<not> vd_free V i0" "\<not> vd_free V i1" "\<not> vd_free V i2"
    and d: "d_flags (vd_desc V i0) AND 1 \<noteq> 0" "d_next (vd_desc V i0) = of_nat i1" "d_flags (vd_desc V i1) AND 1 \<noteq> 0"
      "d_next (vd_desc V i1) = of_nat i2" "d_flags (vd_desc V i2) AND 1 = 0" and p: "proc_locks_free s"
  shows "\<exists>P. free_chain i0 V s = Some (freed_desc i2 (freed_desc i1 (freed_desc i0 V)), s\<lparr>procs := P\<rparr>)"
proof -
  define s1 where "s1 = s\<lparr>procs := woken ChDiskFree (cur s) (procs s)\<rparr>"
  define s2 where "s2 = s1\<lparr>procs := woken ChDiskFree (cur s1) (procs s1)\<rparr>"
  have p1: "proc_locks_free s1" "proc_locks_free s2" using p by (simp_all add: proc_locks_free_def s1_def s2_def)
  have n: "vd_desc (freed_desc i0 V) i1 = vd_desc V i1" "\<not> vd_free (freed_desc i0 V) i1" "vd_desc (freed_desc i1 (freed_desc i0 V)) i2 = vd_desc V i2"
    "\<not> vd_free (freed_desc i1 (freed_desc i0 V)) i2" using i(4) f by (auto simp: freed_desc_def)
  have "free_chain i0 V s = free_chain i1 (freed_desc i0 V) s1" using free_chain_step [OF i(1) f(1) p] d(1,2) unat_u16 [OF i(2)] by (simp add: s1_def)
  also have "\<dots> = free_chain i2 (freed_desc i1 (freed_desc i0 V)) s2" using free_chain_step [OF i(2) n(2) p1(1)] n(1) d(3,4) unat_u16 [OF i(3)] by (simp add: s2_def)
  also have "\<dots> = Some (freed_desc i2 (freed_desc i1 (freed_desc i0 V)), s2\<lparr>procs := woken ChDiskFree (cur s2) (procs s2)\<rparr>)"
    using free_chain_step [OF i(3) n(4) p1(2)] n(3) d(5) by simp
  finally show ?thesis by (auto simp: s1_def s2_def)
qed

subsection \<open>A whole transfer\<close>

text \<open>What the driver leaves for the device: three linked descriptors, and their head in the ring.\<close>

lemma request_format:
  fixes b :: nat and wr :: bool and V :: vdisk
  assumes i: "i0 < NUM" "i1 < NUM" "i2 < NUM" "distinct [i0, i1, i2]" and blk: "unat blk < 2 ^ 31"
  defines "W \<equiv> format_req b blk wr i0 i1 i2 V"
  shows "newest W = i0" and "request W i0 = Some (wr, 2 * ucast blk, b)" and "vd_busy W b" and "vd_info_b W i0 = Some b" and "vd_free W = vd_free V"
    and "vd_used_idx W = vd_used_idx V" and "vd_dev_idx W = vd_dev_idx V"
    and "d_flags (vd_desc W i0) = 1" "d_next (vd_desc W i0) = of_nat i1" "d_flags (vd_desc W i1) AND 1 \<noteq> 0"
      "d_next (vd_desc W i1) = of_nat i2" "d_flags (vd_desc W i2) = 2"
proof -
  have sec: "ucast (blk * 2) = 2 * (ucast blk :: u64)"
  proof -
    have "unat (blk * 2) = 2 * unat blk" using blk by (simp add: unat_word_ariths)
    then have "unat (ucast (blk * 2) :: u64) = unat (2 * (ucast blk :: u64))" using blk by (simp add: unat_word_ariths unsigned_ucast_eq take_bit_nat_eq_self)
    then show ?thesis by (simp add: word_unat_eq_iff)
  qed
  note u = unat_u16 [OF i(1)] unat_u16 [OF i(2)] unat_u16 [OF i(3)]
  show "newest W = i0" using u by (simp add: W_def format_req_def Let_def newest_def vwrite_def)
  show "request W i0 = Some (wr, 2 * ucast blk, b)" using u i(4) sec by (simp add: W_def format_req_def Let_def request_def vwrite_def)
  show "vd_busy W b" "vd_info_b W i0 = Some b" "vd_free W = vd_free V" "vd_used_idx W = vd_used_idx V" "vd_dev_idx W = vd_dev_idx V"
    "d_flags (vd_desc W i0) = 1" "d_next (vd_desc W i0) = of_nat i1" "d_flags (vd_desc W i1) AND 1 \<noteq> 0"
      "d_next (vd_desc W i1) = of_nat i2" "d_flags (vd_desc W i2) = 2"
    using i(4) by (simp_all add: W_def format_req_def Let_def vwrite_def)
qed

lemma submit_law:
  fixes s :: "'a bio_st_scheme"
  assumes "3 \<le> card {i. i < NUM \<and> vd_free V i}" and "cur s = Some p" and "held s = {}"
  obtains i0 i1 i2 where "i0 < NUM" "i1 < NUM" "i2 < NUM" "distinct [i0, i1, i2]" "vd_free V i0" "vd_free V i1" "vd_free V i2"
    "virtio_disk_rw b wr V s = Some (Some (WaitDevice i0),
       format_req b (b_blockno (bufs s b)) wr i0 i1 i2 (V\<lparr>vd_free := (vd_free V)(i0 := False, i1 := False, i2 := False)\<rparr>),
       s\<lparr>held := {ProcLock p}, procs := (procs s)(p := (procs s p)\<lparr>chan := Some (ChDiskBuf b), pstate := SLEEPING\<rparr>)\<rparr>)"
proof -
  obtain i0 i1 i2 where i: "i0 < NUM" "i1 < NUM" "i2 < NUM" "distinct [i0, i1, i2]" "vd_free V i0" "vd_free V i1" "vd_free V i2"
    "alloc3_desc V (s\<lparr>held := {VdiskLock}\<rparr>) =
       Some (Some [i0, i1, i2], V\<lparr>vd_free := (vd_free V)(i0 := False, i1 := False, i2 := False)\<rparr>, s\<lparr>held := {VdiskLock}\<rparr>)"
    using alloc3_some [OF assms(1)] by metis
  have busy: "vd_busy (format_req b blk wr i0 i1 i2 U) b" for blk U by (simp add: format_req_def Let_def vwrite_def)
  show ?thesis
    by (rule that [of i0 i1 i2])
      (use i assms(2,3) busy sleep_enter_ok [of "s\<lparr>held := {VdiskLock}\<rparr>" VdiskLock p "ChDiskBuf b"]
        in \<open>simp_all add: virtio_disk_rw_def disk_rw_start_def disk_rw_wait_def lock_simps\<close>)
qed

lemma intr_law:
  fixes s :: "'a bio_st_scheme"
  assumes "vd_used_idx W = vd_dev_idx W" and "vd_info_b W h = Some b" and "h < NUM" and "held s = {}"
  shows "virtio_disk_intr (complete h W) s =
    Some (vwrite 0x064 (vd_regs W 0x060 AND 0x3) ((complete h W)\<lparr>vd_busy := (vd_busy W)(b := False), vd_used_idx := vd_used_idx W + 1\<rparr>),
      s\<lparr>procs := woken (ChDiskBuf b) (cur s) (procs s)\<rparr>)"
proof -
  have "unat (of_nat h :: u32) = h" using assms(3) by (simp add: unsigned_of_nat take_bit_nat_eq_self)
  moreover have "proc_locks_free (s\<lparr>held := {VdiskLock}\<rparr>)" by (simp add: proc_locks_free_def)
  moreover have "vd_dev_idx W \<noteq> vd_dev_idx W + 1" by simp
  ultimately show ?thesis using assms wakeup_eq [of "s\<lparr>held := {VdiskLock}\<rparr>" "ChDiskBuf b"]
    unfolding virtio_disk_intr_def
    by (simp add: lock_simps vwrite_def complete_def)
      (subst intr_loop.simps, simp, subst intr_loop.simps, simp add: lock_simps)
qed

text \<open>C4: the driver implements the transfer of a block.  With three free descriptors \<^verbatim>\<open>virtio_disk_rw\<close> posts a request and
  puts its process to sleep; a device that serves the request as it stands in the descriptors, the
  interrupt handler and the rest of the call, when the process runs again, have together the effect of
  \<open>disk_rw\<close> on buffers and disk; the sleeping process is woken, all descriptors are free again and all
  locks released.\<close>

theorem virtio_implements_disk_rw:
  fixes s :: "'a bio_st_scheme"
  assumes "serves dev" and "3 \<le> card {i. i < NUM \<and> vd_free V i}" and "vd_used_idx V = vd_dev_idx V"
    and "cur s = Some p" and "p < NPROC" and "held s = {}" and "unat (b_blockno (bufs s b)) < 2 ^ 31"
  shows "\<exists>h V1 s1 V2 s2 V3 s3 V4 s4. virtio_disk_rw b wr V s = Some (Some (WaitDevice h), V1, s1) \<and> pstate (procs s1 p) = SLEEPING \<and>
    dev (V1, s1) = (V2, s2) \<and>
    virtio_disk_intr V2 (s2\<lparr>held := {}, cur := None\<rparr>) = Some (V3, s3) \<and> pstate (procs s3 p) = RUNNABLE \<and>
    virtio_disk_rw_resume b wr (WaitDevice h) V3
      (s3\<lparr>held := {ProcLock p}, cur := Some p, procs := (procs s3)(p := (procs s3 p)\<lparr>pstate := RUNNING\<rparr>)\<rparr>) = Some (None, V4, s4) \<and>
    bufs s4 = bufs (disk_rw b wr s) \<and> disk s4 = disk (disk_rw b wr s) \<and> dwrites s4 = dwrites (disk_rw b wr s) \<and>
    vd_free V4 = vd_free V \<and> held s4 = {} \<and> \<not> vd_busy V4 b"
proof -
  let ?blk = "b_blockno (bufs s b)"
  obtain i0 i1 i2 where i: "i0 < NUM" "i1 < NUM" "i2 < NUM" "distinct [i0, i1, i2]" "vd_free V i0" "vd_free V i1" "vd_free V i2"
    and rw: "virtio_disk_rw b wr V s = Some (Some (WaitDevice i0),
       format_req b ?blk wr i0 i1 i2 (V\<lparr>vd_free := (vd_free V)(i0 := False, i1 := False, i2 := False)\<rparr>),
       s\<lparr>held := {ProcLock p}, procs := (procs s)(p := (procs s p)\<lparr>chan := Some (ChDiskBuf b), pstate := SLEEPING\<rparr>)\<rparr>)"
    using submit_law [OF assms(2,4,6)] by metis
  define W where "W = format_req b ?blk wr i0 i1 i2 (V\<lparr>vd_free := (vd_free V)(i0 := False, i1 := False, i2 := False)\<rparr>)"
  define s1 where "s1 = s\<lparr>held := {ProcLock p}, procs := (procs s)(p := (procs s p)\<lparr>chan := Some (ChDiskBuf b), pstate := SLEEPING\<rparr>)\<rparr>"
  note R = request_format [OF i(1-4) assms(7), where b = b and wr = wr and V = "V\<lparr>vd_free := (vd_free V)(i0 := False, i1 := False, i2 := False)\<rparr>",
      folded W_def]
  have dev: "dev (W, s1) = (complete i0 W, transfer wr ?blk b s1)" using assms(1) R(1,2) unfolding serves_def by metis
  let ?s2 = "(transfer wr ?blk b s1)\<lparr>held := {}, cur := None\<rparr>"
  have used: "vd_used_idx W = vd_dev_idx W" using R(6,7) assms(3) by simp
  define V3 where "V3 = vwrite 0x064 (vd_regs W 0x060 AND 0x3) ((complete i0 W)\<lparr>vd_busy := (vd_busy W)(b := False), vd_used_idx := vd_used_idx W + 1\<rparr>)"
  define s3 where "s3 = ?s2\<lparr>procs := woken (ChDiskBuf b) None (procs ?s2)\<rparr>"
  have intr: "virtio_disk_intr (complete i0 W) ?s2 = Some (V3, s3)"
    using intr_law [OF used R(4) i(1), of ?s2] by (simp add: V3_def s3_def)
  have run: "pstate (procs s3 p) = RUNNABLE" using assms(5) by (simp add: s3_def s1_def woken_def)
  let ?r = "s3\<lparr>held := {ProcLock p}, cur := Some p, procs := (procs s3)(p := (procs s3 p)\<lparr>pstate := RUNNING\<rparr>)\<rparr>"
  define u where "u = ?r\<lparr>held := {VdiskLock}, procs := (procs ?r)(p := (procs ?r p)\<lparr>chan := None\<rparr>)\<rparr>"
  have ex: "sleep_exit VdiskLock ?r = Some u" by (simp add: sleep_exit_def myproc_def upd_proc_def lock_simps u_def)
  let ?U = "V3\<lparr>vd_info_b := (vd_info_b V3)(i0 := None)\<rparr>"
  have d: "vd_desc ?U = vd_desc W" "vd_free ?U = vd_free W" "vd_busy V3 = (vd_busy W)(b := False)" by (simp_all add: V3_def vwrite_def complete_def)
  have nf: "\<not> vd_free ?U i0" "\<not> vd_free ?U i1" "\<not> vd_free ?U i2" by (simp_all add: d R(5))
  have lf: "proc_locks_free u" by (simp add: proc_locks_free_def u_def)
  obtain P where fc: "free_chain i0 ?U u = Some (freed_desc i2 (freed_desc i1 (freed_desc i0 ?U)), u\<lparr>procs := P\<rparr>)"
    using free_chain_three [OF i(1-4) nf _ _ _ _ _ lf] R(8-12) unfolding d by auto
  let ?V4 = "freed_desc i2 (freed_desc i1 (freed_desc i0 ?U))" and ?s4 = "u\<lparr>procs := P, held := {}\<rparr>"
  have same: "bufs u = bufs (disk_rw b wr s)" "disk u = disk (disk_rw b wr s)" "dwrites u = dwrites (disk_rw b wr s)"
    by (simp_all add: u_def s3_def transfer_def disk_rw_def s1_def set_data_def upd_buf_def)
  show ?thesis
  proof (intro exI conjI)
    show "virtio_disk_rw b wr V s = Some (Some (WaitDevice i0), W, s1)" unfolding W_def s1_def by (rule rw)
    show "pstate (procs s1 p) = SLEEPING" by (simp add: s1_def)
    show "dev (W, s1) = (complete i0 W, transfer wr ?blk b s1)" by (rule dev)
    show "virtio_disk_intr (complete i0 W) ?s2 = Some (V3, s3)" by (rule intr)
    show "pstate (procs s3 p) = RUNNABLE" by (rule run)
    show "virtio_disk_rw_resume b wr (WaitDevice i0) V3 ?r = Some (None, ?V4, ?s4)"
      using ex fc d(3) by (simp add: virtio_disk_rw_resume_def disk_rw_wait_def lock_simps u_def)
    show "vd_free ?V4 = vd_free V" using i R(5) by (auto simp: freed_desc_def d fun_eq_iff)
    show "\<not> vd_busy ?V4 b" by (simp add: freed_desc_def d)
  qed (simp_all add: same)
qed

text \<open>A device that does what is asked of it, and an idle driver.\<close>

definition demo_dev :: "vdisk \<times> bio_st \<Rightarrow> vdisk \<times> bio_st" where
  "demo_dev = (\<lambda>(V, s). case request V (newest V) of Some (wr, sector, b) \<Rightarrow> (complete (newest V) V, transfer wr (ucast (sector div 2)) b s)
     | None \<Rightarrow> (V, s))"

definition demo_vdisk :: vdisk where
  "demo_vdisk = \<lparr>vd_desc = (\<lambda>_. no_desc), vd_avail_idx = 0, vd_avail_ring = (\<lambda>_. 0), vd_dev_idx = 0, vd_dev_ring = (\<lambda>_. 0),
     vd_free = (\<lambda>i. i < NUM), vd_used_idx = 0, vd_info_b = (\<lambda>_. None), vd_info_status = (\<lambda>_. 0),
     vd_ops = (\<lambda>_. \<lparr>rq_type = 0, rq_reserved = 0, rq_sector = 0\<rparr>), vd_busy = (\<lambda>_. False), vd_pages = 0x88000000,
     vd_regs = (\<lambda>_. 0), vd_writes = []\<rparr>"

lemma demo_dev_serves: "serves demo_dev"
proof -
  have "ucast ((2 * ucast blk :: u64) div 2) = blk" for blk :: u32
  proof -
    have b: "unat blk < 2 ^ 32" using unsigned_less [of blk, where ?'a = nat] by simp
    then have "unat ((2 * ucast blk :: u64) div 2) = unat blk"
      by (simp add: unat_div unat_word_ariths unsigned_ucast_eq take_bit_nat_eq_self)
    then show ?thesis using b by (simp add: word_unat_eq_iff unsigned_ucast_eq take_bit_nat_eq_self)
  qed
  then show ?thesis by (simp add: serves_def demo_dev_def)
qed

theorem virtio_implements_disk_rw_witness:
  "\<exists>h V1 s1 V2 s2 V3 s3 V4 s4. virtio_disk_rw 3 True demo_vdisk demo_bio = Some (Some (WaitDevice h), V1, s1) \<and> demo_dev (V1, s1) = (V2, s2) \<and>
    virtio_disk_intr V2 (s2\<lparr>held := {}, cur := None\<rparr>) = Some (V3, s3) \<and>
    virtio_disk_rw_resume 3 True (WaitDevice h) V3
      (s3\<lparr>held := {ProcLock 0}, cur := Some 0, procs := (procs s3)(0 := (procs s3 0)\<lparr>pstate := RUNNING\<rparr>)\<rparr>) = Some (None, V4, s4) \<and>
    disk s4 = disk (disk_rw 3 True demo_bio)"
proof -
  have "{i. i < NUM \<and> vd_free demo_vdisk i} = {..<8}" by (auto simp: demo_vdisk_def)
  then have f: "3 \<le> card {i. i < NUM \<and> vd_free demo_vdisk i}" by simp
  have s: "cur demo_bio = Some 0" "held demo_bio = {}" "unat (b_blockno (bufs demo_bio 3)) < 2 ^ 31" "vd_used_idx demo_vdisk = vd_dev_idx demo_vdisk"
    by (simp_all add: demo_bio_def demo_sl_def demo_st_def proc_st.defs sl_st.defs bio_st.defs demo_vdisk_def)
  show ?thesis using virtio_implements_disk_rw [OF demo_dev_serves f s(4,1) _ s(2,3), of True] by auto
qed

end
