(* ===== verification/Trap_Laws.thy ===== *)
theory Trap_Laws
  imports Trap Riscv Pipe_Laws Virtio_Laws
begin

text \<open>
  The boundary between user space and the kernel: the C part that prepares the return to user space,
  \<^verbatim>\<open>usertrapret\<close>, together with the assembly that goes there and comes back, \<^verbatim>\<open>userret\<close> and \<^verbatim>\<open>uservec\<close>.
\<close>

subsection \<open>The trapframe in the user page table\<close>

lemma MAKE_SATP_root:
  assumes "page_al pt" and "pt < 0x40000000000000"
  shows "satp_root (MAKE_SATP pt) = pt" and "drop_bit 60 (MAKE_SATP pt) \<noteq> 0"
proof -
  have high: "n < 54" if "bit pt n" for n
  proof -
    have "take_bit 54 pt = pt" using assms(2) by (simp add: take_bit_eq_mod mod_word_less)
    then show ?thesis using that by (metis bit_take_bit_iff)
  qed
  have low: "12 \<le> n" if "bit pt n" for n
  proof -
    have "take_bit 12 pt = 0" using assms(1) by (simp add: take_bit_eq_mod page_al_def)
    then show ?thesis using that by (metis bit_take_bit_iff bit_0_eq bot_apply bot_bool_def not_less)
  qed
  have mask: "(0xFFFFFFFFFFF :: u64) = mask 44" by (simp add: mask_eq_exp_minus_1)
  have mk: "bit (mask 44 :: u64) k \<longleftrightarrow> k < 44" for k by (subst semiring_bit_operations_class.bit_mask_iff) auto
  have top: "push_bit 60 8 = (push_bit 63 1 :: u64)" by simp
  have b: "bit (MAKE_SATP pt) n \<longleftrightarrow> n = 63 \<or> bit pt (12 + n)" for n
  proof -
    have "bit (push_bit 63 1 :: u64) n \<longleftrightarrow> n = 63" by (simp only: bit_push_bit_iff bit_1_iff) auto
    then show ?thesis unfolding MAKE_SATP_def top by (simp add: bit_or_iff bit_drop_bit_eq)
  qed
  show "satp_root (MAKE_SATP pt) = pt"
    unfolding satp_root_def mask
  proof (rule bit_word_eqI)
    fix n assume "n < LENGTH(64)"
    then have "bit (push_bit 12 (MAKE_SATP pt AND mask 44)) n \<longleftrightarrow> 12 \<le> n \<and> n - 12 < 44 \<and> bit pt (12 + (n - 12))"
      by (auto simp: bit_push_bit_iff bit_and_iff mk b)
    then show "bit (push_bit 12 (MAKE_SATP pt AND mask 44)) n \<longleftrightarrow> bit pt n"
      using low [of n] high [of n] by (cases "12 \<le> n") auto
  qed
  have "bit (drop_bit 60 (MAKE_SATP pt)) 3" by (simp add: bit_drop_bit_eq b)
  then show "drop_bit 60 (MAKE_SATP pt) \<noteq> 0" by (metis bit_0_eq bot_apply bot_bool_def)
qed

lemma trapframe_page:
  assumes "off < 4096"
  shows "TRAPFRAME + of_nat off < MAXVA" and "PX l (TRAPFRAME + of_nat off) = PX l TRAPFRAME"
    and "TRAPFRAME + of_nat off - PGROUNDDOWN (TRAPFRAME + of_nat off) = of_nat off"
proof -
  have u: "unat (TRAPFRAME + of_nat off) = 0x3fffffe000 + off"
    using assms unat_of_nat_64 [of "0x3fffffe000 + off"] by simp
  show "TRAPFRAME + of_nat off < MAXVA" unfolding word_less_nat_alt u using assms by simp
  have d: "(0x3fffffe000 + off) div 4096 = 0x3fffffe" using assms by simp
  show "PX l (TRAPFRAME + of_nat off) = PX l TRAPFRAME"
    unfolding PX_unat u using d by (simp add: power_add div_mult2_eq)
  have "unat (PGROUNDDOWN (TRAPFRAME + of_nat off)) = 0x3fffffe000" unfolding PGROUNDDOWN_unat u d by simp
  then have "PGROUNDDOWN (TRAPFRAME + of_nat off) = TRAPFRAME" unfolding word_unat_eq_iff by simp
  then show "TRAPFRAME + of_nat off - PGROUNDDOWN (TRAPFRAME + of_nat off) = of_nat off" by simp
qed

text \<open>The trapframe is mapped as \<^verbatim>\<open>proc_pagetable\<close> maps it: readable and writable for the kernel only, and no table of the
  page table.\<close>

definition tf_mapped :: "memory \<Rightarrow> u64 \<Rightarrow> u64 \<Rightarrow> u64 set \<Rightarrow> (u64 \<Rightarrow> nat list) \<Rightarrow> bool" where
  "tf_mapped m pt tf T loc \<longleftrightarrow> pt_wf m pt T loc \<and> pt < 0x40000000000000 \<and> page_al tf \<and> tf \<notin> T \<and>
     (\<exists>e. pt_lookup m pt TRAPFRAME = Some e \<and> PTE2PA e = tf \<and> e AND PTE_R \<noteq> 0 \<and> e AND PTE_W \<noteq> 0 \<and> e AND PTE_U = 0)"

lemma tf_mapped_keep:
  assumes "tf_mapped m pt tf T loc" and "\<And>t a. t \<in> T \<Longrightarrow> in_rng a t 4096 \<Longrightarrow> m' a = m a"
  shows "tf_mapped m' pt tf T loc"
  using assms pt_frame(1,3) [of m pt T loc m'] unfolding tf_mapped_def by auto

lemma tf_apart:
  assumes "tf_mapped m pt tf T loc" and "in_rng a tf 288" and "t \<in> T"
  shows "\<not> in_rng a t 4096"
proof
  assume "in_rng a t 4096"
  moreover have "in_rng a tf 4096" using assms(2) by (simp add: in_rng_def)
  moreover have "page_al t" using assms(1,3) pt_wf_table unfolding tf_mapped_def by blast
  ultimately show False using assms(1,3) pages_disjoint [of tf t a] unfolding tf_mapped_def by blast
qed

lemma frame_trapframe:
  assumes tf: "tf_mapped (pmem st) pt tf T loc" and st: "csrs st Satp = MAKE_SATP pt" "priv st = PrivS"
  shows "frame {a. in_rng a tf 288} st TRAPFRAME tf 288"
  unfolding frame_def
proof (intro conjI allI impI)
  fix m off w
  assume *: "(\<forall>a. a \<notin> {a. in_rng a tf 288} \<longrightarrow> m a = pmem st a) \<and> 8 dvd off \<and> off < (288 :: nat)"
  have "m a = pmem st a" if "t \<in> T" "in_rng a t 4096" for t a using * tf_apart [OF tf] that by blast
  then have "tf_mapped m pt tf T loc" by (rule tf_mapped_keep [OF tf])
  then obtain e where e: "pt_lookup m pt TRAPFRAME = Some e" "PTE2PA e = tf" "e AND PTE_R \<noteq> 0" "e AND PTE_W \<noteq> 0"
    "e AND PTE_U = 0" unfolding tf_mapped_def by blast
  have "page_al pt" "pt < 0x40000000000000" using tf pt_wf_table pt_wf_root unfolding tf_mapped_def by blast+
  note root = MAKE_SATP_root [OF this]
  have lk: "pt_lookup m pt (TRAPFRAME + of_nat off) = Some e"
    using e(1) leaf_PX [of 2 "TRAPFRAME + of_nat off" TRAPFRAME m pt] trapframe_page(2) [of off] *
    by (simp add: pt_lookup_def lookup_leaf)
  have al: "unat (TRAPFRAME + of_nat off) mod 8 = 0" using aligned_add [of TRAPFRAME off] * by simp
  have "\<not> MAXVA \<le> TRAPFRAME + of_nat off" using trapframe_page(1) [of off] * by simp
  moreover have "e AND (if w then PTE_W else PTE_R) \<noteq> 0" using e(3,4) by simp
  moreover have "PTE2PA e + (TRAPFRAME + of_nat off - PGROUNDDOWN (TRAPFRAME + of_nat off)) = tf + of_nat off"
    using trapframe_page(3) [of off] * e(2) by simp
  ultimately show "xlate w (st\<lparr>pmem := m\<rparr>) (TRAPFRAME + of_nat off) = Some (tf + of_nat off)"
    unfolding xlate_def using al lk e(5) root st by simp
qed auto

subsection \<open>There and back\<close>

definition enter_mem :: "u64 \<Rightarrow> u64 \<Rightarrow> u64 \<Rightarrow> u64 \<Rightarrow> u64 \<Rightarrow> memory \<Rightarrow> memory" where
  "enter_mem tf v0 v8 v16 v32 m = st64 (tf + 32) v32 (st64 (tf + 16) v16 (st64 (tf + 8) v8 (st64 tf v0 m)))"

lemma enter_mem_ld64:
  assumes "8 dvd off" and "off < 288"
  shows "ld64 (enter_mem tf v0 v8 v16 v32 m) (tf + of_nat off) =
    (if off = 32 then v32 else if off = 16 then v16 else if off = 8 then v8 else if off = 0 then v0
     else ld64 m (tf + of_nat off))"
  unfolding enter_mem_def
  using assms ld64_st64_slot [of 32 off tf] ld64_st64_slot [of 16 off tf] ld64_st64_slot [of 8 off tf] ld64_st64_slot [of 0 off tf]
  by (auto simp: ld64_st64_same)

lemma enter_mem_other:
  assumes "\<not> in_rng a tf 288"
  shows "enter_mem tf v0 v8 v16 v32 m a = m a"
proof -
  have "\<not> in_rng a (tf + of_nat k) 8" if "k + 8 \<le> 288" for k using assms slot_in_area [OF that] by auto
  from this [of 0] this [of 8] this [of 16] this [of 32] show ?thesis by (simp add: enter_mem_def st64_other)
qed

lemma usertrapret_spec:
  assumes "cur s = Some p"
  obtains fn s1 where "usertrapret s = Some (ToUser fn TRAPFRAME (MAKE_SATP (pagetable (procs s p))), s1)"
    and "fn = TRAMPOLINE + (userret s - trampoline s)" and "stvec s1 = TRAMPOLINE + (uservec s - trampoline s)"
    and "sepc s1 = tf_get tf_epc p s" and "\<not> cpu_intr_get s1"
    and "sstatus s1 AND SSTATUS_SPP = 0" and "sstatus s1 AND SSTATUS_SPIE \<noteq> 0"
    and "mem s1 = enter_mem (trapframe (procs s p)) (satp s) (kstack (procs s p) + PGSIZE) (usertrap_pc s) (tp s) (mem s)"
proof -
  let ?tf = "trapframe (procs s p)"
  let ?m = "enter_mem ?tf (satp s) (kstack (procs s p) + PGSIZE) (usertrap_pc s) (tp s) (mem s)"
  define x where "x = ((sstatus s AND NOT SSTATUS_SIE) AND NOT SSTATUS_SPP) OR SSTATUS_SPIE"
  have x: "x AND SSTATUS_SIE = 0" "x AND SSTATUS_SPP = 0" "x AND SSTATUS_SPIE \<noteq> 0"
    unfolding x_def by (simp_all add: bit.conj_disj_distrib2 and.assoc)
  have epc: "ld64 ?m (?tf + tf_epc) = ld64 (mem s) (?tf + tf_epc)"
    using enter_mem_ld64 [of 24 ?tf] by simp
  show thesis
    by (rule that [of _ "snd (the (usertrapret s))"])
      (use assms x epc in \<open>simp_all add: usertrapret_def myproc_def tf_set_def tf_get_def cpu_intr_off_def cpu_intr_get_def
         enter_mem_def Let_def x_def\<close>)
qed

text \<open>C5: The boundary between a process and the kernel.  Let the page table of the current process map its trapframe.
  \<^verbatim>\<open>usertrapret\<close> turns interrupts off, aims traps at \<^verbatim>\<open>uservec\<close> and jumps to \<^verbatim>\<open>userret\<close>, which enters user mode at the
  saved program counter with all 31 registers from the trapframe and the page table of the process.  Whatever the process
  does to its registers and to memory outside the trapframe and the page table, its next trap runs
  \<^verbatim>\<open>uservec\<close>, which arrives at \<^verbatim>\<open>usertrap\<close> with the page table and the hart number the kernel had, at the top of the
  kernel stack of the process, with all registers of the process saved in the trapframe.\<close>

theorem user_boundary:
  assumes cur: "cur s = Some p" and map: "tf_mapped (mem s) (pagetable (procs s p)) (trapframe (procs s p)) T loc"
  defines "pt \<equiv> pagetable (procs s p)" and "tf \<equiv> trapframe (procs s p)"
  shows "\<exists>s1. usertrapret s = Some (ToUser (TRAMPOLINE + (userret s - trampoline s)) TRAPFRAME (MAKE_SATP pt), s1) \<and>
    \<not> cpu_intr_get s1 \<and> stvec s1 = TRAMPOLINE + (uservec s - trampoline s) \<and> sepc s1 = tf_get tf_epc p s \<and>
    sstatus s1 AND SSTATUS_SPP = 0 \<and> sstatus s1 AND SSTATUS_SPIE \<noteq> 0 \<and>
    (\<forall>st. pmem st = mem s1 \<and> priv st = PrivS \<and> regs st A0 = TRAPFRAME \<and> regs st A1 = MAKE_SATP pt \<longrightarrow>
      (\<exists>st1. exec_code userret_code st = Some (Srets, st1) \<and> csrs st1 Satp = MAKE_SATP pt \<and>
        (\<forall>r off. (r, off) \<in> set tf_slots \<longrightarrow> regs st1 r = tf_get (of_nat off) p s) \<and>
        (\<forall>st2. priv st2 = PrivS \<and> csrs st2 = csrs st1 \<and>
           (\<forall>a. in_rng a tf 288 \<or> (\<exists>t\<in>T. in_rng a t 4096) \<longrightarrow> pmem st2 a = pmem st1 a) \<longrightarrow>
          (\<exists>st3. exec_code uservec_code st2 = Some (Jumps (usertrap_pc s), st3) \<and> csrs st3 Satp = satp s \<and>
            regs st3 Sp = kstack (procs s p) + PGSIZE \<and> regs st3 Tp = tp s \<and>
            (\<forall>r off. (r, off) \<in> set tf_slots \<longrightarrow> ld64 (pmem st3) (tf + of_nat off) = regs st2 r)))))"
proof -
  obtain s1 where s1: "usertrapret s = Some (ToUser (TRAMPOLINE + (userret s - trampoline s)) TRAPFRAME (MAKE_SATP pt), s1)"
    "stvec s1 = TRAMPOLINE + (uservec s - trampoline s)" "sepc s1 = tf_get tf_epc p s" "\<not> cpu_intr_get s1"
    "sstatus s1 AND SSTATUS_SPP = 0" "sstatus s1 AND SSTATUS_SPIE \<noteq> 0"
    and m: "mem s1 = enter_mem tf (satp s) (kstack (procs s p) + PGSIZE) (usertrap_pc s) (tp s) (mem s)"
    using usertrapret_spec [OF cur] unfolding pt_def tf_def by blast
  have tf1: "tf_mapped (mem s1) pt tf T loc"
    unfolding m by (rule tf_mapped_keep [OF map [folded pt_def tf_def]])
      (use enter_mem_other tf_apart [OF map [folded pt_def tf_def]] in blast)
  have ent: "\<exists>st1. exec_code userret_code st = Some (Srets, st1) \<and> csrs st1 Satp = MAKE_SATP pt \<and>
      (\<forall>r off. (r, off) \<in> set tf_slots \<longrightarrow> regs st1 r = tf_get (of_nat off) p s) \<and>
      csrs st1 Sscratch = TRAPFRAME \<and> pmem st1 = mem s1"
    if st: "pmem st = mem s1" "priv st = PrivS" "regs st A0 = TRAPFRAME" "regs st A1 = MAKE_SATP pt" for st
  proof -
    have "frame {a. in_rng a tf 288} (set_csr Satp (regs st A1) st) (regs st A0) tf 288"
      using frame_trapframe [of "set_csr Satp (regs st A1) st" pt tf T loc] tf1 st by (simp add: set_csr_def)
    moreover have "loads (mem s1) tf tf_slots R r = tf_get (of_nat off) p s" if r: "(r, off) \<in> set tf_slots" for r off R
    proof -
      have "off \<notin> {0, 8, 16, 32}" using r by (auto simp: tf_slots_def user_slots_def)
      then have "ld64 (mem s1) (tf + of_nat off) = ld64 (mem s) (tf + of_nat off)"
        using slots_ok_off [OF user_slots_ok(2) r] by (simp add: m enter_mem_ld64)
      then show ?thesis using loads_slot [OF distinct_user_slots(2) r] by (simp add: tf_get_def tf_def)
    qed
    ultimately show ?thesis using userret_spec [of "{a. in_rng a tf 288}" st tf] st by simp
  qed
  have lv: "\<exists>st3. exec_code uservec_code st2 = Some (Jumps (usertrap_pc s), st3) \<and> csrs st3 Satp = satp s \<and>
      regs st3 Sp = kstack (procs s p) + PGSIZE \<and> regs st3 Tp = tp s \<and>
      (\<forall>r off. (r, off) \<in> set tf_slots \<longrightarrow> ld64 (pmem st3) (tf + of_nat off) = regs st2 r)"
    if st2: "priv st2 = PrivS" "csrs st2 Satp = MAKE_SATP pt" "csrs st2 Sscratch = TRAPFRAME"
      and keep: "\<And>a. in_rng a tf 288 \<or> (\<exists>t\<in>T. in_rng a t 4096) \<Longrightarrow> pmem st2 a = mem s1 a" for st2
  proof -
    have "tf_mapped (pmem st2) pt tf T loc" by (rule tf_mapped_keep [OF tf1]) (use keep in blast)
    then have f: "frame {a. in_rng a tf 288} st2 (csrs st2 Sscratch) tf 288"
      using frame_trapframe [of st2 pt tf T loc] st2 by simp
    have "ld64 (pmem st2) (tf + of_nat off) = ld64 (mem s1) (tf + of_nat off)" if "8 dvd off" "off < 288" for off
      by (rule ld64_cong) (use that keep slot_in_area [of off 288 _ tf] aligned_slot [of off 288] in auto)
    from this [of 0] this [of 8] this [of 16] this [of 32]
    have "ld64 (pmem st2) tf = satp s" "ld64 (pmem st2) (tf + 8) = kstack (procs s p) + PGSIZE"
      "ld64 (pmem st2) (tf + 16) = usertrap_pc s" "ld64 (pmem st2) (tf + 32) = tp s"
      using enter_mem_ld64 [of 0 tf] enter_mem_ld64 [of 8 tf] enter_mem_ld64 [of 16 tf] enter_mem_ld64 [of 32 tf]
      by (simp_all add: m)
    then show ?thesis
      unfolding uservec_spec [OF f] using saves_slot [OF user_slots_ok(2)] by simp
  qed
  show ?thesis
  proof (intro exI [of _ s1] conjI allI impI)
    fix st :: machine assume "pmem st = mem s1 \<and> priv st = PrivS \<and> regs st A0 = TRAPFRAME \<and> regs st A1 = MAKE_SATP pt"
    then obtain st1 where st1: "exec_code userret_code st = Some (Srets, st1)" "csrs st1 Satp = MAKE_SATP pt"
      "\<forall>r off. (r, off) \<in> set tf_slots \<longrightarrow> regs st1 r = tf_get (of_nat off) p s" "csrs st1 Sscratch = TRAPFRAME"
      "pmem st1 = mem s1" using ent by blast
    show "\<exists>st1. exec_code userret_code st = Some (Srets, st1) \<and> csrs st1 Satp = MAKE_SATP pt \<and>
        (\<forall>r off. (r, off) \<in> set tf_slots \<longrightarrow> regs st1 r = tf_get (of_nat off) p s) \<and>
        (\<forall>st2. priv st2 = PrivS \<and> csrs st2 = csrs st1 \<and>
           (\<forall>a. in_rng a tf 288 \<or> (\<exists>t\<in>T. in_rng a t 4096) \<longrightarrow> pmem st2 a = pmem st1 a) \<longrightarrow>
          (\<exists>st3. exec_code uservec_code st2 = Some (Jumps (usertrap_pc s), st3) \<and> csrs st3 Satp = satp s \<and>
            regs st3 Sp = kstack (procs s p) + PGSIZE \<and> regs st3 Tp = tp s \<and>
            (\<forall>r off. (r, off) \<in> set tf_slots \<longrightarrow> ld64 (pmem st3) (tf + of_nat off) = regs st2 r)))"
      using st1 by (intro exI [of _ st1] conjI allI impI lv) auto
  qed (use s1 in simp_all)
qed

text \<open>An interrupt of the kernel that does not switch away returns to where it came from, with the status it found.\<close>

lemma kerneltrap_restores: "kerneltrap s = Some (False, s') \<Longrightarrow> sepc s' = sepc s \<and> sstatus s' = sstatus s"
  by (auto simp: kerneltrap_def kerneltrap_end_def bind_eq_Some_conv Let_def split: if_splits)

text \<open>A process whose page table maps its trapframe at 0x87fff000.\<close>

abbreviation demo_tf_pte :: u64 where "demo_tf_pte \<equiv> 0x21fffc07"

definition demo_tf_tables :: memory where
  "demo_tf_tables = add_table demo_t1 511 demo_t0 (add_table demo_root 255 demo_t1 (\<lambda>_. 0))"

definition demo_tf_loc :: "u64 \<Rightarrow> nat list" where
  "demo_tf_loc = (\<lambda>_. [])(demo_t1 := [255], demo_t0 := [255, 511])"

definition demo_trap :: trap_st where
  "demo_trap = file_st.extend (demo_file\<lparr>mem := st64 (slot demo_t0 510) demo_tf_pte demo_tf_tables,
     procs := (procs demo_file)(0 := (procs demo_file 0)\<lparr>pagetable := demo_root, trapframe := 0x87fff000, kstack := 0x3fffffd000\<rparr>)\<rparr>)
     (trap_st.fields 0 0 0 0 0 0x8000000000087f00 0 1 0x80005a00 0x80002600 0x80007000 0x80007090 True (\<lambda>_. 0) 0 [] demo_vdisk)"

lemma demo_tf_tables_wf: "pt_wf demo_tf_tables demo_root {demo_t0, demo_t1, demo_root} demo_tf_loc"
proof -
  have "pt_wf (\<lambda>_. 0) demo_root {demo_root} (\<lambda>_. [])" by (simp add: pt_wf_def)
  then have 1: "pt_wf (add_table demo_root 255 demo_t1 (\<lambda>_. 0)) demo_root {demo_t1, demo_root} ((\<lambda>_. [])(demo_t1 := [] @ [255]))"
    by (rule add_table_wf [where t = demo_root]) simp_all
  have "pt_wf demo_tf_tables demo_root (insert demo_t0 {demo_t1, demo_root})
      (((\<lambda>_. [])(demo_t1 := [] @ [255]))(demo_t0 := ((\<lambda>_. [])(demo_t1 := [] @ [255])) demo_t1 @ [511]))"
    unfolding demo_tf_tables_def
    by (rule add_table_wf [OF 1]) (simp_all add: add_table_entry)
  then show ?thesis by (simp add: demo_tf_loc_def)
qed

lemma demo_trap_simps: "cur demo_trap = Some 0" "pagetable (procs demo_trap 0) = demo_root"
  "trapframe (procs demo_trap 0) = 0x87fff000" "kstack (procs demo_trap 0) = 0x3fffffd000"
  "mem demo_trap = st64 (slot demo_t0 510) demo_tf_pte demo_tf_tables" "usertrap_pc demo_trap = 0x80002600" "tp demo_trap = 1"
  "satp demo_trap = 0x8000000000087f00"
  by (simp_all add: demo_trap_def demo_file_def demo_uart_def demo_fs_def demo_log_def demo_bio_def demo_sl_def demo_st_def
      proc_st.defs sl_st.defs bio_st.defs log_st.defs fs_st.defs uart_st.defs file_st.defs trap_st.defs)

lemma demo_tf_leaf:
  "leaf_from 2 demo_tf_tables demo_root v =
     (if PX 2 v = 255 \<and> PX 1 v = 511 then Some (slot demo_t0 (PX 0 v)) else None)"
  by (simp add: numeral_2_eq_2 Let_def) (simp add: demo_tf_tables_def add_table_entry)

lemma demo_tf_mapped: "tf_mapped (mem demo_trap) demo_root 0x87fff000 {demo_t0, demo_t1, demo_root} demo_tf_loc"
proof -
  have px: "PX 2 TRAPFRAME = 255" "PX 1 TRAPFRAME = 511" "PX 0 TRAPFRAME = 510" by (simp_all add: PX_unat)
  have lf: "leaf_from 2 demo_tf_tables demo_root TRAPFRAME = Some (slot demo_t0 510)"
    unfolding demo_tf_leaf px by simp
  have "pt_lookup (mem demo_trap) demo_root TRAPFRAME = Some demo_tf_pte"
    using set_leaf_lookup [OF demo_tf_tables_wf lf, of TRAPFRAME demo_tf_pte] by (simp add: demo_trap_simps pte_v_def)
  moreover have "pt_wf (mem demo_trap) demo_root {demo_t0, demo_t1, demo_root} demo_tf_loc"
    unfolding demo_trap_simps by (rule set_leaf_wf [OF demo_tf_tables_wf]) (simp_all add: demo_tf_loc_def)
  ultimately show ?thesis by (simp add: tf_mapped_def PTE2PA_def)
qed

theorem user_boundary_witness:
  "\<exists>s1 st1 st3. usertrapret demo_trap = Some (ToUser (TRAMPOLINE + (userret demo_trap - trampoline demo_trap)) TRAPFRAME (MAKE_SATP demo_root), s1) \<and>
    exec_code userret_code \<lparr>regs = (\<lambda>_. 0)(A0 := TRAPFRAME, A1 := MAKE_SATP demo_root), csrs = (\<lambda>_. 0), pmem = mem s1, priv = PrivS\<rparr> = Some (Srets, st1) \<and>
    exec_code uservec_code (st1\<lparr>regs := (\<lambda>_. 5), priv := PrivS\<rparr>) = Some (Jumps 0x80002600, st3) \<and> regs st3 Sp = 0x3fffffe000"
proof -
  have "tf_mapped (mem demo_trap) (pagetable (procs demo_trap 0)) (trapframe (procs demo_trap 0)) {demo_t0, demo_t1, demo_root} demo_tf_loc"
    using demo_tf_mapped by (simp add: demo_trap_simps)
  from user_boundary [OF demo_trap_simps(1) this] obtain s1
    where s1: "usertrapret demo_trap = Some (ToUser (TRAMPOLINE + (userret demo_trap - trampoline demo_trap)) TRAPFRAME (MAKE_SATP demo_root), s1)"
    and *: "\<forall>st. pmem st = mem s1 \<and> priv st = PrivS \<and> regs st A0 = TRAPFRAME \<and> regs st A1 = MAKE_SATP demo_root \<longrightarrow>
      (\<exists>st1. exec_code userret_code st = Some (Srets, st1) \<and> csrs st1 Satp = MAKE_SATP demo_root \<and>
        (\<forall>r off. (r, off) \<in> set tf_slots \<longrightarrow> regs st1 r = tf_get (of_nat off) 0 demo_trap) \<and>
        (\<forall>st2. priv st2 = PrivS \<and> csrs st2 = csrs st1 \<and>
           (\<forall>a. in_rng a 0x87fff000 288 \<or> (\<exists>t\<in>{demo_t0, demo_t1, demo_root}. in_rng a t 4096) \<longrightarrow> pmem st2 a = pmem st1 a) \<longrightarrow>
          (\<exists>st3. exec_code uservec_code st2 = Some (Jumps 0x80002600, st3) \<and> csrs st3 Satp = 0x8000000000087f00 \<and>
            regs st3 Sp = 0x3fffffd000 + PGSIZE \<and> regs st3 Tp = 1 \<and>
            (\<forall>r off. (r, off) \<in> set tf_slots \<longrightarrow> ld64 (pmem st3) (0x87fff000 + of_nat off) = regs st2 r))))"
    unfolding demo_trap_simps by (elim exE conjE) (rule that)
  let ?st = "\<lparr>regs = (\<lambda>_. 0)(A0 := TRAPFRAME, A1 := MAKE_SATP demo_root), csrs = (\<lambda>_. 0), pmem = mem s1, priv = PrivS\<rparr>"
  have "pmem ?st = mem s1 \<and> priv ?st = PrivS \<and> regs ?st A0 = TRAPFRAME \<and> regs ?st A1 = MAKE_SATP demo_root" by simp
  from mp [OF spec [OF *] this] obtain st1 where st1: "exec_code userret_code ?st = Some (Srets, st1)"
    and st2: "\<forall>st2. priv st2 = PrivS \<and> csrs st2 = csrs st1 \<and>
           (\<forall>a. in_rng a 0x87fff000 288 \<or> (\<exists>t\<in>{demo_t0, demo_t1, demo_root}. in_rng a t 4096) \<longrightarrow> pmem st2 a = pmem st1 a) \<longrightarrow>
          (\<exists>st3. exec_code uservec_code st2 = Some (Jumps 0x80002600, st3) \<and> csrs st3 Satp = 0x8000000000087f00 \<and>
            regs st3 Sp = 0x3fffffd000 + PGSIZE \<and> regs st3 Tp = 1 \<and>
            (\<forall>r off. (r, off) \<in> set tf_slots \<longrightarrow> ld64 (pmem st3) (0x87fff000 + of_nat off) = regs st2 r))"
    by (elim exE conjE) (rule that)
  have "\<exists>st3. exec_code uservec_code (st1\<lparr>regs := (\<lambda>_. 5), priv := PrivS\<rparr>) = Some (Jumps 0x80002600, st3) \<and>
      csrs st3 Satp = 0x8000000000087f00 \<and> regs st3 Sp = 0x3fffffd000 + PGSIZE \<and> regs st3 Tp = 1 \<and>
      (\<forall>r off. (r, off) \<in> set tf_slots \<longrightarrow> ld64 (pmem st3) (0x87fff000 + of_nat off) = regs (st1\<lparr>regs := (\<lambda>_. 5), priv := PrivS\<rparr>) r)"
    by (rule st2 [rule_format]) simp
  then obtain st3 where "exec_code uservec_code (st1\<lparr>regs := (\<lambda>_. 5), priv := PrivS\<rparr>) = Some (Jumps 0x80002600, st3)"
    "regs st3 Sp = 0x3fffffd000 + PGSIZE" by (elim exE conjE) (rule that)
  moreover have "(0x3fffffd000 + PGSIZE :: u64) = 0x3fffffe000" by simp
  ultimately show ?thesis using s1 st1 by (intro exI conjI) (assumption | simp only:)+
qed

end
