(* ===== verification/Boot.thy ===== *)
theory Boot
  imports Riscv
begin

text \<open>
  Machine mode: the way from \<^verbatim>\<open>_entry\<close> through \<^verbatim>\<open>kernel/start.c\<close> into supervisor mode, and the timer interrupt
  that \<^verbatim>\<open>timerinit\<close> sets up and \<^verbatim>\<open>timervec\<close> serves.  The addresses of \<^verbatim>\<open>main\<close>, \<^verbatim>\<open>timervec\<close>, \<^verbatim>\<open>stack0\<close> and \<^verbatim>\<open>timer_scratch\<close>
  are those the linker chooses.  The registers of the interrupt timer are memory at their addresses.
\<close>

abbreviation NCPU :: nat where "NCPU \<equiv> 8"
abbreviation CLINT :: u64 where "CLINT \<equiv> 0x2000000"
abbreviation CLINT_MTIME :: u64 where "CLINT_MTIME \<equiv> CLINT + 0xBFF8"

definition CLINT_MTIMECMP :: "u64 \<Rightarrow> u64" where
  "CLINT_MTIMECMP hartid = CLINT + 0x4000 + 8 * hartid"

abbreviation MSTATUS_MPP_MASK :: u64 where "MSTATUS_MPP_MASK \<equiv> 0x1800"
abbreviation MSTATUS_MPP_S :: u64 where "MSTATUS_MPP_S \<equiv> 0x800"
abbreviation MSTATUS_MIE :: u64 where "MSTATUS_MIE \<equiv> 0x8"
abbreviation MSTATUS_MPIE :: u64 where "MSTATUS_MPIE \<equiv> 0x80"
abbreviation SIE_SEIE :: u64 where "SIE_SEIE \<equiv> 0x200"
abbreviation SIE_STIE :: u64 where "SIE_STIE \<equiv> 0x20"
abbreviation SIE_SSIE :: u64 where "SIE_SSIE \<equiv> 0x2"
abbreviation MIE_MTIE :: u64 where "MIE_MTIE \<equiv> 0x80"

text \<open>\<^verbatim>\<open>int id = r_mhartid()\<close>, used as a 64-bit offset.\<close>

definition hart_id :: "machine \<Rightarrow> u64" where
  "hart_id st = scast (ucast (csrs st Mhartid) :: u32)"

definition timerinit :: "u64 \<Rightarrow> u64 \<Rightarrow> machine \<Rightarrow> machine" where
  "timerinit timer_scratch timervec st =
     (let id = hart_id st;
          interval = 1000000;
          st = st\<lparr>pmem := st64 (CLINT_MTIMECMP id) (ld64 (pmem st) CLINT_MTIME + interval) (pmem st)\<rparr>;
          scratch = timer_scratch + id * 40;
          st = st\<lparr>pmem := st64 (scratch + 24) (CLINT_MTIMECMP id) (pmem st)\<rparr>;
          st = st\<lparr>pmem := st64 (scratch + 32) interval (pmem st)\<rparr>;
          st = set_csr Mscratch scratch st;
          st = set_csr Mtvec timervec st;
          st = set_csr Mstatus (csrs st Mstatus OR MSTATUS_MIE) st in
      set_csr Mie (csrs st Mie OR MIE_MTIE) st)"

text \<open>\<^verbatim>\<open>mret\<close>: the mode in the MPP field, the interrupt enable bit from its saved copy, and the address in \<^verbatim>\<open>mepc\<close>.\<close>

definition mpp :: "u64 \<Rightarrow> priv" where
  "mpp v = (if v AND MSTATUS_MPP_MASK = 0 then PrivU else if v AND MSTATUS_MPP_MASK = MSTATUS_MPP_S then PrivS else PrivM)"

definition mret :: "machine \<Rightarrow> u64 \<times> machine" where
  "mret st =
     (let v = csrs st Mstatus;
          mie = (if v AND MSTATUS_MPIE \<noteq> 0 then MSTATUS_MIE else 0) in
      (csrs st Mepc, set_csr Mstatus ((v AND NOT (MSTATUS_MPP_MASK OR MSTATUS_MIE)) OR MSTATUS_MPIE OR mie)
        (st\<lparr>priv := mpp v\<rparr>)))"

definition start :: "u64 \<Rightarrow> u64 \<Rightarrow> u64 \<Rightarrow> machine \<Rightarrow> u64 \<times> machine" where
  "start main_pc timer_scratch timervec st =
     (let x = csrs st Mstatus;
          x = x AND NOT MSTATUS_MPP_MASK;
          x = x OR MSTATUS_MPP_S;
          st = set_csr Mstatus x st;
          st = set_csr Mepc main_pc st;
          st = set_csr Satp 0 st;
          st = set_csr Medeleg 0xffff st;
          st = set_csr Mideleg 0xffff st;
          st = set_csr Sie (csrs st Sie OR SIE_SEIE OR SIE_STIE OR SIE_SSIE) st;
          st = set_csr Pmpaddr0 0x3fffffffffffff st;
          st = set_csr Pmpcfg0 0xf st;
          st = timerinit timer_scratch timervec st;
          id = hart_id st;
          st = set_reg Tp id st in
      mret st)"

subsection \<open>The timer interrupt\<close>

text \<open>The registers \<^verbatim>\<open>timervec\<close> works with.\<close>

definition tv_slots :: "(reg \<times> nat) list" where
  "tv_slots = [(A1, 0), (A2, 8), (A3, 16)]"

lemma tv_slots_ok: "slots_ok 40 tv_slots"
  by (simp add: slots_ok_def tv_slots_def)

text \<open>It restores all it uses, and moves the comparison register on by the interval.\<close>

lemma timervec_spec:
  assumes M: "priv st = PrivM" and b: "unat (csrs st Mscratch) mod 8 = 0"
    and t: "ld64 (pmem st) (csrs st Mscratch + 24) = t" "unat t mod 8 = 0"
    and sep: "\<And>a. in_rng a (csrs st Mscratch) 40 \<Longrightarrow> \<not> in_rng a t 8"
  shows "exec_code timervec_code st = Some (Mrets, st\<lparr>csrs := (csrs st)(Sip := 2),
    pmem := st64 t (ld64 (pmem st) t + ld64 (pmem st) (csrs st Mscratch + 32))
      (saves (regs st) (csrs st Mscratch) tv_slots (pmem st))\<rparr>)"
proof -
  let ?b = "csrs st Mscratch" let ?i = "ld64 (pmem st) (csrs st Mscratch + 32)" let ?R = "regs st"
  let ?m = "st64 (?b + 16) (?R A3) (st64 (?b + 8) (?R A2) (st64 ?b (?R A1) (pmem st)))"
  let ?m' = "st64 t (ld64 (pmem st) t + ?i) ?m"
  have m: "?m = saves ?R ?b tv_slots (pmem st)" by (simp add: saves_def tv_slots_def)
  have x: "xlate w y (?b + of_nat off) = Some (?b + of_nat off)" "xlate w y t = Some t"
    if "priv y = PrivM" "8 dvd off" for w y off
    using that aligned_add [OF b] t(2) by (simp_all add: xlate_def)
  have xs: "xlate w y ?b = Some ?b" "xlate w y (?b + 8) = Some (?b + 8)" "xlate w y (?b + 16) = Some (?b + 16)"
    "xlate w y (?b + 24) = Some (?b + 24)" "xlate w y (?b + 32) = Some (?b + 32)" "xlate w y t = Some t"
    if "priv y = PrivM" for w y
    using x [OF that, of 0] x(1) [OF that, of 8] x(1) [OF that, of 16] x(1) [OF that, of 24] x(1) [OF that, of 32]
    by simp_all
  have in_m: "ld64 ?m (?b + of_nat off) = (case List.find (\<lambda>(r, q). q = off) tv_slots of Some (r, q) \<Rightarrow> ?R r
      | None \<Rightarrow> ld64 (pmem st) (?b + of_nat off))" if "8 dvd off" "off < 40" for off
    unfolding m by (rule saves_ld64 [OF tv_slots_ok that])
  have kept: "ld64 ?m' (?b + of_nat off) = ld64 ?m (?b + of_nat off)" if "8 dvd off" "off < 40" for off
    using that sep slot_in_area [of off 40 _ ?b] aligned_slot [of off 40]
    by (intro ld64_cong st64_other) auto
  have ld: "ld64 ?m (?b + 24) = t" "ld64 ?m (?b + 32) = ?i" "ld64 ?m t = ld64 (pmem st) t"
    "ld64 ?m' ?b = ?R A1" "ld64 ?m' (?b + 8) = ?R A2" "ld64 ?m' (?b + 16) = ?R A3"
  proof -
    show "ld64 ?m (?b + 24) = t" using in_m [of 24] t(1) by (simp add: tv_slots_def)
    show "ld64 ?m (?b + 32) = ?i" using in_m [of 32] by (simp add: tv_slots_def)
    show "ld64 ?m t = ld64 (pmem st) t"
      unfolding m by (intro ld64_cong saves_frame [OF tv_slots_ok]) (use sep in blast)
    show "ld64 ?m' ?b = ?R A1" using kept [of 0] in_m [of 0] by (simp add: tv_slots_def)
    show "ld64 ?m' (?b + 8) = ?R A2" using kept [of 8] in_m [of 8] by (simp add: tv_slots_def)
    show "ld64 ?m' (?b + 16) = ?R A3" using kept [of 16] in_m [of 16] by (simp add: tv_slots_def)
  qed
  have "exec_code timervec_code st = Some (Mrets, st\<lparr>csrs := (csrs st)(Sip := 2), pmem := ?m'\<rparr>)"
    unfolding timervec_code_def
    by (simp add: M xs ld set_reg_def set_csr_def, rule machine.equality) (simp_all add: fun_eq_iff)
  then show ?thesis unfolding m .
qed

subsection \<open>The way into supervisor mode\<close>

lemma entry_spec:
  "exec_code (entry_code stack0 start_pc spin_pc) st = Some (Jumps start_pc,
     st\<lparr>regs := (regs st)(A0 := 4096 * (csrs st Mhartid + 1), A1 := csrs st Mhartid + 1,
       Sp := stack0 + 4096 * (csrs st Mhartid + 1), Ra := spin_pc)\<rparr>)"
  by (simp add: entry_code_def set_reg_def fun_upd_twist)

lemma hart_id_small: "csrs st Mhartid = of_nat i \<Longrightarrow> i < NCPU \<Longrightarrow> hart_id st = of_nat i"
proof -
  assume h: "csrs st Mhartid = of_nat i" and "i < NCPU"
  then have "i \<in> {0, 1, 2, 3, 4, 5, 6, 7}" by auto
  then show ?thesis using h by (auto simp: hart_id_def)
qed

lemma mpp_start: "mpp (((x AND NOT MSTATUS_MPP_MASK) OR MSTATUS_MPP_S) OR MSTATUS_MIE) = PrivS"
proof -
  have "(((x AND NOT MSTATUS_MPP_MASK) OR MSTATUS_MPP_S) OR MSTATUS_MIE) AND MSTATUS_MPP_MASK = MSTATUS_MPP_S"
    by (simp add: bit.conj_disj_distrib2 and.assoc)
  then show ?thesis by (simp add: mpp_def)
qed

text \<open>What \<^verbatim>\<open>start\<close> leaves behind on hart \<open>i\<close>.\<close>

lemma start_spec:
  fixes ts :: u64
  assumes "csrs st Mhartid = of_nat i" and "i < NCPU"
  defines "scratch \<equiv> ts + of_nat i * 40"
  obtains st' where "start main_pc ts tv st = (main_pc, st')" and "priv st' = PrivS"
    and "regs st' = (regs st)(Tp := of_nat i)" and "csrs st' Satp = 0" and "csrs st' Mscratch = scratch"
    and "csrs st' Mtvec = tv" and "csrs st' Mie AND MIE_MTIE \<noteq> 0"
    and "pmem st' = st64 (scratch + 32) 1000000 (st64 (scratch + 24) (CLINT_MTIMECMP (of_nat i))
      (st64 (CLINT_MTIMECMP (of_nat i)) (ld64 (pmem st) CLINT_MTIME + 1000000) (pmem st)))"
proof -
  have id: "hart_id y = of_nat i" if "csrs y Mhartid = csrs st Mhartid" for y
    using that hart_id_small assms(1,2) by simp
  have mtie: "(x OR MIE_MTIE) AND MIE_MTIE = MIE_MTIE" for x by (simp add: bit.conj_disj_distrib2 and.commute)
  define st' where "st' = snd (start main_pc ts tv st)"
  show thesis
    by (rule that [of st'])
      (simp_all add: st'_def start_def timerinit_def mret_def Let_def set_csr_def set_reg_def id scratch_def mpp_start [simplified] mtie)
qed

lemma scratch_apart:
  assumes "unat ts + 320 \<le> 2 ^ 64" and "0x80000000 \<le> unat ts" and "i < NCPU" and "in_rng a (ts + of_nat i * 40) 40"
  shows "\<not> in_rng a (CLINT_MTIMECMP (of_nat i)) 8"
proof -
  have "unat (ts + of_nat i * 40) = unat ts + 40 * i"
  proof -
    have "ts + of_nat i * 40 = of_nat (unat ts + 40 * i)" by simp
    moreover have "unat ts + 40 * i < 2 ^ 64" using assms(1,3) by simp
    ultimately show ?thesis by (metis unat_of_nat_64)
  qed
  then have "unat ts + 40 * i \<le> unat a"
    using in_rng_nowrap [of "ts + of_nat i * 40" 40 a] assms(1,3,4) by simp
  moreover have "unat (CLINT_MTIMECMP (of_nat i)) = 0x2004000 + 8 * i"
  proof -
    have "CLINT_MTIMECMP (of_nat i) = of_nat (0x2004000 + 8 * i)" by (simp add: CLINT_MTIMECMP_def)
    then show ?thesis using assms(3) unat_of_nat_64 [of "0x2004000 + 8 * i"] by simp
  qed
  ultimately show ?thesis using in_rng_nowrap [of "CLINT_MTIMECMP (of_nat i)" 8 a] assms(2,3) by auto
qed

lemma scratch_aligned: "unat ts mod 8 = 0 \<Longrightarrow> unat (ts + of_nat i * 40 :: u64) mod 8 = 0"
  using aligned_add [of ts "i * 40"] by simp

lemma mtimecmp_aligned: "unat (CLINT_MTIMECMP (of_nat i)) mod 8 = 0"
  using aligned_add [of "0x2004000" "8 * i"] by (simp add: CLINT_MTIMECMP_def)

text \<open>The words that \<^verbatim>\<open>start\<close> has put into the scratch area.\<close>

lemma scratch_words:
  "ld64 (st64 (b + 32) v (st64 (b + 24) t m)) (b + 24) = t" "ld64 (st64 (b + 32) v (st64 (b + 24) t m)) (b + 32) = v"
  using ld64_st64_slot [of 32 24 b v] by (simp_all add: ld64_st64_same)

text \<open>C20: Each hart reaches \<^verbatim>\<open>main\<close> in supervisor mode with a stack of its own, without translation and with its number in \<^verbatim>\<open>tp\<close>,
  and timer interrupts never disturb what it does.  On hart \<open>i\<close>, \<^verbatim>\<open>_entry\<close> and \<^verbatim>\<open>start\<close> lead there, and whenever
  afterwards \<^verbatim>\<open>timervec\<close> runs in machine mode with the two words of the scratch area as \<^verbatim>\<open>timerinit\<close> wrote them, it returns
  with every register unchanged, a software interrupt pending, the timer due one interval later, and memory changed only
  in the timer register and the three save slots.\<close>

theorem boot_timer:
  assumes "csrs st Mhartid = of_nat i" and "i < NCPU" and "unat ts mod 8 = 0" and "0x80000000 \<le> unat ts"
    and "unat ts + 320 \<le> 2 ^ 64"
  shows "\<exists>st1 st2. exec_code (entry_code stack0 start_pc spin_pc) st = Some (Jumps start_pc, st1) \<and>
    start main_pc ts tv st1 = (main_pc, st2) \<and> priv st2 = PrivS \<and> csrs st2 Satp = 0 \<and> csrs st2 Mtvec = tv \<and>
    csrs st2 Mie AND MIE_MTIE \<noteq> 0 \<and> regs st2 Sp = stack0 + 4096 * (of_nat i + 1) \<and> regs st2 Tp = of_nat i \<and>
    (\<forall>st3. priv st3 = PrivM \<and> csrs st3 Mscratch = csrs st2 Mscratch \<and>
        (\<forall>off\<in>{24, 32}. ld64 (pmem st3) (ts + of_nat i * 40 + off) = ld64 (pmem st2) (ts + of_nat i * 40 + off)) \<longrightarrow>
      (\<exists>st4. exec_code timervec_code st3 = Some (Mrets, st4) \<and> regs st4 = regs st3 \<and>
        csrs st4 = (csrs st3)(Sip := 2) \<and>
        ld64 (pmem st4) (CLINT_MTIMECMP (of_nat i)) = ld64 (pmem st3) (CLINT_MTIMECMP (of_nat i)) + 1000000 \<and>
        (\<forall>a. \<not> in_rng a (CLINT_MTIMECMP (of_nat i)) 8 \<and> \<not> in_rng a (ts + of_nat i * 40) 24 \<longrightarrow> pmem st4 a = pmem st3 a)))"
proof -
  let ?b = "ts + of_nat i * 40" let ?t = "CLINT_MTIMECMP (of_nat i)"
  define st1 where "st1 = st\<lparr>regs := (regs st)(A0 := 4096 * (csrs st Mhartid + 1), A1 := csrs st Mhartid + 1,
       Sp := stack0 + 4096 * (csrs st Mhartid + 1), Ra := spin_pc)\<rparr>"
  have e: "exec_code (entry_code stack0 start_pc spin_pc) st = Some (Jumps start_pc, st1)"
    unfolding st1_def by (rule entry_spec)
  have "csrs st1 Mhartid = of_nat i" using assms(1) by (simp add: st1_def)
  from start_spec [OF this assms(2), of main_pc ts tv] obtain st2
    where st2: "start main_pc ts tv st1 = (main_pc, st2)" "priv st2 = PrivS" "regs st2 = (regs st1)(Tp := of_nat i)"
      "csrs st2 Satp = 0" "csrs st2 Mscratch = ?b" "csrs st2 Mtvec = tv" "csrs st2 Mie AND MIE_MTIE \<noteq> 0"
    and m2: "pmem st2 = st64 (?b + 32) 1000000 (st64 (?b + 24) ?t
      (st64 ?t (ld64 (pmem st1) CLINT_MTIME + 1000000) (pmem st1)))"
    by blast
  have "\<exists>st4. exec_code timervec_code st3 = Some (Mrets, st4) \<and> regs st4 = regs st3 \<and> csrs st4 = (csrs st3)(Sip := 2) \<and>
      ld64 (pmem st4) ?t = ld64 (pmem st3) ?t + 1000000 \<and>
      (\<forall>a. \<not> in_rng a ?t 8 \<and> \<not> in_rng a ?b 24 \<longrightarrow> pmem st4 a = pmem st3 a)"
    if M: "priv st3 = PrivM" and b: "csrs st3 Mscratch = ?b"
      and w: "ld64 (pmem st3) (?b + 24) = ?t" "ld64 (pmem st3) (?b + 32) = 1000000" for st3
  proof -
    have t: "exec_code timervec_code st3 = Some (Mrets, st3\<lparr>csrs := (csrs st3)(Sip := 2),
        pmem := st64 ?t (ld64 (pmem st3) ?t + 1000000) (saves (regs st3) ?b tv_slots (pmem st3))\<rparr>)"
      using timervec_spec [OF M, of ?t] scratch_aligned [OF assms(3)] mtimecmp_aligned scratch_apart [OF assms(5,4,2)] b w
      by simp
    have "slots_ok 24 tv_slots" by (simp add: slots_ok_def tv_slots_def)
    then show ?thesis unfolding t using saves_frame by (auto simp: ld64_st64_same st64_other)
  qed
  then have "\<forall>st3. priv st3 = PrivM \<and> csrs st3 Mscratch = csrs st2 Mscratch \<and>
      (\<forall>off\<in>{24, 32}. ld64 (pmem st3) (?b + off) = ld64 (pmem st2) (?b + off)) \<longrightarrow>
    (\<exists>st4. exec_code timervec_code st3 = Some (Mrets, st4) \<and> regs st4 = regs st3 \<and> csrs st4 = (csrs st3)(Sip := 2) \<and>
      ld64 (pmem st4) ?t = ld64 (pmem st3) ?t + 1000000 \<and>
      (\<forall>a. \<not> in_rng a ?t 8 \<and> \<not> in_rng a ?b 24 \<longrightarrow> pmem st4 a = pmem st3 a))"
    unfolding m2 st2(5) by (simp add: scratch_words)
  moreover have "regs st2 Sp = stack0 + 4096 * (of_nat i + 1)" "regs st2 Tp = of_nat i"
    using assms(1) by (simp_all add: st2(3) st1_def)
  ultimately show ?thesis using e st2(1,2,4,6,7) by blast
qed

definition demo_hart :: machine where
  "demo_hart = \<lparr>regs = (\<lambda>_. 0), csrs = (\<lambda>c. if c = Mhartid then 2 else 0), pmem = (\<lambda>_. 0), priv = PrivM\<rparr>"

theorem boot_timer_witness:
  "\<exists>st1 st2 st4. exec_code (entry_code 0x80009000 0x8000001c 0x8000001a) demo_hart = Some (Jumps 0x8000001c, st1) \<and>
    start 0x80000e00 0x80010000 0x80005a00 st1 = (0x80000e00, st2) \<and> regs st2 Sp = 0x8000c000 \<and> regs st2 Tp = 2 \<and>
    exec_code timervec_code (st2\<lparr>priv := PrivM\<rparr>) = Some (Mrets, st4) \<and> regs st4 = regs st2 \<and>
    ld64 (pmem st4) 0x2004010 = ld64 (pmem st2) 0x2004010 + 1000000"
proof -
  have h: "csrs demo_hart Mhartid = of_nat 2" "(2 :: nat) < NCPU" "unat (0x80010000 :: u64) mod 8 = 0"
    "0x80000000 \<le> unat (0x80010000 :: u64)" "unat (0x80010000 :: u64) + 320 \<le> 2 ^ 64"
    by (simp_all add: demo_hart_def)
  from boot_timer [OF h, of "0x80009000" "0x8000001c" "0x8000001a" "0x80000e00" "0x80005a00"] obtain st1 st2
    where st: "exec_code (entry_code 0x80009000 0x8000001c 0x8000001a) demo_hart = Some (Jumps 0x8000001c, st1)"
      "start 0x80000e00 0x80010000 0x80005a00 st1 = (0x80000e00, st2)" "regs st2 Sp = 0x80009000 + 4096 * (of_nat 2 + 1)"
      "regs st2 Tp = of_nat 2"
    and t: "\<And>st3. priv st3 = PrivM \<and> csrs st3 Mscratch = csrs st2 Mscratch \<and>
        (\<forall>off\<in>{24, 32}. ld64 (pmem st3) (0x80010000 + of_nat 2 * 40 + off) = ld64 (pmem st2) (0x80010000 + of_nat 2 * 40 + off)) \<Longrightarrow>
      \<exists>st4. exec_code timervec_code st3 = Some (Mrets, st4) \<and> regs st4 = regs st3 \<and>
        csrs st4 = (csrs st3)(Sip := 2) \<and>
        ld64 (pmem st4) (CLINT_MTIMECMP (of_nat 2)) = ld64 (pmem st3) (CLINT_MTIMECMP (of_nat 2)) + 1000000"
    by blast
  have c: "CLINT_MTIMECMP (of_nat 2) = 0x2004010" by (simp add: CLINT_MTIMECMP_def)
  from t [of "st2\<lparr>priv := PrivM\<rparr>"] obtain st4 where "exec_code timervec_code (st2\<lparr>priv := PrivM\<rparr>) = Some (Mrets, st4)"
    "regs st4 = regs st2" "ld64 (pmem st4) 0x2004010 = ld64 (pmem st2) 0x2004010 + 1000000"
    unfolding c by auto
  with st show ?thesis by auto
qed

end
