(* ===== verification/Grep.thy ===== *)
theory Grep
  imports Xv6_Prelude
begin

text \<open>
  The user program \<^verbatim>\<open>user/grep.c\<close>: the pattern matcher, and the loop that cuts the input into lines.
  Texts and patterns are the bytes before their null byte.  The matcher is shown equivalent to a
  declarative reading of patterns, and the loop to print exactly the matching lines.
\<close>

abbreviation c_caret :: u8 where "c_caret \<equiv> 94"
abbreviation c_star :: u8 where "c_star \<equiv> 42"
abbreviation c_dot :: u8 where "c_dot \<equiv> 46"
abbreviation c_dollar :: u8 where "c_dollar \<equiv> 36"
abbreviation c_nl :: u8 where "c_nl \<equiv> 10"

function (sequential) matchhere :: "bytes \<Rightarrow> bytes \<Rightarrow> bool"
  and matchstar :: "u8 \<Rightarrow> bytes \<Rightarrow> bytes \<Rightarrow> bool" where
  "matchhere [] str = True"
| "matchhere (r # re) str =
     (if re \<noteq> [] \<and> hd re = c_star then matchstar r (tl re) str
      else if r = c_dollar \<and> re = [] then str = []
      else if str \<noteq> [] \<and> (r = c_dot \<or> r = hd str) then matchhere re (tl str)
      else False)"
| "matchstar c re str =
     (if matchhere re str then True
      else if str \<noteq> [] \<and> (hd str = c \<or> c = c_dot) then matchstar c re (tl str)
      else False)"
  by pat_completeness auto
termination
  by (relation "measure (\<lambda>x. case x of Inl (re, str) \<Rightarrow> 2 * (length re + length str)
       | Inr (c, re, str) \<Rightarrow> 2 * (length re + length str) + 1)") (auto simp: neq_Nil_conv)

declare matchhere.simps(2) [simp del] matchstar.simps [simp del]

fun match_any :: "bytes \<Rightarrow> bytes \<Rightarrow> bool" where
  "match_any re [] = matchhere re []"
| "match_any re (c # str) = (matchhere re (c # str) \<or> match_any re str)"

definition match :: "bytes \<Rightarrow> bytes \<Rightarrow> bool" where
  "match re str = (if re \<noteq> [] \<and> hd re = c_caret then matchhere (tl re) str else match_any re str)"

text \<open>\<^verbatim>\<open>strchr(p, '\n')\<close>: the line before the newline and the rest behind it, if a newline comes before the
  first null byte.\<close>

fun split_line :: "bytes \<Rightarrow> (bytes \<times> bytes) option" where
  "split_line [] = None"
| "split_line (c # cs) =
     (if c = 0 then None
      else if c = c_nl then Some ([], cs)
      else case split_line cs of None \<Rightarrow> None | Some (l, rest) \<Rightarrow> Some (c # l, rest))"

lemma split_line_shorter: "split_line cs = Some (l, rest) \<Longrightarrow> length rest < length cs"
  by (induction cs arbitrary: l rest) (auto split: if_splits option.splits)

text \<open>The inner loop: what it writes, and what it moves to the front of the buffer.\<close>

function grep_lines :: "bytes \<Rightarrow> bytes \<Rightarrow> bytes \<times> bytes" where
  "grep_lines pat p =
     (case split_line p of None \<Rightarrow> ([], p)
      | Some (l, rest) \<Rightarrow>
          (let (out, q) = grep_lines pat rest in ((if match pat l then l @ [c_nl] else []) @ out, q)))"
  by pat_completeness auto
termination
  by (relation "measure (\<lambda>(pat, p). length p)") (auto dest: split_line_shorter)

declare grep_lines.simps [simp del]

text \<open>The outer loop.  It asks \<^verbatim>\<open>read\<close> for the \<^verbatim>\<open>sizeof(buf)-m-1\<close> bytes that are free behind the \<open>m\<close> bytes
  kept; the list says how many bytes successive calls deliver at most.  Nothing read ends the loop.\<close>

definition grep_room :: "bytes \<Rightarrow> nat" where
  "grep_room pend = 1024 - length pend - 1"

fun grep :: "bytes \<Rightarrow> bytes \<Rightarrow> nat list \<Rightarrow> bytes \<Rightarrow> bytes" where
  "grep pat pend [] inp = []"
| "grep pat pend (k # ks) inp =
     (let r = take (min k (grep_room pend)) inp in
      if r = [] then []
      else let (out, q) = grep_lines pat (pend @ r) in out @ grep pat q ks (drop (length r) inp))"

subsection \<open>What a pattern means\<close>

datatype atom = Any | Lit u8

datatype item = Once atom | Many atom

fun fits :: "atom \<Rightarrow> u8 \<Rightarrow> bool" where
  "fits Any c = True"
| "fits (Lit a) c = (a = c)"

fun den :: "item \<Rightarrow> bytes set" where
  "den (Once a) = {[c] |c. fits a c}"
| "den (Many a) = {cs. \<forall>c\<in>set cs. fits a c}"

text \<open>A list of items denotes the concatenations of what its items denote.\<close>

fun lang :: "item list \<Rightarrow> bytes set" where
  "lang [] = {[]}"
| "lang (i # is) = {u @ v |u v. u \<in> den i \<and> v \<in> lang is}"

definition atom_of :: "u8 \<Rightarrow> atom" where
  "atom_of r = (if r = c_dot then Any else Lit r)"

text \<open>The items of a pattern, and whether it ends in \<^verbatim>\<open>$\<close>.\<close>

fun items :: "bytes \<Rightarrow> item list \<times> bool" where
  "items [] = ([], False)"
| "items [r] = (if r = c_dollar then ([], True) else ([Once (atom_of r)], False))"
| "items (r # q # re) =
     (if q = c_star then (let (is, e) = items re in (Many (atom_of r) # is, e))
      else (let (is, e) = items (q # re) in (Once (atom_of r) # is, e)))"

definition at_front :: "bytes \<Rightarrow> bytes \<Rightarrow> bool" where
  "at_front re str \<longleftrightarrow> (\<exists>u v. str = u @ v \<and> u \<in> lang (fst (items re)) \<and> (snd (items re) \<longrightarrow> v = []))"

lemma fits_atom [simp]: "fits (atom_of r) c \<longleftrightarrow> r = c_dot \<or> r = c"
  by (auto simp: atom_of_def)

lemma at_front_Nil [simp]: "at_front [] str"
  by (simp add: at_front_def)

lemma at_front_dollar: "at_front [c_dollar] str \<longleftrightarrow> str = []"
  by (auto simp: at_front_def)

lemma items_once:
  "re = [] \<or> hd re \<noteq> c_star \<Longrightarrow> \<not> (r = c_dollar \<and> re = []) \<Longrightarrow>
     items (r # re) = (Once (atom_of r) # fst (items re), snd (items re))"
  by (cases re) (auto split: prod.splits)

lemma items_many: "items (r # c_star # re) = (Many (atom_of r) # fst (items re), snd (items re))"
  by (simp split: prod.splits)

lemma at_front_once:
  assumes "re = [] \<or> hd re \<noteq> c_star" and "\<not> (r = c_dollar \<and> re = [])"
  shows "at_front (r # re) str \<longleftrightarrow> str \<noteq> [] \<and> (r = c_dot \<or> r = hd str) \<and> at_front re (tl str)"
proof -
  have one: "x \<in> lang (Once a # is) \<longleftrightarrow> (\<exists>c v. x = c # v \<and> fits a c \<and> v \<in> lang is)" for x a "is"
    by (auto intro: exI [of _ "[_]"])
  show ?thesis
  proof (cases str)
    case Nil
    then show ?thesis by (auto simp: at_front_def items_once [OF assms] one simp del: lang.simps)
  next
    case (Cons c cs)
    have "at_front (r # re) (c # cs) \<longleftrightarrow> (r = c_dot \<or> r = c) \<and> at_front re cs"
    proof
      assume "at_front (r # re) (c # cs)"
      then obtain w v where "c # cs = (c # w) @ v" "r = c_dot \<or> r = c" "w \<in> lang (fst (items re))" "snd (items re) \<longrightarrow> v = []"
        unfolding at_front_def items_once [OF assms] fst_conv snd_conv one by (elim exE conjE) simp
      then show "(r = c_dot \<or> r = c) \<and> at_front re cs" unfolding at_front_def by auto
    next
      assume "(r = c_dot \<or> r = c) \<and> at_front re cs"
      then obtain w v where "cs = w @ v" "r = c_dot \<or> r = c" "w \<in> lang (fst (items re))" "snd (items re) \<longrightarrow> v = []"
        unfolding at_front_def by blast
      then show "at_front (r # re) (c # cs)"
        unfolding at_front_def items_once [OF assms] fst_conv snd_conv one by (intro exI [of _ "c # w"] exI [of _ v]) auto
    qed
    then show ?thesis by (simp add: Cons)
  qed
qed

lemma at_front_many:
  "at_front (r # c_star # re) str \<longleftrightarrow>
     at_front re str \<or> str \<noteq> [] \<and> (hd str = r \<or> r = c_dot) \<and> at_front (r # c_star # re) (tl str)"
  (is "?L str \<longleftrightarrow> ?R")
proof -
  have split: "?L t \<longleftrightarrow> (\<exists>u w. t = u @ w \<and> (\<forall>c\<in>set u. r = c_dot \<or> r = c) \<and> at_front re w)" for t
  proof
    assume "?L t"
    then obtain y v where y: "t = y @ v" "y \<in> lang (Many (atom_of r) # fst (items re))" "snd (items re) \<longrightarrow> v = []"
      unfolding at_front_def items_many by auto
    from y(2) obtain u x where "y = u @ x" "\<forall>c\<in>set u. r = c_dot \<or> r = c" "x \<in> lang (fst (items re))" by auto
    with y have "t = u @ (x @ v) \<and> (\<forall>c\<in>set u. r = c_dot \<or> r = c) \<and> at_front re (x @ v)"
      unfolding at_front_def by auto
    then show "\<exists>u w. t = u @ w \<and> (\<forall>c\<in>set u. r = c_dot \<or> r = c) \<and> at_front re w" by blast
  next
    assume "\<exists>u w. t = u @ w \<and> (\<forall>c\<in>set u. r = c_dot \<or> r = c) \<and> at_front re w"
    then obtain u w where u: "t = u @ w" "\<forall>c\<in>set u. r = c_dot \<or> r = c" "at_front re w" by blast
    then obtain x v where "w = x @ v" "x \<in> lang (fst (items re))" "snd (items re) \<longrightarrow> v = []" by (auto simp: at_front_def)
    with u have "t = (u @ x) @ v \<and> u @ x \<in> lang (Many (atom_of r) # fst (items re)) \<and> (snd (items re) \<longrightarrow> v = [])" by auto
    then show "?L t" unfolding at_front_def items_many fst_conv snd_conv by blast
  qed
  show ?thesis
  proof
    assume "?L str"
    then obtain u w where u: "str = u @ w" "\<forall>c\<in>set u. r = c_dot \<or> r = c" "at_front re w" unfolding split by blast
    show ?R
    proof (cases u)
      case Nil
      with u show ?thesis by simp
    next
      case (Cons c u')
      with u have "?L (tl str)" unfolding split by auto
      with u Cons show ?thesis by auto
    qed
  next
    assume ?R
    then show "?L str"
    proof
      assume "at_front re str"
      then show ?thesis unfolding split by (intro exI [of _ "[]"] exI [of _ str]) simp
    next
      assume a: "str \<noteq> [] \<and> (hd str = r \<or> r = c_dot) \<and> ?L (tl str)"
      then obtain u w where "tl str = u @ w" "\<forall>c\<in>set u. r = c_dot \<or> r = c" "at_front re w" unfolding split by blast
      then have "str = (hd str # u) @ w \<and> (\<forall>c\<in>set (hd str # u). r = c_dot \<or> r = c) \<and> at_front re w"
        using a by (cases str) auto
      then show ?thesis unfolding split by blast
    qed
  qed
qed

lemma matchhere_iff: "matchhere re str \<longleftrightarrow> at_front re str"
  and matchstar_iff: "matchstar c re str \<longleftrightarrow> at_front (c # c_star # re) str"
proof (induction re str and c re str rule: matchhere_matchstar.induct)
  case (1 str)
  then show ?case by simp
next
  case (2 r re str)
  consider (star) re' where "re = c_star # re'" | (dollar) "re = []" "r = c_dollar"
    | (once) "re = [] \<or> hd re \<noteq> c_star" "\<not> (r = c_dollar \<and> re = [])" by (cases re) auto
  then show ?case
  proof cases
    case star
    then show ?thesis using 2 by (simp add: matchhere.simps)
  next
    case dollar
    then show ?thesis by (simp add: matchhere.simps at_front_dollar)
  next
    case once
    then show ?thesis using 2 by (auto simp: matchhere.simps at_front_once)
  qed
next
  case (3 c re str)
  then show ?case by (subst matchstar.simps, subst at_front_many) auto
qed

lemma match_any_iff: "match_any re str \<longleftrightarrow> (\<exists>pre t. str = pre @ t \<and> at_front re t)"
proof (induction str)
  case Nil
  then show ?case by (simp add: matchhere_iff)
next
  case (Cons c str)
  have "(\<exists>pre t. c # str = pre @ t \<and> at_front re t) \<longleftrightarrow> at_front re (c # str) \<or> (\<exists>pre t. str = pre @ t \<and> at_front re t)"
    by (auto simp: Cons_eq_append_conv)
  with Cons show ?case by (simp add: matchhere_iff)
qed

text \<open>C15: \<^verbatim>\<open>match\<close> finds a pattern in a text exactly when the text contains, between something before it
  and something after it, a string that the pattern denotes: a character stands for itself, a dot for
  any character, a star for any number of repetitions; \<^verbatim>\<open>^\<close> at the front demands that nothing comes
  before, \<^verbatim>\<open>$\<close> at the end that nothing comes after.\<close>

theorem match_equivalence:
  "match re str \<longleftrightarrow>
     (let anchored = (re \<noteq> [] \<and> hd re = c_caret); body = (if anchored then tl re else re) in
      \<exists>pre u post. str = pre @ u @ post \<and> u \<in> lang (fst (items body)) \<and>
        (if anchored then pre = [] else True) \<and> (if snd (items body) then post = [] else True))"
  by (cases "re \<noteq> [] \<and> hd re = c_caret") (auto simp: match_def matchhere_iff match_any_iff at_front_def Let_def)

subsection \<open>Lines\<close>

text \<open>A line without null bytes and newlines, and the text of a list of lines.\<close>

definition clean :: "bytes \<Rightarrow> bool" where
  "clean l \<longleftrightarrow> 0 \<notin> set l \<and> c_nl \<notin> set l"

definition unlines :: "bytes list \<Rightarrow> bytes" where
  "unlines ls = concat (map (\<lambda>l. l @ [c_nl]) ls)"

lemma unlines_simps [simp]: "unlines [] = []" "unlines (l # ls) = l @ c_nl # unlines ls"
  "unlines (xs @ ys) = unlines xs @ unlines ys"
  by (simp_all add: unlines_def)

lemma split_line_clean: "clean l \<Longrightarrow> split_line (l @ c_nl # rest) = Some (l, rest)" "clean q \<Longrightarrow> split_line q = None"
  by (induction l; auto simp: clean_def) (induction q; auto simp: clean_def)

lemma grep_lines_unlines:
  "\<forall>l\<in>set ls. clean l \<Longrightarrow> clean q \<Longrightarrow> grep_lines pat (unlines ls @ q) = (unlines (filter (match pat) ls), q)"
proof (induction ls)
  case Nil
  then show ?case by (simp add: grep_lines.simps split_line_clean)
next
  case (Cons l ls)
  then have "grep_lines pat (unlines ls @ q) = (unlines (filter (match pat) ls), q)" by simp
  then show ?case using Cons.prems by (subst grep_lines.simps) (simp add: split_line_clean)
qed

text \<open>Where a prefix of a text ends.\<close>

lemma long_prefix:
  assumes "x @ y = l @ c # z" and "length l < length x"
  obtains x' where "x = l @ c # x'" "x' @ y = z"
proof -
  obtain us where us: "x = l @ us" "us @ y = c # z" using assms by (auto simp: append_eq_append_conv2)
  with assms(2) show ?thesis using that by (cases us) auto
qed

lemma unlines_prefix:
  "\<forall>l\<in>set ls. clean l \<Longrightarrow> x @ y = unlines ls \<Longrightarrow>
     \<exists>ls1 ls2 q. ls = ls1 @ ls2 \<and> x = unlines ls1 @ q \<and> clean q \<and> q @ y = unlines ls2"
proof (induction ls arbitrary: x)
  case Nil
  then show ?case by (auto simp: clean_def intro: exI [of _ "[]"])
next
  case (Cons l ls)
  show ?case
  proof (cases "length x \<le> length l")
    case True
    then have "\<exists>z. l = x @ z" using Cons.prems(2) by (metis append_eq_append_conv_if append_take_drop_id unlines_simps(2))
    then have "clean x" using Cons.prems(1) by (auto simp: clean_def)
    then show ?thesis using Cons.prems(2) by (intro exI [of _ "[]"] exI [of _ "l # ls"] exI [of _ x]) simp
  next
    case False
    then obtain x' where x: "x = l @ c_nl # x'" "x' @ y = unlines ls"
      using Cons.prems(2) by (auto elim: long_prefix simp: not_le)
    with Cons.IH [OF _ x(2)] Cons.prems(1) obtain ls1 ls2 q
      where "ls = ls1 @ ls2" "x' = unlines ls1 @ q" "clean q" "q @ y = unlines ls2" by auto
    then show ?thesis using x(1) by (intro exI [of _ "l # ls1"] exI [of _ ls2] exI [of _ q]) simp
  qed
qed

lemma grep_from:
  assumes "\<forall>l\<in>set ls. clean l \<and> length l < 1023" and "clean pend" and "pend @ inp = unlines ls"
    and "length inp \<le> length ks" and "\<forall>k\<in>set ks. 0 < k"
  shows "grep pat pend ks inp = unlines (filter (match pat) ls)"
  using assms
proof (induction ks arbitrary: pend inp ls)
  case Nil
  then have "pend = unlines ls" by simp
  then show ?case using Nil.prems by (cases ls) (auto simp: clean_def)
next
  case (Cons k ks)
  let ?r = "take (min k (grep_room pend)) inp"
  show ?case
  proof (cases "inp = []")
    case True
    then show ?thesis using Cons.prems by (cases ls) (auto simp: clean_def)
  next
    case False
    obtain l ls' where ls: "ls = l # ls'" using Cons.prems(3) False by (cases ls) auto
    have "length pend \<le> length l"
    proof (rule ccontr)
      assume "\<not> length pend \<le> length l"
      then have "c_nl \<in> set pend" using Cons.prems(3) ls by (auto elim: long_prefix simp: not_le)
      then show False using Cons.prems(2) by (simp add: clean_def)
    qed
    then have "grep_room pend \<noteq> 0" using Cons.prems(1) ls by (simp add: grep_room_def)
    then have r: "?r \<noteq> []" using False Cons.prems(5) by simp
    have "(pend @ ?r) @ drop (length ?r) inp = unlines ls"
      using Cons.prems(3) by (metis append.assoc append_take_drop_id length_take min.absorb2 take_take append_eq_conv_conj)
    then obtain ls1 ls2 q where d: "ls = ls1 @ ls2" "pend @ ?r = unlines ls1 @ q" "clean q" "q @ drop (length ?r) inp = unlines ls2"
      using unlines_prefix [of ls "pend @ ?r" "drop (length ?r) inp"] Cons.prems(1) by blast
    have "length (drop (length ?r) inp) \<le> length ks" using r Cons.prems(4) by (cases ?r) auto
    then have "grep pat q ks (drop (length ?r) inp) = unlines (filter (match pat) ls2)"
      using Cons.IH [OF _ d(3,4)] Cons.prems(1,5) d(1) by simp
    moreover have "grep_lines pat (pend @ ?r) = (unlines (filter (match pat) ls1), q)"
      unfolding d(2) using grep_lines_unlines Cons.prems(1) d(1,3) by simp
    ultimately show ?thesis using r by (simp only: grep.simps Let_def if_False prod.case d(1) filter_append unlines_simps)
  qed
qed

text \<open>C30: However the input is cut into pieces by \<^verbatim>\<open>read\<close>, \<^verbatim>\<open>grep\<close> prints exactly the lines that match the
  pattern, in their order, if no line fills the buffer and the text has no null bytes.\<close>

theorem grep_prints_matching_lines:
  assumes "\<forall>l\<in>set ls. clean l \<and> length l < 1023" and "length (unlines ls) \<le> length ks" and "\<forall>k\<in>set ks. 0 < k"
  shows "grep pat [] ks (unlines ls) = unlines (filter (match pat) ls)"
  using grep_from [OF assms(1) _ _ assms(2,3), of "[]"] by (simp add: clean_def)

theorem grep_prints_matching_lines_witness:
  "grep [97] [] [2, 2, 1, 1, 1, 1] (unlines [[97], [98], [97]]) = unlines [[97], [97]]"
proof -
  have "match [97] [97]" "\<not> match [97] [98]" by (simp_all add: match_def matchhere.simps)
  moreover have "\<forall>l\<in>set [[97], [98], [97 :: u8]]. clean l \<and> length l < 1023"
    by (simp add: clean_def)
  ultimately show ?thesis
    using grep_prints_matching_lines [of "[[97], [98], [97]]" "[2, 2, 1, 1, 1, 1]" "[97]"] by simp
qed

end
