(* ===== verification/Ulib.thy ===== *)
theory Ulib
  imports Cstring
begin

text \<open>
  The user library, \<^verbatim>\<open>user/ulib.c\<close>.  A string argument is the array it points into; a copy works on the
  destination array.  \<^verbatim>\<open>gets\<close> takes what successive calls of \<^verbatim>\<open>read(0, &c, 1)\<close> deliver: a byte, or
  nothing at the end of the input and on errors.
\<close>

partial_function (option) strcpy_from :: "buf \<Rightarrow> buf \<Rightarrow> nat \<Rightarrow> buf option" where
  "strcpy_from s t i =
     (if t i \<noteq> 0 then strcpy_from (s(i := t i)) t (Suc i) else Some (s(i := t i)))"

definition strcpy :: "buf \<Rightarrow> buf \<Rightarrow> buf option" where
  "strcpy s t = strcpy_from s t 0"

partial_function (option) strcmp_from :: "buf \<Rightarrow> buf \<Rightarrow> nat \<Rightarrow> int option" where
  "strcmp_from p q i =
     (if p i \<noteq> 0 \<and> p i = q i then strcmp_from p q (Suc i) else Some (int (unat (p i)) - int (unat (q i))))"

definition strcmp :: "buf \<Rightarrow> buf \<Rightarrow> int option" where
  "strcmp p q = strcmp_from p q 0"

text \<open>The index of the first occurrence of a character before the null byte.\<close>

partial_function (option) strchr_from :: "buf \<Rightarrow> u8 \<Rightarrow> nat \<Rightarrow> nat option option" where
  "strchr_from s c i =
     (if s i = 0 then Some None else if s i = c then Some (Some i) else strchr_from s c (Suc i))"

definition strchr :: "buf \<Rightarrow> u8 \<Rightarrow> nat option option" where
  "strchr s c = strchr_from s c 0"

fun gets_loop :: "nat \<Rightarrow> nat \<Rightarrow> u8 option list \<Rightarrow> buf \<Rightarrow> nat \<times> buf" where
  "gets_loop mx i [] b = (i, b)"
| "gets_loop mx i (r # rs) b =
     (if i + 1 < mx then
        (case r of None \<Rightarrow> (i, b)
         | Some c \<Rightarrow> (let b = b(i := c); i = Suc i in
             if c = 10 \<or> c = 13 then (i, b) else gets_loop mx i rs b))
      else (i, b))"

definition gets :: "nat \<Rightarrow> u8 option list \<Rightarrow> buf \<Rightarrow> buf" where
  "gets mx rs b = (let (i, b) = gets_loop mx 0 rs b in b(i := 0))"

text \<open>\<^verbatim>\<open>n*10 + *s++ - '0'\<close> in the 32 bits of an \<^verbatim>\<open>int\<close>.\<close>

partial_function (option) atoi_from :: "buf \<Rightarrow> nat \<Rightarrow> u32 \<Rightarrow> u32 option" where
  "atoi_from s i n =
     (if 48 \<le> s i \<and> s i \<le> 57 then atoi_from s (Suc i) (n * 10 + ucast (s i) - 48) else Some n)"

definition atoi :: "buf \<Rightarrow> int option" where
  "atoi s = map_option sint (atoi_from s 0 0)"

text \<open>The user's \<^verbatim>\<open>memmove\<close> chooses its direction by the addresses alone.\<close>

definition u_memmove :: "u64 \<Rightarrow> u64 \<Rightarrow> nat \<Rightarrow> memory \<Rightarrow> memory" where
  "u_memmove dst src n m =
     (if src > dst then copy_up dst src n m else copy_down (dst + of_nat n) (src + of_nat n) n m)"

subsection \<open>Strings\<close>

lemma strcpy_from_str:
  "is_str t xs \<Longrightarrow> i \<le> length xs \<Longrightarrow>
     strcpy_from s t i = Some (\<lambda>j. if i \<le> j \<and> j \<le> length xs then t j else s j)"
proof (induction "length xs - i" arbitrary: i s)
  case 0
  then have "i = length xs" "t i = 0" by (auto simp: is_str_def)
  then show ?case by (subst strcpy_from.simps) (auto simp: fun_eq_iff)
next
  case (Suc n)
  then have "t i \<noteq> 0" "i < length xs" by (auto simp: is_str_def)
  then show ?case using Suc.hyps(1) [of "Suc i" "s(i := t i)"] Suc.hyps(2) Suc.prems
    by (subst strcpy_from.simps) (auto simp: fun_eq_iff le_Suc_eq not_less_eq_eq)
qed

lemma strcmp_from_str:
  assumes "is_str p xs" and "is_str q ys" and "i \<le> length xs" and "i \<le> length ys" and "take i xs = take i ys"
  shows "\<exists>r. strcmp_from p q i = Some r \<and> (r = 0 \<longleftrightarrow> xs = ys)"
  using assms
proof (induction "length xs - i" arbitrary: i)
  case 0
  then have i: "i = length xs" "p i = 0" by (auto simp: is_str_def)
  have "q i = 0 \<longleftrightarrow> xs = ys"
  proof
    assume "q i = 0"
    moreover have "\<forall>j<length ys. q j \<noteq> 0" using 0(3) by (auto simp: is_str_def)
    ultimately have "\<not> i < length ys" by blast
    then show "xs = ys" using 0 i by auto
  qed (use 0 i in \<open>auto simp: is_str_def\<close>)
  then show ?case using i by (subst strcmp_from.simps) (auto simp: unsigned_eq_0_iff)
next
  case (Suc n)
  then have p: "p i = xs ! i" "p i \<noteq> 0" "i < length xs" by (auto simp: is_str_def)
  show ?case
  proof (cases "p i = q i")
    case True
    then have iy: "i < length ys" "ys ! i = xs ! i" using p Suc.prems by (auto simp: is_str_def order_less_le)
    then have "take (Suc i) xs = take (Suc i) ys" using p Suc.prems by (simp add: take_Suc_conv_app_nth)
    then show ?thesis using Suc.hyps(1) [of "Suc i"] Suc.hyps(2) Suc.prems p True iy by (subst strcmp_from.simps) auto
  next
    case False
    then have "xs \<noteq> ys" using p Suc.prems by (auto simp: is_str_def)
    moreover have "uint (p i) \<noteq> uint (q i)" using False by (metis unsigned_word_eqI)
    ultimately show ?thesis using False by (subst strcmp_from.simps) auto
  qed
qed

end
