(* ===== verification/Sh.thy ===== *)
theory Sh
  imports Ulib
begin

text \<open>
  The shell, \<^verbatim>\<open>user/sh.c\<close>: the scanner and the recursive-descent parser.

  A pointer into the command line is what is left of the line from there on, so \<^verbatim>\<open>s < es\<close> says that it
  is not empty, and \<^verbatim>\<open>*s\<close> at its end is the null byte.  A word is the pair of pointers \<^verbatim>\<open>q\<close>, \<^verbatim>\<open>eq\<close>.  The parser works on the tree
  of \<^verbatim>\<open>struct cmd\<close>; \<^verbatim>\<open>panic\<close> ends the process.  The fuel of the four mutually recursive functions bounds the
  depth of their calls.
\<close>

subsection \<open>Scanning\<close>

type_synonym ptr = bytes
type_synonym word_ptr = "ptr \<times> ptr"

abbreviation c_lt :: u8 where "c_lt \<equiv> 60"
abbreviation c_gt :: u8 where "c_gt \<equiv> 62"
abbreviation c_bar :: u8 where "c_bar \<equiv> 124"
abbreviation c_amp :: u8 where "c_amp \<equiv> 38"
abbreviation c_semi :: u8 where "c_semi \<equiv> 59"
abbreviation c_open :: u8 where "c_open \<equiv> 40"
abbreviation c_close :: u8 where "c_close \<equiv> 41"
abbreviation c_plus :: u8 where "c_plus \<equiv> 43"
abbreviation c_a :: u8 where "c_a \<equiv> 97"
abbreviation c_space :: u8 where "c_space \<equiv> 32"

definition whitespace :: bytes where
  "whitespace = [c_space, 9, 13, 10, 11]"

definition symbols :: bytes where
  "symbols = [c_lt, c_bar, c_gt, c_amp, c_semi, c_open, c_close]"

definition deref :: "ptr \<Rightarrow> u8" where
  "deref s = (case s of [] \<Rightarrow> 0 | c # _ \<Rightarrow> c)"

definition skip_ws :: "ptr \<Rightarrow> ptr" where
  "skip_ws s = dropWhile (\<lambda>c. c \<in> set whitespace) s"

definition skip_word :: "ptr \<Rightarrow> ptr" where
  "skip_word s = dropWhile (\<lambda>c. c \<notin> set whitespace \<and> c \<notin> set symbols) s"

text \<open>The result is \<^verbatim>\<open>ret\<close>, \<^verbatim>\<open>*q\<close>, \<^verbatim>\<open>*eq\<close> and \<^verbatim>\<open>*ps\<close>.\<close>

definition gettoken :: "ptr \<Rightarrow> u8 \<times> ptr \<times> ptr \<times> ptr" where
  "gettoken s =
     (let s = skip_ws s;
          q = s;
          c = deref s;
          (ret, s) =
            (if c = 0 then (c, s)
             else if c \<in> {c_bar, c_open, c_close, c_semi, c_amp, c_lt} then (c, tl s)
             else if c = c_gt then (if deref (tl s) = c_gt then (c_plus, tl (tl s)) else (c, tl s))
             else (c_a, skip_word s)) in
      (ret, q, s, skip_ws s))"

definition peek :: "ptr \<Rightarrow> bytes \<Rightarrow> bool \<times> ptr" where
  "peek s toks = (let s = skip_ws s in (deref s \<noteq> 0 \<and> deref s \<in> set toks, s))"

lemma skip_ws_length: "length (skip_ws s) \<le> length s"
  by (simp add: skip_ws_def length_dropWhile_le)

lemma skip_word_length: "length (skip_word s) \<le> length s"
  by (simp add: skip_word_def length_dropWhile_le)

lemma gettoken_length: "gettoken s = (r, q, e, t) \<Longrightarrow> length t \<le> length s \<and> (r \<noteq> 0 \<longrightarrow> length t < length s)"
proof -
  assume *: "gettoken s = (r, q, e, t)"
  have "length (skip_ws (tl u)) < length u" "length (skip_ws (tl (tl u))) < length u" if "u \<noteq> []" for u
    using skip_ws_length [of "tl u"] skip_ws_length [of "tl (tl u)"] that by (cases u; simp)+
  moreover have "length (skip_ws (skip_word (skip_ws s))) < length (skip_ws s)"
    if "deref (skip_ws s) \<noteq> 0" "deref (skip_ws s) \<notin> set symbols"
  proof -
    from that(1) obtain c u where u: "skip_ws s = c # u" by (cases "skip_ws s") (auto simp: deref_def)
    then have "c \<notin> set whitespace" by (metis (mono_tags, lifting) skip_ws_def hd_dropWhile list.sel(1) list.simps(3))
    then show ?thesis
      using that u skip_ws_length [of "skip_word u"] skip_word_length [of u] by (simp add: deref_def skip_word_def)
  qed
  moreover have "skip_ws s \<noteq> []" if "deref (skip_ws s) \<noteq> 0" using that by (auto simp: deref_def)
  moreover have "set symbols = {c_bar, c_open, c_close, c_semi, c_amp, c_lt} \<union> {c_gt}" by (auto simp: symbols_def)
  ultimately have "r \<noteq> 0 \<longrightarrow> length t < length (skip_ws s)"
    using * by (auto simp: gettoken_def Let_def split: if_splits)
  moreover have "r = 0 \<longrightarrow> t = skip_ws (skip_ws s)" using * by (auto simp: gettoken_def Let_def split: if_splits)
  ultimately show ?thesis using skip_ws_length [of s] skip_ws_length [of "skip_ws s"] by (cases "r = 0") auto
qed

lemma peek_length: "peek s toks = (h, t) \<Longrightarrow> length t \<le> length s"
  using skip_ws_length [of s] by (auto simp: peek_def Let_def)

lemma gettoken_peek: "peek s toks = (True, t) \<Longrightarrow> gettoken t = (r, q, e, u) \<Longrightarrow> length u < length t"
proof -
  assume p: "peek s toks = (True, t)" and g: "gettoken t = (r, q, e, u)"
  then have t: "t = skip_ws s" "deref t \<noteq> 0" by (auto simp: peek_def Let_def)
  have "skip_ws t = t" unfolding t(1) skip_ws_def by (simp add: dropWhile_idem)
  then have "r \<noteq> 0" using g t(2) by (auto simp: gettoken_def Let_def split: if_splits)
  then show ?thesis using gettoken_length [OF g] by simp
qed

subsection \<open>Commands\<close>

datatype 'w cmd = EXEC "'w list" | REDIR "'w cmd" 'w nat nat | PIPE "'w cmd" "'w cmd" | LIST "'w cmd" "'w cmd"
  | BACK "'w cmd"

abbreviation MAXARGS :: nat where "MAXARGS \<equiv> 10"
abbreviation O_RDONLY :: nat where "O_RDONLY \<equiv> 0"
abbreviation O_WRONLY_CREATE_TRUNC :: nat where "O_WRONLY_CREATE_TRUNC \<equiv> 0x601"
abbreviation O_WRONLY_CREATE :: nat where "O_WRONLY_CREATE \<equiv> 0x201"

definition msg :: "string \<Rightarrow> bytes" where
  "msg xs = map of_char xs"

datatype 'a parsed = Ok 'a | Panic bytes | Fuel

fun and_then :: "'a parsed \<Rightarrow> ('a \<Rightarrow> 'b parsed) \<Rightarrow> 'b parsed" where
  "and_then (Ok x) f = f x"
| "and_then (Panic m) f = Panic m"
| "and_then Fuel f = Fuel"

lemma and_then_cong [fundef_cong]: "m = m' \<Longrightarrow> (\<And>x. m' = Ok x \<Longrightarrow> f x = f' x) \<Longrightarrow> and_then m f = and_then m' f'"
  by (cases m') auto

lemma and_then_Ok: "and_then m f = Ok y \<longleftrightarrow> (\<exists>x. m = Ok x \<and> f x = Ok y)"
  by (cases m) auto

lemma and_then_Fuel: "and_then m f = Fuel \<longleftrightarrow> m = Fuel \<or> (\<exists>x. m = Ok x \<and> f x = Fuel)"
  by (cases m) auto

type_synonym redir = "word_ptr \<times> nat \<times> nat"

text \<open>The redirections \<^verbatim>\<open>parseredirs\<close> puts around a command, the first one innermost.\<close>

definition redircmd :: "'w cmd \<Rightarrow> 'w \<times> nat \<times> nat \<Rightarrow> 'w cmd" where
  "redircmd c r = (case r of (w, mode, fd) \<Rightarrow> REDIR c w mode fd)"

definition wrap :: "'w cmd \<Rightarrow> ('w \<times> nat \<times> nat) list \<Rightarrow> 'w cmd" where
  "wrap c rs = foldl redircmd c rs"

definition redir_of :: "u8 \<Rightarrow> 'w \<Rightarrow> 'w \<times> nat \<times> nat" where
  "redir_of tok w =
     (if tok = c_lt then (w, O_RDONLY, 0)
      else if tok = c_gt then (w, O_WRONLY_CREATE_TRUNC, 1)
      else (w, O_WRONLY_CREATE, 1))"

function parseredirs :: "ptr \<Rightarrow> (redir list \<times> ptr) parsed" where
  "parseredirs s =
     (case peek s [c_lt, c_gt] of (hit, s) \<Rightarrow>
      if \<not> hit then Ok ([], s)
      else case gettoken s of (tok, _, _, s) \<Rightarrow>
        case gettoken s of (a, q, eq, s) \<Rightarrow>
          if a \<noteq> c_a then Panic (msg ''missing file for redirection'')
          else and_then (parseredirs s) (\<lambda>(rs, s). Ok (redir_of tok (q, eq) # rs, s)))"
  by pat_completeness auto
termination
proof (relation "measure length", simp, goal_cases)
  case (1 s hit s1 tok t1 q1 t2 e1 s2 a t3 q t4 e s3)
  then have g: "peek s [c_lt, c_gt] = (True, s1)" "gettoken s1 = (tok, q1, e1, s2)" "gettoken s2 = (a, q, e, s3)" by auto
  then show ?case
    using gettoken_length [OF g(3)] gettoken_peek [OF g(1,2)] peek_length [OF g(1)] by simp
qed

declare parseredirs.simps [simp del]

lemma parseredirs_length: "parseredirs s = Ok (rs, t) \<Longrightarrow> length t \<le> length s"
proof (induction s arbitrary: rs t rule: measure_induct_rule [of length])
  case (less s)
  obtain hit s1 where p: "peek s [c_lt, c_gt] = (hit, s1)" by force
  obtain tok q1 e1 s2 where g: "gettoken s1 = (tok, q1, e1, s2)" by (cases "gettoken s1")
  obtain a q e s3 where h: "gettoken s2 = (a, q, e, s3)" by (cases "gettoken s2")
  have l: "length s1 \<le> length s" "length s2 \<le> length s1" "length s3 \<le> length s2"
    using peek_length [OF p] gettoken_length [OF g] gettoken_length [OF h] by auto
  show ?case
  proof (cases "hit \<and> a = c_a")
    case True
    then obtain rs' where "parseredirs s3 = Ok (rs', t)"
      using less(2) p g h by (subst (asm) parseredirs.simps) (auto simp: and_then_Ok)
    moreover have "length s2 < length s1" using gettoken_peek [OF _ g, of s] p True by simp
    ultimately show ?thesis using less(1) [of s3] l by fastforce
  next
    case False
    then show ?thesis using less(2) p g h l by (subst (asm) parseredirs.simps) (auto split: if_splits)
  qed
qed

text \<open>The loop of \<^verbatim>\<open>parseexec\<close>.  \<^verbatim>\<open>cmd\<close> stays inside the redirections put around it, so the arguments and the
  redirections are collected side by side.\<close>

function parseargs :: "word_ptr list \<Rightarrow> redir list \<Rightarrow> ptr \<Rightarrow> (word_ptr list \<times> redir list \<times> ptr) parsed" where
  "parseargs args rs s =
     (case peek s [c_bar, c_close, c_amp, c_semi] of (hit, s) \<Rightarrow>
      if hit then Ok (args, rs, s)
      else case gettoken s of (tok, q, eq, s) \<Rightarrow>
        if tok = 0 then Ok (args, rs, s)
        else if tok \<noteq> c_a then Panic (msg ''syntax'')
        else if length (args @ [(q, eq)]) \<ge> MAXARGS then Panic (msg ''too many args'')
        else and_then (parseredirs s) (\<lambda>(rs', s). parseargs (args @ [(q, eq)]) (rs @ rs') s))"
  by pat_completeness auto
termination
proof (relation "measure (\<lambda>(args, rs, s). length s)", simp, goal_cases)
  case (1 args rs s hit s1 tok t1 q t2 eq s2 x rs' s3)
  then have g: "peek s [c_bar, c_close, c_amp, c_semi] = (False, s1)" "gettoken s1 = (tok, q, eq, s2)"
    "parseredirs s2 = Ok (rs', s3)" "tok \<noteq> 0" by auto
  then show ?case
    using gettoken_length [OF g(2)] parseredirs_length [OF g(3)] peek_length [OF g(1)] by simp
qed

declare parseargs.simps [simp del]

lemma parseargs_length: "parseargs args rs s = Ok (as, qs, t) \<Longrightarrow> length t \<le> length s"
proof (induction s arbitrary: args rs rule: measure_induct_rule [of length])
  case (less s)
  obtain hit s1 where p: "peek s [c_bar, c_close, c_amp, c_semi] = (hit, s1)" by force
  obtain tok q e s2 where g: "gettoken s1 = (tok, q, e, s2)" by (cases "gettoken s1")
  have l: "length s1 \<le> length s" "length s2 \<le> length s1" "tok \<noteq> 0 \<longrightarrow> length s2 < length s1"
    using peek_length [OF p] gettoken_length [OF g] by auto
  show ?case
  proof (cases "hit \<or> tok = 0")
    case True
    then show ?thesis using less(2) p g l by (subst (asm) parseargs.simps) (auto split: if_splits)
  next
    case False
    then obtain rs' s3 where r: "parseredirs s2 = Ok (rs', s3)" "parseargs (args @ [(q, e)]) (rs @ rs') s3 = Ok (as, qs, t)"
      using less(2) p g by (subst (asm) parseargs.simps) (auto simp: and_then_Ok split: if_splits)
    then show ?thesis using less(1) [OF _ r(2)] parseredirs_length [OF r(1)] l False by simp
  qed
qed

text \<open>\<^verbatim>\<open>while(peek(ps, es, "&"))\<close> of \<^verbatim>\<open>parseline\<close>.\<close>

function parsebacks :: "word_ptr cmd \<Rightarrow> ptr \<Rightarrow> word_ptr cmd \<times> ptr" where
  "parsebacks c s =
     (case peek s [c_amp] of (hit, s) \<Rightarrow>
      if hit then case gettoken s of (_, _, _, s) \<Rightarrow> parsebacks (BACK c) s
      else (c, s))"
  by pat_completeness auto
termination
proof (relation "measure (\<lambda>(c, s). length s)", simp, goal_cases)
  case (1 c s hit s1 a t1 b t2 d s2)
  then have g: "peek s [c_amp] = (True, s1)" "gettoken s1 = (a, b, d, s2)" by auto
  then show ?case using gettoken_peek [OF g] peek_length [OF g(1)] by simp
qed

declare parsebacks.simps [simp del]

lemma parsebacks_length: "length (snd (parsebacks c s)) \<le> length s"
proof (induction s arbitrary: c rule: measure_induct_rule [of length])
  case (less s)
  obtain hit s1 where p: "peek s [c_amp] = (hit, s1)" by force
  obtain tok q e s2 where g: "gettoken s1 = (tok, q, e, s2)" by (cases "gettoken s1")
  show ?case
  proof (cases hit)
    case True
    then have "length s2 < length s1" "length s1 \<le> length s" using gettoken_peek [OF _ g, of s] p peek_length [OF p] by auto
    then show ?thesis using less [of s2 "BACK c"] p g True by (subst parsebacks.simps) simp
  next
    case False
    then show ?thesis using p peek_length [OF p] by (subst parsebacks.simps) simp
  qed
qed

fun parseline :: "nat \<Rightarrow> ptr \<Rightarrow> (word_ptr cmd \<times> ptr) parsed"
  and parsepipe :: "nat \<Rightarrow> ptr \<Rightarrow> (word_ptr cmd \<times> ptr) parsed"
  and parseexec :: "nat \<Rightarrow> ptr \<Rightarrow> (word_ptr cmd \<times> ptr) parsed"
  and parseblock :: "nat \<Rightarrow> ptr \<Rightarrow> (word_ptr cmd \<times> ptr) parsed" where
  "parseline 0 s = Fuel"
| "parseline (Suc n) s =
     and_then (parsepipe n s) (\<lambda>(c, s).
       case parsebacks c s of (c, s) \<Rightarrow>
       case peek s [c_semi] of (hit, s) \<Rightarrow>
       if hit then case gettoken s of (_, _, _, s) \<Rightarrow> and_then (parseline n s) (\<lambda>(r, s). Ok (LIST c r, s))
       else Ok (c, s))"
| "parsepipe 0 s = Fuel"
| "parsepipe (Suc n) s =
     and_then (parseexec n s) (\<lambda>(c, s).
       case peek s [c_bar] of (hit, s) \<Rightarrow>
       if hit then case gettoken s of (_, _, _, s) \<Rightarrow> and_then (parsepipe n s) (\<lambda>(r, s). Ok (PIPE c r, s))
       else Ok (c, s))"
| "parseexec 0 s = Fuel"
| "parseexec (Suc n) s =
     (case peek s [c_open] of (hit, s) \<Rightarrow>
      if hit then parseblock n s
      else and_then (parseredirs s) (\<lambda>(rs, s).
        and_then (parseargs [] rs s) (\<lambda>(args, rs, s). Ok (wrap (EXEC args) rs, s))))"
| "parseblock 0 s = Fuel"
| "parseblock (Suc n) s =
     (case peek s [c_open] of (hit, s) \<Rightarrow>
      if \<not> hit then Panic (msg ''parseblock'')
      else case gettoken s of (_, _, _, s) \<Rightarrow>
        and_then (parseline n s) (\<lambda>(c, s).
          case peek s [c_close] of (hit, s) \<Rightarrow>
          if \<not> hit then Panic (msg ''syntax - missing )'')
          else case gettoken s of (_, _, _, s) \<Rightarrow>
            and_then (parseredirs s) (\<lambda>(rs, s). Ok (wrap c rs, s))))"

definition parsecmd :: "ptr \<Rightarrow> word_ptr cmd parsed" where
  "parsecmd s =
     and_then (parseline (4 * length s + 4) s) (\<lambda>(c, s).
       case peek s [] of (_, s) \<Rightarrow> if s \<noteq> [] then Panic (msg ''leftovers: '' @ s @ [10] @ msg ''syntax'') else Ok c)"

text \<open>\<^verbatim>\<open>nulterminate\<close> writes null bytes into the line, an array of \<open>len\<close> bytes before its own null byte.\<close>

definition pos :: "nat \<Rightarrow> ptr \<Rightarrow> nat" where
  "pos len p = len - length p"

fun nulterminate :: "nat \<Rightarrow> word_ptr cmd \<Rightarrow> buf \<Rightarrow> buf" where
  "nulterminate len (EXEC ws) b = fold (\<lambda>(q, eq) b. b(pos len eq := 0)) ws b"
| "nulterminate len (REDIR c w mode fd) b = (nulterminate len c b)(pos len (snd w) := 0)"
| "nulterminate len (PIPE l r) b = nulterminate len r (nulterminate len l b)"
| "nulterminate len (LIST l r) b = nulterminate len r (nulterminate len l b)"
| "nulterminate len (BACK c) b = nulterminate len c b"

subsection \<open>Parsing ends\<close>

definition ends :: "nat \<Rightarrow> ('a \<times> ptr) parsed \<Rightarrow> bool" where
  "ends k r \<longleftrightarrow> r \<noteq> Fuel \<and> (\<forall>c t. r = Ok (c, t) \<longrightarrow> length t \<le> k)"

lemma ends_Ok [simp]: "ends k (Ok (c, t)) \<longleftrightarrow> length t \<le> k" and ends_Panic [simp]: "ends k (Panic m)"
  by (auto simp: ends_def)

lemma ends_then: "ends k r \<Longrightarrow> (\<And>c t. r = Ok (c, t) \<Longrightarrow> length t \<le> k \<Longrightarrow> ends l (f (c, t))) \<Longrightarrow> ends l (and_then r f)"
  by (cases r) (auto simp: ends_def)

lemma ends_le: "ends k r \<Longrightarrow> k \<le> l \<Longrightarrow> ends l r"
  by (fastforce simp: ends_def)

lemma parseredirs_ends: "ends (length s) (parseredirs s)"
proof -
  have "parseredirs s \<noteq> Fuel"
  proof (induction s rule: measure_induct_rule [of length])
    case (less s)
    obtain hit s1 where p: "peek s [c_lt, c_gt] = (hit, s1)" by force
    obtain tok q1 e1 s2 where g: "gettoken s1 = (tok, q1, e1, s2)" by (cases "gettoken s1")
    obtain a q e s3 where h: "gettoken s2 = (a, q, e, s3)" by (cases "gettoken s2")
    have "hit \<Longrightarrow> length s3 < length s"
      using gettoken_length [OF h] gettoken_peek [OF _ g, of s] peek_length [OF p] p by fastforce
    then show ?case using less [of s3] p g h by (subst parseredirs.simps) (auto simp: and_then_Fuel)
  qed
  then show ?thesis using parseredirs_length by (auto simp: ends_def)
qed

lemma parseargs_ends: "parseargs args rs s \<noteq> Fuel"
proof (induction s arbitrary: args rs rule: measure_induct_rule [of length])
  case (less s)
  obtain hit s1 where p: "peek s [c_bar, c_close, c_amp, c_semi] = (hit, s1)" by force
  obtain tok q e s2 where g: "gettoken s1 = (tok, q, e, s2)" by (cases "gettoken s1")
  have "parseargs as qs s3 \<noteq> Fuel" if "parseredirs s2 = Ok (rs', s3)" "tok \<noteq> 0" for as qs rs' s3
    using less [of s3] gettoken_length [OF g] peek_length [OF p] parseredirs_length [OF that(1)] that(2) by simp
  then show ?case
    using p g parseredirs_ends [of s2] by (subst parseargs.simps) (auto simp: and_then_Fuel ends_def split: if_splits)
qed

lemma parse_ends:
  "4 * length s + 4 \<le> n \<Longrightarrow> ends (length s) (parseline n s)"
  "4 * length s + 3 \<le> n \<Longrightarrow> ends (length s) (parsepipe n s)"
  "4 * length s + 2 \<le> n \<Longrightarrow> ends (length s) (parseexec n s)"
  "4 * length s + 1 \<le> n \<Longrightarrow> ends (length s) (parseblock n s)"
proof (induction n arbitrary: s)
  case (Suc n)
  {
    case 1
    have "ends (length s) (parsepipe n s)" using Suc(2) 1 by simp
    moreover have "ends (length s) (case parsebacks c t of (c, s) \<Rightarrow> case peek s [c_semi] of (hit, s) \<Rightarrow>
       if hit then case gettoken s of (_, _, _, s) \<Rightarrow> and_then (parseline n s) (\<lambda>(r, s). Ok (LIST c r, s)) else Ok (c, s))"
      if t: "length t \<le> length s" for c t
    proof -
      obtain c' u where b: "parsebacks c t = (c', u)" by force
      obtain hit v where p: "peek u [c_semi] = (hit, v)" by force
      obtain tok q e w where g: "gettoken v = (tok, q, e, w)" by (cases "gettoken v")
      have l: "length u \<le> length s" "length v \<le> length u"
        using parsebacks_length [of c t] b t peek_length [OF p] by auto
      show ?thesis
      proof (cases hit)
        case True
        then have w: "length w < length s" using gettoken_peek [OF _ g, of u "[c_semi]"] p l by simp
        have "ends (length w) (parseline n w)" using Suc(1) [of w] w 1 by simp
        then show ?thesis using b p g True w by (auto intro!: ends_then)
      next
        case False
        then show ?thesis using b p l by simp
      qed
    qed
    ultimately show ?case by (auto intro!: ends_then)
  next
    case 2
    have "ends (length s) (parseexec n s)" using Suc(3) 2 by simp
    moreover have "ends (length s) (case peek t [c_bar] of (hit, s) \<Rightarrow>
       if hit then case gettoken s of (_, _, _, s) \<Rightarrow> and_then (parsepipe n s) (\<lambda>(r, s). Ok (PIPE c r, s)) else Ok (c, s))"
      if t: "length t \<le> length s" for c t
    proof -
      obtain hit v where p: "peek t [c_bar] = (hit, v)" by force
      obtain tok q e w where g: "gettoken v = (tok, q, e, w)" by (cases "gettoken v")
      show ?thesis
      proof (cases hit)
        case True
        then have w: "length w < length s" using gettoken_peek [OF _ g, of t "[c_bar]"] p t peek_length [OF p] by simp
        have "ends (length w) (parsepipe n w)" using Suc(2) [of w] w 2 by simp
        then show ?thesis using p g True w by (auto intro!: ends_then)
      next
        case False
        then show ?thesis using p t peek_length [OF p] by simp
      qed
    qed
    ultimately show ?case by (auto intro!: ends_then)
  next
    case 3
    obtain hit v where p: "peek s [c_open] = (hit, v)" by force
    have v: "length v \<le> length s" using peek_length [OF p] .
    have "ends (length s) (parseblock n v)" using Suc(4) [of v] v 3 by (auto intro: ends_le)
    moreover have "ends (length s) (and_then (parseredirs v) (\<lambda>(rs, s).
        and_then (parseargs [] rs s) (\<lambda>(args, rs, s). Ok (wrap (EXEC args) rs, s))))"
    proof (rule ends_then [OF parseredirs_ends], clarsimp)
      fix rs :: "redir list" and t :: ptr assume "length t \<le> length v"
      then show "ends (length s) (and_then (parseargs [] rs t) (\<lambda>(args, rs, s). Ok (wrap (EXEC args) rs, s)))"
        using parseargs_ends [of "[]" rs t] parseargs_length [of "[]" rs t] v
        by (cases "parseargs [] rs t") auto
    qed
    ultimately show ?case using p by simp
  next
    case 4
    obtain hit v where p: "peek s [c_open] = (hit, v)" by force
    obtain tok q e w where g: "gettoken v = (tok, q, e, w)" by (cases "gettoken v")
    have "ends (length s) (and_then (parseline n w) (\<lambda>(c, s). case peek s [c_close] of (hit, s) \<Rightarrow>
          if \<not> hit then Panic (msg ''syntax - missing )'')
          else case gettoken s of (_, _, _, s) \<Rightarrow> and_then (parseredirs s) (\<lambda>(rs, s). Ok (wrap c rs, s))))" if hit
    proof (rule ends_then)
      have w: "length w < length s" using gettoken_peek [OF _ g, of s "[c_open]"] p peek_length [OF p] that by simp
      then show "ends (length w) (parseline n w)" using Suc(1) [of w] 4 by simp
      fix c :: "word_ptr cmd" and t :: ptr assume "length t \<le> length w"
      obtain h x where px: "peek t [c_close] = (h, x)" by force
      obtain tok' q' e' y where gy: "gettoken x = (tok', q', e', y)" by (cases "gettoken x")
      have "length y \<le> length s" using gettoken_length [OF gy] peek_length [OF px] \<open>length t \<le> length w\<close> w by simp
      then have "ends (length s) (and_then (parseredirs y) (\<lambda>(rs, s). Ok (wrap c rs, s)))"
        by (auto intro!: ends_then [OF parseredirs_ends])
      then show "ends (length s) ((\<lambda>(c, s). case peek s [c_close] of (hit, s) \<Rightarrow> if \<not> hit then Panic (msg ''syntax - missing )'')
          else case gettoken s of (_, _, _, s) \<Rightarrow> and_then (parseredirs s) (\<lambda>(rs, s). Ok (wrap c rs, s))) (c, t))"
        using px gy by simp
    qed
    then show ?case using p g by simp
  }
qed simp_all

lemma parsecmd_not_Fuel: "parsecmd s \<noteq> Fuel"
  using parse_ends(1) [of s "4 * length s + 4"] by (auto simp: parsecmd_def and_then_Fuel ends_def split: prod.splits)

end
