(* ===== verification/Sh_Laws.thy ===== *)
theory Sh_Laws
  imports Sh
begin

text \<open>
  What the parser of the shell does: it is inverse to printing commands, and the words it finds are the strings that
  \<^verbatim>\<open>runcmd\<close> sees once \<^verbatim>\<open>nulterminate\<close> has cut the line.
\<close>

subsection \<open>Printing\<close>

definition word_ok :: "bytes \<Rightarrow> bool" where
  "word_ok w \<longleftrightarrow> w \<noteq> [] \<and> (\<forall>c\<in>set w. c \<notin> set whitespace \<and> c \<notin> set symbols \<and> c \<noteq> 0)"

definition pr_words :: "bytes list \<Rightarrow> bytes" where
  "pr_words ws = concat (map (\<lambda>w. w @ [c_space]) ws)"

definition pr_redir :: "bytes \<times> nat \<times> nat \<Rightarrow> bytes" where
  "pr_redir r = (case r of (w, mode, fd) \<Rightarrow>
     (if mode = O_RDONLY then [c_lt] else if mode = O_WRONLY_CREATE_TRUNC then [c_gt] else [c_gt, c_gt]) @ w @ [c_space])"

definition pr_redirs :: "(bytes \<times> nat \<times> nat) list \<Rightarrow> bytes" where
  "pr_redirs rs = concat (map pr_redir rs)"

definition paren :: "bytes \<Rightarrow> bytes" where
  "paren xs = [c_open, c_space] @ xs @ [c_close, c_space]"

text \<open>The levels are those of the grammar: 0 a line, 1 a command that \<^verbatim>\<open>&\<close> may follow, 2 a pipeline, 3 a simple
  command or a block.\<close>

fun pr :: "nat \<Rightarrow> bytes cmd \<Rightarrow> bytes" where
  "pr l (EXEC ws) = pr_words ws"
| "pr l (REDIR c w mode fd) = pr 3 c @ pr_redir (w, mode, fd)"
| "pr l (PIPE a b) = (if l \<le> 2 then id else paren) (pr 3 a @ [c_bar, c_space] @ pr 2 b)"
| "pr l (LIST a b) = (if l = 0 then id else paren) (pr 1 a @ [c_semi, c_space] @ pr 0 b)"
| "pr l (BACK a) = (if l \<le> 1 then id else paren) (pr 1 a @ [c_amp, c_space])"

definition redir_ok :: "bytes \<times> nat \<times> nat \<Rightarrow> bool" where
  "redir_ok r \<longleftrightarrow> word_ok (fst r) \<and> snd r \<in> {(O_RDONLY, 0), (O_WRONLY_CREATE_TRUNC, 1), (O_WRONLY_CREATE, 1)}"

fun cmd_ok :: "bytes cmd \<Rightarrow> bool" where
  "cmd_ok (EXEC ws) \<longleftrightarrow> (\<forall>w\<in>set ws. word_ok w) \<and> length ws < MAXARGS"
| "cmd_ok (REDIR c w mode fd) \<longleftrightarrow> cmd_ok c \<and> redir_ok (w, mode, fd)"
| "cmd_ok (PIPE a b) \<longleftrightarrow> cmd_ok a \<and> cmd_ok b"
| "cmd_ok (LIST a b) \<longleftrightarrow> cmd_ok a \<and> cmd_ok b"
| "cmd_ok (BACK a) \<longleftrightarrow> cmd_ok a"

definition wtext :: "word_ptr \<Rightarrow> bytes" where
  "wtext w = take (length (fst w) - length (snd w)) (fst w)"

definition rtext :: "redir \<Rightarrow> bytes \<times> nat \<times> nat" where
  "rtext r = (wtext (fst r), snd r)"

subsection \<open>Scanning what was printed\<close>

definition follow :: "bytes \<Rightarrow> ptr \<Rightarrow> bool" where
  "follow toks s \<longleftrightarrow> skip_ws s = [] \<or> hd (skip_ws s) \<in> set toks"

lemma not_ws [simp]: "c_lt \<notin> set whitespace" "c_gt \<notin> set whitespace" "c_bar \<notin> set whitespace" "c_amp \<notin> set whitespace"
  "c_semi \<notin> set whitespace" "c_open \<notin> set whitespace" "c_close \<notin> set whitespace"
  by (simp_all add: whitespace_def)

lemma skip_ws_simps [simp]: "skip_ws [] = []" "skip_ws (c_space # s) = skip_ws s" "c \<notin> set whitespace \<Longrightarrow> skip_ws (c # s) = c # s"
  by (simp_all add: skip_ws_def whitespace_def)

lemma skip_ws_idem [simp]: "skip_ws (skip_ws s) = skip_ws s"
  by (simp add: skip_ws_def)

lemma skip_ws_word: "word_ok w \<Longrightarrow> skip_ws (w @ s) = w @ s"
  by (cases w) (auto simp: word_ok_def)

lemma skip_word_word: "word_ok w \<Longrightarrow> skip_word (w @ c_space # s) = c_space # s"
proof -
  assume "word_ok w"
  then have "\<forall>c\<in>set w. c \<notin> set whitespace \<and> c \<notin> set symbols" by (simp add: word_ok_def)
  then have "skip_word (w @ c_space # s) = skip_word (c_space # s)"
    by (simp add: skip_word_def dropWhile_append2)
  also have "\<dots> = c_space # s" by (simp add: skip_word_def whitespace_def)
  finally show ?thesis .
qed

lemma deref_simps [simp]: "deref [] = 0" "deref (c # s) = c"
  by (simp_all add: deref_def)

lemma peek_skip [simp]: "peek (skip_ws s) toks = peek s toks"
  by (simp add: peek_def)

lemma peek_cons: "c \<notin> set whitespace \<Longrightarrow> peek (c # s) toks = (c \<noteq> 0 \<and> c \<in> set toks, c # s)"
  by (simp add: peek_def)

lemma peek_word: "word_ok w \<Longrightarrow> set toks \<subseteq> set symbols \<Longrightarrow> peek (w @ s) toks = (False, w @ s)"
  by (cases w) (auto simp: word_ok_def peek_def)

lemma peek_follow: "follow toks s \<Longrightarrow> set toks \<inter> set toks' = {} \<Longrightarrow> peek s toks' = (False, skip_ws s)"
  by (cases "skip_ws s") (auto simp: follow_def peek_def)

lemma peek_stop: "follow toks s \<Longrightarrow> 0 \<notin> set toks \<Longrightarrow>
    peek s toks = (skip_ws s \<noteq> [], skip_ws s)"
  by (cases "skip_ws s") (auto simp: follow_def peek_def)

lemma gettoken_word: "word_ok w \<Longrightarrow> gettoken (w @ c_space # s) = (c_a, w @ c_space # s, c_space # s, skip_ws s)"
proof -
  assume w: "word_ok w"
  then obtain c u where u: "w = c # u" "c \<notin> set symbols" "c \<noteq> 0" by (cases w) (auto simp: word_ok_def)
  then have "deref (w @ c_space # s) = c" "c \<notin> {c_bar, c_open, c_close, c_semi, c_amp, c_lt}" "c \<noteq> c_gt"
    by (auto simp: symbols_def)
  then show ?thesis
    using u(3) skip_ws_word [OF w, of "c_space # s"] skip_word_word [OF w, of s] by (simp add: gettoken_def Let_def)
qed

lemma gettoken_symbol: "c \<in> {c_bar, c_open, c_close, c_semi, c_amp, c_lt} \<Longrightarrow> gettoken (c # s) = (c, c # s, s, skip_ws s)"
proof -
  assume c: "c \<in> {c_bar, c_open, c_close, c_semi, c_amp, c_lt}"
  then have "c \<notin> set whitespace" "c \<noteq> 0" by (auto simp: whitespace_def)
  with c show ?thesis by (simp add: gettoken_def Let_def del: insert_iff)
qed

lemma gettoken_gt: "gettoken (c_gt # s) = (if deref s = c_gt then (c_plus, c_gt # s, tl s, skip_ws (tl s))
    else (c_gt, c_gt # s, s, skip_ws s))"
  by (simp add: gettoken_def Let_def)

lemma gettoken_end: "skip_ws s = [] \<Longrightarrow> gettoken s = (0, [], [], [])"
  by (simp add: gettoken_def Let_def)

lemma wtext_word [simp]: "wtext (w @ s, s) = w"
  by (simp add: wtext_def)

lemma parseredirs_printed:
  assumes "\<forall>r\<in>set rs. redir_ok r" and "peek s [c_lt, c_gt] = (False, skip_ws s)"
  shows "\<exists>rs'. parseredirs (pr_redirs rs @ s) = Ok (rs', skip_ws s) \<and> map rtext rs' = rs"
  using assms(1)
proof (induction rs)
  case Nil
  then show ?case using assms(2) by (subst parseredirs.simps) (simp add: pr_redirs_def)
next
  case (Cons r rs)
  obtain w mode fd where r: "r = (w, mode, fd)" by (cases r)
  have w: "word_ok w" and m: "(mode, fd) \<in> {(O_RDONLY, 0), (O_WRONLY_CREATE_TRUNC, 1), (O_WRONLY_CREATE, 1)}"
    using Cons.prems by (simp_all add: r redir_ok_def)
  from Cons obtain rs' where rs': "parseredirs (pr_redirs rs @ s) = Ok (rs', skip_ws s)" "map rtext rs' = rs"
    by (meson list.set_intros(2))
  let ?t = "pr_redirs rs @ s"
  have sk: "parseredirs (skip_ws ?t) = parseredirs ?t"
    by (subst (1 2) parseredirs.simps) simp
  have ne: "deref (w @ u) \<noteq> c_gt" for u using w by (cases w) (auto simp: word_ok_def symbols_def)
  have g: "gettoken (w @ c_space # ?t) = (c_a, w @ c_space # ?t, c_space # ?t, skip_ws ?t)" by (rule gettoken_word [OF w])
  have sw: "skip_ws (w @ c_space # ?t) = w @ c_space # ?t" by (rule skip_ws_word [OF w])
  have "wtext (w @ c_space # ?t, c_space # ?t) = w" by (rule wtext_word)
  then show ?case
    using m rs' sk ne g sw
    by (subst parseredirs.simps)
      (auto simp: r pr_redirs_def pr_redir_def peek_cons gettoken_symbol gettoken_gt redir_of_def rtext_def)
qed

lemma parseredirs_skip [simp]: "parseredirs (skip_ws s) = parseredirs s"
  by (subst (1 2) parseredirs.simps) simp

lemma parseargs_skip [simp]: "parseargs as qs (skip_ws s) = parseargs as qs s"
  by (subst (1 2) parseargs.simps) simp

lemma parseargs_end:
  assumes "follow [c_bar, c_close, c_amp, c_semi] s"
  shows "parseargs as qs s = Ok (as, qs, skip_ws s)"
proof -
  have p: "peek s [c_bar, c_close, c_amp, c_semi] = (skip_ws s \<noteq> [], skip_ws s)" by (rule peek_stop [OF assms]) simp
  show ?thesis
    by (cases "skip_ws s = []") (subst parseargs.simps, simp add: p gettoken_end)+
qed

lemma pr_words_Cons: "pr_words (w # ws) @ s = w @ c_space # (pr_words ws @ s)"
  by (simp add: pr_words_def)

lemma parseargs_printed:
  assumes "ws \<noteq> []" and "\<forall>w\<in>set ws. word_ok w" and "length as + length ws < MAXARGS"
    and rs: "\<forall>r\<in>set rs. redir_ok r" and s: "follow [c_bar, c_close, c_amp, c_semi] s"
  shows "\<exists>as' qs'. parseargs as qs (pr_words ws @ pr_redirs rs @ s) = Ok (as @ as', qs @ qs', skip_ws s) \<and>
    map wtext as' = ws \<and> map rtext qs' = rs"
  using assms(1-3)
proof (induction ws arbitrary: as qs)
  case (Cons w ws)
  let ?t = "pr_words ws @ pr_redirs rs @ s"
  have w: "word_ok w" using Cons.prems(2) by simp
  have p: "peek (w @ c_space # ?t) [c_bar, c_close, c_amp, c_semi] = (False, w @ c_space # ?t)"
    by (rule peek_word [OF w]) (simp add: symbols_def)
  let ?w = "(w @ c_space # ?t, c_space # ?t)"
  have step: "parseargs as qs (pr_words (w # ws) @ pr_redirs rs @ s) =
      and_then (parseredirs ?t) (\<lambda>(rs', s). parseargs (as @ [?w]) (qs @ rs') s)"
    unfolding pr_words_Cons using Cons.prems(3)
    by (subst parseargs.simps) (simp add: p gettoken_word [OF w])
  show ?case
  proof (cases ws)
    case Nil
    have "peek s [c_lt, c_gt] = (False, skip_ws s)" by (rule peek_follow [OF s]) simp
    from parseredirs_printed [OF rs this] obtain qs' where "parseredirs ?t = Ok (qs', skip_ws s)" "map rtext qs' = rs"
      by (auto simp: Nil pr_words_def)
    then show ?thesis
      by (intro exI [of _ "[?w]"] exI [of _ qs']) (use step parseargs_end [OF s] Nil in simp)
  next
    case (Cons v vs)
    then have v: "word_ok v" using Cons.prems(2) by simp
    have "peek ?t [c_lt, c_gt] = (False, ?t)"
      unfolding Cons pr_words_Cons by (rule peek_word [OF v]) (simp add: symbols_def)
    then have r: "parseredirs ?t = Ok ([], ?t)" by (subst parseredirs.simps) simp
    from Cons.IH [of "as @ [?w]" qs] Cons.prems Cons obtain as' qs'
      where "parseargs (as @ [?w]) qs ?t = Ok ((as @ [?w]) @ as', qs @ qs', skip_ws s)" "map wtext as' = ws" "map rtext qs' = rs"
      by auto
    then show ?thesis by (intro exI [of _ "?w # as'"] exI [of _ qs']) (simp add: step r)
  qed
qed simp

subsection \<open>Parsing what was printed\<close>

lemma wrap_append: "wrap c (rs @ qs) = wrap (wrap c rs) qs"
  by (simp add: wrap_def)

lemma map_wrap: "map_cmd wtext (wrap c rs) = wrap (map_cmd wtext c) (map rtext rs)"
  unfolding wrap_def by (induction rs arbitrary: c) (auto simp: redircmd_def rtext_def split: prod.split)

fun unwrap :: "bytes cmd \<Rightarrow> bytes cmd \<times> (bytes \<times> nat \<times> nat) list" where
  "unwrap (REDIR c w mode fd) = (fst (unwrap c), snd (unwrap c) @ [(w, mode, fd)])"
| "unwrap c = (c, [])"

fun cz :: "'w cmd \<Rightarrow> nat" where
  "cz (EXEC ws) = 1"
| "cz (REDIR c w mode fd) = Suc (cz c)"
| "cz (PIPE a b) = Suc (cz a + cz b)"
| "cz (LIST a b) = Suc (cz a + cz b)"
| "cz (BACK a) = Suc (cz a)"

lemma unwrap_wrap: "c = wrap (fst (unwrap c)) (snd (unwrap c))"
  by (induction c rule: unwrap.induct) (auto simp: wrap_append, simp_all add: wrap_def redircmd_def)

lemma unwrap_props:
  assumes "cmd_ok c"
  shows "cmd_ok (fst (unwrap c))" and "\<forall>r\<in>set (snd (unwrap c)). redir_ok r" and "cz (fst (unwrap c)) \<le> cz c"
    and "pr 3 c = pr 3 (fst (unwrap c)) @ pr_redirs (snd (unwrap c))" and "\<forall>d w m f. fst (unwrap c) \<noteq> REDIR d w m f"
  using assms by (induction c rule: unwrap.induct) (auto simp: pr_redirs_def)

lemma parse_skip [simp]: "parseexec n (skip_ws s) = parseexec n s" "parsepipe n (skip_ws s) = parsepipe n s"
  "parseline n (skip_ws s) = parseline n s"
proof -
  show e: "parseexec n (skip_ws s) = parseexec n s" for n by (cases n) simp_all
  show p: "parsepipe n (skip_ws s) = parsepipe n s" for n by (cases n) (simp_all add: e)
  show "parseline n (skip_ws s) = parseline n s" by (cases n) (simp_all add: p)
qed

definition line_tail :: "nat \<Rightarrow> word_ptr cmd \<Rightarrow> ptr \<Rightarrow> (word_ptr cmd \<times> ptr) parsed" where
  "line_tail n c s = (case parsebacks c s of (c, s) \<Rightarrow> case peek s [c_semi] of (hit, s) \<Rightarrow>
     if hit then case gettoken s of (_, _, _, s) \<Rightarrow> and_then (parseline n s) (\<lambda>(r, s). Ok (LIST c r, s)) else Ok (c, s))"

lemma parseline_tail: "parseline (Suc n) s = and_then (parsepipe n s) (\<lambda>(c, s). line_tail n c s)"
  by (simp add: line_tail_def)

lemma parsebacks_skip [simp]: "parsebacks c (skip_ws s) = parsebacks c s"
  by (subst (1 2) parsebacks.simps) simp

lemma line_tail_skip [simp]: "line_tail n c (skip_ws s) = line_tail n c s"
  by (simp add: line_tail_def)

lemma line_tail_amp: "line_tail n c (c_amp # s) = line_tail n (BACK c) s"
proof -
  have "parsebacks c (c_amp # s) = parsebacks (BACK c) s"
    by (subst parsebacks.simps) (simp add: peek_cons gettoken_symbol)
  then show ?thesis by (simp add: line_tail_def)
qed

lemma line_tail_semi: "line_tail n c (c_semi # s) = and_then (parseline n s) (\<lambda>(r, s). Ok (LIST c r, s))"
proof -
  have "parsebacks c (c_semi # s) = (c, c_semi # s)"
    by (subst parsebacks.simps) (simp add: peek_cons)
  then show ?thesis by (simp add: line_tail_def peek_cons gettoken_symbol)
qed

lemma line_tail_end: "follow [c_close] s \<Longrightarrow> line_tail n c s = Ok (c, skip_ws s)"
proof -
  assume s: "follow [c_close] s"
  have p: "peek s [c_amp] = (False, skip_ws s)" "peek s [c_semi] = (False, skip_ws s)"
    by (rule peek_follow [OF s], simp)+
  have "parsebacks c s = (c, skip_ws s)" by (subst parsebacks.simps) (simp add: p)
  then show ?thesis by (simp add: line_tail_def p)
qed

text \<open>What the four functions do with a printed command, given that what follows cannot be taken for a part of it.\<close>

definition exec_ok :: "nat \<Rightarrow> bytes cmd \<Rightarrow> bool" where
  "exec_ok n c \<longleftrightarrow> (\<forall>s. follow [c_bar, c_close, c_amp, c_semi] s \<longrightarrow>
     (\<exists>t. parseexec n (pr 3 c @ s) = Ok (t, skip_ws s) \<and> map_cmd wtext t = c))"

definition pipe_ok :: "nat \<Rightarrow> bytes cmd \<Rightarrow> bool" where
  "pipe_ok n c \<longleftrightarrow> (\<forall>s. follow [c_close, c_amp, c_semi] s \<longrightarrow>
     (\<exists>t. parsepipe n (pr 2 c @ s) = Ok (t, skip_ws s) \<and> map_cmd wtext t = c))"

definition back_ok :: "nat \<Rightarrow> bytes cmd \<Rightarrow> bool" where
  "back_ok n c \<longleftrightarrow> (\<forall>s. follow [c_close, c_amp, c_semi] s \<longrightarrow>
     (\<exists>t. parseline (Suc n) (pr 1 c @ s) = line_tail n t s \<and> map_cmd wtext t = c))"

definition line_ok :: "nat \<Rightarrow> bytes cmd \<Rightarrow> bool" where
  "line_ok n c \<longleftrightarrow> (\<forall>s. follow [c_close] s \<longrightarrow>
     (\<exists>t. parseline n (pr 0 c @ s) = Ok (t, skip_ws s) \<and> map_cmd wtext t = c))"

lemma follow_mono: "follow toks s \<Longrightarrow> set toks \<subseteq> set toks' \<Longrightarrow> follow toks' s"
  by (auto simp: follow_def)

lemma follow_cons: "c \<notin> set whitespace \<Longrightarrow> follow toks (c # s) \<longleftrightarrow> c \<in> set toks"
  by (simp add: follow_def)

lemma exec_simple:
  assumes "cmd_ok (EXEC ws)" and rs: "\<forall>r\<in>set rs. redir_ok r" and s: "follow [c_bar, c_close, c_amp, c_semi] s"
  shows "\<exists>t. parseexec (Suc n) (pr_words ws @ pr_redirs rs @ s) = Ok (t, skip_ws s) \<and> map_cmd wtext t = wrap (EXEC ws) rs"
proof -
  let ?s = "pr_words ws @ pr_redirs rs @ s"
  have s': "peek s [c_lt, c_gt] = (False, skip_ws s)" by (rule peek_follow [OF s]) simp
  from parseredirs_printed [OF rs this] obtain qs where qs: "parseredirs (pr_redirs rs @ s) = Ok (qs, skip_ws s)"
    "map rtext qs = rs" by blast
  have e: "parseexec (Suc n) ?s = and_then (parseredirs ?s) (\<lambda>(rs, s).
        and_then (parseargs [] rs s) (\<lambda>(args, rs, s). Ok (wrap (EXEC args) rs, s)))"
    if "fst (peek ?s [c_open]) = False"
    using that by (auto simp add: peek_def Let_def)
  show ?thesis
  proof (cases ws)
    case Nil
    have "fst (peek ?s [c_open]) = False"
    proof (cases rs)
      case Nil
      then show ?thesis using \<open>ws = []\<close> peek_follow [OF s, of "[c_open]"] by (simp add: pr_words_def pr_redirs_def)
    next
      case (Cons r rs')
      then show ?thesis using \<open>ws = []\<close> by (cases r) (simp add: pr_words_def pr_redirs_def pr_redir_def peek_cons)
    qed
    then show ?thesis using e qs Nil parseargs_end [OF s] map_wrap [of "EXEC []" qs]
      by (intro exI [of _ "wrap (EXEC []) qs"]) (simp add: pr_words_def)
  next
    case (Cons w ws')
    then have w: "word_ok w" "\<forall>w\<in>set ws. word_ok w" "length ws < MAXARGS" "ws \<noteq> []" using assms(1) by auto
    have p: "peek ?s toks = (False, ?s)" if "set toks \<subseteq> set symbols" for toks
      unfolding Cons pr_words_Cons by (rule peek_word [OF w(1) that])
    have "parseredirs ?s = Ok ([], ?s)" using p [of "[c_lt, c_gt]"] by (subst parseredirs.simps) (simp add: symbols_def)
    moreover have "fst (peek ?s [c_open]) = False" using p [of "[c_open]"] by (simp add: symbols_def)
    moreover obtain as qs' where "parseargs [] [] ?s = Ok (as, qs', skip_ws s)" "map wtext as = ws" "map rtext qs' = rs"
      using parseargs_printed [OF w(4,2) _ rs s, of "[]" "[]"] w(3) by auto
    ultimately show ?thesis using e map_wrap [of "EXEC as" qs'] by (intro exI [of _ "wrap (EXEC as) qs'"]) simp
  qed
qed

lemma exec_block:
  assumes "line_ok n c" and rs: "\<forall>r\<in>set rs. redir_ok r" and s: "follow [c_bar, c_close, c_amp, c_semi] s"
  shows "\<exists>t. parseexec (Suc (Suc n)) (paren (pr 0 c) @ pr_redirs rs @ s) = Ok (t, skip_ws s) \<and> map_cmd wtext t = wrap c rs"
proof -
  let ?r = "c_close # c_space # pr_redirs rs @ s"
  have s': "peek s [c_lt, c_gt] = (False, skip_ws s)" by (rule peek_follow [OF s]) simp
  from parseredirs_printed [OF rs this] obtain qs where qs: "parseredirs (pr_redirs rs @ s) = Ok (qs, skip_ws s)"
    "map rtext qs = rs" by blast
  have "follow [c_close] ?r" by (simp add: follow_cons)
  then obtain t where t: "parseline n (pr 0 c @ ?r) = Ok (t, ?r)" "map_cmd wtext t = c"
    using assms(1) unfolding line_ok_def by fastforce
  have "parseexec (Suc (Suc n)) (paren (pr 0 c) @ pr_redirs rs @ s) = Ok (wrap t qs, skip_ws s)"
    using t(1) qs(1) by (simp add: paren_def peek_cons gettoken_symbol)
  then show ?thesis using map_wrap [of t qs] t(2) qs(2) by auto
qed

lemma exec_unwrap:
  assumes "cmd_ok c" and "\<And>b. b = fst (unwrap c) \<Longrightarrow> (\<And>ws. b \<noteq> EXEC ws) \<Longrightarrow> line_ok n b"
  shows "exec_ok (Suc (Suc n)) c"
  unfolding exec_ok_def
proof (intro allI impI)
  fix s assume s: "follow [c_bar, c_close, c_amp, c_semi] s"
  obtain b rs where u: "unwrap c = (b, rs)" by force
  note p = unwrap_props [OF assms(1), unfolded u fst_conv snd_conv]
  have c: "c = wrap b rs" using unwrap_wrap [of c] u by simp
  show "\<exists>t. parseexec (Suc (Suc n)) (pr 3 c @ s) = Ok (t, skip_ws s) \<and> map_cmd wtext t = c"
  proof (cases "\<exists>ws. b = EXEC ws")
    case True
    then obtain ws where b: "b = EXEC ws" by blast
    from exec_simple [OF p(1) [unfolded b] p(2) s] show ?thesis unfolding p(4) b using c b by simp
  next
    case False
    then have l: "line_ok n b" using assms(2) u by auto
    have "pr 3 b = paren (pr 0 b)" using False p(5) by (cases b) auto
    then show ?thesis using exec_block [OF l p(2) s] unfolding p(4) using c by simp
  qed
qed

lemma pipe_from_exec: "exec_ok n c \<Longrightarrow> pr 2 c = pr 3 c \<Longrightarrow> pipe_ok (Suc n) c"
  unfolding pipe_ok_def
proof (intro allI impI)
  fix s assume e: "exec_ok n c" "pr 2 c = pr 3 c" and s: "follow [c_close, c_amp, c_semi] s"
  have "follow [c_bar, c_close, c_amp, c_semi] s" by (rule follow_mono [OF s]) auto
  then obtain t where "parseexec n (pr 3 c @ s) = Ok (t, skip_ws s)" "map_cmd wtext t = c"
    using e unfolding exec_ok_def by blast
  moreover have "peek s [c_bar] = (False, skip_ws s)" by (rule peek_follow [OF s]) simp
  ultimately show "\<exists>t. parsepipe (Suc n) (pr 2 c @ s) = Ok (t, skip_ws s) \<and> map_cmd wtext t = c"
    using e by simp
qed

lemma pipe_PIPE: "exec_ok n a \<Longrightarrow> pipe_ok n b \<Longrightarrow> pipe_ok (Suc n) (PIPE a b)"
  unfolding pipe_ok_def [of "Suc n"]
proof (intro allI impI)
  fix s assume ab: "exec_ok n a" "pipe_ok n b" and s: "follow [c_close, c_amp, c_semi] s"
  let ?r = "c_bar # c_space # pr 2 b @ s"
  obtain u where u: "parsepipe n (pr 2 b @ s) = Ok (u, skip_ws s)" "map_cmd wtext u = b"
    using ab(2) s unfolding pipe_ok_def by blast
  have "follow [c_bar, c_close, c_amp, c_semi] ?r" by (simp add: follow_cons)
  then obtain t where "parseexec n (pr 3 a @ ?r) = Ok (t, ?r)" "map_cmd wtext t = a"
    using ab(1) unfolding exec_ok_def by fastforce
  with u show "\<exists>t. parsepipe (Suc n) (pr 2 (PIPE a b) @ s) = Ok (t, skip_ws s) \<and> map_cmd wtext t = PIPE a b"
    by (intro exI [of _ "PIPE t u"]) (simp add: peek_cons gettoken_symbol)
qed

lemma back_from_pipe: "pipe_ok n c \<Longrightarrow> pr 1 c = pr 2 c \<Longrightarrow> back_ok n c"
  unfolding back_ok_def
proof (intro allI impI)
  fix s assume c: "pipe_ok n c" "pr 1 c = pr 2 c" and s: "follow [c_close, c_amp, c_semi] s"
  then obtain t where "parsepipe n (pr 1 c @ s) = Ok (t, skip_ws s)" "map_cmd wtext t = c" unfolding pipe_ok_def by auto
  then show "\<exists>t. parseline (Suc n) (pr 1 c @ s) = line_tail n t s \<and> map_cmd wtext t = c"
    unfolding parseline_tail by (intro exI [of _ t]) simp
qed

lemma back_BACK: "back_ok n a \<Longrightarrow> back_ok n (BACK a)"
  unfolding back_ok_def [of n "BACK a"]
proof (intro allI impI)
  fix s assume a: "back_ok n a" and s: "follow [c_close, c_amp, c_semi] s"
  have "follow [c_close, c_amp, c_semi] (c_amp # c_space # s)" by (simp add: follow_cons)
  then obtain t where t: "parseline (Suc n) (pr 1 a @ c_amp # c_space # s) = line_tail n t (c_amp # c_space # s)" "map_cmd wtext t = a"
    using a unfolding back_ok_def by blast
  have "line_tail n (BACK t) (c_space # s) = line_tail n (BACK t) s"
    using line_tail_skip [of n "BACK t" "c_space # s"] line_tail_skip [of n "BACK t" s] by simp
  then show "\<exists>t. parseline (Suc n) (pr 1 (BACK a) @ s) = line_tail n t s \<and> map_cmd wtext t = BACK a"
    using t by (intro exI [of _ "BACK t"]) (simp add: line_tail_amp del: parseline.simps)
qed

lemma line_from_back: "back_ok n c \<Longrightarrow> pr 0 c = pr 1 c \<Longrightarrow> line_ok (Suc n) c"
  unfolding line_ok_def
proof (intro allI impI)
  fix s assume c: "back_ok n c" "pr 0 c = pr 1 c" and s: "follow [c_close] s"
  have "follow [c_close, c_amp, c_semi] s" by (rule follow_mono [OF s]) auto
  then show "\<exists>t. parseline (Suc n) (pr 0 c @ s) = Ok (t, skip_ws s) \<and> map_cmd wtext t = c"
    using c line_tail_end [OF s] unfolding back_ok_def by metis
qed

lemma line_LIST: "back_ok n a \<Longrightarrow> line_ok n b \<Longrightarrow> line_ok (Suc n) (LIST a b)"
  unfolding line_ok_def [of "Suc n"]
proof (intro allI impI)
  fix s assume ab: "back_ok n a" "line_ok n b" and s: "follow [c_close] s"
  let ?r = "c_semi # c_space # pr 0 b @ s"
  obtain u where u: "parseline n (pr 0 b @ s) = Ok (u, skip_ws s)" "map_cmd wtext u = b"
    using ab(2) s unfolding line_ok_def by blast
  have "follow [c_close, c_amp, c_semi] ?r" by (simp add: follow_cons)
  then obtain t where t: "parseline (Suc n) (pr 1 a @ ?r) = line_tail n t ?r" "map_cmd wtext t = a"
    using ab(1) unfolding back_ok_def by blast
  have "parseline n (c_space # pr 0 b @ s) = parseline n (pr 0 b @ s)"
    using parse_skip(3) [of n "c_space # pr 0 b @ s"] parse_skip(3) [of n "pr 0 b @ s"] by simp
  then show "\<exists>t. parseline (Suc n) (pr 0 (LIST a b) @ s) = Ok (t, skip_ws s) \<and> map_cmd wtext t = LIST a b"
    using t u by (intro exI [of _ "LIST t u"]) (simp add: line_tail_semi del: parseline.simps)
qed

lemma parse_printed:
  "cmd_ok c \<Longrightarrow> 8 * cz c \<le> n \<Longrightarrow> exec_ok n c \<and> pipe_ok n c \<and> back_ok n c \<and> line_ok n c"
proof (induction c arbitrary: n rule: measure_induct_rule [of cz])
  case (less c)
  have pos: "1 \<le> cz d" for d :: "bytes cmd" by (cases d) simp_all
  have n: "n = Suc (Suc (n - 2))" "n = Suc (n - 1)" using less.prems(2) pos [of c] by simp_all
  have line: "line_ok m c" if "8 * cz c \<le> m + 5" "\<And>ws. c \<noteq> EXEC ws" "\<And>d w k f. c \<noteq> REDIR d w k f" for m
  proof -
    define k where "k = m - 2"
    have m: "m = Suc (Suc k)" using that(1) pos [of c] by (simp add: k_def)
    show ?thesis
    proof (cases c)
      case (PIPE a b)
      then have "exec_ok k a" "pipe_ok k b" using less.IH [of a k] less.IH [of b k] less.prems(1) that(1) m by auto
      then have "pipe_ok (Suc k) c" by (simp add: PIPE pipe_PIPE)
      then have "back_ok (Suc k) c" by (rule back_from_pipe) (simp add: PIPE)
      then show ?thesis unfolding m by (rule line_from_back) (simp add: PIPE)
    next
      case (LIST a b)
      then have "back_ok (Suc k) a" "line_ok (Suc k) b" using less.IH [of a "Suc k"] less.IH [of b "Suc k"] less.prems(1) that(1) m by auto
      then show ?thesis unfolding m LIST by (rule line_LIST)
    next
      case (BACK a)
      then have "back_ok (Suc k) a" using less.IH [of a "Suc k"] less.prems(1) that(1) m by auto
      then have "back_ok (Suc k) c" by (simp add: BACK back_BACK)
      then show ?thesis unfolding m by (rule line_from_back) (simp add: BACK)
    qed (use that in auto)
  qed
  have exec: "exec_ok m c" if m: "8 * cz c \<le> m + 3" for m
  proof -
    have "m = Suc (Suc (m - 2))" using m pos [of c] by simp
    moreover have "line_ok (m - 2) b" if b: "b = fst (unwrap c)" "\<And>ws. b \<noteq> EXEC ws" for b
    proof (cases "cz b < cz c")
      case True
      then show ?thesis using less.IH [of b "m - 2"] unwrap_props(1) [OF less.prems(1)] b m by auto
    next
      case False
      then have "b = c" using b by (cases c) (use unwrap_props(3) less.prems(1) in fastforce)+
      then show ?thesis using line [of "m - 2"] m b unwrap_props(5) [OF less.prems(1)] by auto
    qed
    ultimately show ?thesis using exec_unwrap [OF less.prems(1), of "m - 2"] by auto
  qed
  have pipe: "pipe_ok m c" if m: "8 * cz c \<le> m + 2" for m
  proof (cases "\<exists>a b. c = PIPE a b")
    case True
    then obtain a b where c: "c = PIPE a b" by blast
    then have "exec_ok (m - 1) a" "pipe_ok (m - 1) b" using less.IH [of a "m - 1"] less.IH [of b "m - 1"] less.prems(1) m by auto
    moreover have "m = Suc (m - 1)" using m pos [of c] by simp
    ultimately show ?thesis using pipe_PIPE [of "m - 1" a b] c by simp
  next
    case False
    then have "pr 2 c = pr 3 c" by (cases c) auto
    moreover have "m = Suc (m - 1)" "8 * cz c \<le> (m - 1) + 3" using m pos [of c] by simp_all
    ultimately show ?thesis using pipe_from_exec [OF exec [of "m - 1"]] by simp
  qed
  have bk: "back_ok m c" if m: "8 * cz c \<le> m + 2" for m
  proof (cases "\<exists>a. c = BACK a")
    case True
    then show ?thesis using back_BACK less.IH [of _ m] less.prems(1) m by auto
  next
    case False
    then have "pr 1 c = pr 2 c" by (cases c) auto
    then show ?thesis using back_from_pipe [OF pipe [OF m]] by simp
  qed
  have "line_ok n c"
  proof (cases "\<exists>a b. c = LIST a b")
    case True
    then obtain a b where c: "c = LIST a b" by blast
    show ?thesis by (rule line) (use less.prems(2) c in auto)
  next
    case False
    then have "pr 0 c = pr 1 c" by (cases c) auto
    moreover have "8 * cz c \<le> (n - 1) + 2" using less.prems(2) by simp
    ultimately show ?thesis using line_from_back [OF bk [of "n - 1"]] n(2) by simp
  qed
  then show ?case using exec [of n] pipe [of n] bk [of n] less.prems(2) by simp
qed

subsection \<open>More fuel changes nothing\<close>

lemma and_then_mono:
  assumes "and_then m f \<noteq> Fuel" and "m \<noteq> Fuel \<Longrightarrow> m' = m" and "\<And>x. m = Ok x \<Longrightarrow> f x \<noteq> Fuel \<Longrightarrow> f' x = f x"
  shows "and_then m' f' = and_then m f"
  using assms by (cases m) auto

lemma line_tail_mono:
  assumes "\<And>s. parseline n s \<noteq> Fuel \<Longrightarrow> parseline (Suc n) s = parseline n s" and "line_tail n c s \<noteq> Fuel"
  shows "line_tail (Suc n) c s = line_tail n c s"
  using assms unfolding line_tail_def
  by (auto split: prod.splits if_splits simp del: parseline.simps intro!: and_then_mono)

definition pipe_tail :: "nat \<Rightarrow> word_ptr cmd \<Rightarrow> ptr \<Rightarrow> (word_ptr cmd \<times> ptr) parsed" where
  "pipe_tail n c s = (case peek s [c_bar] of (hit, s) \<Rightarrow>
     if hit then case gettoken s of (_, _, _, s) \<Rightarrow> and_then (parsepipe n s) (\<lambda>(r, s). Ok (PIPE c r, s)) else Ok (c, s))"

lemma parsepipe_tail: "parsepipe (Suc n) s = and_then (parseexec n s) (\<lambda>(c, s). pipe_tail n c s)"
  by (simp add: pipe_tail_def)

lemma pipe_tail_mono:
  assumes "\<And>s. parsepipe n s \<noteq> Fuel \<Longrightarrow> parsepipe (Suc n) s = parsepipe n s" and "pipe_tail n c s \<noteq> Fuel"
  shows "pipe_tail (Suc n) c s = pipe_tail n c s"
  using assms unfolding pipe_tail_def
  by (auto split: prod.splits if_splits simp del: parsepipe.simps intro!: and_then_mono)

lemma parse_mono:
  "parseline n s \<noteq> Fuel \<Longrightarrow> parseline (Suc n) s = parseline n s"
  "parsepipe n s \<noteq> Fuel \<Longrightarrow> parsepipe (Suc n) s = parsepipe n s"
  "parseexec n s \<noteq> Fuel \<Longrightarrow> parseexec (Suc n) s = parseexec n s"
  "parseblock n s \<noteq> Fuel \<Longrightarrow> parseblock (Suc n) s = parseblock n s"
proof (induction n arbitrary: s)
  case (Suc n)
  {
    case 1
    then show ?case unfolding parseline_tail
      by (rule and_then_mono) (use Suc(2) line_tail_mono [OF Suc(1)] in \<open>auto simp del: parsepipe.simps\<close>)
  next
    case 2
    then show ?case unfolding parsepipe_tail
      by (rule and_then_mono) (use Suc(3) pipe_tail_mono [OF Suc(2)] in \<open>auto simp del: parseexec.simps\<close>)
  next
    case 3
    then show ?case using Suc(4) unfolding parseexec.simps(2) [of "Suc n"] parseexec.simps(2) [of n]
      by (auto split: prod.splits if_splits simp del: parseblock.simps)
  next
    case 4
    then show ?case using Suc(1) unfolding parseblock.simps(2) [of "Suc n"] parseblock.simps(2) [of n]
      by (auto split: prod.splits if_splits simp del: parseline.simps intro!: and_then_mono)
  }
qed simp_all

lemma parseline_mono: "parseline n s \<noteq> Fuel \<Longrightarrow> n \<le> m \<Longrightarrow> parseline m s = parseline n s"
proof (induction m)
  case (Suc m)
  then show ?case using parse_mono(1) [of m s] by (cases "n = Suc m") auto
qed simp

lemma parsecmd_printed:
  assumes "cmd_ok c"
  shows "\<exists>t. parsecmd (pr 0 c) = Ok t \<and> map_cmd wtext t = c"
proof -
  let ?s = "pr 0 c" let ?n = "4 * length ?s + 4"
  define N where "N = max ?n (8 * cz c)"
  have "follow [c_close] []" by (simp add: follow_def)
  then obtain t where t: "parseline N ?s = Ok (t, [])" "map_cmd wtext t = c"
    using parse_printed [OF assms, of N] unfolding line_ok_def N_def by fastforce
  have "parseline ?n ?s \<noteq> Fuel" using parse_ends(1) [of ?s ?n] by (simp add: ends_def)
  then have "parseline N ?s = parseline ?n ?s" by (rule parseline_mono) (simp add: N_def)
  then have "parseline ?n ?s = Ok (t, [])" using t(1) by simp
  then show ?thesis using t(2) by (simp add: parsecmd_def peek_def Let_def)
qed

subsection \<open>The words\<close>

definition ptr_in :: "bytes \<Rightarrow> ptr \<Rightarrow> bool" where
  "ptr_in line p \<longleftrightarrow> (\<exists>pre. line = pre @ p)"

definition word_in :: "bytes \<Rightarrow> word_ptr \<Rightarrow> bool" where
  "word_in line w \<longleftrightarrow> ptr_in line (fst w) \<and> fst w = wtext w @ snd w \<and> wtext w \<noteq> [] \<and>
     (\<forall>c\<in>set (wtext w). c \<notin> set whitespace \<and> c \<notin> set symbols) \<and>
     (snd w = [] \<or> hd (snd w) \<in> set whitespace \<union> set symbols)"

lemma ptr_in_dropWhile: "ptr_in line s \<Longrightarrow> ptr_in line (dropWhile P s)"
  unfolding ptr_in_def by (metis append_assoc takeWhile_dropWhile_id)

lemma ptr_in_skip: "ptr_in line s \<Longrightarrow> ptr_in line (skip_ws s)" "ptr_in line s \<Longrightarrow> ptr_in line (skip_word s)"
  unfolding skip_ws_def skip_word_def by (simp_all add: ptr_in_dropWhile)

lemma ptr_in_tl: "ptr_in line s \<Longrightarrow> ptr_in line (tl s)"
  unfolding ptr_in_def by (cases s) (auto intro: exI [of _ "_ @ [_]"])

lemma peek_in: "ptr_in line s \<Longrightarrow> peek s toks = (h, t) \<Longrightarrow> ptr_in line t"
  by (auto simp: peek_def Let_def ptr_in_skip)

lemma gettoken_in: "ptr_in line s \<Longrightarrow> gettoken s = (r, q, e, t) \<Longrightarrow> ptr_in line t"
  by (auto simp: gettoken_def Let_def ptr_in_skip ptr_in_tl split: if_splits)

lemma gettoken_word_in:
  assumes "ptr_in line s" and "gettoken s = (c_a, q, e, t)"
  shows "word_in line (q, e)"
proof -
  let ?P = "\<lambda>c. c \<notin> set whitespace \<and> c \<notin> set symbols"
  have q: "q = skip_ws s" and e: "e = dropWhile ?P q"
    and c: "deref q \<noteq> 0" "deref q \<notin> {c_bar, c_open, c_close, c_semi, c_amp, c_lt}" "deref q \<noteq> c_gt"
    using assms(2) by (auto simp: gettoken_def Let_def skip_word_def split: if_splits)
  from c(1) obtain x u where u: "q = x # u" by (cases q) auto
  then have "x \<notin> set whitespace" using q by (metis (mono_tags, lifting) skip_ws_def hd_dropWhile list.sel(1) list.simps(3))
  moreover have "x \<notin> set symbols" using c(2,3) u by (auto simp: symbols_def)
  ultimately have "takeWhile ?P q \<noteq> []" using u by simp
  moreover have w: "wtext (q, e) = takeWhile ?P q"
  proof -
    have "wtext (takeWhile ?P q @ e, e) = takeWhile ?P q" by (rule wtext_word)
    then show ?thesis unfolding e by simp
  qed
  moreover have "\<forall>c\<in>set (takeWhile ?P q). ?P c" using set_takeWhileD [of _ ?P q] by blast
  moreover have "e = [] \<or> hd e \<in> set whitespace \<union> set symbols"
    unfolding e using hd_dropWhile [of ?P q] by blast
  moreover have "q = takeWhile ?P q @ e" unfolding e by simp
  moreover have "ptr_in line q" unfolding q by (rule ptr_in_skip [OF assms(1)])
  ultimately show ?thesis unfolding word_in_def fst_conv snd_conv w by (intro conjI)
qed

lemma set_wrap: "set_cmd (wrap c rs) = set_cmd c \<union> fst ` set rs"
  unfolding wrap_def by (induction rs arbitrary: c) (auto simp: redircmd_def split: prod.split)

definition found :: "bytes \<Rightarrow> ('a \<Rightarrow> word_ptr set) \<Rightarrow> ('a \<times> ptr) parsed \<Rightarrow> bool" where
  "found line f r \<longleftrightarrow> (\<forall>c t. r = Ok (c, t) \<longrightarrow> ptr_in line t \<and> (\<forall>w\<in>f c. word_in line w))"

lemma found_simps [simp]: "found line f (Panic m)" "found line f Fuel"
  "found line f (Ok (c, t)) \<longleftrightarrow> ptr_in line t \<and> (\<forall>w\<in>f c. word_in line w)"
  by (auto simp: found_def)

lemma found_then:
  "found line f r \<Longrightarrow> (\<And>c t. ptr_in line t \<Longrightarrow> \<forall>w\<in>f c. word_in line w \<Longrightarrow> found line g (k (c, t))) \<Longrightarrow> found line g (and_then r k)"
  by (cases r) auto

lemma parseredirs_found: "ptr_in line s \<Longrightarrow> found line (\<lambda>rs. fst ` set rs) (parseredirs s)"
proof (induction s rule: measure_induct_rule [of length])
  case (less s)
  obtain hit s1 where p: "peek s [c_lt, c_gt] = (hit, s1)" by force
  obtain tok q1 e1 s2 where g: "gettoken s1 = (tok, q1, e1, s2)" by (cases "gettoken s1")
  obtain a q e s3 where h: "gettoken s2 = (a, q, e, s3)" by (cases "gettoken s2")
  note i1 = peek_in [OF less.prems p] note i2 = gettoken_in [OF i1 g] note i3 = gettoken_in [OF i2 h]
  show ?case
  proof (cases "hit \<and> a = c_a")
    case True
    have "word_in line (q, e)" using gettoken_word_in [OF i2] h True by blast
    moreover have "length s3 < length s"
      using gettoken_length [OF h] gettoken_peek [OF _ g, of s "[c_lt, c_gt]"] peek_length [OF p] p True by simp
    ultimately show ?thesis
      using less.IH [of s3] i3 p g h True
      by (subst parseredirs.simps) (auto intro!: found_then [where f = "\<lambda>rs. fst ` set rs"] simp: redir_of_def)
  next
    case False
    then show ?thesis using p g h i1 by (subst parseredirs.simps) auto
  qed
qed

lemma parseargs_found:
  "ptr_in line s \<Longrightarrow> \<forall>w\<in>set as \<union> fst ` set qs. word_in line w \<Longrightarrow>
     case parseargs as qs s of Ok (as', qs', t) \<Rightarrow> ptr_in line t \<and> (\<forall>w\<in>set as' \<union> fst ` set qs'. word_in line w) | _ \<Rightarrow> True"
proof (induction s arbitrary: as qs rule: measure_induct_rule [of length])
  case (less s)
  obtain hit s1 where p: "peek s [c_bar, c_close, c_amp, c_semi] = (hit, s1)" by force
  obtain tok q e s2 where g: "gettoken s1 = (tok, q, e, s2)" by (cases "gettoken s1")
  note i1 = peek_in [OF less.prems(1) p] note i2 = gettoken_in [OF i1 g]
  show ?case
  proof (cases "\<not> hit \<and> tok = c_a \<and> length as + 1 < MAXARGS")
    case True
    have w: "word_in line (q, e)" using gettoken_word_in [OF i1] g True by blast
    have step: "parseargs as qs s = and_then (parseredirs s2) (\<lambda>(rs', s). parseargs (as @ [(q, e)]) (qs @ rs') s)"
      using p g True by (subst parseargs.simps) simp
    show ?thesis
    proof (cases "parseredirs s2")
      case (Ok x)
      obtain rs s3 where x: "parseredirs s2 = Ok (rs, s3)" using Ok by (cases x) auto
      have "length s3 < length s"
        using parseredirs_length [OF x] gettoken_length [OF g] peek_length [OF p] True by simp
      moreover have "ptr_in line s3" "\<forall>w\<in>fst ` set rs. word_in line w" using parseredirs_found [OF i2] x by auto
      ultimately show ?thesis
        unfolding step x using less.IH [of s3 "as @ [(q, e)]" "qs @ rs"] less.prems(2) w by auto
    qed (simp_all add: step)
  next
    case False
    then show ?thesis using p g i1 i2 less.prems(2) by (subst parseargs.simps) auto
  qed
qed

lemma parsebacks_found: "ptr_in line s \<Longrightarrow> parsebacks c s = (c', t) \<Longrightarrow> ptr_in line t \<and> set_cmd c' = set_cmd c"
proof (induction s arbitrary: c rule: measure_induct_rule [of length])
  case (less s)
  obtain hit s1 where p: "peek s [c_amp] = (hit, s1)" by force
  obtain tok q e s2 where g: "gettoken s1 = (tok, q, e, s2)" by (cases "gettoken s1")
  note i1 = peek_in [OF less.prems(1) p] note i2 = gettoken_in [OF i1 g]
  show ?case
  proof (cases hit)
    case True
    then have "length s2 < length s" using gettoken_peek [OF _ g, of s "[c_amp]"] p peek_length [OF p] by simp
    moreover have "parsebacks (BACK c) s2 = (c', t)" using less.prems(2) p g True by (subst (asm) parsebacks.simps) simp
    ultimately show ?thesis using less.IH [of s2 "BACK c"] i2 by simp
  next
    case False
    then show ?thesis using less.prems(2) p i1 by (subst (asm) parsebacks.simps) simp
  qed
qed

lemma parse_found:
  "ptr_in line s \<Longrightarrow> found line set_cmd (parseline n s)"
  "ptr_in line s \<Longrightarrow> found line set_cmd (parsepipe n s)"
  "ptr_in line s \<Longrightarrow> found line set_cmd (parseexec n s)"
  "ptr_in line s \<Longrightarrow> found line set_cmd (parseblock n s)"
proof (induction n arbitrary: s)
  case (Suc n)
  {
    case 1
    show ?case unfolding parseline_tail
    proof (rule found_then [OF Suc(2) [OF 1]], simp only: case_prod_conv)
      fix c t assume t: "ptr_in line t" and c: "\<forall>w\<in>set_cmd c. word_in line w"
      obtain c' u where b: "parsebacks c t = (c', u)" by force
      obtain hit v where p: "peek u [c_semi] = (hit, v)" by force
      obtain tok q e w where g: "gettoken v = (tok, q, e, w)" by (cases "gettoken v")
      have u: "ptr_in line u" "set_cmd c' = set_cmd c" using parsebacks_found [OF t b] by auto
      have v: "ptr_in line v" by (rule peek_in [OF u(1) p])
      have w: "found line set_cmd (parseline n w)" by (rule Suc(1) [OF gettoken_in [OF v g]])
      show "found line set_cmd (line_tail n c t)"
        using b p g v u(2) c w by (auto simp: line_tail_def intro!: found_then [where f = set_cmd])
    qed
  next
    case 2
    show ?case unfolding parsepipe_tail
    proof (rule found_then [OF Suc(3) [OF 2]], simp only: case_prod_conv)
      fix c t assume t: "ptr_in line t" and c: "\<forall>w\<in>set_cmd c. word_in line w"
      obtain hit v where p: "peek t [c_bar] = (hit, v)" by force
      obtain tok q e w where g: "gettoken v = (tok, q, e, w)" by (cases "gettoken v")
      have v: "ptr_in line v" by (rule peek_in [OF t p])
      have w: "found line set_cmd (parsepipe n w)" by (rule Suc(2) [OF gettoken_in [OF v g]])
      show "found line set_cmd (pipe_tail n c t)"
        using p g v c w by (auto simp: pipe_tail_def intro!: found_then [where f = set_cmd])
    qed
  next
    case 3
    obtain hit v where p: "peek s [c_open] = (hit, v)" by force
    have v: "ptr_in line v" by (rule peek_in [OF 3 p])
    have "found line set_cmd (and_then (parseredirs v) (\<lambda>(rs, s).
        and_then (parseargs [] rs s) (\<lambda>(args, rs, s). Ok (wrap (EXEC args) rs, s))))"
    proof (rule found_then [OF parseredirs_found [OF v]], simp only: case_prod_conv)
      fix rs :: "redir list" and t :: ptr assume "ptr_in line t" "\<forall>w\<in>fst ` set rs. word_in line w"
      then show "found line set_cmd (and_then (parseargs [] rs t) (\<lambda>(args, rs, s). Ok (wrap (EXEC args) rs, s)))"
        using parseargs_found [of line t "[]" rs] by (cases "parseargs [] rs t") (auto simp: set_wrap)
    qed
    moreover have "found line set_cmd (parseblock n v)" by (rule Suc(4) [OF v])
    ultimately show ?case using p by simp
  next
    case 4
    obtain hit v where p: "peek s [c_open] = (hit, v)" by force
    obtain tok q e w where g: "gettoken v = (tok, q, e, w)" by (cases "gettoken v")
    have w: "found line set_cmd (parseline n w)" by (rule Suc(1) [OF gettoken_in [OF peek_in [OF 4 p] g]])
    have "found line set_cmd (and_then (parseline n w) (\<lambda>(c, s). case peek s [c_close] of (hit, s) \<Rightarrow>
          if \<not> hit then Panic (msg ''syntax - missing )'')
          else case gettoken s of (_, _, _, s) \<Rightarrow> and_then (parseredirs s) (\<lambda>(rs, s). Ok (wrap c rs, s))))"
    proof (rule found_then [OF w], simp only: case_prod_conv)
      fix c t assume t: "ptr_in line t" and c: "\<forall>w\<in>set_cmd c. word_in line w"
      obtain h x where px: "peek t [c_close] = (h, x)" by force
      obtain tok' q' e' y where gy: "gettoken x = (tok', q', e', y)" by (cases "gettoken x")
      have "found line (\<lambda>rs. fst ` set rs) (parseredirs y)"
        by (rule parseredirs_found [OF gettoken_in [OF peek_in [OF t px] gy]])
      then show "found line set_cmd (case peek t [c_close] of (hit, s) \<Rightarrow> if \<not> hit then Panic (msg ''syntax - missing )'')
          else case gettoken s of (_, _, _, s) \<Rightarrow> and_then (parseredirs s) (\<lambda>(rs, s). Ok (wrap c rs, s)))"
        using px gy c by (auto simp: set_wrap intro!: found_then [where f = "\<lambda>rs. fst ` set rs"]) fastforce
    qed
    then show ?case using p g by simp
  }
qed simp_all

lemma parsecmd_words:
  assumes "parsecmd line = Ok t" and "w \<in> set_cmd t"
  shows "word_in line w"
proof -
  obtain s where "parseline (4 * length line + 4) line = Ok (t, s)"
    using assms(1) by (auto simp: parsecmd_def and_then_Ok peek_def Let_def simp del: parseline.simps split: if_splits)
  moreover have "found line set_cmd (parseline (4 * length line + 4) line)"
    by (rule parse_found(1)) (simp add: ptr_in_def)
  ultimately show ?thesis using assms(2) by (simp del: parseline.simps)
qed

subsection \<open>Cutting the line\<close>

definition line_buf :: "bytes \<Rightarrow> buf" where
  "line_buf line i = (if i < length line then line ! i else 0)"

lemma nulterminate_apply:
  "nulterminate len t b i = (if \<exists>w\<in>set_cmd t. i = pos len (snd w) then 0 else b i)"
proof (induction t arbitrary: b)
  case (EXEC ws)
  have "fold (\<lambda>(q, eq) b. b(pos len eq := 0)) ws b i = (if \<exists>w\<in>set ws. i = pos len (snd w) then 0 else b i)" for b :: buf
    by (induction ws arbitrary: b) auto
  then show ?case by simp
qed auto

lemma word_in_pos:
  assumes "word_in line w"
  shows "pos (length line) (snd w) = pos (length line) (fst w) + length (wtext w)"
    and "j < length (wtext w) \<Longrightarrow> pos (length line) (fst w) + j < length line \<and>
      line ! (pos (length line) (fst w) + j) = wtext w ! j"
    and "pos (length line) (snd w) < length line \<Longrightarrow> line ! pos (length line) (snd w) \<in> set whitespace \<union> set symbols"
proof -
  obtain pre where l: "line = pre @ wtext w @ snd w" using assms by (auto simp: word_in_def ptr_in_def)
  have f: "fst w = wtext w @ snd w" using assms by (simp add: word_in_def)
  have p: "pos (length line) (snd w) = length pre + length (wtext w)" "pos (length line) (fst w) = length pre"
    unfolding pos_def f by (simp_all add: l)
  then show "pos (length line) (snd w) = pos (length line) (fst w) + length (wtext w)" by simp
  show "j < length (wtext w) \<Longrightarrow> pos (length line) (fst w) + j < length line \<and>
      line ! (pos (length line) (fst w) + j) = wtext w ! j"
    unfolding p(2) by (subst (1 2) l) (simp add: nth_append)
  show "pos (length line) (snd w) < length line \<Longrightarrow> line ! pos (length line) (snd w) \<in> set whitespace \<union> set symbols"
  proof -
    assume "pos (length line) (snd w) < length line"
    then have ne: "snd w \<noteq> []" unfolding p(1) by (subst (asm) l) auto
    then have "line ! pos (length line) (snd w) = hd (snd w)"
      unfolding p(1) by (subst l) (simp add: nth_append hd_conv_nth)
    then show ?thesis using assms ne by (simp add: word_in_def)
  qed
qed

lemma terminated_word:
  assumes t: "parsecmd line = Ok t" and w: "w \<in> set_cmd t" and "0 \<notin> set line"
  shows "word_ok (wtext w)"
    and "is_str (\<lambda>j. nulterminate (length line) t (line_buf line) (pos (length line) (fst w) + j)) (wtext w)"
proof -
  have i: "word_in line w" by (rule parsecmd_words [OF t w])
  note p = word_in_pos [OF i]
  have nz: "wtext w ! j \<noteq> 0" if "j < length (wtext w)" for j using p(2) [OF that] assms(3) by (metis nth_mem)
  have sep: "wtext w ! j \<notin> set whitespace \<union> set symbols" if "j < length (wtext w)" for j
    using i that by (auto simp: word_in_def)
  show "word_ok (wtext w)" using i nz unfolding word_ok_def word_in_def by (metis in_set_conv_nth)
  have cut: "nulterminate (length line) t (line_buf line) (pos (length line) (fst w) + j) = wtext w ! j"
    if j: "j < length (wtext w)" for j
  proof -
    have "pos (length line) (fst w) + j \<noteq> pos (length line) (snd v)" if v: "v \<in> set_cmd t" for v
      using word_in_pos(3) [OF parsecmd_words [OF t v]] p(2) [OF j] sep [OF j] by auto
    then show ?thesis using p(2) [OF j] by (auto simp: nulterminate_apply line_buf_def)
  qed
  have "nulterminate (length line) t (line_buf line) (pos (length line) (fst w) + length (wtext w)) = 0"
    using w by (auto simp: nulterminate_apply simp flip: p(1))
  then show "is_str (\<lambda>j. nulterminate (length line) t (line_buf line) (pos (length line) (fst w) + j)) (wtext w)"
    using cut nz by (simp add: is_str_def)
qed

text \<open>C18: The parser always ends, and its words are the strings the shell works with.  For every line without null bytes
  \<^verbatim>\<open>parsecmd\<close> returns or reports a syntax error, and when it returns, each argument and file name of the tree is,
  after \<^verbatim>\<open>nulterminate\<close> has written its null bytes into the line, the C string that consists of exactly the
  characters of its token: not empty, free of white space and symbols, and not damaged by the termination of any other token.\<close>

theorem shell_words:
  assumes "0 \<notin> set line"
  shows "parsecmd line \<noteq> Fuel \<and> (\<forall>t w. parsecmd line = Ok t \<and> w \<in> set_cmd t \<longrightarrow> word_ok (wtext w) \<and>
    is_str (\<lambda>j. nulterminate (length line) t (line_buf line) (pos (length line) (fst w) + j)) (wtext w))"
  using parsecmd_not_Fuel terminated_word assms by blast

theorem shell_words_witness:
  "\<exists>t. parsecmd [97, 62, 98, 10] = Ok t \<and> (\<exists>w\<in>set_cmd t. wtext w = [98] \<and>
    is_str (\<lambda>j. nulterminate 4 t (line_buf [97, 62, 98, 10]) (pos 4 (fst w) + j)) [98])"
proof -
  let ?l = "[97, 62, 98, 10] :: bytes"
  let ?t = "REDIR (EXEC [(?l, [62, 98, 10])]) ([98, 10], [10]) O_WRONLY_CREATE_TRUNC 1"
  let ?w = "([98, 10], [10]) :: word_ptr"
  have l: "(0 :: u8) \<notin> set ?l" "length ?l = 4" by simp_all
  have t: "parsecmd ?l = Ok ?t"
    by (simp add: parsecmd_def eval_nat_numeral)
      (simp add: parseredirs.simps parseargs.simps parsebacks.simps peek_def gettoken_def skip_ws_def skip_word_def Let_def
        whitespace_def symbols_def wrap_def redircmd_def redir_of_def)
  have w: "wtext ?w = [98]" "?w \<in> set_cmd ?t" by (simp_all add: wtext_def)
  have "is_str (\<lambda>j. nulterminate 4 ?t (line_buf ?l) (pos 4 (fst ?w) + j)) [98]"
    using shell_words [OF l(1), THEN conjunct2, rule_format, OF conjI, OF t w(2)] unfolding l(2) w(1) by (rule conjunct2)
  with t w show ?thesis by blast
qed

end
