(* ===== verification/Sh_Run.thy ===== *)
theory Sh_Run
  imports Sh_Laws
begin

text \<open>
  The shell, \<^verbatim>\<open>user/sh.c\<close>, from the parsed command on: \<^verbatim>\<open>runcmd\<close> and the main loop.

  A process is seen through its table of open files.  \<open>ok\<close> says of every system call that may fail, in the order in which
  they are made, whether it succeeds; the number of a call also names the pipe it makes.  What a process does is a list
  of events; the events of a child are inside the event of its creation.
\<close>

datatype open_file = Given nat | PipeR nat | PipeW nat | Opened bytes nat

type_synonym fdtab = "nat \<Rightarrow> open_file option"

datatype event = Run "bytes list" fdtab | Fork "event list" | Wait fdtab | Say bytes | Exit int | Chdir bytes

abbreviation NOFILE_USER :: nat where "NOFILE_USER \<equiv> 16"

text \<open>The system calls, as far as they concern the table.\<close>

definition fd_free :: "fdtab \<Rightarrow> nat option" where
  "fd_free t = List.find (\<lambda>fd. t fd = None) [0..<NOFILE_USER]"

definition u_close :: "nat \<Rightarrow> fdtab \<Rightarrow> fdtab" where
  "u_close fd t = t(fd := None)"

definition u_dup :: "nat \<Rightarrow> fdtab \<Rightarrow> fdtab" where
  "u_dup fd t = (case fd_free t of None \<Rightarrow> t | Some k \<Rightarrow> if t fd = None then t else t(k := t fd))"

definition u_open :: "bool \<Rightarrow> bytes \<Rightarrow> nat \<Rightarrow> fdtab \<Rightarrow> fdtab option" where
  "u_open ok f mode t = (case fd_free t of None \<Rightarrow> None | Some k \<Rightarrow> if ok then Some (t(k \<mapsto> Opened f mode)) else None)"

definition u_pipe :: "bool \<Rightarrow> nat \<Rightarrow> fdtab \<Rightarrow> (nat \<times> nat \<times> fdtab) option" where
  "u_pipe ok n t =
     (case fd_free t of None \<Rightarrow> None
      | Some p0 \<Rightarrow> let t = t(p0 \<mapsto> PipeR n) in
          case fd_free t of None \<Rightarrow> None
          | Some p1 \<Rightarrow> if ok then Some (p0, p1, t(p1 \<mapsto> PipeW n)) else None)"

text \<open>What \<^verbatim>\<open>panic\<close> and the failing \<^verbatim>\<open>fork1\<close> do.\<close>

definition sh_panic :: "bytes \<Rightarrow> event list" where
  "sh_panic m = [Say (m @ [10]), Exit 1]"

definition panic_fork :: "event list" where
  "panic_fork = sh_panic (msg ''fork'')"

fun runcmd :: "(nat \<Rightarrow> bool) \<Rightarrow> bytes cmd \<Rightarrow> fdtab \<Rightarrow> nat \<Rightarrow> event list \<times> nat" where
  "runcmd ok (EXEC ws) t k =
     (if ws = [] then ([Exit 1], k)
      else if ok k then ([Run ws t], Suc k)
      else ([Say (msg ''exec '' @ hd ws @ msg '' failed'' @ [10]), Exit 0], Suc k))"
| "runcmd ok (REDIR c f mode fd) t k =
     (let t = u_close fd t in
      case u_open (ok k) f mode t of
        None \<Rightarrow> ([Say (msg ''open '' @ f @ msg '' failed'' @ [10]), Exit 1], Suc k)
      | Some t \<Rightarrow> runcmd ok c t (Suc k))"
| "runcmd ok (LIST l r) t k =
     (if \<not> ok k then (panic_fork, Suc k)
      else let (es, k) = runcmd ok l t (Suc k);
               (fs, k) = runcmd ok r t k in
           (Fork es # Wait t # fs, k))"
| "runcmd ok (PIPE l r) t k =
     (case u_pipe (ok k) k t of
        None \<Rightarrow> (sh_panic (msg ''pipe''), Suc k)
      | Some (p0, p1, t) \<Rightarrow>
          if \<not> ok (Suc k) then (panic_fork, Suc (Suc k))
          else let (es, k) = runcmd ok l (u_close p1 (u_close p0 (u_dup p1 (u_close 1 t)))) (Suc (Suc k)) in
            if \<not> ok k then (Fork es # panic_fork, Suc k)
            else let (fs, k) = runcmd ok r (u_close p1 (u_close p0 (u_dup p0 (u_close 0 t)))) (Suc k);
                     t = u_close p1 (u_close p0 t) in
                 ([Fork es, Fork fs, Wait t, Wait t, Exit 0], k))"
| "runcmd ok (BACK c) t k =
     (if \<not> ok k then (panic_fork, Suc k)
      else let (es, k) = runcmd ok c t (Suc k) in ([Fork es, Exit 0], k))"

text \<open>The strings \<^verbatim>\<open>runcmd\<close> finds at the pointers of the tree, in the line as \<^verbatim>\<open>nulterminate\<close> has left it.\<close>

definition cstr :: "buf \<Rightarrow> nat \<Rightarrow> nat \<Rightarrow> bytes" where
  "cstr b len i = takeWhile (\<lambda>c. c \<noteq> 0) (map b [i..<len])"

definition strings :: "bytes \<Rightarrow> word_ptr cmd \<Rightarrow> bytes cmd" where
  "strings line t = map_cmd (\<lambda>w. cstr (nulterminate (length line) t (line_buf line)) (length line) (pos (length line) (fst w))) t"

text \<open>One round of the loop in \<^verbatim>\<open>main\<close>, for a line that \<^verbatim>\<open>getcmd\<close> has read.\<close>

definition sh_line :: "(nat \<Rightarrow> bool) \<Rightarrow> bytes \<Rightarrow> fdtab \<Rightarrow> nat \<Rightarrow> event list \<times> nat" where
  "sh_line ok line t k =
     (if take 3 line = [99, 100, 32] then
        (let dir = drop 3 (butlast line) in
         (if ok k then [Chdir dir] else [Say (msg ''cannot cd '' @ dir @ [10])], Suc k))
      else if \<not> ok k then (panic_fork, Suc k)
      else case parsecmd line of
          Ok c \<Rightarrow> let (es, k) = runcmd ok (strings line c) t (Suc k) in ([Fork es, Wait t], k)
        | Panic m \<Rightarrow> ([Fork (sh_panic m), Wait t], Suc k)
        | Fuel \<Rightarrow> ([Fork []], Suc k))"

text \<open>\<open>rs\<close> is what the calls of \<^verbatim>\<open>read\<close> deliver while a line is read.\<close>

definition getcmd :: "nat \<Rightarrow> u8 option list \<Rightarrow> bytes option" where
  "getcmd nbuf rs = (let b = gets nbuf rs (\<lambda>_. 0) in if b 0 = 0 then None else Some (cstr b nbuf 0))"

fun sh_main :: "(nat \<Rightarrow> bool) \<Rightarrow> u8 option list list \<Rightarrow> fdtab \<Rightarrow> nat \<Rightarrow> event list" where
  "sh_main ok [] t k = []"
| "sh_main ok (rs # rss) t k =
     Say (msg ''$ '') #
     (case getcmd 100 rs of None \<Rightarrow> [Exit 0]
      | Some line \<Rightarrow>
          let (es, k) = sh_line ok line t k in
          es @ (if last es = Exit 1 then [] else sh_main ok rss t k))"

text \<open>The first loop of \<^verbatim>\<open>main\<close>, which makes sure that three descriptors are open.\<close>

function sh_console :: "(nat \<Rightarrow> bool) \<Rightarrow> fdtab \<Rightarrow> nat \<Rightarrow> fdtab \<times> nat" where
  "sh_console ok t k =
     (case fd_free t of None \<Rightarrow> (t, Suc k)
      | Some fd \<Rightarrow>
          if \<not> ok k then (t, Suc k)
          else if fd \<ge> 3 then (t, Suc k)
          else sh_console ok (t(fd \<mapsto> Opened (msg ''console'') 2)) (Suc k))"
  by pat_completeness auto
termination
proof (relation "measure (\<lambda>(ok, t, k). card {fd \<in> {0, 1, 2}. t fd = None})", simp, goal_cases)
  case (1 ok t k fd)
  then have "fd \<in> {fd \<in> {0, 1, 2}. t fd = None}" by (auto simp: fd_free_def find_upt)
  then have "{f \<in> {0, 1, 2}. (t(fd \<mapsto> Opened (msg ''console'') 2)) f = None} \<subset> {fd \<in> {0, 1, 2}. t fd = None}"
    by auto
  then show ?case by (simp add: psubset_card_mono)
qed

declare sh_console.simps [simp del]

subsection \<open>The strings of the tree\<close>

lemma cstr_str:
  assumes "is_str (\<lambda>j. b (i + j)) xs" and "i + length xs \<le> len"
  shows "cstr b len i = xs"
proof -
  have "map b [i..<len] = map b [i..<i + length xs] @ map b [i + length xs..<len]"
    using upt_add_eq_append [of i "i + length xs" "len - (i + length xs)"] assms(2) by simp
  moreover have "map b [i..<i + length xs] = xs"
    using assms(1) by (auto intro!: nth_equalityI simp: is_str_def)
  moreover have "takeWhile (\<lambda>c. c \<noteq> 0) (map b [i + length xs..<len]) = []"
    using assms(1) by (cases "i + length xs < len") (auto simp: is_str_def upt_rec)
  moreover have "\<forall>c\<in>set xs. c \<noteq> 0" using assms(1) by (auto simp: is_str_def in_set_conv_nth)
  ultimately show ?thesis by (simp add: cstr_def takeWhile_append2)
qed

lemma strings_wtext:
  assumes "parsecmd line = Ok t" and "0 \<notin> set line"
  shows "strings line t = map_cmd wtext t"
  unfolding strings_def
proof (rule cmd.map_cong0)
  fix w assume w: "w \<in> set_cmd t"
  have i: "word_in line w" by (rule parsecmd_words [OF assms(1) w])
  have "length (snd w) \<le> length line" using i by (auto simp: word_in_def ptr_in_def)
  then have "pos (length line) (snd w) \<le> length line" by (simp add: pos_def)
  then show "cstr (nulterminate (length line) t (line_buf line)) (length line) (pos (length line) (fst w)) = wtext w"
    using cstr_str [OF terminated_word(2) [OF assms(1) w assms(2)]] word_in_pos(1) [OF i] by simp
qed

lemma pr_no_null: "cmd_ok c \<Longrightarrow> 0 \<notin> set (pr l c)"
  by (induction l c rule: pr.induct)
    (auto simp: pr_words_def pr_redir_def paren_def redir_ok_def word_ok_def)

lemma printed_strings:
  assumes "cmd_ok c"
  obtains t where "parsecmd (pr 0 c) = Ok t" and "strings (pr 0 c) t = c"
  using parsecmd_printed [OF assms] strings_wtext [OF _ pr_no_null [OF assms]] by metis

subsection \<open>Pipelines\<close>

definition std :: "fdtab \<Rightarrow> bool" where
  "std t \<longleftrightarrow> (\<forall>fd<3. t fd \<noteq> None) \<and> (\<forall>fd\<ge>3. t fd = None)"

lemma std_free: "std t \<Longrightarrow> fd_free t = Some 3"
  by (auto simp: fd_free_def find_upt std_def)

lemma std_upd: "std t \<Longrightarrow> fd < 3 \<Longrightarrow> std (t(fd \<mapsto> f))"
  by (auto simp: std_def)

lemma pipe_fds:
  assumes "std t"
  shows "u_pipe True n t = Some (3, 4, t(3 \<mapsto> PipeR n, 4 \<mapsto> PipeW n))"
    and "u_close 4 (u_close 3 (u_dup 4 (u_close 1 (t(3 \<mapsto> PipeR n, 4 \<mapsto> PipeW n))))) = t(1 \<mapsto> PipeW n)"
    and "u_close 4 (u_close 3 (u_dup 3 (u_close 0 (t(3 \<mapsto> PipeR n, 4 \<mapsto> PipeW n))))) = t(0 \<mapsto> PipeR n)"
    and "u_close 4 (u_close 3 (t(3 \<mapsto> PipeR n, 4 \<mapsto> PipeW n))) = t"
proof -
  have t: "t 3 = None" "t 4 = None" "t 0 \<noteq> None" using assms by (simp_all add: std_def)
  have f: "fd_free (t(3 \<mapsto> PipeR n)) = Some 4"
    using assms by (auto simp: fd_free_def find_upt std_def)
  show "u_pipe True n t = Some (3, 4, t(3 \<mapsto> PipeR n, 4 \<mapsto> PipeW n))"
    by (simp add: u_pipe_def std_free [OF assms] f)
  have "fd_free (u_close 1 (t(3 \<mapsto> PipeR n, 4 \<mapsto> PipeW n))) = Some 1"
    using assms by (auto simp: fd_free_def find_upt std_def u_close_def)
  then show "u_close 4 (u_close 3 (u_dup 4 (u_close 1 (t(3 \<mapsto> PipeR n, 4 \<mapsto> PipeW n))))) = t(1 \<mapsto> PipeW n)"
    using t by (auto simp: u_dup_def u_close_def fun_eq_iff)
  have "fd_free (u_close 0 (t(3 \<mapsto> PipeR n, 4 \<mapsto> PipeW n))) = Some 0"
    using assms by (auto simp: fd_free_def find_upt std_def u_close_def)
  then show "u_close 4 (u_close 3 (u_dup 3 (u_close 0 (t(3 \<mapsto> PipeR n, 4 \<mapsto> PipeW n))))) = t(0 \<mapsto> PipeR n)"
    using t by (auto simp: u_dup_def u_close_def fun_eq_iff)
  show "u_close 4 (u_close 3 (t(3 \<mapsto> PipeR n, 4 \<mapsto> PipeW n))) = t"
    using t by (auto simp: u_close_def fun_eq_iff)
qed

text \<open>The programs that run, with their tables, and the tables of the processes that wait.\<close>

fun runs :: "event list \<Rightarrow> (bytes list \<times> fdtab) list" where
  "runs [] = []"
| "runs (Run ws t # es) = (ws, t) # runs es"
| "runs (Fork fs # es) = runs fs @ runs es"
| "runs (_ # es) = runs es"

fun waits :: "event list \<Rightarrow> fdtab list" where
  "waits [] = []"
| "waits (Wait t # es) = t # waits es"
| "waits (Fork fs # es) = waits fs @ waits es"
| "waits (_ # es) = waits es"

fun pipeline :: "bytes list list \<Rightarrow> bytes cmd" where
  "pipeline [] = EXEC []"
| "pipeline [ws] = EXEC ws"
| "pipeline (ws # wss) = PIPE (EXEC ws) (pipeline wss)"

text \<open>The table of each program of a pipeline; \<open>ns\<close> are the pipes.\<close>

fun stages :: "bytes list list \<Rightarrow> nat list \<Rightarrow> fdtab \<Rightarrow> (bytes list \<times> fdtab) list" where
  "stages (ws # wss) (n # ns) t = (ws, t(1 \<mapsto> PipeW n)) # stages wss ns (t(0 \<mapsto> PipeR n))"
| "stages wss ns t = map (\<lambda>ws. (ws, t)) wss"

lemma pipeline_runs:
  assumes "std t" and "\<forall>k. ok k" and "wss \<noteq> []" and "[] \<notin> set wss"
  shows "\<exists>es k' ns. runcmd ok (pipeline wss) t k = (es, k') \<and> runs es = stages wss ns t \<and> length wss = Suc (length ns) \<and>
    sorted_wrt (<) ns \<and> (\<forall>n\<in>set ns. k \<le> n) \<and>
    (\<forall>u\<in>set (waits es). std u \<and> u 1 = t 1 \<and> u 2 = t 2 \<and> (u 0 = t 0 \<or> u 0 \<in> Some ` PipeR ` set ns))"
  using assms
proof (induction wss arbitrary: t k rule: pipeline.induct)
  case (2 ws)
  then show ?case by (intro exI [of _ "[Run ws t]"] exI [of _ "Suc k"] exI [of _ "[]"]) simp
next
  case (3 ws v vs)
  let ?t = "t(0 \<mapsto> PipeR k)"
  have "std ?t" using 3(2) by (rule std_upd) simp
  moreover have "v # vs \<noteq> []" "[] \<notin> set (v # vs)" using 3(5) by auto
  ultimately obtain es k' ns
    where IH: "runcmd ok (pipeline (v # vs)) ?t (Suc (Suc (Suc (Suc k)))) = (es, k')" "runs es = stages (v # vs) ns ?t"
      "length (v # vs) = Suc (length ns)" "sorted_wrt (<) ns" "\<forall>n\<in>set ns. Suc (Suc (Suc (Suc k))) \<le> n"
      "\<forall>u\<in>set (waits es). std u \<and> u 1 = ?t 1 \<and> u 2 = ?t 2 \<and> (u 0 = ?t 0 \<or> u 0 \<in> Some ` PipeR ` set ns)"
    using 3(1) [of ?t "Suc (Suc (Suc (Suc k)))"] 3(3) by blast
  let ?es = "[Fork [Run ws (t(1 \<mapsto> PipeW k))], Fork es, Wait t, Wait t, Exit 0]"
  have "runcmd ok (pipeline (ws # v # vs)) t k = (?es, k')"
    using IH(1) 3(3,5) by (auto simp add: pipe_fds [OF 3(2)] pipe_fds(2) [OF 3(2), unfolded One_nat_def])
  moreover have "runs ?es = stages (ws # v # vs) (k # ns) t" using IH(2) by simp
  moreover have "\<forall>u\<in>set (waits ?es). std u \<and> u 1 = t 1 \<and> u 2 = t 2 \<and> (u 0 = t 0 \<or> u 0 \<in> Some ` PipeR ` set (k # ns))"
    using IH(6) 3(2) by auto
  moreover have "sorted_wrt (<) (k # ns)" "\<forall>n\<in>set (k # ns). k \<le> n" using IH(4,5) by auto
  moreover have "length (ws # v # vs) = Suc (length (k # ns))" using IH(3) by simp
  ultimately show ?case by blast
qed simp

text \<open>The first loop of \<^verbatim>\<open>main\<close> leaves the shell with the three standard descriptors.\<close>

lemma sh_console_std:
  "\<forall>k. ok k \<Longrightarrow> \<forall>fd\<ge>3. t fd = None \<Longrightarrow> std (fst (sh_console ok t k))"
proof (induction ok t k rule: sh_console.induct)
  case (1 ok t k)
  obtain fd where fd: "fd_free t = Some fd" "t fd = None" "\<forall>f<fd. t f \<noteq> None"
  proof -
    have "fd_free t \<noteq> None" using 1(3) by (auto simp: fd_free_def find_upt_None intro: exI [of _ 3])
    then show thesis using that by (auto simp: fd_free_def find_upt)
  qed
  show ?case
  proof (cases "fd \<ge> 3")
    case True
    then show ?thesis using fd 1(2,3) by (subst sh_console.simps) (auto simp: std_def)
  next
    case False
    then have "std (fst (sh_console ok (t(fd \<mapsto> Opened (msg ''console'') 2)) (Suc k)))"
      by (intro 1(1) [OF fd(1)]) (use 1(2,3) in auto)
    then show ?thesis using False fd(1) 1(2) by (subst sh_console.simps) simp
  qed
qed

text \<open>C17: The parser is the inverse of printing.  Every command tree built from simple commands with at most nine
  words, redirections, pipelines, lists and background commands, nested in any way, is written as a line in the shell's grammar by \<open>pr\<close>;
  \<^verbatim>\<open>parsecmd\<close> reads that line back without an error, and the tree that \<^verbatim>\<open>runcmd\<close> gets, with its strings as
  \<^verbatim>\<open>nulterminate\<close> has left them in the line, is the command again.\<close>

theorem shell_parse_print:
  assumes "cmd_ok c"
  shows "\<exists>t. parsecmd (pr 0 c) = Ok t \<and> strings (pr 0 c) t = c"
  using printed_strings [OF assms] by metis

theorem shell_parse_print_witness:
  "\<exists>t. parsecmd (pr 0 (LIST (BACK (EXEC [[97], [98]])) (REDIR (PIPE (EXEC [[99]]) (EXEC [[100]])) [102] 0x201 1))) = Ok t \<and>
    strings (pr 0 (LIST (BACK (EXEC [[97], [98]])) (REDIR (PIPE (EXEC [[99]]) (EXEC [[100]])) [102] 0x201 1))) t =
      LIST (BACK (EXEC [[97], [98]])) (REDIR (PIPE (EXEC [[99]]) (EXEC [[100]])) [102] 0x201 1)"
  by (rule shell_parse_print) (simp add: word_ok_def redir_ok_def whitespace_def symbols_def)



end
