(* ===== verification/Fs_Inode.thy ===== *)
theory Fs_Inode
  imports Fs_Laws
begin

text \<open>
  Inodes: the disk inode a number stands for, the table of inodes in use, and the block map of an inode.
\<close>

subsection \<open>Layout of a disk inode\<close>

lemma get_at_put32:
  "i + 4 \<le> length bs \<Longrightarrow> j + m \<le> length bs \<Longrightarrow> j + m \<le> i \<or> i + 4 \<le> j \<Longrightarrow> get_at j m (put32 i v bs) = get_at j m bs"
  by (simp add: put32_def get_put_other)

lemma get_at_put16:
  "i + 2 \<le> length bs \<Longrightarrow> j + m \<le> length bs \<Longrightarrow> j + m \<le> i \<or> i + 2 \<le> j \<Longrightarrow> get_at j m (put16 i v bs) = get_at j m bs"
  by (simp add: put16_def get_put_other)

lemma put_addrs:
  assumes "k + 12 + 4 * n \<le> length bs"
  shows "length (fold (\<lambda>i. put32 (k + 12 + 4 * i) (as ! i)) [0..<n] bs) = length bs \<and>
    (\<forall>i<n. get32 (fold (\<lambda>i. put32 (k + 12 + 4 * i) (as ! i)) [0..<n] bs) (k + 12 + 4 * i) = as ! i) \<and>
    (\<forall>j m. j + m \<le> length bs \<and> (j + m \<le> k + 12 \<or> k + 12 + 4 * n \<le> j) \<longrightarrow>
       get_at j m (fold (\<lambda>i. put32 (k + 12 + 4 * i) (as ! i)) [0..<n] bs) = get_at j m bs)"
  using assms
proof (induction n)
  case 0
  then show ?case by simp
next
  case (Suc n)
  let ?r = "fold (\<lambda>i. put32 (k + 12 + 4 * i) (as ! i)) [0..<n] bs"
  have IH: "length ?r = length bs" "\<And>i. i < n \<Longrightarrow> get32 ?r (k + 12 + 4 * i) = as ! i"
    "\<And>j m. j + m \<le> length bs \<Longrightarrow> j + m \<le> k + 12 \<or> k + 12 + 4 * n \<le> j \<Longrightarrow> get_at j m ?r = get_at j m bs" using Suc by auto
  have e: "fold (\<lambda>i. put32 (k + 12 + 4 * i) (as ! i)) [0..<Suc n] bs = put32 (k + 12 + 4 * n) (as ! n) ?r" by simp
  have "get32 (put32 (k + 12 + 4 * n) (as ! n) ?r) (k + 12 + 4 * i) = as ! i" if "i < Suc n" for i
    using that IH(1,2) Suc.prems by (cases "i = n") (auto simp: get32_put32_other)
  moreover have "get_at j m (put32 (k + 12 + 4 * n) (as ! n) ?r) = get_at j m bs"
    if "j + m \<le> length bs" "j + m \<le> k + 12 \<or> k + 12 + 4 * Suc n \<le> j" for j m
    using that IH(1) IH(3) [of j m] Suc.prems by (subst get_at_put32) auto
  ultimately show ?case unfolding e using IH(1) Suc.prems by simp
qed

lemma length_put_dinode [simp]: "k + 64 \<le> length bs \<Longrightarrow> length (put_dinode k d bs) = length bs"
  unfolding put_dinode_def Let_def using put_addrs [of k 13] by simp

lemma put_dinode_other:
  assumes "k + 64 \<le> length bs" and "j + m \<le> length bs" and "j + m \<le> k \<or> k + 64 \<le> j"
  shows "get_at j m (put_dinode k d bs) = get_at j m bs"
proof -
  define b0 where "b0 = put32 (k + 8) (di_size d) (put16 (k + 6) (di_nlink d) (put16 (k + 4) (di_minor d) (put16 (k + 2) (di_major d) (put16 k (di_type d) bs))))"
  have "length b0 = length bs" "get_at j m b0 = get_at j m bs" using assms by (auto simp: b0_def get_at_put16 get_at_put32)
  moreover have "put_dinode k d bs = fold (\<lambda>i. put32 (k + 12 + 4 * i) (di_addrs d ! i)) [0..<13] b0" by (simp add: put_dinode_def b0_def)
  ultimately show ?thesis using put_addrs [of k 13 b0 "di_addrs d"] assms by auto
qed

lemma get_dinode_cong:
  assumes "\<And>j m. j + m \<le> length bs \<Longrightarrow> k \<le> j \<Longrightarrow> j + m \<le> k + 64 \<Longrightarrow> get_at j m cs = get_at j m bs" and "k + 64 \<le> length bs"
  shows "get_dinode k cs = get_dinode k bs"
  using assms by (auto simp: get_dinode_def get16_def get32_def)

lemma get_put_dinode_other:
  assumes "k + 64 \<le> length bs" and "j + 64 \<le> length bs" and "j + 64 \<le> k \<or> k + 64 \<le> j"
  shows "get_dinode j (put_dinode k d bs) = get_dinode j bs"
  using assms by (intro get_dinode_cong put_dinode_other) auto

lemma get_put_dinode:
  assumes "k + 64 \<le> length bs" and "length (di_addrs d) = 13"
  shows "get_dinode k (put_dinode k d bs) = d"
proof -
  define b0 where "b0 = put32 (k + 8) (di_size d) (put16 (k + 6) (di_nlink d) (put16 (k + 4) (di_minor d) (put16 (k + 2) (di_major d) (put16 k (di_type d) bs))))"
  have l: "length b0 = length bs" using assms by (simp add: b0_def)
  have g: "get16 b0 k = di_type d" "get16 b0 (k + 2) = di_major d" "get16 b0 (k + 4) = di_minor d" "get16 b0 (k + 6) = di_nlink d" "get32 b0 (k + 8) = di_size d"
    using assms(1) by (simp_all add: b0_def get16_put16_other get16_put32_other)
  define r where "r = fold (\<lambda>i. put32 (k + 12 + 4 * i) (di_addrs d ! i)) [0..<13] b0"
  have A: "\<And>i. i < 13 \<Longrightarrow> get32 r (k + 12 + 4 * i) = di_addrs d ! i"
    "\<And>j m. j + m \<le> k + 12 \<Longrightarrow> get_at j m r = get_at j m b0" using put_addrs [of k 13 b0 "di_addrs d"] assms(1) l by (auto simp: r_def)
  have "map (\<lambda>i. get32 r (k + 12 + 4 * i)) [0..<13] = di_addrs d" by (rule nth_equalityI) (use A(1) assms(2) in auto)
  moreover have "put_dinode k d bs = r" by (simp add: put_dinode_def b0_def r_def)
  ultimately show ?thesis using g by (simp add: get_dinode_def get16_def get32_def A(2) del: upt_Suc)
qed

subsection \<open>Disk inodes\<close>

definition disk_inode :: "'a fs_st_scheme \<Rightarrow> u32 \<Rightarrow> dinode" where
  "disk_inode s inum = get_dinode (ioff inum) (view s (IBLOCK inum (sb s)))"

lemma ioff_bound: "ioff inum + 64 \<le> BSIZE"
  by (simp add: ioff_def)

lemma unat_IBLOCK:
  assumes "layout s" and "unat i < unat (sb_ninodes (sb s))"
  shows "unat (IBLOCK i (sb s)) = unat i div IPB + unat (sb_inodestart (sb s))"
proof -
  have q: "unat (i div of_nat IPB) = unat i div IPB" by (simp add: unat_div)
  have "unat i div IPB \<le> unat (sb_ninodes (sb s)) div IPB" using assms(2) by (simp add: div_le_mono)
  then have "unat i div IPB + unat (sb_inodestart (sb s)) < 2 ^ 32"
    using assms(1) unsigned_less [of "sb_size (sb s)", where ?'a = nat] by (simp add: layout_def data_start_def)
  then show ?thesis unfolding IBLOCK_def using q by (subst unat_add_small) simp_all
qed

definition inode_blocks :: "superblock \<Rightarrow> u32 set" where
  "inode_blocks B = {b. unat (sb_inodestart B) \<le> unat b \<and> unat b < unat (sb_bmapstart B)}"

lemma IBLOCK_in:
  assumes "layout s" and "unat i < unat (sb_ninodes (sb s))" shows "IBLOCK i (sb s) \<in> inode_blocks (sb s)"
proof -
  have "unat i div IPB \<le> unat (sb_ninodes (sb s)) div IPB" using assms(2) by (simp add: div_le_mono)
  then show ?thesis using assms(1) unfolding inode_blocks_def mem_Collect_eq unat_IBLOCK [OF assms] layout_def by linarith
qed

lemma inode_home: "layout s \<Longrightarrow> b \<in> inode_blocks (sb s) \<Longrightarrow> home s b"
  by (rule home_beyond) (auto simp: layout_def inode_blocks_def)

text \<open>Two inode numbers with the same block and offset are the same.\<close>

lemma inode_place:
  assumes "layout s" and "unat i < unat (sb_ninodes (sb s))" and "unat j < unat (sb_ninodes (sb s))" and "i \<noteq> j"
    and "IBLOCK i (sb s) = IBLOCK j (sb s)"
  shows "ioff i + 64 \<le> ioff j \<or> ioff j + 64 \<le> ioff i"
proof -
  have "unat i div IPB = unat j div IPB" using unat_IBLOCK [OF assms(1,2)] unat_IBLOCK [OF assms(1,3)] assms(5) by simp
  then have "unat i mod IPB \<noteq> unat j mod IPB" using assms(4) by (metis div_mult_mod_eq unsigned_word_eqI)
  then show ?thesis by (auto simp: ioff_def)
qed

lemma iupdate_law:
  fixes s :: "'a fs_st_scheme"
  assumes tx: "in_tx k H S s" and lay: "layout s" and ip: "i_dev (inodes s ip) = ROOTDEV" "unat (i_inum (inodes s ip)) < unat (sb_ninodes (sb s))"
    and B: "IBLOCK (i_inum (inodes s ip)) (sb s) \<notin> H" and room: "card (S \<union> H) < 29"
  defines "B \<equiv> IBLOCK (i_inum (inodes s ip)) (sb s)"
  shows "\<exists>t. iupdate ip s = Some t \<and> in_tx k H (insert B S) t \<and> tx_only s t \<and> disk t = disk s \<and>
    view t = (view s)(B := put_dinode (ioff (i_inum (inodes s ip))) (i_d (inodes s ip)) (view s B)) \<and>
    (\<forall>j m. buf_of s j m \<and> m \<in> H \<longrightarrow> buf_of t j m)"
proof -
  let ?f = "put_dinode (ioff (i_inum (inodes s ip))) (i_d (inodes s ip))"
  have r1: "card S < 29" "B \<in> S \<or> card (S \<union> H) < NBUF" using room room_card [of S H 29] by auto
  have h: "home s B" unfolding B_def using inode_home [OF lay IBLOCK_in [OF lay ip(2)]] .
  have l: "length (?f (view s B)) = BSIZE" using in_tx_view_length [OF tx, of B] ioff_bound by simp
  obtain i u v t where u: "bread ROOTDEV B s = Some (i, u)" "b_data (bufs u i) = view s B" "bio_only s u"
    "log_write i (set_data i (?f (view s B)) u) = Some v" "brelse i v = Some t" "in_tx k H (insert B S) t" "tx_only s t"
    "view t = (view s)(B := ?f (view s B))" "disk t = disk s" "\<forall>j m. buf_of s j m \<and> m \<in> H \<longrightarrow> buf_of t j m"
    using tx_update [OF tx B [folded B_def] h r1, of ?f] l by auto
  have "inodes u = inodes s" "sb u = sb s" using bio_only_fs [OF u(3)] by auto
  then have "iupdate ip s = Some t" using u(1,2,4,5) ip(1) by (simp add: iupdate_def B_def)
  then show ?thesis using u by blast
qed

lemma iupdate_disk_inode:
  fixes s t :: "'a fs_st_scheme"
  assumes tx: "in_tx k H S s" and "layout s" and "unat n < unat (sb_ninodes (sb s))" and "unat j < unat (sb_ninodes (sb s))" and "sb t = sb s"
    and "length (di_addrs d) = 13" and "view t = (view s)(IBLOCK n (sb s) := put_dinode (ioff n) d (view s (IBLOCK n (sb s))))"
  shows "disk_inode t j = (if j = n then d else disk_inode s j)"
proof -
  have l: "length (view s b) = BSIZE" for b using in_tx_view_length [OF tx] .
  have o: "ioff i + 64 \<le> length (view s b)" for i b using ioff_bound l by simp
  show ?thesis
  proof (cases "j = n")
    case True
    then show ?thesis using assms(5-7) o by (simp add: disk_inode_def get_put_dinode)
  next
    case False
    then show ?thesis using assms(5,7) inode_place [OF assms(2,4,3) False] o
      by (cases "IBLOCK j (sb s) = IBLOCK n (sb s)") (auto simp: disk_inode_def get_put_dinode_other)
  qed
qed

end
