(* ===== verification/Fs_Bmap.thy ===== *)
theory Fs_Bmap
  imports Fs_Inode
begin

text \<open>
  The block map of an inode.  A file is the sequence of bytes its blocks hold, with zeros where no block
  is mapped; \<^verbatim>\<open>bmap\<close> maps a block without changing that sequence.
\<close>

subsection \<open>The contents of a file\<close>

text \<open>\<open>V\<close> is the content of each block.  Address 0 stands for no block.\<close>

definition blk_of :: "dinode \<Rightarrow> (u32 \<Rightarrow> bytes) \<Rightarrow> nat \<Rightarrow> u32" where
  "blk_of d V bn =
     (if bn < NDIRECT then di_addrs d ! bn
      else if di_addrs d ! NDIRECT = 0 then 0
      else get32 (V (di_addrs d ! NDIRECT)) (4 * (bn - NDIRECT)))"

definition fbyte :: "dinode \<Rightarrow> (u32 \<Rightarrow> bytes) \<Rightarrow> nat \<Rightarrow> u8" where
  "fbyte d V i = (if blk_of d V (i div BSIZE) = 0 then 0 else V (blk_of d V (i div BSIZE)) ! (i mod BSIZE))"

text \<open>The blocks of a file: those of the data, and the indirect block.\<close>

definition fblks :: "dinode \<Rightarrow> (u32 \<Rightarrow> bytes) \<Rightarrow> u32 set" where
  "fblks d V = insert (di_addrs d ! NDIRECT) (blk_of d V ` {..<MAXFILE}) - {0}"

text \<open>No block is in two places of a file, and \<open>U\<close> holds of its blocks.\<close>

definition file_ok :: "(u32 \<Rightarrow> bool) \<Rightarrow> dinode \<Rightarrow> (u32 \<Rightarrow> bytes) \<Rightarrow> bool" where
  "file_ok U d V \<longleftrightarrow> length (di_addrs d) = NDIRECT + 1 \<and> (\<forall>b\<in>fblks d V. U b) \<and>
     (\<forall>i<MAXFILE. \<forall>j<MAXFILE. blk_of d V i = blk_of d V j \<longrightarrow> blk_of d V i = 0 \<or> i = j) \<and>
     (\<forall>i<MAXFILE. di_addrs d ! NDIRECT = blk_of d V i \<longrightarrow> blk_of d V i = 0)"

lemma file_okD:
  assumes "file_ok U d V"
  shows "length (di_addrs d) = 13" and "b \<in> fblks d V \<Longrightarrow> U b"
    and "i < MAXFILE \<Longrightarrow> j < MAXFILE \<Longrightarrow> blk_of d V i = blk_of d V j \<Longrightarrow> blk_of d V i \<noteq> 0 \<Longrightarrow> i = j"
    and "i < MAXFILE \<Longrightarrow> blk_of d V i \<noteq> 0 \<Longrightarrow> di_addrs d ! NDIRECT \<noteq> blk_of d V i"
  using assms by (auto simp: file_ok_def)

lemma fblksI: "i < MAXFILE \<Longrightarrow> blk_of d V i \<noteq> 0 \<Longrightarrow> blk_of d V i \<in> fblks d V"
  and fblks_ind: "di_addrs d ! NDIRECT \<noteq> 0 \<Longrightarrow> di_addrs d ! NDIRECT \<in> fblks d V"
  by (auto simp: fblks_def)

lemma blk_of_cong:
  "di_addrs d' = di_addrs d \<Longrightarrow> (di_addrs d ! NDIRECT \<noteq> 0 \<Longrightarrow> V' (di_addrs d ! NDIRECT) = V (di_addrs d ! NDIRECT)) \<Longrightarrow> blk_of d' V' = blk_of d V"
  by (auto simp: blk_of_def fun_eq_iff)

lemma file_same:
  assumes "di_addrs d' = di_addrs d" and "\<And>b. b \<in> fblks d V \<Longrightarrow> V' b = V b"
  shows "blk_of d' V' = blk_of d V" and "fblks d' V' = fblks d V"
    and "i < MAXFILE * BSIZE \<Longrightarrow> fbyte d' V' i = fbyte d V i" and "(\<And>b. b \<in> fblks d V \<Longrightarrow> U b \<Longrightarrow> U' b) \<Longrightarrow> file_ok U d V \<Longrightarrow> file_ok U' d' V'"
proof -
  show b: "blk_of d' V' = blk_of d V" using assms fblks_ind by (intro blk_of_cong) auto
  show f: "fblks d' V' = fblks d V" by (simp add: fblks_def b assms(1))
  show "fbyte d' V' i = fbyte d V i" if "i < MAXFILE * BSIZE"
    using that assms(2) [OF fblksI [of "i div BSIZE" d V]] by (auto simp: fbyte_def b)
  show "file_ok U' d' V'" if "\<And>b. b \<in> fblks d V \<Longrightarrow> U b \<Longrightarrow> U' b" "file_ok U d V"
    using that by (simp add: file_ok_def b f assms(1))
qed

lemma get32_zeros: "4 * i + 4 \<le> n \<Longrightarrow> get32 (replicate n 0) (4 * i) = 0"
  by (simp add: get32_def get_at_def min_def numeral_eq_Suc)

text \<open>A fresh block becomes block \<open>bn\<close> of the file.\<close>

lemma file_grow:
  assumes ok: "file_ok U d V" and b: "b \<noteq> 0" "b \<notin> fblks d V" "V' b = replicate BSIZE 0" "U' b"
    and d': "length (di_addrs d') = 13" "di_addrs d' ! NDIRECT = di_addrs d ! NDIRECT"
    and bn: "bn < MAXFILE" "blk_of d V bn = 0" "\<And>i. i < MAXFILE \<Longrightarrow> blk_of d' V' i = (if i = bn then b else blk_of d V i)"
    and V: "\<And>c. c \<in> fblks d V \<Longrightarrow> c \<noteq> di_addrs d ! NDIRECT \<Longrightarrow> V' c = V c" and U: "\<And>c. c \<in> fblks d V \<Longrightarrow> U c \<Longrightarrow> U' c"
  shows "file_ok U' d' V'" and "i < MAXFILE * BSIZE \<Longrightarrow> fbyte d' V' i = fbyte d V i" and "fblks d' V' = insert b (fblks d V)"
proof -
  have "blk_of d' V' ` {..<MAXFILE} - {0} = insert b (blk_of d V ` {..<MAXFILE} - {0})"
    using bn b(1) by (auto simp: image_iff)
  then show f: "fblks d' V' = insert b (fblks d V)" using b(1) unfolding fblks_def d'(2) by auto
  have fresh: "blk_of d V i \<noteq> b" "b \<noteq> blk_of d V i" if "i < MAXFILE" for i using fblksI [OF that, of d V] b(1,2) by auto
  have ind: "di_addrs d ! NDIRECT \<noteq> b" using fblks_ind [of d V] b(1,2) by auto
  show "file_ok U' d' V'" unfolding file_ok_def f
    using d' file_okD [OF ok] b bn(3) U fresh ind by (auto split: if_splits)
  show "fbyte d' V' i = fbyte d V i" if i: "i < MAXFILE * BSIZE"
  proof -
    have m: "i div BSIZE < MAXFILE" using i by auto
    show ?thesis
    proof (cases "blk_of d V (i div BSIZE) = 0")
      case True
      then show ?thesis using m b(3) bn by (auto simp: fbyte_def)
    next
      case False
      then have "V' (blk_of d V (i div BSIZE)) = V (blk_of d V (i div BSIZE))"
        using V [OF fblksI [OF m False]] file_okD(4) [OF ok m False] by auto
      then show ?thesis using m False bn by (auto simp: fbyte_def)
    qed
  qed
qed

text \<open>The indirect block appears.\<close>

lemma file_indirect:
  assumes ok: "file_ok U d V" and z: "di_addrs d ! NDIRECT = 0" and b: "b \<noteq> 0" "b \<notin> fblks d V" "V' b = replicate BSIZE 0" "U' b"
    and d': "di_addrs d' = (di_addrs d)[NDIRECT := b]"
    and V: "\<And>c. c \<in> fblks d V \<Longrightarrow> V' c = V c" and U: "\<And>c. c \<in> fblks d V \<Longrightarrow> U c \<Longrightarrow> U' c"
  shows "file_ok U' d' V'" and "i < MAXFILE * BSIZE \<Longrightarrow> fbyte d' V' i = fbyte d V i" and "fblks d' V' = insert b (fblks d V)"
    and "i < MAXFILE \<Longrightarrow> blk_of d' V' i = blk_of d V i"
proof -
  note l = file_okD(1) [OF ok]
  show bl: "blk_of d' V' i = blk_of d V i" if "i < MAXFILE" for i
    using that z b(1,3) l get32_zeros [of "i - NDIRECT" BSIZE] by (auto simp: blk_of_def d')
  then have im: "blk_of d' V' ` {..<MAXFILE} = blk_of d V ` {..<MAXFILE}" by (intro image_cong) auto
  show f: "fblks d' V' = insert b (fblks d V)" unfolding fblks_def im using b(1) z l by (auto simp: d')
  have fresh: "blk_of d V i \<noteq> b" "b \<noteq> blk_of d V i" if "i < MAXFILE" for i using fblksI [OF that, of d V] b(1,2) by auto
  show "file_ok U' d' V'" unfolding file_ok_def f using file_okD [OF ok] b bl U fresh by (auto simp: d')
  show "fbyte d' V' i = fbyte d V i" if i: "i < MAXFILE * BSIZE"
    using i bl [of "i div BSIZE"] V [OF fblksI [of "i div BSIZE"]] by (auto simp: fbyte_def)
qed

subsection \<open>Files of a state\<close>

definition data_used :: "'a fs_st_scheme \<Rightarrow> u32 \<Rightarrow> bool" where
  "data_used s b \<longleftrightarrow> data_start (sb s) \<le> unat b \<and> unat b < unat (sb_size (sb s)) \<and> used s b"

definition inode_ok :: "'a fs_st_scheme \<Rightarrow> nat \<Rightarrow> bool" where
  "inode_ok s ip \<longleftrightarrow> i_dev (inodes s ip) = ROOTDEV \<and> file_ok (data_used s) (i_d (inodes s ip)) (view s)"

abbreviation content :: "'a fs_st_scheme \<Rightarrow> nat \<Rightarrow> nat \<Rightarrow> u8" where
  "content s ip \<equiv> fbyte (i_d (inodes s ip)) (view s)"

abbreviation block_at :: "'a fs_st_scheme \<Rightarrow> nat \<Rightarrow> nat \<Rightarrow> u32" where
  "block_at s ip bn \<equiv> blk_of (i_d (inodes s ip)) (view s) bn"

abbreviation blocks_of :: "'a fs_st_scheme \<Rightarrow> nat \<Rightarrow> u32 set" where
  "blocks_of s ip \<equiv> fblks (i_d (inodes s ip)) (view s)"

lemma data_used_ne0: "layout s \<Longrightarrow> data_used s b \<Longrightarrow> b \<noteq> 0"
  by (auto simp: data_used_def layout_def data_start_def)

lemma data_used_split: "data_used s b \<Longrightarrow> b \<notin> bm_blocks (sb s) \<and> b \<notin> free_blocks s"
  by (auto simp: data_used_def bm_blocks_def free_blocks_def)

lemma took_data:
  assumes "fs_tx k H S s" and "took k H S s b t"
  shows "data_used t b" and "b \<noteq> 0" and "b \<notin> bm_blocks (sb s)" and "\<not> data_used s b" and "view t b = replicate BSIZE 0"
    and "data_used s c \<Longrightarrow> data_used t c" and "c \<notin> bm_blocks (sb s) \<Longrightarrow> c \<notin> free_blocks s \<Longrightarrow> view t c = view s c"
proof -
  note l = took_law [OF assms]
  have f: "b \<in> free_blocks s" "tx_only s t" using assms(2) by (auto simp: took_def)
  note d = free_data [OF _ f(1)] and lay = assms(1) [unfolded fs_tx_def]
  have sbt: "sb t = sb s" using tx_only_fs(1) [OF f(2)] .
  show "data_used t b" using d l(3) lay by (auto simp: data_used_def sbt)
  show "b \<noteq> 0" using d lay by (auto simp: layout_def data_start_def)
  show "b \<notin> bm_blocks (sb s)" using d lay by (auto simp: bm_blocks_def)
  show "\<not> data_used s b" using f(1) by (simp add: data_used_def free_blocks_def)
  show "view t b = replicate BSIZE 0" using assms(2) by (simp add: took_def)
  show "data_used s c \<Longrightarrow> data_used t c" using l(4) by (auto simp: data_used_def sbt)
  have "BBLOCK b (sb s) \<in> bm_blocks (sb s)" using BBLOCK_bm [of s b] lay d by simp
  then show "c \<notin> bm_blocks (sb s) \<Longrightarrow> c \<notin> free_blocks s \<Longrightarrow> view t c = view s c" using assms(2) f(1) by (auto simp: took_def)
qed

text \<open>What an operation on inode \<open>ip\<close> may change: its copy of the disk inode, the cache and the log.\<close>

definition file_only :: "nat \<Rightarrow> 'a fs_st_scheme \<Rightarrow> 'a fs_st_scheme \<Rightarrow> bool" where
  "file_only ip s t \<longleftrightarrow> (\<exists>d. tx_only (upd_d ip (\<lambda>_. d) s) t)"

lemma upd_d_simps [simp]:
  "held (upd_d ip f s) = held s" "procs (upd_d ip f s) = procs s" "cur (upd_d ip f s) = cur s" "mem (upd_d ip f s) = mem s" "sb (upd_d ip f s) = sb s"
  "klog (upd_d ip f s) = klog s" "bufs (upd_d ip f s) = bufs s" "disk (upd_d ip f s) = disk s" "slocks (upd_d ip f s) = slocks s" "dwrites (upd_d ip f s) = dwrites s"
  "inodes (upd_d ip f s) = (inodes s)(ip := (inodes s ip)\<lparr>i_d := f (i_d (inodes s ip))\<rparr>)" "freelist (upd_d ip f s) = freelist s"
  by (simp_all add: upd_d_def upd_inode_def)

lemma upd_d_view [simp]: "view (upd_d ip f s) = view s" "rc (upd_d ip f s) = rc s" "lk (upd_d ip f s) = lk s" "buf_of (upd_d ip f s) = buf_of s"
  by (simp_all add: view_def rc_def lk_def buf_of_def fun_eq_iff cong: option.case_cong if_cong)

lemma upd_d_used [simp]: "used (upd_d ip f s) = used s" "free_blocks (upd_d ip f s) = free_blocks s" "home (upd_d ip f s) = home s"
  by (simp_all add: used_def free_blocks_def home_def fun_eq_iff)

lemma upd_d_tx [simp]: "in_tx k H S (upd_d ip f s) = in_tx k H S s" "layout (upd_d ip f s) = layout s" "meta_used (upd_d ip f s) = meta_used s"
  "data_used (upd_d ip f s) = data_used s" "fs_tx k H S (upd_d ip f s) = fs_tx k H S s"
  by (auto simp: in_tx_def ready_def bio_ok_def calm_def layout_def meta_used_def data_used_def fs_tx_def fun_eq_iff)

lemma tx_only_upd_d: "tx_only s t \<Longrightarrow> tx_only (upd_d ip (\<lambda>_. d) s) (upd_d ip (\<lambda>_. d) t)"
proof -
  assume "tx_only s t"
  then obtain n bl where b: "bio_only (upd_log (\<lambda>l. l\<lparr>lh_n := n, lh_block := bl\<rparr>) s) t" by (auto simp: tx_only_def)
  then have "bio_only (upd_log (\<lambda>l. l\<lparr>lh_n := n, lh_block := bl\<rparr>) (upd_d ip (\<lambda>_. d) s)) (upd_d ip (\<lambda>_. d) t)"
    by (elim bio_onlyE) (simp add: upd_log_def upd_d_def upd_inode_def bio_only_def)
  then show ?thesis by (auto simp: tx_only_def)
qed

lemma file_only_trans:
  assumes "file_only ip s t" and "file_only ip t u" shows "file_only ip s u"
proof -
  obtain d e where "tx_only (upd_d ip (\<lambda>_. d) s) t" "tx_only (upd_d ip (\<lambda>_. e) t) u" using assms by (auto simp: file_only_def)
  moreover have "upd_d ip (\<lambda>_. e) (upd_d ip (\<lambda>_. d) s) = upd_d ip (\<lambda>_. e) s" by (simp add: upd_d_def upd_inode_def)
  ultimately show ?thesis unfolding file_only_def using tx_only_upd_d tx_only_trans by metis
qed

lemma file_only_upd: "tx_only s t \<Longrightarrow> file_only ip s (upd_d ip f t)"
  using tx_only_upd_d [of s t ip "f (i_d (inodes t ip))"] by (auto simp: file_only_def upd_d_def upd_inode_def)

lemma file_only_tx: "tx_only s t \<Longrightarrow> file_only ip s t"
  using file_only_upd [of s t ip "\<lambda>d. d"] by (simp add: upd_d_def upd_inode_def)

lemma file_only_fields:
  assumes "file_only ip s t"
  shows "held t = held s" "cur t = cur s" "mem t = mem s" "sb t = sb s" "lg_start (klog t) = lg_start (klog s)" "home t = home s"
    "woke (procs s) (procs t)" "slocks t (InodeLock k) = slocks s (InodeLock k)" "j \<noteq> ip \<Longrightarrow> inodes t j = inodes s j"
    "inodes t ip = (inodes s ip)\<lparr>i_d := i_d (inodes t ip)\<rparr>"
proof -
  obtain d where t: "tx_only (upd_d ip (\<lambda>_. d) s) t" using assms by (auto simp: file_only_def)
  show "held t = held s" "cur t = cur s" "mem t = mem s" "sb t = sb s" "lg_start (klog t) = lg_start (klog s)" "home t = home s"
    "woke (procs s) (procs t)" "slocks t (InodeLock k) = slocks s (InodeLock k)" "j \<noteq> ip \<Longrightarrow> inodes t j = inodes s j"
    "inodes t ip = (inodes s ip)\<lparr>i_d := i_d (inodes t ip)\<rparr>"
    using tx_only_fields [OF t] tx_only_fs [OF t] by (auto simp: fun_eq_iff)
qed

subsection \<open>Growth\<close>

text \<open>What working on the file of \<open>ip\<close> keeps: it is still well-formed, at most \<open>c\<close> more blocks are logged and at most
  \<open>n\<close> blocks taken, and neither the disk nor a block in use outside the file is touched.\<close>

definition changes :: "int \<Rightarrow> nat \<Rightarrow> nat \<Rightarrow> nat \<Rightarrow> u32 set \<Rightarrow> 'a fs_st_scheme \<Rightarrow> u32 set \<Rightarrow> 'a fs_st_scheme \<Rightarrow> bool" where
  "changes k c n ip S s S' t \<longleftrightarrow> fs_tx k {} S' t \<and> file_only ip s t \<and> inode_ok t ip \<and> disk t = disk s \<and>
     S \<subseteq> S' \<and> card S' \<le> card S + c \<and> free_blocks t \<subseteq> free_blocks s \<and> card (free_blocks s) \<le> card (free_blocks t) + n \<and>
     (\<forall>c. c \<notin> bm_blocks (sb s) \<and> c \<notin> free_blocks s \<and> c \<notin> blocks_of s ip \<longrightarrow> view t c = view s c) \<and>
     blocks_of t ip \<subseteq> blocks_of s ip \<union> free_blocks s \<and> (\<exists>as. i_d (inodes t ip) = (i_d (inodes s ip))\<lparr>di_addrs := as\<rparr>)"

text \<open>The file got at most \<open>n\<close> new blocks, and the bytes in it are as before.\<close>

definition grows :: "int \<Rightarrow> nat \<Rightarrow> nat \<Rightarrow> u32 set \<Rightarrow> 'a fs_st_scheme \<Rightarrow> u32 set \<Rightarrow> 'a fs_st_scheme \<Rightarrow> bool" where
  "grows k n ip S s S' t \<longleftrightarrow> changes k (3 * n) n ip S s S' t \<and> (\<forall>i<MAXFILE * BSIZE. content t ip i = content s ip i) \<and>
     (\<forall>j<MAXFILE. block_at s ip j \<noteq> 0 \<longrightarrow> block_at t ip j = block_at s ip j)"

lemma changesD:
  assumes "changes k c n ip S s S' t"
  shows "fs_tx k {} S' t" "file_only ip s t" "inode_ok t ip" "disk t = disk s"
    "S \<subseteq> S'" "card S' \<le> card S + c" "free_blocks t \<subseteq> free_blocks s" "card (free_blocks s) \<le> card (free_blocks t) + n"
    "b \<notin> bm_blocks (sb s) \<Longrightarrow> b \<notin> free_blocks s \<Longrightarrow> b \<notin> blocks_of s ip \<Longrightarrow> view t b = view s b"
    "blocks_of t ip \<subseteq> blocks_of s ip \<union> free_blocks s" "isize ip t = isize ip s" "\<exists>as. i_d (inodes t ip) = (i_d (inodes s ip))\<lparr>di_addrs := as\<rparr>"
  using assms by (auto simp: changes_def isize_def)

lemma growsD:
  assumes "grows k n ip S s S' t"
  shows "changes k (3 * n) n ip S s S' t" "i < MAXFILE * BSIZE \<Longrightarrow> content t ip i = content s ip i"
    "j < MAXFILE \<Longrightarrow> block_at s ip j \<noteq> 0 \<Longrightarrow> block_at t ip j = block_at s ip j"
  using assms by (auto simp: grows_def)

lemma changes_trans:
  assumes "changes k c n ip S s S' t" and "changes k d m ip S' t S'' u"
  shows "changes k (c + d) (n + m) ip S s S'' u"
proof -
  note a = changesD [OF assms(1)] and b = changesD [OF assms(2)]
  have sbt: "sb t = sb s" using file_only_fields(4) [OF a(2)] .
  have "\<exists>as. i_d (inodes u ip) = (i_d (inodes s ip))\<lparr>di_addrs := as\<rparr>" using a(12) b(12) by auto
  moreover have "view u c = view s c" if "c \<notin> bm_blocks (sb s)" "c \<notin> free_blocks s" "c \<notin> blocks_of s ip" for c
    using a(7,9,10) b(9) [of c] that by (auto simp: sbt)
  moreover have "blocks_of u ip \<subseteq> blocks_of s ip \<union> free_blocks s" using b(10) a(7,10) by blast
  ultimately show ?thesis unfolding changes_def
    using a b file_only_trans [OF a(2) b(2)] by auto
qed

lemma grows_trans:
  assumes "grows k n ip S s S' t" and "grows k m ip S' t S'' u"
  shows "grows k (n + m) ip S s S'' u"
  using assms changes_trans [OF growsD(1) [OF assms(1)] growsD(1) [OF assms(2)]] by (simp add: grows_def add_mult_distrib2)

lemma changes_refl: "fs_tx k {} S s \<Longrightarrow> inode_ok s ip \<Longrightarrow> changes k c n ip S s S s"
proof -
  assume a: "fs_tx k {} S s" "inode_ok s ip"
  have "\<exists>as. i_d (inodes s ip) = (i_d (inodes s ip))\<lparr>di_addrs := as\<rparr>" by (rule exI [of _ "di_addrs (i_d (inodes s ip))"]) simp
  then show ?thesis using a file_only_tx [OF tx_only_refl] by (auto simp: changes_def)
qed

lemma changes_mono: "changes k c n ip S s S' t \<Longrightarrow> c \<le> c' \<Longrightarrow> n \<le> m \<Longrightarrow> changes k c' m ip S s S' t"
  by (fastforce simp: changes_def)

lemma grows_refl: "fs_tx k {} S s \<Longrightarrow> inode_ok s ip \<Longrightarrow> grows k n ip S s S s"
  by (simp add: grows_def changes_refl)

lemma grows_mono: "grows k n ip S s S' t \<Longrightarrow> n \<le> m \<Longrightarrow> grows k m ip S s S' t"
  by (auto simp: grows_def elim: changes_mono)

lemma changes_bio:
  assumes "changes k c n ip S s S' t" and "in_tx k {} S' u" and "bio_only t u" and "view u = view t" and "disk u = disk t"
  shows "changes k c n ip S s S' u"
proof -
  note f = bio_only_fs [OF assms(3)]
  have e: "used u = used t" "free_blocks u = free_blocks t" "meta_used u = meta_used t" "data_used u = data_used t" "layout u = layout t"
    using same_view [OF f(1) assms(4)] layout_frame [of u t] f by (auto simp: data_used_def fun_eq_iff)
  have "file_only ip s u" using assms(1,3) file_only_trans file_only_tx bio_only_tx unfolding changes_def by blast
  then show ?thesis using assms(1,2,4,5) e f by (auto simp: changes_def fs_tx_def inode_ok_def)
qed

lemma grows_bio:
  assumes "grows k n ip S s S' t" and "in_tx k {} S' u" and "bio_only t u" and "view u = view t" and "disk u = disk t"
  shows "grows k n ip S s S' u"
  using assms changes_bio [OF _ assms(2-5)] bio_only_fs(2) [OF assms(3)] by (auto simp: grows_def)

lemma card_two: "card (insert a (insert b S)) \<le> card (S :: u32 set) + 2"
  by (simp add: card_insert_if)

lemma bmap_slot_new:
  assumes tx: "fs_tx k {} S s" and ok: "inode_ok s ip" and j: "j < 13" "addr_of ip j s = 0" and f: "free_blocks s \<noteq> {}" and room: "card S \<le> 27"
  shows "\<exists>b t. bmap_slot ip j s = Some (b, t) \<and> grows k 1 ip S s ({b, BBLOCK b (sb s)} \<union> S) t \<and> b \<noteq> 0 \<and>
    i_d (inodes t ip) = (i_d (inodes s ip))\<lparr>di_addrs := (di_addrs (i_d (inodes s ip)))[j := b]\<rparr> \<and> (j < NDIRECT \<longrightarrow> blk_of (i_d (inodes t ip)) (view t) j = b)"
proof -
  let ?d = "i_d (inodes s ip)"
  have dev: "i_dev (inodes s ip) = ROOTDEV" and fo: "file_ok (data_used s) ?d (view s)" using ok by (simp_all add: inode_ok_def)
  obtain b t where t: "balloc ROOTDEV s = Some (b, t)" "took k {} S s b t" using balloc_law [OF tx] f room by auto
  note D = took_data [OF tx t(2)] and l = took_law [OF tx t(2)]
  have tk: "tx_only s t" "disk t = disk s" "b \<in> free_blocks s" using t(2) by (auto simp: took_def)
  have it: "inodes t = inodes s" "sb t = sb s" using tx_only_fs [OF tk(1)] by auto
  let ?u = "set_addr ip j b t" and ?e = "?d\<lparr>di_addrs := (di_addrs ?d)[j := b]\<rparr>"
  have u: "bmap_slot ip j s = Some (b, ?u)" using j(2) t(1) dev by (simp add: bmap_slot_def)
  have id: "i_d (inodes ?u ip) = ?e" "view ?u = view t" "data_used ?u = data_used t" by (simp_all add: set_addr_def it)
  have V: "view t c = view s c" "data_used t c" if "c \<in> fblks ?d (view s)" for c
    using file_okD(2) [OF fo that] data_used_split D(6,7) by blast+
  have nb: "b \<notin> fblks ?d (view s)" using file_okD(2) [OF fo] D(4) by blast
  note la = file_okD(1) [OF fo]
  have "file_ok (data_used t) ?e (view t) \<and> (\<forall>i<MAXFILE * BSIZE. fbyte ?e (view t) i = content s ip i) \<and>
      fblks ?e (view t) = insert b (fblks ?d (view s)) \<and> (\<forall>i<MAXFILE. block_at s ip i \<noteq> 0 \<longrightarrow> blk_of ?e (view t) i = block_at s ip i)"
  proof (cases "j = NDIRECT")
    case True
    show ?thesis using file_indirect [where d' = ?e and V' = "view t" and U' = "data_used t" and b = b, OF fo _ D(2) nb D(5,1)] j True V by (simp add: addr_of_def)
  next
    case False
    then have jd: "j < NDIRECT" using j(1) by simp
    have bl: "blk_of ?e (view t) i = (if i = j then b else blk_of ?d (view s) i)" for i
      using la jd V(1) [OF fblks_ind] by (auto simp: blk_of_def nth_list_update)
    have z: "blk_of ?d (view s) j = 0" using j jd by (simp add: blk_of_def addr_of_def)
    have e: "length (di_addrs ?e) = 13" "di_addrs ?e ! NDIRECT = di_addrs ?d ! NDIRECT" using la jd by simp_all
    have jm: "j < MAXFILE" using jd by simp
    note g = file_grow [where d' = ?e and V' = "view t" and U' = "data_used t" and b = b, OF fo D(2) nb D(5,1) e jm z bl V(1) V(2)]
    show ?thesis using g bl z by auto
  qed
  then have F: "file_ok (data_used t) ?e (view t)" "\<forall>i<MAXFILE * BSIZE. fbyte ?e (view t) i = content s ip i" "fblks ?e (view t) = insert b (fblks ?d (view s))"
    "\<forall>i<MAXFILE. block_at s ip i \<noteq> 0 \<longrightarrow> blk_of ?e (view t) i = block_at s ip i" by auto
  have "grows k 1 ip S s ({b, BBLOCK b (sb s)} \<union> S) ?u" unfolding grows_def changes_def
  proof (intro conjI)
    show "fs_tx k {} ({b, BBLOCK b (sb s)} \<union> S) ?u" using l(2) by (simp add: set_addr_def)
    show "file_only ip s ?u" unfolding set_addr_def by (rule file_only_upd [OF tk(1)])
    show "inode_ok ?u ip" unfolding inode_ok_def id using F(1) dev by (simp add: set_addr_def it)
    show "\<forall>i<MAXFILE * BSIZE. content ?u ip i = content s ip i" unfolding id by (rule F(2))
    show "\<forall>i<MAXFILE. block_at s ip i \<noteq> 0 \<longrightarrow> block_at ?u ip i = block_at s ip i" unfolding id by (rule F(4))
    show "card ({b, BBLOCK b (sb s)} \<union> S) \<le> card S + 3 * 1" using card_two [of b "BBLOCK b (sb s)" S] by simp
    show "free_blocks ?u \<subseteq> free_blocks s" "card (free_blocks s) \<le> card (free_blocks ?u) + 1" using l(1) tk(3) by (auto simp: set_addr_def)
    show "\<forall>c. c \<notin> bm_blocks (sb s) \<and> c \<notin> free_blocks s \<and> c \<notin> blocks_of s ip \<longrightarrow> view ?u c = view s c" unfolding id using D(7) by blast
    show "blocks_of ?u ip \<subseteq> blocks_of s ip \<union> free_blocks s" unfolding id F(3) using tk(3) by blast
    show "\<exists>as. i_d (inodes ?u ip) = ?d\<lparr>di_addrs := as\<rparr>" unfolding id by blast
  qed (use tk(2) in \<open>auto simp: set_addr_def\<close>)
  moreover have "j < NDIRECT \<longrightarrow> blk_of (i_d (inodes ?u ip)) (view ?u) j = b" unfolding id using la by (simp add: blk_of_def)
  ultimately show ?thesis using u D(2) id(1) by (intro exI [of _ b] exI [of _ ?u]) simp
qed

lemma buf_of_data: "buf_of s i b \<Longrightarrow> b_data (bufs s i) = view s b"
  by (simp add: buf_of_def view_def)

lemma set_data_fs [simp]: "sb (set_data i x s) = sb s" "inodes (set_data i x s) = inodes s" "klog (set_data i x s) = klog s"
  by (simp_all add: set_data_def upd_buf_def)

lemma get_put_entry:
  assumes "length bs = BSIZE" and "m < NINDIRECT" and "i < NINDIRECT"
  shows "get32 (put32 (4 * m) v bs) (4 * i) = (if i = m then v else get32 bs (4 * i))"
proof (cases "i = m")
  case False
  then have "4 * i + 4 \<le> 4 * m \<or> 4 * m + 4 \<le> 4 * i" by linarith
  then show ?thesis using assms False by (subst get32_put32_other) auto
qed (use assms in simp)

text \<open>The indirect block \<open>a\<close> gets the entry \<open>b\<close>, which was taken while the buffer of \<open>a\<close> was held.\<close>

lemma entry_grows:
  fixes s :: "'a fs_st_scheme"
  assumes tx: "fs_tx k {} S s" and ok: "inode_ok s ip" and a: "addr_of ip NDIRECT s = a" "a \<noteq> 0" and m: "m < NINDIRECT" "get32 (view s a) (4 * m) = 0"
    and u: "fs_tx k {a} S u" "sb u = sb s" "view u = view s" "took k {a} S u b v"
    and t: "tx_only s t" "in_tx k {} ({a, b, BBLOCK b (sb s)} \<union> S) t" "view t = (view v)(a := put32 (4 * m) b (view s a))" "disk t = disk s"
  shows "grows k 1 ip S s ({a, b, BBLOCK b (sb s)} \<union> S) t \<and> b \<noteq> 0 \<and> blk_of (i_d (inodes t ip)) (view t) (NDIRECT + m) = b"
proof -
  let ?d = "i_d (inodes s ip)"
  have d: "in_tx k {} S s" "layout s" using tx by (simp_all add: fs_tx_def)
  have fo: "file_ok (data_used s) ?d (view s)" and dev: "i_dev (inodes s ip) = ROOTDEV" using ok by (simp_all add: inode_ok_def)
  have aN: "di_addrs ?d ! NDIRECT = a" using a by (simp add: addr_of_def)
  have af: "a \<in> fblks ?d (view s)" using fblks_ind [of ?d "view s"] a aN by simp
  have ad: "data_used s a" using file_okD(2) [OF fo af] .
  note su = same_view [OF u(2,3)] and ft = tx_only_fs [OF t(1)]
  have du: "data_used u = data_used s" by (simp add: data_used_def su u fun_eq_iff)
  note D = took_data [OF u(1,4), unfolded u(2,3) su du] and l = took_law [OF u(1,4), unfolded u(2) su]
  have bf: "b \<in> free_blocks s" "sb v = sb s" using u(4) tx_only_fs(1) [of u v] u(2) by (auto simp: took_def su)
  have sm: "used t c \<longleftrightarrow> used v c" if "unat c < unat (sb_size (sb s))" for c
  proof -
    have "BBLOCK c (sb s) \<noteq> a" using BBLOCK_bm [OF d(2) that] data_used_split [OF ad] by auto
    then show ?thesis by (simp add: used_def ft bf(2) t(3))
  qed
  have dt: "data_used t = data_used v" "free_blocks t = free_blocks v" using sm bf(2) ft by (auto simp: data_used_def free_blocks_def fun_eq_iff)
  have mt: "meta_used t" "layout t" using l(2) sm d(2) layout_frame [of t s] tx_only_fields(6) [OF t(1)] ft bf(2)
    by (auto simp: fs_tx_def meta_used_def layout_def)
  have nb: "b \<notin> fblks ?d (view s)" using file_okD(2) [OF fo] D(4) by blast
  have ba: "b \<noteq> a" using D(4) ad by auto
  have U: "data_used t c" and Vc: "c \<noteq> di_addrs ?d ! NDIRECT \<Longrightarrow> view t c = view s c" if "c \<in> fblks ?d (view s)" for c
    using file_okD(2) [OF fo that] D(6,7) data_used_split [of s c] by (auto simp: dt t(3) aN)
  have bl: "blk_of ?d (view t) j = (if j = NDIRECT + m then b else blk_of ?d (view s) j)" if "j < MAXFILE" for j
    using get_put_entry [OF in_tx_view_length [OF d(1), of a] m(1), of "j - NDIRECT" b] that a(2) by (auto simp: blk_of_def aN t(3))
  have mm: "NDIRECT + m < MAXFILE" "blk_of ?d (view s) (NDIRECT + m) = 0" using m by (simp_all add: blk_of_def aN)
  have Vb: "view t b = replicate BSIZE 0" "data_used t b" using D(1,5) ba by (simp_all add: t(3) dt)
  note g = file_grow [where d' = ?d and V' = "view t" and U' = "data_used t" and b = b, OF fo D(2) nb Vb file_okD(1) [OF fo] refl mm bl Vc U]
  have "grows k 1 ip S s ({a, b, BBLOCK b (sb s)} \<union> S) t" unfolding grows_def changes_def ft(2)
  proof (intro conjI)
    show "fs_tx k {} ({a, b, BBLOCK b (sb s)} \<union> S) t" using t(2) mt by (simp add: fs_tx_def)
    show "inode_ok t ip" unfolding inode_ok_def ft(2) using g(1) dev by blast
    show "\<forall>i<MAXFILE * BSIZE. fbyte ?d (view t) i = content s ip i" using g(2) by blast
    show "\<forall>i<MAXFILE. block_at s ip i \<noteq> 0 \<longrightarrow> blk_of ?d (view t) i = block_at s ip i" using bl mm(2) by auto
    show "card ({a, b, BBLOCK b (sb s)} \<union> S) \<le> card S + 3 * 1" using card_two [of b "BBLOCK b (sb s)" S] by (simp add: card_insert_if)
    show "free_blocks t \<subseteq> free_blocks s" "card (free_blocks s) \<le> card (free_blocks t) + 1" using l(1) bf(1) by (auto simp: dt)
    show "\<forall>c. c \<notin> bm_blocks (sb s) \<and> c \<notin> free_blocks s \<and> c \<notin> fblks ?d (view s) \<longrightarrow> view t c = view s c" using D(7) af by (auto simp: t(3))
    show "fblks ?d (view t) \<subseteq> fblks ?d (view s) \<union> free_blocks s" using g(3) bf(1) by auto
    show "\<exists>as. ?d = ?d\<lparr>di_addrs := as\<rparr>" by (rule exI [of _ "di_addrs ?d"]) simp
  qed (use file_only_tx [OF t(1)] t(4) in auto)
  then show ?thesis using D(2) bl [OF mm(1)] ft(2) by simp
qed

lemma bmap_entry_new:
  fixes s :: "'a fs_st_scheme"
  assumes tx: "fs_tx k {} S s" and ok: "inode_ok s ip" and a: "addr_of ip NDIRECT s = a" "a \<noteq> 0" and m: "m < NINDIRECT" "get32 (view s a) (4 * m) = 0"
    and f: "free_blocks s \<noteq> {}" and room: "card S \<le> 26"
  shows "\<exists>i u b v w t. bread ROOTDEV a s = Some (i, u) \<and> b_data (bufs u i) = view s a \<and> inodes u = inodes s \<and> balloc ROOTDEV u = Some (b, v) \<and>
    log_write i (set_data i (put32 (4 * m) b (b_data (bufs v i))) v) = Some w \<and> brelse i w = Some t \<and>
    grows k 1 ip S s ({a, b, BBLOCK b (sb s)} \<union> S) t \<and> b \<noteq> 0 \<and> blk_of (i_d (inodes t ip)) (view t) (NDIRECT + m) = b"
proof -
  have d: "in_tx k {} S s" "layout s" "meta_used s" using tx by (simp_all add: fs_tx_def)
  have "a \<in> blocks_of s ip" using fblks_ind [of "i_d (inodes s ip)" "view s"] a by (simp add: addr_of_def)
  then have ad: "data_used s a" using ok file_okD(2) by (auto simp: inode_ok_def)
  have ha: "home s a" using data_home [OF d(2)] ad by (simp add: data_used_def)
  obtain i u where u: "bread ROOTDEV a s = Some (i, u)" "in_tx k {a} S u" "bio_only s u" "buf_of u i a" "b_data (bufs u i) = view s a"
    "view u = view s" "disk u = disk s" using tx_bread [OF d(1), of a] room by auto
  note fu = bio_only_fs [OF u(3)] and su = same_view [OF bio_only_fs(1) [OF u(3)] u(6)]
  have txu: "fs_tx k {a} S u" using u(2) d su(3) layout_frame [of u s] fu by (simp add: fs_tx_def)
  have "card (S \<union> {a}) \<le> 27" using room by (simp add: card_insert_if)
  then obtain b v where v: "balloc ROOTDEV u = Some (b, v)" "took k {a} S u b v"
    using balloc_law [OF txu] f ad data_used_split [OF ad] su by (auto simp: fu data_used_def)
  have tk: "tx_only u v" "disk v = disk u" "buf_of v i a" "in_tx k {a} ({b, BBLOCK b (sb s)} \<union> S) v" using v(2) u(4) fu by (auto simp: took_def)
  have va: "view v a = view s a" using took_data(7) [OF txu v(2), of a] data_used_split [OF ad] fu su u(6) by simp
  let ?x = "put32 (4 * m) b (view s a)" and ?S = "{b, BBLOCK b (sb s)} \<union> S"
  have lx: "length ?x = BSIZE" using in_tx_view_length [OF d(1), of a] m(1) by simp
  note s1 = tx_set [OF tk(4,3) _ lx]
  have b1: "buf_of (set_data i ?x v) i a" using s1(5) tk(3) by simp
  have cS: "card ?S < 29" using card_two [of b "BBLOCK b (sb s)" S] room by simp
  have hv: "home (set_data i ?x v) a" using ha tx_only_fields(7) [OF tk(1)] by (simp add: home_def fu)
  obtain w where w: "log_write i (set_data i ?x v) = Some w" "in_tx k {a} (insert a ?S) w" "tx_only (set_data i ?x v) w" "view w = (view v)(a := ?x)"
    "disk w = disk v" "buf_of w i a" using tx_log_write [OF s1(1) b1 _ hv cS] s1(3,4) b1 by auto
  obtain t where t: "brelse i w = Some t" "in_tx k {} (insert a ?S) t" "bio_only w t" "view t = view w" "disk t = disk w"
    using tx_brelse [OF w(2,6)] by auto
  have st: "tx_only s t" using bio_only_tx [OF u(3)] tk(1) bio_only_tx [OF s1(2)] w(3) bio_only_tx [OF t(3)] tx_only_trans by blast
  have "grows k 1 ip S s ({a, b, BBLOCK b (sb s)} \<union> S) t \<and> b \<noteq> 0 \<and> blk_of (i_d (inodes t ip)) (view t) (NDIRECT + m) = b"
    by (rule entry_grows [OF tx ok a m txu fu(1) u(6) v(2) st]) (use t w tk(2) u(7) in auto)
  moreover have "b_data (bufs v i) = view s a" using buf_of_data [OF tk(3)] va by simp
  ultimately show ?thesis using u(1,5) v(1) w(1) t(1) fu(2) by (intro exI) auto
qed

subsection \<open>Block map\<close>

text \<open>A mapped block is found, and nothing changes.\<close>

lemma bmap_mapped:
  fixes s :: "'a fs_st_scheme"
  assumes tx: "in_tx k {} S s" and dev: "i_dev (inodes s ip) = ROOTDEV" and bn: "bn < MAXFILE" "block_at s ip bn \<noteq> 0" and room: "card S < NBUF"
  shows "\<exists>t. bmap ip bn s = Some (block_at s ip bn, t) \<and> in_tx k {} S t \<and> bio_only s t \<and> view t = view s \<and> disk t = disk s"
proof (cases "bn < NDIRECT")
  case True
  then show ?thesis using bn(2) tx by (intro exI [of _ s]) (simp add: bmap_def bmap_slot_def addr_of_def blk_of_def)
next
  case False
  let ?a = "addr_of ip NDIRECT s"
  have a: "?a \<noteq> 0" "block_at s ip bn = get32 (view s ?a) (4 * (bn - NDIRECT))" using False bn(2) by (auto simp: blk_of_def addr_of_def split: if_splits)
  obtain i u t where u: "bread ROOTDEV ?a s = Some (i, u)" "b_data (bufs u i) = view s ?a" "brelse i u = Some t"
    "in_tx k {} S t" "bio_only s t" "view t = view s" "disk t = disk s" using tx_peek [OF tx, of ?a] room by auto
  have "bmap ip bn s = Some (block_at s ip bn, t)"
    using False bn a u(1-3) dev by (simp add: bmap_def bmap_slot_def Let_def del: One_nat_def)
  then show ?thesis using u by blast
qed

lemma inode_ok_dev: "inode_ok s ip \<Longrightarrow> i_dev (inodes s ip) = ROOTDEV"
  by (simp add: inode_ok_def)

lemma bmap_old:
  assumes tx: "fs_tx k {} S s" and ok: "inode_ok s ip" and bn: "bn < MAXFILE" "block_at s ip bn \<noteq> 0" and room: "card S < NBUF"
  shows "\<exists>t. bmap ip bn s = Some (block_at s ip bn, t) \<and> grows k 0 ip S s S t \<and> block_at t ip bn = block_at s ip bn"
proof -
  have it: "in_tx k {} S s" using tx by (simp add: fs_tx_def)
  obtain t where t: "bmap ip bn s = Some (block_at s ip bn, t)" "in_tx k {} S t" "bio_only s t" "view t = view s" "disk t = disk s"
    using bmap_mapped [OF it inode_ok_dev [OF ok] bn room] by blast
  show ?thesis using t grows_bio [OF grows_refl [OF tx ok] t(2-5)] bio_only_fs(2) [OF t(3)] by auto
qed

lemma bmap_indirect:
  assumes tx: "fs_tx k {} S s" and ok: "inode_ok s ip" and m: "m < NINDIRECT" and a: "addr_of ip NDIRECT s \<noteq> 0" and f: "free_blocks s \<noteq> {}" and room: "card S \<le> 26"
  shows "\<exists>b S' t. bmap ip (NDIRECT + m) s = Some (b, t) \<and> grows k 1 ip S s S' t \<and> b \<noteq> 0 \<and> block_at t ip (NDIRECT + m) = b"
proof (cases "block_at s ip (NDIRECT + m) = 0")
  case False
  have "NDIRECT + m < MAXFILE" "card S < NBUF" using m room by auto
  then show ?thesis using bmap_old [OF tx ok _ False] False grows_mono [where n = 0 and m = 1] by fastforce
next
  case True
  let ?a = "addr_of ip NDIRECT s"
  have e: "get32 (view s ?a) (4 * m) = 0" using True a by (simp add: blk_of_def addr_of_def)
  note dev = inode_ok_dev [OF ok]
  obtain i u b v w t where u: "bread ROOTDEV ?a s = Some (i, u)" "b_data (bufs u i) = view s ?a" "inodes u = inodes s" "balloc ROOTDEV u = Some (b, v)"
    "log_write i (set_data i (put32 (4 * m) b (b_data (bufs v i))) v) = Some w" "brelse i w = Some t"
    "grows k 1 ip S s ({?a, b, BBLOCK b (sb s)} \<union> S) t" "b \<noteq> 0" "block_at t ip (NDIRECT + m) = b"
    using bmap_entry_new [OF tx ok refl a m e f room] by blast
  have "bmap ip (NDIRECT + m) s = Some (b, t)"
    using u(1-6) m a e dev by (simp add: bmap_def bmap_slot_def Let_def)
  then show ?thesis using u(7-9) by blast
qed

lemma bmap_law:
  assumes tx: "fs_tx k {} S s" and ok: "inode_ok s ip" and bn: "bn < MAXFILE" and f: "2 \<le> card (free_blocks s)" and room: "card S \<le> 24"
  shows "\<exists>b S' t. bmap ip bn s = Some (b, t) \<and> grows k 2 ip S s S' t \<and> b \<noteq> 0 \<and> block_at t ip bn = b"
proof -
  have f1: "free_blocks s \<noteq> {}" using f by auto
  consider (dir) "bn < NDIRECT" "addr_of ip bn s = 0" | (old) "bn < NDIRECT" "addr_of ip bn s \<noteq> 0"
    | (ind) m where "bn = NDIRECT + m" "m < NINDIRECT" "addr_of ip NDIRECT s \<noteq> 0"
    | (new) m where "bn = NDIRECT + m" "m < NINDIRECT" "addr_of ip NDIRECT s = 0"
  proof (cases "bn < NDIRECT")
    case False
    then have "bn = NDIRECT + (bn - NDIRECT)" "bn - NDIRECT < NINDIRECT" using bn by auto
    then show ?thesis using ind new by blast
  qed (use dir old in blast)
  then show ?thesis
  proof cases
    case dir
    then have "bmap ip bn s = bmap_slot ip bn s" by (simp add: bmap_def)
    moreover have "bn < 13" "card S \<le> 27" using dir room by auto
    ultimately show ?thesis using bmap_slot_new [OF tx ok _ dir(2) f1] dir(1) grows_mono [where n = 1 and m = 2] by fastforce
  next
    case old
    then have "block_at s ip bn \<noteq> 0" by (simp add: blk_of_def addr_of_def)
    then show ?thesis using bmap_old [OF tx ok bn] room grows_mono [where n = 0 and m = 2] by fastforce
  next
    case ind
    then show ?thesis using bmap_indirect [OF tx ok ind(2,3) f1] room grows_mono [where n = 1 and m = 2] by fastforce
  next
    case new
    obtain b t where t: "bmap_slot ip NDIRECT s = Some (b, t)" "grows k 1 ip S s ({b, BBLOCK b (sb s)} \<union> S) t" "b \<noteq> 0"
      "i_d (inodes t ip) = (i_d (inodes s ip))\<lparr>di_addrs := (di_addrs (i_d (inodes s ip)))[NDIRECT := b]\<rparr>"
      using bmap_slot_new [OF tx ok _ new(3) f1] room by auto
    note g = changesD [OF growsD(1) [OF t(2)]]
    have "length (di_addrs (i_d (inodes s ip))) = 13" using ok file_okD(1) by (auto simp: inode_ok_def)
    then have a: "addr_of ip NDIRECT t = b" by (simp add: addr_of_def t(4))
    have same: "bmap ip bn s = bmap ip bn t" using t(1,3) a by (simp add: bmap_def new(1) bmap_slot_def [of _ _ t])
    have "free_blocks t \<noteq> {}" using g(8) f by auto
    moreover have "card ({b, BBLOCK b (sb s)} \<union> S) \<le> 26" using card_two [of b "BBLOCK b (sb s)" S] room by simp
    ultimately obtain c S' u where "bmap ip bn t = Some (c, u)" "grows k 1 ip ({b, BBLOCK b (sb s)} \<union> S) t S' u" "c \<noteq> 0" "block_at u ip bn = c"
      using bmap_indirect [OF g(1,3) new(2)] a t(3) unfolding new(1) by blast
    then show ?thesis using grows_trans [OF t(2)] same by (fastforce simp: numeral_2_eq_2)
  qed
qed

end
