(* ===== verification/Fs_Data.thy ===== *)
theory Fs_Data
  imports Fs_Bmap Vm_User
begin

text \<open>
  Reading and writing of files.  \<^verbatim>\<open>writei\<close> overwrites a range of the bytes of a file, \<^verbatim>\<open>readi\<close> copies a range out
  of it; the blocks the bytes are in, the indirect block and the log do not show.
\<close>

subsection \<open>One block\<close>

lemma file_write:
  assumes ok: "file_ok U d V" and bn: "bn < MAXFILE" "a = blk_of d V bn" "a \<noteq> 0" and l: "length (V a) = BSIZE" "j + length xs \<le> BSIZE"
  defines "W \<equiv> V(a := put_at j xs (V a))"
  shows "blk_of d W = blk_of d V" and "fblks d W = fblks d V" and "file_ok U d W"
    and "i < MAXFILE * BSIZE \<Longrightarrow> fbyte d W i = (if bn * BSIZE + j \<le> i \<and> i < bn * BSIZE + j + length xs then xs ! (i - (bn * BSIZE + j)) else fbyte d V i)"
proof -
  have "di_addrs d ! NDIRECT \<noteq> a" using file_okD(4) [OF ok bn(1)] bn(2,3) by simp
  then show b: "blk_of d W = blk_of d V" by (intro blk_of_cong) (simp_all add: W_def)
  then show "fblks d W = fblks d V" by (simp add: fblks_def)
  then show "file_ok U d W" using ok b by (simp add: file_ok_def)
  assume i: "i < MAXFILE * BSIZE"
  then have m: "i div BSIZE < MAXFILE" by auto
  show "fbyte d W i = (if bn * BSIZE + j \<le> i \<and> i < bn * BSIZE + j + length xs then xs ! (i - (bn * BSIZE + j)) else fbyte d V i)"
  proof (cases "i div BSIZE = bn")
    case True
    then have e: "i = bn * BSIZE + i mod BSIZE" using div_mult_mod_eq [of i BSIZE] by simp
    define r where "r = i mod BSIZE"
    have r: "r < BSIZE" by (simp add: r_def)
    have "fbyte d W i = W a ! r" "fbyte d V i = V a ! r" using True bn(2,3) b by (simp_all add: fbyte_def r_def)
    moreover have "W a ! r = (if j \<le> r \<and> r < j + length xs then xs ! (r - j) else V a ! r)" using nth_put_at [of j xs "V a" r] l r by (simp add: W_def)
    ultimately show ?thesis using e [folded r_def] by auto
  next
    case False
    then have "blk_of d V (i div BSIZE) \<noteq> a \<or> blk_of d V (i div BSIZE) = 0" using file_okD(3) [OF ok m bn(1)] bn(2) by auto
    moreover have "\<not> (bn * BSIZE + j \<le> i \<and> i < bn * BSIZE + j + length xs)"
    proof
      assume "bn * BSIZE + j \<le> i \<and> i < bn * BSIZE + j + length xs"
      then have "i div BSIZE = bn" using l(2) by (intro div_nat_eqI) auto
      with False show False by simp
    qed
    ultimately show ?thesis using bn(3) unfolding fbyte_def b by (auto simp: W_def)
  qed
qed

text \<open>A change of a data block leaves the free map alone.\<close>

lemma data_write_frame:
  assumes "layout s" and "sb t = sb s" and "a \<notin> bm_blocks (sb s)" and "view t = (view s)(a := x)"
  shows "unat c < unat (sb_size (sb s)) \<Longrightarrow> used t c = used s c" and "free_blocks t = free_blocks s" and "data_used t = data_used s"
    and "meta_used t = meta_used s"
proof -
  show u: "used t c = used s c" if "unat c < unat (sb_size (sb s))" for c
    using BBLOCK_bm [OF assms(1) that] assms(2-4) by (auto simp: used_def)
  show "free_blocks t = free_blocks s" "data_used t = data_used s" using u assms(2) by (auto simp: free_blocks_def data_used_def fun_eq_iff)
  show "meta_used t = meta_used s" using u assms(1,2) by (auto simp: meta_used_def layout_def)
qed

lemma block_write:
  fixes s :: "'a fs_st_scheme"
  assumes tx: "fs_tx k {} S s" and ok: "inode_ok s ip" and bn: "bn < MAXFILE" "block_at s ip bn = a" "a \<noteq> 0" and room: "card S < 29"
    and xs: "j + length xs \<le> BSIZE"
  shows "\<exists>i u v t. bread ROOTDEV a s = Some (i, u) \<and> bio_only s u \<and> log_write i (set_data i (put_at j xs (b_data (bufs u i))) u) = Some v \<and> brelse i v = Some t \<and>
    changes k 1 0 ip S s (insert a S) t \<and> inodes t = inodes s \<and> (\<forall>m<MAXFILE. block_at t ip m = block_at s ip m) \<and>
    (\<forall>i<MAXFILE * BSIZE. content t ip i =
       (if bn * BSIZE + j \<le> i \<and> i < bn * BSIZE + j + length xs then xs ! (i - (bn * BSIZE + j)) else content s ip i))"
proof -
  let ?d = "i_d (inodes s ip)"
  have d: "in_tx k {} S s" "layout s" "meta_used s" using tx by (simp_all add: fs_tx_def)
  have fo: "file_ok (data_used s) ?d (view s)" using ok by (simp add: inode_ok_def)
  have ab: "a \<in> fblks ?d (view s)" using fblksI [OF bn(1), of ?d "view s"] bn(2,3) by simp
  have ad: "data_used s a" using file_okD(2) [OF fo ab] .
  have l: "length (view s a) = BSIZE" using in_tx_view_length [OF d(1)] .
  have h: "home s a" using data_home [OF d(2)] ad by (simp add: data_used_def)
  obtain i u v t where u: "bread ROOTDEV a s = Some (i, u)" "b_data (bufs u i) = view s a" "bio_only s u"
    "log_write i (set_data i (put_at j xs (view s a)) u) = Some v" "brelse i v = Some t" "in_tx k {} (insert a S) t" "tx_only s t"
    "view t = (view s)(a := put_at j xs (view s a))" "disk t = disk s"
    using tx_update [OF d(1) _ h, of "put_at j xs"] l xs room by auto
  note F = file_write [OF fo bn(1) bn(2) [symmetric] bn(3) l xs, folded u(8)] and ft = tx_only_fs [OF u(7)]
  note W = data_write_frame [OF d(2) ft(1) conjunct1 [OF data_used_split [OF ad]] u(8)]
  have "\<exists>as. ?d = ?d\<lparr>di_addrs := as\<rparr>" by (rule exI [of _ "di_addrs ?d"]) simp
  moreover have "fs_tx k {} (insert a S) t" using u(6) W(4) d layout_frame [OF ft(1)] tx_only_fields(6) [OF u(7)] by (simp add: fs_tx_def)
  moreover have "inode_ok t ip" using F(3) ok by (simp add: inode_ok_def ft W(3))
  ultimately have "changes k 1 0 ip S s (insert a S) t"
    unfolding changes_def ft(2) W(2) F(2) using u(8,9) ab file_only_tx [OF u(7)] by (auto simp: card_insert_if)
  then show ?thesis using u F(1,4) ft(2) by (intro exI [of _ i] exI [of _ u] exI [of _ v] exI [of _ t]) auto
qed

subsection \<open>The source of a write\<close>

text \<open>Copying in from \<open>src\<close> gives \<open>xs\<close>, in pieces too, as long as memory and page tables stay.\<close>

definition copies_in :: "bool \<Rightarrow> u64 \<Rightarrow> nat \<Rightarrow> 'a proc_st_scheme \<Rightarrow> bytes \<Rightarrow> bool" where
  "copies_in user_src src n s xs \<longleftrightarrow> length xs = n \<and>
     (\<forall>i m t. i + m \<le> n \<and> mem t = mem s \<and> cur t = cur s \<and> (\<forall>p. pagetable (procs t p) = pagetable (procs s p)) \<longrightarrow>
        either_copyin user_src (src + of_nat i) m (t :: 'a proc_st_scheme) = Some (0, take m (drop i xs)))"

lemma copies_in_kernel: "copies_in False src n s (bytes_at (mem s) src n)"
proof -
  have "bytes_at (mem s) (src + of_nat i) m = take m (drop i (bytes_at (mem s) src n))" if "i + m \<le> n" for i m
    by (rule nth_equalityI) (use that in \<open>auto simp: add.assoc\<close>)
  then show ?thesis by (auto simp: copies_in_def either_copyin_def)
qed

lemma copies_in_user:
  fixes s :: "'a proc_st_scheme"
  assumes "cur s = Some p" and "pagetable (procs s p) = pt" and "pt_wf (mem s) pt T loc" and um: "umapped (mem s) pt src n"
  shows "copies_in True src n s (ubytes (mem s) pt src n)"
proof -
  have "either_copyin True (src + of_nat i) m t = Some (0, take m (drop i (ubytes (mem s) pt src n)))"
    if t: "i + m \<le> n" "mem t = mem s" "cur t = cur s" "\<And>p. pagetable (procs t p) = pagetable (procs s p)" for i m and t :: "'a proc_st_scheme"
  proof -
    have "umapped (mem s) pt (src + of_nat i) m" using um t(1) unfolding umapped_def
      by (metis add.assoc add_less_cancel_left of_nat_add order_less_le_trans)
    then have "copyin pt (src + of_nat i) m t = Some (0, ubytes (mem s) pt (src + of_nat i) m)"
      using copyin_spec [of t pt T loc "src + of_nat i" m] assms(3) t(2) by auto
    moreover have "ubytes (mem s) pt (src + of_nat i) m = take m (drop i (ubytes (mem s) pt src n))"
      unfolding ubytes_def by (rule nth_equalityI) (use t(1) in \<open>auto simp: add.assoc\<close>)
    ultimately show ?thesis using t assms(1,2) by (simp add: either_copyin_def myproc_def)
  qed
  then show ?thesis by (simp add: copies_in_def ubytes_def)
qed

lemma copies_in_step:
  fixes s t :: "'a proc_st_scheme"
  assumes "copies_in u src n s xs" and "m \<le> n" and "mem t = mem s" "cur t = cur s" "\<And>p. pagetable (procs t p) = pagetable (procs s p)"
  shows "copies_in u (src + of_nat m) (n - m) t (drop m xs)" and "either_copyin u src m t = Some (0, take m xs)"
proof -
  have c: "either_copyin u (src + of_nat i) j v = Some (0, take j (drop i xs))"
    if "i + j \<le> n" "mem v = mem s" "cur v = cur s" "\<And>p. pagetable (procs v p) = pagetable (procs s p)" for i j and v :: "'a proc_st_scheme"
    using assms(1) that by (simp add: copies_in_def)
  show "either_copyin u src m t = Some (0, take m xs)" using c [of 0 m t] assms(2-5) by simp
  have "either_copyin u (src + of_nat m + of_nat i) j v = Some (0, take j (drop i (drop m xs)))"
    if "i + j \<le> n - m" "mem v = mem t" "cur v = cur t" "\<forall>p. pagetable (procs v p) = pagetable (procs t p)" for i j and v :: "'a proc_st_scheme"
    using c [of "m + i" j v] that assms(2-5) by (simp add: ac_simps)
  then show "copies_in u (src + of_nat m) (n - m) t (drop m xs)" using assms(1) by (simp add: copies_in_def)
qed

lemma woke_pagetable: "woke P Q \<Longrightarrow> pagetable (Q p) = pagetable (P p)"
  unfolding woke_def by (metis proc.select_convs proc.surjective proc.update_convs(1))

subsection \<open>The loop of a write\<close>

definition nblks :: "nat \<Rightarrow> nat \<Rightarrow> nat" where
  "nblks off n = (if n = 0 then 0 else (off mod BSIZE + n - 1) div BSIZE + 1)"

lemma nblks_step:
  assumes "0 < n" and "m = min n (BSIZE - off mod BSIZE)"
  shows "nblks off n = Suc (nblks (off + m) (n - m))"
proof (cases "n \<le> BSIZE - off mod BSIZE")
  case True
  then have "off mod BSIZE + n - 1 < BSIZE" using assms(1) mod_less_divisor [of BSIZE off] by linarith
  then show ?thesis using True assms by (simp add: nblks_def)
next
  case False
  define r where "r = off mod BSIZE"
  have r: "r < BSIZE" by (simp add: r_def)
  have m: "m = BSIZE - r" using False assms(2) by (simp add: r_def)
  have z: "(off + m) mod BSIZE = 0"
  proof -
    have "off + m = off div BSIZE * BSIZE + BSIZE" using m r div_mult_mod_eq [of off BSIZE] unfolding r_def by linarith
    then show ?thesis by simp
  qed
  have "r + n - 1 = (n - m - 1) + BSIZE" using False m r by (simp add: r_def [symmetric])
  then have "(r + n - 1) div BSIZE = (n - m - 1) div BSIZE + 1" by simp
  moreover have "n - m \<noteq> 0" using False m by (simp add: r_def)
  ultimately show ?thesis using assms(1) unfolding nblks_def z r_def [symmetric] by simp
qed

lemma writei_loop_law:
  fixes s :: "'a fs_st_scheme"
  assumes "fs_tx k {} S s" and "inode_ok s ip" and "off + n \<le> MAXFILE * BSIZE" and "copies_in u src n s xs"
    and "card S + 7 * nblks off n \<le> 28" and "2 * nblks off n \<le> card (free_blocks s)"
  shows "\<exists>S' t. writei_loop ip u src off n s = Some (n, t) \<and> changes k (7 * nblks off n) (2 * nblks off n) ip S s S' t \<and>
    (\<forall>i<MAXFILE * BSIZE. content t ip i = (if off \<le> i \<and> i < off + n then xs ! (i - off) else content s ip i)) \<and>
    (\<forall>j<MAXFILE. block_at s ip j \<noteq> 0 \<or> 0 < n \<and> off div BSIZE \<le> j \<and> j * BSIZE < off + n \<longrightarrow> block_at t ip j \<noteq> 0)"
  using assms
proof (induction n arbitrary: S s off src xs rule: less_induct)
  case (less n)
  show ?case
  proof (cases "n = 0")
    case True
    then show ?thesis using changes_refl [OF less.prems(1,2)]
      by (subst writei_loop.simps) (auto simp: nblks_def intro!: exI [of _ S])
  next
    case False
    define m where "m = min n (BSIZE - off mod BSIZE)"
    define bn where "bn = off div BSIZE"
    have mB: "off mod BSIZE < BSIZE" by simp
    have m: "0 < m" "m \<le> n" "off mod BSIZE + m \<le> BSIZE" using False mB unfolding m_def by linarith+
    have off: "bn * BSIZE + off mod BSIZE = off" by (simp add: bn_def)
    have bnM: "bn < MAXFILE" using less.prems(3) m unfolding bn_def by (simp add: less_mult_imp_div_less)
    have nb: "nblks off n = Suc (nblks (off + m) (n - m))" using nblks_step [OF _ m_def] False by simp
    obtain a S1 t1 where t1: "bmap ip bn s = Some (a, t1)" "grows k 2 ip S s S1 t1" "a \<noteq> 0" "block_at t1 ip bn = a"
      using bmap_law [OF less.prems(1,2) bnM] less.prems(5,6) nb by auto
    note g = changesD [OF growsD(1) [OF t1(2)]]
    have dev: "i_dev (inodes t1 ip) = ROOTDEV" using g(3) by (simp add: inode_ok_def)
    have lx: "length xs = n" using less.prems(4) by (simp add: copies_in_def)
    have c1: "card S1 < 29" using g(6) less.prems(5) nb by simp
    have tk: "off mod BSIZE + length (take m xs) \<le> BSIZE" using m lx by simp
    obtain i u1 v t2 where t2: "bread ROOTDEV a t1 = Some (i, u1)" "bio_only t1 u1"
      "log_write i (set_data i (put_at (off mod BSIZE) (take m xs) (b_data (bufs u1 i))) u1) = Some v" "brelse i v = Some t2"
      "changes k 1 0 ip S1 t1 (insert a S1) t2" "\<forall>m<MAXFILE. block_at t2 ip m = block_at t1 ip m"
      "\<forall>i<MAXFILE * BSIZE. content t2 ip i = (if off \<le> i \<and> i < off + length (take m xs) then take m xs ! (i - off) else content t1 ip i)"
      using block_write [OF g(1,3) bnM t1(4,3) c1 tk] unfolding off by blast
    have fu: "mem u1 = mem s" "cur u1 = cur s" "\<And>p. pagetable (procs u1 p) = pagetable (procs s p)"
      using bio_only_fields [OF t2(2)] file_only_fields [OF g(2)] woke_pagetable by metis+
    note ch = changes_trans [OF growsD(1) [OF t1(2)] t2(5)]
    note d = changesD [OF ch]
    have ft: "mem t2 = mem s" "cur t2 = cur s" "\<And>p. pagetable (procs t2 p) = pagetable (procs s p)"
      using file_only_fields [OF d(2)] woke_pagetable by metis+
    have ci: "either_copyin u src m u1 = Some (0, take m xs)" using copies_in_step(2) [OF less.prems(4) m(2) fu] .
    have room: "card (insert a S1) + 7 * nblks (off + m) (n - m) \<le> 28" using d(6) less.prems(5) nb by simp
    have free: "2 * nblks (off + m) (n - m) \<le> card (free_blocks t2)" using d(8) less.prems(6) nb by simp
    have "n - m < n" "off + m + (n - m) \<le> MAXFILE * BSIZE" using m less.prems(3) by auto
    from less.IH [OF this(1) d(1,3) this(2) copies_in_step(1) [OF less.prems(4) m(2) ft] room free]
    obtain S' t where t: "writei_loop ip u (src + of_nat m) (off + m) (n - m) t2 = Some (n - m, t)"
      "changes k (7 * nblks (off + m) (n - m)) (2 * nblks (off + m) (n - m)) ip (insert a S1) t2 S' t"
      "\<forall>i<MAXFILE * BSIZE. content t ip i = (if off + m \<le> i \<and> i < off + m + (n - m) then drop m xs ! (i - (off + m)) else content t2 ip i)"
      "\<forall>j<MAXFILE. block_at t2 ip j \<noteq> 0 \<or> 0 < n - m \<and> (off + m) div BSIZE \<le> j \<and> j * BSIZE < off + m + (n - m) \<longrightarrow> block_at t ip j \<noteq> 0" by blast
    have "writei_loop ip u src off n s = Some (n, t)"
      using False t1(1) t2(1,3,4) ci t(1) dev m by (subst writei_loop.simps) (simp add: bn_def [symmetric] m_def [symmetric])
    moreover have "changes k (7 * nblks off n) (2 * nblks off n) ip S s S' t" using changes_trans [OF ch t(2)] by (simp add: nb)
    moreover have "content t ip i = (if off \<le> i \<and> i < off + n then xs ! (i - off) else content s ip i)" if i: "i < MAXFILE * BSIZE" for i
      using t(3) [rule_format, OF i] t2(7) [rule_format, OF i] growsD(2) [OF t1(2) i] m lx by (auto simp: not_less)
    moreover have "block_at t ip j \<noteq> 0" if j: "j < MAXFILE" "block_at s ip j \<noteq> 0 \<or> 0 < n \<and> off div BSIZE \<le> j \<and> j * BSIZE < off + n" for j
    proof (cases "block_at t2 ip j = 0")
      case True
      then have "block_at s ip j = 0" "j \<noteq> bn" using growsD(3) [OF t1(2) j(1)] t2(6) j(1) t1(3,4) by auto
      then have "bn < j" using j(2) by (simp add: bn_def)
      then have "Suc bn * BSIZE \<le> j * BSIZE" by (intro mult_le_mono1) simp
      moreover have "off + m \<le> Suc bn * BSIZE" using off m(3) by simp
      ultimately have le: "off + m \<le> j * BSIZE" by simp
      then have "(off + m) div BSIZE \<le> j" using div_le_mono [of "off + m" "j * BSIZE" BSIZE] by simp
      moreover have "j * BSIZE < off + n" using j(2) \<open>block_at s ip j = 0\<close> by auto
      ultimately show ?thesis using t(4) j(1) le m(2) by auto
    qed (use t(4) j(1) in auto)
    ultimately show ?thesis by blast
  qed
qed

subsection \<open>Files as byte strings\<close>

definition file_bytes :: "'a fs_st_scheme \<Rightarrow> nat \<Rightarrow> bytes" where
  "file_bytes s ip = map (content s ip) [0..<unat (isize ip s)]"

text \<open>A file without holes: every block below its size is mapped.\<close>

definition file_in :: "'a fs_st_scheme \<Rightarrow> nat \<Rightarrow> bool" where
  "file_in s ip \<longleftrightarrow> inode_ok s ip \<and> unat (isize ip s) \<le> MAXFILE * BSIZE \<and> unat (i_inum (inodes s ip)) < unat (sb_ninodes (sb s)) \<and>
     (\<forall>j. j * BSIZE < unat (isize ip s) \<longrightarrow> block_at s ip j \<noteq> 0)"

lemma length_file_bytes [simp]: "length (file_bytes s ip) = unat (isize ip s)"
  by (simp add: file_bytes_def)

lemma nth_file_bytes: "i < unat (isize ip s) \<Longrightarrow> file_bytes s ip ! i = content s ip i"
  by (simp add: file_bytes_def)

text \<open>\<^verbatim>\<open>iupdate\<close> writes a block of inodes, which no file shares.\<close>

lemma inode_block_apart: "b \<in> inode_blocks (sb s) \<Longrightarrow> layout s \<Longrightarrow> b \<notin> bm_blocks (sb s) \<and> \<not> data_used s b"
  by (auto simp: inode_blocks_def bm_blocks_def data_used_def data_start_def)

lemma iupdate_file:
  fixes s :: "'a fs_st_scheme"
  assumes tx: "fs_tx k {} S s" and ok: "inode_ok s ip" and n: "unat (i_inum (inodes s ip)) < unat (sb_ninodes (sb s))" and room: "card S < 29"
  defines "B \<equiv> IBLOCK (i_inum (inodes s ip)) (sb s)"
  shows "\<exists>t. iupdate ip s = Some t \<and> fs_tx k {} (insert B S) t \<and> tx_only s t \<and> disk t = disk s \<and> inode_ok t ip \<and>
    (\<forall>i<MAXFILE * BSIZE. content t ip i = content s ip i) \<and> block_at t ip = block_at s ip \<and> (\<forall>c. c \<noteq> B \<longrightarrow> view t c = view s c) \<and>
    free_blocks t = free_blocks s \<and> disk_inode t (i_inum (inodes s ip)) = i_d (inodes s ip)"
proof -
  let ?d = "i_d (inodes s ip)"
  have d: "in_tx k {} S s" "layout s" "meta_used s" using tx by (simp_all add: fs_tx_def)
  have fo: "file_ok (data_used s) ?d (view s)" and dev: "i_dev (inodes s ip) = ROOTDEV" using ok by (simp_all add: inode_ok_def)
  have cs: "IBLOCK (i_inum (inodes s ip)) (sb s) \<notin> {}" "card (S \<union> {}) < 29" using room by simp_all
  obtain t where t: "iupdate ip s = Some t" "in_tx k {} (insert B S) t" "tx_only s t" "disk t = disk s"
    "view t = (view s)(B := put_dinode (ioff (i_inum (inodes s ip))) ?d (view s B))"
    using iupdate_law [OF d(1,2) dev n cs] unfolding B_def by auto
  have B: "B \<in> inode_blocks (sb s)" unfolding B_def using IBLOCK_in [OF d(2) n] .
  note ap = inode_block_apart [OF B d(2)] and ft = tx_only_fs [OF t(3)]
  note W = data_write_frame [OF d(2) ft(1) conjunct1 [OF ap] t(5)]
  have Vs: "view t b = view s b" if "b \<in> fblks ?d (view s)" for b using file_okD(2) [OF fo that] ap t(5) by auto
  note F = file_same [where d = ?d and d' = ?d and V = "view s" and V' = "view t", OF refl Vs]
  have "fs_tx k {} (insert B S) t" using t(2) W(4) d layout_frame [OF ft(1)] tx_only_fields(6) [OF t(3)] by (simp add: fs_tx_def)
  moreover have "inode_ok t ip" using F(4) [where U = "data_used s" and U' = "data_used t"] fo dev by (simp add: inode_ok_def ft W(3))
  moreover have "disk_inode t (i_inum (inodes s ip)) = ?d"
    using iupdate_disk_inode [OF d(1,2) n n ft(1) file_okD(1) [OF fo]] t(5) unfolding B_def by simp
  moreover have "\<forall>c. c \<noteq> B \<longrightarrow> view t c = view s c" using t(5) by simp
  ultimately show ?thesis using t(1,3,4) F(1,3) W(2) ft(2) by (intro exI [of _ t]) auto
qed

lemma writei_law:
  fixes s :: "'a fs_st_scheme" and off n :: nat
  assumes tx: "fs_tx k {} S s" and fi: "file_in s ip" and off: "off \<le> unat (isize ip s)" "off + n \<le> MAXFILE * BSIZE"
    and src: "copies_in u src n s xs" and room: "card S + 7 * nblks off n \<le> 28" and free: "2 * nblks off n \<le> card (free_blocks s)"
  shows "\<exists>S' t. writei ip u src (of_nat off) (of_nat n) s = Some (int n, t) \<and> fs_tx k {} S' t \<and> file_in t ip \<and> file_only ip s t \<and>
    file_bytes t ip = put_at off xs (file_bytes s ip) \<and> disk_inode t (i_inum (inodes s ip)) = i_d (inodes t ip) \<and> disk t = disk s \<and>
    (\<forall>c. c \<notin> bm_blocks (sb s) \<and> c \<notin> free_blocks s \<and> c \<notin> blocks_of s ip \<and> c \<noteq> IBLOCK (i_inum (inodes s ip)) (sb s) \<longrightarrow> view t c = view s c)"
proof -
  let ?z = "isize ip s"
  have f: "inode_ok s ip" "unat ?z \<le> MAXFILE * BSIZE" "unat (i_inum (inodes s ip)) < unat (sb_ninodes (sb s))"
    "\<And>j. j * BSIZE < unat ?z \<Longrightarrow> block_at s ip j \<noteq> 0" using fi by (auto simp: file_in_def)
  obtain S1 t1 where t1: "writei_loop ip u src off n s = Some (n, t1)" "changes k (7 * nblks off n) (2 * nblks off n) ip S s S1 t1"
    "\<forall>i<MAXFILE * BSIZE. content t1 ip i = (if off \<le> i \<and> i < off + n then xs ! (i - off) else content s ip i)"
    "\<forall>j<MAXFILE. block_at s ip j \<noteq> 0 \<or> 0 < n \<and> off div BSIZE \<le> j \<and> j * BSIZE < off + n \<longrightarrow> block_at t1 ip j \<noteq> 0"
    using writei_loop_law [OF tx f(1) off(2) src room free] by blast
  note c1 = changesD [OF t1(2)]
  note ff = file_only_fields [OF c1(2)]
  have u: "unat (of_nat off :: u32) = off" "unat (of_nat n :: u32) = n" "unat (of_nat off + of_nat n :: u32) = off + n"
    using off(2) unat_of_nat32 [of off] unat_of_nat32 [of n] unat_of_nat32 [of "off + n"] by simp_all
  define z where "z = (if unat ?z < off + n then of_nat off + of_nat n else ?z)"
  define t2 where "t2 = upd_d ip (\<lambda>d. d\<lparr>di_size := z\<rparr>) t1"
  have uz: "unat z = max (unat ?z) (off + n)" using u by (simp add: z_def)
  have idem: "upd_d ip (\<lambda>d. d\<lparr>di_size := ?z\<rparr>) t1 = t1" unfolding c1(11) [symmetric] by (simp add: upd_d_def upd_inode_def isize_def)
  have e2: "(if of_nat off + of_nat n > isize ip t1 then upd_d ip (\<lambda>d. d\<lparr>di_size := of_nat off + of_nat n\<rparr>) t1 else t1) = t2"
    using idem u unfolding t2_def z_def by (simp add: word_less_nat_alt c1(11))
  have same: "content t2 ip = content t1 ip" "block_at t2 ip = block_at t1 ip" "blocks_of t2 ip = blocks_of t1 ip"
    by (simp_all add: t2_def fbyte_def blk_of_def fblks_def fun_eq_iff)
  have "file_ok (data_used t1) ((i_d (inodes t1 ip))\<lparr>di_size := z\<rparr>) (view t1)"
    by (rule file_same(4) [where d = "i_d (inodes t1 ip)" and V = "view t1" and U = "data_used t1"]) (use c1(3) in \<open>auto simp: inode_ok_def\<close>)
  then have ok2: "inode_ok t2 ip" using c1(3) by (simp add: inode_ok_def t2_def)
  have tx2: "fs_tx k {} S1 t2" using c1(1) by (simp add: t2_def)
  have in2: "i_inum (inodes t2 ip) = i_inum (inodes s ip)" "sb t2 = sb s" using ff(4,10) by (auto simp: t2_def) (metis inode.select_convs(2) inode.surjective inode.update_convs(5))
  have n2: "unat (i_inum (inodes t2 ip)) < unat (sb_ninodes (sb t2))" using f(3) in2 by simp
  have "card S1 < 29" using c1(6) room by simp
  from iupdate_file [OF tx2 ok2 n2 this, unfolded in2] obtain t where
    t: "iupdate ip t2 = Some t" "fs_tx k {} (insert (IBLOCK (i_inum (inodes s ip)) (sb s)) S1) t" "tx_only t2 t" "disk t = disk t2" "inode_ok t ip"
    "\<forall>i<MAXFILE * BSIZE. content t ip i = content t2 ip i" "block_at t ip = block_at t2 ip"
    "\<forall>c. c \<noteq> IBLOCK (i_inum (inodes s ip)) (sb s) \<longrightarrow> view t c = view t2 c" "disk_inode t (i_inum (inodes s ip)) = i_d (inodes t2 ip)" by blast
  have it: "inodes t = inodes t2" "sb t = sb s" using tx_only_fs [OF t(3)] in2 by auto
  have sz: "isize ip t = z" by (simp add: isize_def it t2_def)
  have fo: "file_only ip s t" using file_only_trans [OF c1(2) file_only_trans [OF file_only_upd [OF tx_only_refl] file_only_tx [OF t(3), unfolded t2_def]]] .
  have "writei ip u src (of_nat off) (of_nat n) s = Some (int n, t)"
    using off t1(1) t(1) e2 u by (simp add: writei_def word_less_nat_alt not_less Let_def)
  moreover have "file_in t ip" unfolding file_in_def sz uz
  proof (intro conjI allI impI)
    show "max (unat ?z) (off + n) \<le> MAXFILE * BSIZE" using f(2) off(2) by simp
    fix j assume j: "j * BSIZE < max (unat ?z) (off + n)"
    then have jM: "j < MAXFILE" using f(2) off(2) by (simp add: max_def split: if_splits)
    have "block_at s ip j \<noteq> 0 \<or> 0 < n \<and> off div BSIZE \<le> j \<and> j * BSIZE < off + n"
    proof (cases "j * BSIZE < unat ?z")
      case False
      then have "off \<le> j * BSIZE" "j * BSIZE < off + n" using off(1) j by auto
      then show ?thesis using div_le_mono [of off "j * BSIZE" BSIZE] by auto
    qed (use f(4) in simp)
    then show "block_at t ip j \<noteq> 0" using t1(4) jM t(7) same(2) by simp
  qed (use t(5) n2 it in2 in simp_all)
  moreover have "file_bytes t ip = put_at off xs (file_bytes s ip)"
  proof (rule nth_equalityI)
    have lx: "length xs = n" using src by (simp add: copies_in_def)
    show len: "length (file_bytes t ip) = length (put_at off xs (file_bytes s ip))" using off(1) lx by (simp add: sz uz put_at_def)
    fix i assume "i < length (file_bytes t ip)"
    then have i: "i < max (unat ?z) (off + n)" "i < MAXFILE * BSIZE" using f(2) off(2) by (auto simp: sz uz)
    then have "file_bytes t ip ! i = (if off \<le> i \<and> i < off + n then xs ! (i - off) else content s ip i)"
      using t(6) t1(3) same(1) by (simp add: nth_file_bytes sz uz)
    also have "\<dots> = put_at off xs (file_bytes s ip) ! i"
      using i off(1) lx by (auto simp: put_at_def nth_append nth_file_bytes)
    finally show "file_bytes t ip ! i = put_at off xs (file_bytes s ip) ! i" .
  qed
  moreover have "disk_inode t (i_inum (inodes s ip)) = i_d (inodes t ip)" using t(9) it by simp
  moreover have "view t c = view s c"
    if "c \<notin> bm_blocks (sb s)" "c \<notin> free_blocks s" "c \<notin> blocks_of s ip" "c \<noteq> IBLOCK (i_inum (inodes s ip)) (sb s)" for c
    using c1(9) [OF that(1-3)] t(8) that(4) by (simp add: t2_def)
  ultimately show ?thesis using t(2,4) c1(4) fo by (auto simp: t2_def)
qed

subsection \<open>The loop of a read\<close>

lemma put_bytes_snoc: "put_bytes a (xs @ [y]) m = (put_bytes a xs m)(a + of_nat (length xs) := y)"
proof -
  have "fold (\<lambda>i m. m(a + of_nat i := (xs @ [y]) ! i)) [0..<length xs] m = fold (\<lambda>i m. m(a + of_nat i := xs ! i)) [0..<length xs] m"
    by (rule fold_cong) (auto simp: nth_append)
  then show ?thesis by (simp add: put_bytes_def)
qed

lemma put_bytes_append: "put_bytes a (xs @ ys) m = put_bytes (a + of_nat (length xs)) ys (put_bytes a xs m)"
proof (induction ys rule: rev_induct)
  case Nil
  then show ?case by (simp add: put_bytes_def [of _ "[]"])
next
  case (snoc y ys)
  then show ?case using put_bytes_snoc [of a "xs @ ys" y m] by (simp add: put_bytes_snoc add.assoc)
qed

lemma mem_frame [simp]: "view (s\<lparr>mem := m\<rparr>) = view s" "rc (s\<lparr>mem := m\<rparr>) = rc s" "lk (s\<lparr>mem := m\<rparr>) = lk s" "buf_of (s\<lparr>mem := m\<rparr>) = buf_of s"
  by (simp_all add: view_def rc_def lk_def buf_of_def fun_eq_iff cong: option.case_cong if_cong)

lemma mem_tx [simp]: "in_tx k H S (s\<lparr>mem := m\<rparr>) = in_tx k H S s"
  by (simp add: in_tx_def ready_def bio_ok_def calm_def home_def)

lemma in_tx_buf:
  assumes "in_tx k H S s" and "b \<in> S \<or> card (S \<union> H) < NBUF" and "b \<notin> H"
  shows "\<exists>i u. bread ROOTDEV b s = Some (i, u) \<and> b_data (bufs u i) = view s b \<and> bio_only s u \<and>
    (\<forall>m. \<exists>t. brelse i (u\<lparr>mem := m\<rparr>) = Some t \<and> in_tx k H S t \<and> bio_only (s\<lparr>mem := m\<rparr>) t \<and> view t = view s \<and> disk t = disk s)"
proof -
  obtain i u where u: "bread ROOTDEV b s = Some (i, u)" "in_tx k (insert b H) S u" "bio_only s u" "buf_of u i b" "b_data (bufs u i) = view s b"
    "view u = view s" "disk u = disk s" using tx_bread [OF assms(1,3,2)] by auto
  have clean: "b \<in> S \<or> view u b = disk u b" using store_wf(3) [OF in_txD(1) [OF assms(1)], of b] in_txD(11) [OF assms(1), of b] assms(3) u(6,7)
    by (cases "b \<in> S") (simp_all add: pins_def)
  have "\<exists>t. brelse i (u\<lparr>mem := m\<rparr>) = Some t \<and> in_tx k H S t \<and> bio_only (s\<lparr>mem := m\<rparr>) t \<and> view t = view s \<and> disk t = disk s" for m
  proof -
    obtain t where t: "brelse i (u\<lparr>mem := m\<rparr>) = Some t" "in_tx k (insert b H - {b}) S t" "bio_only (u\<lparr>mem := m\<rparr>) t" "view t = view u" "disk t = disk u"
      using tx_brelse [of k "insert b H" S "u\<lparr>mem := m\<rparr>" i b] u(2,4) clean by auto
    have "bio_only (s\<lparr>mem := m\<rparr>) (u\<lparr>mem := m\<rparr>)" using u(3) by (elim bio_onlyE) (simp add: bio_only_def)
    then show ?thesis using t u assms(3) bio_only_trans [OF _ t(3)] by auto
  qed
  then show ?thesis using u by blast
qed

lemma readi_loop_law:
  fixes s :: "'a fs_st_scheme"
  assumes "in_tx k {} S s" and "i_dev (inodes s ip) = ROOTDEV" and "off + n \<le> MAXFILE * BSIZE" and "card S < NBUF"
    and "\<And>j. off div BSIZE \<le> j \<Longrightarrow> j * BSIZE < off + n \<Longrightarrow> block_at s ip j \<noteq> 0" and "\<And>j. length (view s j) = BSIZE"
  shows "\<exists>t. readi_loop ip False dst off n s = Some (int n, t) \<and> in_tx k {} S t \<and> view t = view s \<and> disk t = disk s \<and>
    bio_only (s\<lparr>mem := put_bytes dst (map (content s ip) [off..<off + n]) (mem s)\<rparr>) t"
  using assms
proof (induction n arbitrary: s off dst rule: less_induct)
  case (less n)
  show ?case
  proof (cases "n = 0")
    case True
    then show ?thesis using less.prems(1) by (subst readi_loop.simps) (simp add: put_bytes_def)
  next
    case False
    define m where "m = min n (BSIZE - off mod BSIZE)"
    define bn where "bn = off div BSIZE"
    define r where "r = off mod BSIZE"
    define a where "a = block_at s ip bn"
    have rB: "r < BSIZE" by (simp add: r_def)
    have m: "0 < m" "m \<le> n" "r + m \<le> BSIZE" using False rB unfolding m_def r_def [symmetric] by linarith+
    have off: "off = bn * BSIZE + r" by (simp add: bn_def r_def)
    have bnM: "bn < MAXFILE" using less.prems(3) m unfolding bn_def by (simp add: less_mult_imp_div_less)
    have "off div BSIZE \<le> bn" "bn * BSIZE < off + n" unfolding bn_def using False div_mult_mod_eq [of off BSIZE] by simp_all
    then have a0: "a \<noteq> 0" using less.prems(5) unfolding a_def by blast
    obtain t1 where t1: "bmap ip bn s = Some (a, t1)" "in_tx k {} S t1" "bio_only s t1" "view t1 = view s" "disk t1 = disk s"
      using bmap_mapped [OF less.prems(1,2) bnM a0 [unfolded a_def] less.prems(4)] by (auto simp: a_def)
    have it1: "inodes t1 = inodes s" "mem t1 = mem s" using bio_only_fs [OF t1(3)] bio_only_fields [OF t1(3)] by auto
    have "card (S \<union> {}) < NBUF" using less.prems(4) by simp
    then obtain i u where u: "bread ROOTDEV a t1 = Some (i, u)" "b_data (bufs u i) = view s a" "bio_only t1 u"
      "\<And>m. \<exists>t. brelse i (u\<lparr>mem := m\<rparr>) = Some t \<and> in_tx k {} S t \<and> bio_only (t1\<lparr>mem := m\<rparr>) t \<and> view t = view t1 \<and> disk t = disk t1"
      using in_tx_buf [OF t1(2), of a] t1(4) by auto
    let ?x = "get_at r m (view s a)" and ?m = "put_bytes dst (get_at r m (view s a)) (mem s)"
    have mu: "mem u = mem s" using bio_only_fields(3) [OF u(3)] it1 by simp
    obtain t2 where t2: "brelse i (u\<lparr>mem := ?m\<rparr>) = Some t2" "in_tx k {} S t2" "bio_only (t1\<lparr>mem := ?m\<rparr>) t2" "view t2 = view s" "disk t2 = disk s"
      using u(4) [of ?m] t1(4,5) by auto
    have it2: "inodes t2 = inodes s" "mem t2 = ?m" using bio_only_fs(2) [OF t2(3)] bio_only_fields(3) [OF t2(3)] it1 by auto
    have x: "?x = map (content s ip) [off..<off + m]"
    proof (rule nth_equalityI)
      show "length ?x = length (map (content s ip) [off..<off + m])" using less.prems(6) m(3) by (simp add: length_get_at)
      fix i assume "i < length ?x"
      then have i: "i < m" by (simp add: length_get_at)
      then have e: "off + i = r + i + bn * BSIZE" "r + i < BSIZE" using off m(3) by linarith+
      have "(off + i) div BSIZE = bn" "(off + i) mod BSIZE = r + i" unfolding e(1) using e(2) by (simp_all del: add_mult_distrib2)
      then show "?x ! i = map (content s ip) [off..<off + m] ! i" using i m(3) less.prems(6) a0 by (simp add: nth_get_at fbyte_def a_def)
    qed
    have "off + m \<le> Suc bn * BSIZE" using off m(3) by simp
    have mapped: "block_at t2 ip j \<noteq> 0" if "(off + m) div BSIZE \<le> j" "j * BSIZE < off + m + (n - m)" for j
      using less.prems(5) [of j] that m(2) div_le_mono [of off "off + m" BSIZE] by (simp add: it2 t2(4))
    have len: "length (view t2 j) = BSIZE" for j using less.prems(6) t2(4) by simp
    have "n - m < n" "off + m + (n - m) \<le> MAXFILE * BSIZE" "i_dev (inodes t2 ip) = ROOTDEV" using m less.prems(2,3) it2 by auto
    from less.IH [OF this(1) t2(2) this(3,2) less.prems(4) mapped len]
    obtain t where t: "readi_loop ip False (dst + of_nat m) (off + m) (n - m) t2 = Some (int (n - m), t)" "in_tx k {} S t" "view t = view t2" "disk t = disk t2"
      "bio_only (t2\<lparr>mem := put_bytes (dst + of_nat m) (map (content t2 ip) [off + m..<off + m + (n - m)]) (mem t2)\<rparr>) t" by blast
    have "readi_loop ip False dst off n s = Some (int n, t)"
      using False t1(1) u(1,2) t2(1) t(1) m less.prems(2) it1 mu
      by (subst readi_loop.simps) (simp add: bn_def [symmetric] m_def [folded r_def, symmetric] r_def [symmetric] either_copyout_def)
    moreover have "put_bytes (dst + of_nat m) (map (content t2 ip) [off + m..<off + m + (n - m)]) (mem t2) =
        put_bytes dst (map (content s ip) [off..<off + n]) (mem s)"
    proof -
      have "[off..<off + n] = [off..<off + m] @ [off + m..<off + n]" using m(2) by (metis le_add1 le_add_diff_inverse nat_add_left_cancel_le upt_add_eq_append add.assoc)
      then show ?thesis using m(2) put_bytes_append [of dst "map (content s ip) [off..<off + m]" "map (content s ip) [off + m..<off + n]" "mem s"]
        by (simp add: it2 t2(4) x)
    qed
    moreover have "bio_only (s\<lparr>mem := M\<rparr>) (t2\<lparr>mem := M\<rparr>)" for M
    proof -
      have "bio_only (s\<lparr>mem := M\<rparr>) (t1\<lparr>mem := M\<rparr>)" using t1(3) by (elim bio_onlyE) (simp add: bio_only_def)
      moreover have "bio_only (t1\<lparr>mem := M\<rparr>) (t2\<lparr>mem := M\<rparr>)" using t2(3) by (elim bio_onlyE) (simp add: bio_only_def)
      ultimately show ?thesis by (rule bio_only_trans)
    qed
    ultimately show ?thesis using t t2(4,5) bio_only_trans by (intro exI [of _ t]) auto
  qed
qed

lemma get_file_bytes: "off + n \<le> unat (isize ip s) \<Longrightarrow> get_at off n (file_bytes s ip) = map (content s ip) [off..<off + n]"
  by (rule nth_equalityI) (auto simp: length_get_at nth_get_at nth_file_bytes)

lemma readi_law:
  fixes s :: "'a fs_st_scheme"
  assumes tx: "in_tx k {} S s" and fi: "file_in s ip" and off: "unat off \<le> unat (isize ip s)" "unat off + unat n < 2 ^ 32" and room: "card S < NBUF"
  defines "m \<equiv> min (unat n) (unat (isize ip s) - unat off)"
  shows "\<exists>t. readi ip False dst off n s = Some (int m, t) \<and> in_tx k {} S t \<and> view t = view s \<and> disk t = disk s \<and>
    bio_only (s\<lparr>mem := put_bytes dst (get_at (unat off) m (file_bytes s ip)) (mem s)\<rparr>) t"
proof -
  let ?z = "isize ip s"
  have f: "i_dev (inodes s ip) = ROOTDEV" "unat ?z \<le> MAXFILE * BSIZE" "\<And>j. j * BSIZE < unat ?z \<Longrightarrow> block_at s ip j \<noteq> 0"
    using fi by (auto simp: file_in_def inode_ok_def)
  have um: "unat off + m \<le> unat ?z" using off(1) by (simp add: m_def)
  have un: "unat (off + n) = unat off + unat n" using unat_add_small off(2) by simp
  have "unat (if off + n > ?z then ?z - off else n) = m"
    using off(1) un by (auto simp: m_def word_less_nat_alt unat_sub word_le_nat_alt)
  then have "readi ip False dst off n s = readi_loop ip False dst (unat off) m s"
    using off(1) un by (simp add: readi_def word_less_nat_alt not_less Let_def)
  moreover have "\<exists>t. readi_loop ip False dst (unat off) m s = Some (int m, t) \<and> in_tx k {} S t \<and> view t = view s \<and> disk t = disk s \<and>
      bio_only (s\<lparr>mem := put_bytes dst (map (content s ip) [unat off..<unat off + m]) (mem s)\<rparr>) t"
    by (rule readi_loop_law [OF tx f(1) _ room _ in_tx_view_length [OF tx]]) (use um f in auto)
  ultimately show ?thesis using get_file_bytes [OF um] by simp
qed

text \<open>C3: \<^verbatim>\<open>writei\<close> overwrites a range of a file.  Inside a transaction with room in the log and enough free blocks,
  a write of at most four blocks that starts inside the file and ends below the size limit, from kernel
  memory or from mapped user memory, returns the number of bytes; the file then is the old
  file with the bytes put at the offset, extended if they reach beyond its end; the new inode is logged,
  and no block in use by anything else changes.  A write that starts beyond the end, wraps around or
  exceeds the limit returns -1 and changes nothing.\<close>

theorem writei_correct:
  fixes s :: "'a fs_st_scheme"
  assumes "fs_tx k {} S s" and "file_in s ip"
    and "\<not> user_src \<and> xs = bytes_at (mem s) src (unat n) \<or>
      user_src \<and> cur s = Some p \<and> pt_wf (mem s) (pagetable (procs s p)) T loc \<and> umapped (mem s) (pagetable (procs s p)) src (unat n) \<and>
        xs = ubytes (mem s) (pagetable (procs s p)) src (unat n)"
    and "card S + 7 * nblks (unat off) (unat n) \<le> 28" and "2 * nblks (unat off) (unat n) \<le> card (free_blocks s)"
  shows "if unat off \<le> unat (isize ip s) \<and> unat off + unat n \<le> MAXFILE * BSIZE
    then \<exists>S' t. writei ip user_src src off n s = Some (int (unat n), t) \<and> fs_tx k {} S' t \<and> file_in t ip \<and>
      file_bytes t ip = put_at (unat off) xs (file_bytes s ip) \<and> disk_inode t (i_inum (inodes s ip)) = i_d (inodes t ip) \<and>
      disk t = disk s \<and> mem t = mem s \<and> (\<forall>jp. jp \<noteq> ip \<longrightarrow> inodes t jp = inodes s jp) \<and>
      (\<forall>c. c \<notin> bm_blocks (sb s) \<and> c \<notin> free_blocks s \<and> c \<notin> blocks_of s ip \<and> c \<noteq> IBLOCK (i_inum (inodes s ip)) (sb s) \<longrightarrow> view t c = view s c)
    else writei ip user_src src off n s = Some (- 1, s)"
proof (cases "unat off \<le> unat (isize ip s) \<and> unat off + unat n \<le> MAXFILE * BSIZE")
  case True
  have ci: "copies_in user_src src (unat n) s xs"
    by (cases user_src) (use assms(3) copies_in_kernel copies_in_user [OF _ refl, of s p T loc src "unat n"] in auto)
  obtain S' t where "writei ip user_src src off n s = Some (int (unat n), t)" "fs_tx k {} S' t" "file_in t ip" "file_only ip s t"
    "file_bytes t ip = put_at (unat off) xs (file_bytes s ip)" "disk_inode t (i_inum (inodes s ip)) = i_d (inodes t ip)" "disk t = disk s"
    "\<forall>c. c \<notin> bm_blocks (sb s) \<and> c \<notin> free_blocks s \<and> c \<notin> blocks_of s ip \<and> c \<noteq> IBLOCK (i_inum (inodes s ip)) (sb s) \<longrightarrow> view t c = view s c"
    using writei_law [OF assms(1,2) conjunct1 [OF True] conjunct2 [OF True] ci assms(4,5)] by auto
  then show ?thesis using True file_only_fields(3,9) [of ip s t] by auto
next
  case False
  have "unat (off + n) = (unat off + unat n) mod 2 ^ 32" by (simp add: unat_word_ariths)
  moreover have "unat off < 2 ^ 32" "unat n < 2 ^ 32" using unsigned_less [of off, where ?'a = nat] unsigned_less [of n, where ?'a = nat] by auto
  ultimately have "off > isize ip s \<or> off + n < off \<or> unat (off + n) > MAXFILE * BSIZE"
    using False by (cases "unat off + unat n < 2 ^ 32") (auto simp: word_less_nat_alt mod_if)
  then show ?thesis using False by (auto simp: writei_def)
qed


subsection \<open>A concrete file\<close>

lemma mem_fs [simp]: "used (s\<lparr>mem := m\<rparr>) = used s" "free_blocks (s\<lparr>mem := m\<rparr>) = free_blocks s" "fs_tx k H S (s\<lparr>mem := m\<rparr>) = fs_tx k H S s"
  "data_used (s\<lparr>mem := m\<rparr>) = data_used s"
  by (auto simp: used_def free_blocks_def fs_tx_def layout_def meta_used_def data_used_def fun_eq_iff)

definition demo_files :: fs_st where
  "demo_files = (binit (demo_fs demo_inodes))\<lparr>mem := \<lambda>_. 7\<rparr>"

lemma demo_files_simps: "fs_tx 1 {} {} demo_files" "file_in demo_files 0" "mem demo_files = (\<lambda>_. 7)" "file_bytes demo_files 0 = []"
  "isize 0 demo_files = 0" "100 \<le> card (free_blocks demo_files)"
proof -
  have i: "i_d (inodes demo_files 0) = \<lparr>di_type = T_FILE, di_major = 0, di_minor = 0, di_nlink = 1, di_size = 0, di_addrs = replicate 13 0\<rparr>"
    "i_dev (inodes demo_files 0) = ROOTDEV" "i_inum (inodes demo_files 0) = 5" "sb demo_files = demo_sb"
    by (simp_all add: demo_files_def demo_fs_tx demo_inodes_def)
  show "fs_tx 1 {} {} demo_files" "mem demo_files = (\<lambda>_. 7)" by (simp_all add: demo_files_def demo_fs_tx)
  show z: "isize 0 demo_files = 0" by (simp add: isize_def i)
  then show "file_bytes demo_files 0 = []" by (simp add: file_bytes_def)
  have "blk_of (i_d (inodes demo_files 0)) V j = 0" for V j by (auto simp: i blk_of_def)
  then show "file_in demo_files 0" using z by (auto simp: file_in_def inode_ok_def file_ok_def fblks_def i demo_sb_def)
  have "of_nat ` {100..<200} \<subseteq> free_blocks demo_files" by (auto simp: demo_files_def demo_fs_free unat_of_nat32)
  then have "card (of_nat ` {100..<200} :: u32 set) \<le> card (free_blocks demo_files)" by (intro card_mono) simp_all
  moreover have "inj_on (of_nat :: nat \<Rightarrow> u32) {100..<200}" by (rule inj_on_inverseI [where g = unat], rule unat_of_nat32) simp
  ultimately show "100 \<le> card (free_blocks demo_files)" by (simp add: card_image)
qed

theorem writei_correct_witness:
  "\<exists>t. writei 0 False 0x1000 0 2 demo_files = Some (2, t) \<and> file_bytes t 0 = [7, 7]"
proof -
  have nb: "nblks 0 2 = 1" by (simp add: nblks_def)
  have b: "bytes_at (mem demo_files) 0x1000 2 = [7, 7]" by (simp add: demo_files_simps bytes_at_def numeral_2_eq_2)
  show ?thesis
    using writei_correct [where off = 0 and n = 2 and src = "0x1000" and user_src = False and xs = "[7, 7]", OF demo_files_simps(1,2)] b nb demo_files_simps
    by (auto simp: put_at_def)
qed


end
