(* ===== verification/Mkfs.thy ===== *)
theory Mkfs
  imports Fs_Data
begin

text \<open>
  The program that builds the disk image, \<^verbatim>\<open>mkfs/mkfs.c\<close>.  It runs on the host: the image is a file, seen as the list of its
  sectors, which grows when a sector behind its end is written.  \<^const>\<open>None\<close> is a failed \<^verbatim>\<open>assert\<close> or a call of
  \<^verbatim>\<open>die\<close>.  The host is little-endian and its \<^verbatim>\<open>lseek\<close> and \<^verbatim>\<open>write\<close> succeed; whether a source file can be opened, and the
  pieces in which \<^verbatim>\<open>read\<close> delivers it, are arguments.
\<close>

abbreviation FSSIZE :: nat where "FSSIZE \<equiv> 1000"
abbreviation NINODES :: nat where "NINODES \<equiv> 200"

definition nbitmap :: nat where "nbitmap = FSSIZE div (BSIZE * 8) + 1"
definition ninodeblocks :: nat where "ninodeblocks = NINODES div IPB + 1"
definition nlog :: nat where "nlog = nat LOGSIZE"
definition nmeta :: nat where "nmeta = 2 + nlog + ninodeblocks + nbitmap"
definition nblocks :: nat where "nblocks = FSSIZE - nmeta"

record mkfs_st =
  img :: "bytes list"
  freeinode :: u32
  freeblock :: u32

text \<open>The bytes of the result are stored one by one, from the lowest on.\<close>

definition xshort :: "u16 \<Rightarrow> u16" where
  "xshort x = of_le [ucast x, ucast (drop_bit 8 x)]"

definition xint :: "u32 \<Rightarrow> u32" where
  "xint x = of_le [ucast x, ucast (drop_bit 8 x), ucast (drop_bit 16 x), ucast (drop_bit 24 x)]"

definition mk_sb :: superblock where
  "mk_sb = \<lparr>sb_magic = FSMAGIC, sb_size = xint (of_nat FSSIZE), sb_nblocks = xint (of_nat nblocks), sb_ninodes = xint (of_nat NINODES),
     sb_nlog = xint (of_nat nlog), sb_logstart = xint 2, sb_inodestart = xint (of_nat (2 + nlog)),
     sb_bmapstart = xint (of_nat (2 + nlog + ninodeblocks))\<rparr>"

definition zeroes :: bytes where "zeroes = replicate BSIZE 0"

definition encode_sb :: "superblock \<Rightarrow> bytes \<Rightarrow> bytes" where
  "encode_sb B bs =
     put32 28 (sb_bmapstart B) (put32 24 (sb_inodestart B) (put32 20 (sb_logstart B) (put32 16 (sb_nlog B)
       (put32 12 (sb_ninodes B) (put32 8 (sb_nblocks B) (put32 4 (sb_size B) (put32 0 (sb_magic B) bs)))))))"

subsection \<open>Sectors and inodes\<close>

text \<open>The product \<^verbatim>\<open>sec * BSIZE\<close> is one of 32 bits.\<close>

definition sector :: "u32 \<Rightarrow> nat" where
  "sector sec = unat (sec * of_nat BSIZE) div BSIZE"

definition wsect :: "u32 \<Rightarrow> bytes \<Rightarrow> mkfs_st \<Rightarrow> mkfs_st" where
  "wsect sec bs s = s\<lparr>img :=
     (if sector sec < length (img s) then (img s)[sector sec := bs]
      else img s @ replicate (sector sec - length (img s)) zeroes @ [bs])\<rparr>"

definition rsect :: "u32 \<Rightarrow> mkfs_st \<Rightarrow> bytes option" where
  "rsect sec s = (if sector sec < length (img s) then Some (img s ! sector sec) else None)"

definition winode :: "u32 \<Rightarrow> dinode \<Rightarrow> mkfs_st \<Rightarrow> mkfs_st option" where
  "winode inum ip s = do {
     let bn = IBLOCK inum mk_sb;
     bs \<leftarrow> rsect bn s;
     Some (wsect bn (put_dinode (ioff inum) ip bs) s) }"

definition rinode :: "u32 \<Rightarrow> mkfs_st \<Rightarrow> dinode option" where
  "rinode inum s = do {
     bs \<leftarrow> rsect (IBLOCK inum mk_sb) s;
     Some (get_dinode (ioff inum) bs) }"

definition mk_ialloc :: "u16 \<Rightarrow> mkfs_st \<Rightarrow> (u32 \<times> mkfs_st) option" where
  "mk_ialloc type s = do {
     let inum = freeinode s;
     let s = s\<lparr>freeinode := freeinode s + 1\<rparr>;
     s \<leftarrow> winode inum \<lparr>di_type = xshort type, di_major = 0, di_minor = 0, di_nlink = xshort 1, di_size = xint 0,
       di_addrs = replicate (NDIRECT + 1) 0\<rparr> s;
     Some (inum, s) }"

definition mk_balloc :: "u32 \<Rightarrow> mkfs_st \<Rightarrow> mkfs_st option" where
  "mk_balloc n s = do {
     _ \<leftarrow> panic_if (\<not> sint n < int (BSIZE * 8));
     Some (wsect (sb_bmapstart mk_sb) (fold bm_set [0..<nat (sint n)] zeroes) s) }"

subsection \<open>Appending to a file\<close>

definition set_daddr :: "nat \<Rightarrow> u32 \<Rightarrow> dinode \<Rightarrow> dinode" where
  "set_daddr i b din = din\<lparr>di_addrs := (di_addrs din)[i := b]\<rparr>"

text \<open>\<^verbatim>\<open>if(xint(din.addrs[i]) == 0) din.addrs[i] = xint(freeblock++);\<close>\<close>

definition fill_addr :: "nat \<Rightarrow> dinode \<Rightarrow> mkfs_st \<Rightarrow> dinode \<times> mkfs_st" where
  "fill_addr i din s =
     (if xint (di_addrs din ! i) = 0 then (set_daddr i (xint (freeblock s)) din, s\<lparr>freeblock := freeblock s + 1\<rparr>) else (din, s))"

text \<open>The block of the file that holds its \<open>fbn\<close>-th piece.\<close>

definition iappend_block :: "nat \<Rightarrow> dinode \<Rightarrow> mkfs_st \<Rightarrow> (u32 \<times> dinode \<times> mkfs_st) option" where
  "iappend_block fbn din s =
     (if fbn < NDIRECT then
        (let (din, s) = fill_addr fbn din s in Some (xint (di_addrs din ! fbn), din, s))
      else do {
        let (din, s) = fill_addr NDIRECT din s;
        indirect \<leftarrow> rsect (xint (di_addrs din ! NDIRECT)) s;
        let (indirect, s) =
          (if get32 indirect (4 * (fbn - NDIRECT)) = 0 then
             (let indirect = put32 (4 * (fbn - NDIRECT)) (xint (freeblock s)) indirect;
                  s = s\<lparr>freeblock := freeblock s + 1\<rparr> in
              (indirect, wsect (xint (di_addrs din ! NDIRECT)) indirect s))
           else (indirect, s));
        Some (xint (get32 indirect (4 * (fbn - NDIRECT))), din, s) })"

text \<open>The offset stays below the largest size of a file, or an assertion fails.\<close>

function iappend_loop :: "dinode \<Rightarrow> nat \<Rightarrow> bytes \<Rightarrow> mkfs_st \<Rightarrow> (dinode \<times> nat \<times> mkfs_st) option" where
  "iappend_loop din off xs s =
     (if xs = [] then Some (din, off, s)
      else do {
        let fbn = off div BSIZE;
        _ \<leftarrow> panic_if (\<not> fbn < MAXFILE);
        (x, din, s) \<leftarrow> iappend_block fbn din s;
        let n1 = min (length xs) ((fbn + 1) * BSIZE - off);
        bs \<leftarrow> rsect x s;
        let s = wsect x (put_at (off - fbn * BSIZE) (take n1 xs) bs) s;
        iappend_loop din (off + n1) (drop n1 xs) s })"
  by pat_completeness auto
termination
proof (relation "measure (\<lambda>(din, off, xs, s). length xs)", simp, goal_cases)
  case (1 din off xs s fbn u x y din' s' n1 bs s'')
  have "off < (off div BSIZE + 1) * BSIZE"
    using dividend_less_div_times [of BSIZE off] by (simp only: add_mult_distrib mult_1 add.commute zero_less_numeral)
  then show ?case using 1 by simp
qed

declare iappend_loop.simps [simp del]

definition iappend :: "u32 \<Rightarrow> bytes \<Rightarrow> mkfs_st \<Rightarrow> mkfs_st option" where
  "iappend inum xs s = do {
     din \<leftarrow> rinode inum s;
     (din, off, s) \<leftarrow> iappend_loop din (unat (xint (di_size din))) xs s;
     winode inum (din\<lparr>di_size := xint (of_nat off)\<rparr>) s }"

subsection \<open>The image\<close>

definition dirent :: "u32 \<Rightarrow> bytes \<Rightarrow> bytes" where
  "dirent inum name = to_le 2 (xshort (ucast inum)) @ take DIRSIZ name @ replicate (DIRSIZ - length name) 0"

text \<open>The name without \<^verbatim>\<open>user/\<close>, and without a leading underscore.\<close>

definition base_name :: "bytes \<Rightarrow> bytes" where
  "base_name arg = (if take 5 arg = [117, 115, 101, 114, 47] then drop 5 arg else arg)"

definition short_name :: "bytes \<Rightarrow> bytes" where
  "short_name arg = (case base_name arg of [] \<Rightarrow> [] | c # cs \<Rightarrow> if c = 95 then cs else base_name arg)"

text \<open>One argument of the command line, with the pieces that \<^verbatim>\<open>read\<close> delivers if the file can be opened.\<close>

definition mk_file :: "u32 \<Rightarrow> bytes \<times> bytes list option \<Rightarrow> mkfs_st \<Rightarrow> mkfs_st option" where
  "mk_file rootino f s = do {
     let (arg, fd) = f;
     _ \<leftarrow> panic_if (slash \<in> set (base_name arg));
     pieces \<leftarrow> fd;
     (inum, s) \<leftarrow> mk_ialloc T_FILE s;
     s \<leftarrow> iappend rootino (dirent inum (short_name arg)) s;
     for_each pieces (iappend inum) s }"

definition mkfs_main :: "(bytes \<times> bytes list option) list \<Rightarrow> mkfs_st option" where
  "mkfs_main files = do {
     let s = \<lparr>img = [], freeinode = 1, freeblock = of_nat nmeta\<rparr>;
     let s = fold (\<lambda>i. wsect (of_nat i) zeroes) [0..<FSSIZE] s;
     let s = wsect 1 (encode_sb mk_sb zeroes) s;
     (rootino, s) \<leftarrow> mk_ialloc T_DIR s;
     _ \<leftarrow> panic_if (rootino \<noteq> ROOTINO);
     s \<leftarrow> iappend rootino (dirent rootino [46]) s;
     s \<leftarrow> iappend rootino (dirent rootino [46, 46]) s;
     s \<leftarrow> for_each files (mk_file rootino) s;
     din \<leftarrow> rinode rootino s;
     let off = (xint (di_size din) div of_nat BSIZE + 1) * of_nat BSIZE;
     s \<leftarrow> winode rootino (din\<lparr>di_size := xint off\<rparr>) s;
     mk_balloc (freeblock s) s }"

end
