(* ===== verification/Mkfs_Laws.thy ===== *)
theory Mkfs_Laws
  imports Mkfs
begin

text \<open>
  The image file of \<^verbatim>\<open>mkfs\<close>: its constants, reading and writing of sectors, and what it means that a file in the image
  gets more blocks.
\<close>

subsection \<open>The constants\<close>

lemma xint_id [simp]: "xint x = x"
proof -
  have "[ucast x, ucast (drop_bit 8 x), ucast (drop_bit 16 x), ucast (drop_bit 24 x)] = to_le 4 x" by (simp add: to_le_def upt_rec)
  then show ?thesis unfolding xint_def by (simp add: of_le_to_le del: of_le.simps)
qed

lemma xshort_id [simp]: "xshort x = x"
proof -
  have "[ucast x, ucast (drop_bit 8 x)] = to_le 2 x" by (simp add: to_le_def upt_rec)
  then show ?thesis unfolding xshort_def by (simp add: of_le_to_le del: of_le.simps)
qed

lemma mk_consts [simp]: "nbitmap = 1" "ninodeblocks = 13" "nlog = 30" "nmeta = 46" "nblocks = 954"
  by (simp_all add: nbitmap_def ninodeblocks_def nlog_def nmeta_def nblocks_def)

lemma mk_sb_simps [simp]:
  "sb_magic mk_sb = FSMAGIC" "sb_size mk_sb = 1000" "sb_nblocks mk_sb = 954" "sb_ninodes mk_sb = 200" "sb_nlog mk_sb = 30"
  "sb_logstart mk_sb = 2" "sb_inodestart mk_sb = 32" "sb_bmapstart mk_sb = 45"
  by (simp_all add: mk_sb_def)

lemma length_zeroes [simp]: "length zeroes = BSIZE" and nth_zeroes [simp]: "i < BSIZE \<Longrightarrow> zeroes ! i = 0"
  by (simp_all add: zeroes_def)

lemma decode_encode_sb: "length bs = BSIZE \<Longrightarrow> decode_sb (encode_sb B bs) = B"
  by (simp add: decode_sb_def encode_sb_def get32_put32_other)

subsection \<open>Sectors\<close>

definition vw :: "mkfs_st \<Rightarrow> u32 \<Rightarrow> bytes" where
  "vw s b = img s ! unat b"

lemma vw_simps [simp]: "vw (s\<lparr>freeblock := f\<rparr>) = vw s" "vw (s\<lparr>freeinode := i\<rparr>) = vw s"
  by (simp_all add: vw_def fun_eq_iff)

lemma sector_small: "unat b < FSSIZE \<Longrightarrow> sector b = unat b"
  by (simp add: sector_def unat_word_ariths)

definition img_ok :: "mkfs_st \<Rightarrow> bool" where
  "img_ok s \<longleftrightarrow> length (img s) = FSSIZE \<and> (\<forall>k<FSSIZE. length (img s ! k) = BSIZE) \<and>
     nmeta \<le> unat (freeblock s) \<and> unat (freeblock s) \<le> FSSIZE \<and> (\<forall>k. unat (freeblock s) \<le> k \<and> k < FSSIZE \<longrightarrow> img s ! k = zeroes)"

lemma img_okD:
  assumes "img_ok s"
  shows "length (img s) = FSSIZE" "unat b < FSSIZE \<Longrightarrow> length (vw s b) = BSIZE" "46 \<le> unat (freeblock s)" "unat (freeblock s) \<le> FSSIZE"
    "unat (freeblock s) \<le> unat b \<Longrightarrow> unat b < FSSIZE \<Longrightarrow> vw s b = zeroes"
  using assms by (simp_all add: img_ok_def vw_def)

lemma rsect_ok: "img_ok s \<Longrightarrow> unat b < FSSIZE \<Longrightarrow> rsect b s = Some (vw s b)"
  by (simp add: rsect_def sector_small img_ok_def vw_def)

lemma wsect_ok: "img_ok s \<Longrightarrow> unat b < FSSIZE \<Longrightarrow> wsect b bs s = s\<lparr>img := (img s)[unat b := bs]\<rparr>"
  by (simp add: wsect_def sector_small img_ok_def)

lemma wsect_fields [simp]: "freeblock (wsect b bs s) = freeblock s" "freeinode (wsect b bs s) = freeinode s"
  by (simp_all add: wsect_def)

lemma wsect_vw: "img_ok s \<Longrightarrow> unat b < FSSIZE \<Longrightarrow> vw (wsect b bs s) = (vw s)(b := bs)"
  by (auto simp: wsect_ok fun_eq_iff img_ok_def nth_list_update word_unat_eq_iff vw_def)

lemma wsect_img_ok: "img_ok s \<Longrightarrow> unat b < unat (freeblock s) \<Longrightarrow> length bs = BSIZE \<Longrightarrow> img_ok (wsect b bs s)"
  using wsect_ok [of s b bs] img_okD(4) [of s] by (auto simp: img_ok_def nth_list_update)

text \<open>The next free block: it is zero, and taking it keeps the image.\<close>

lemma take_block:
  assumes "img_ok s" and "unat (freeblock s) < FSSIZE"
  shows "unat (freeblock s + 1) = Suc (unat (freeblock s))" and "img_ok (s\<lparr>freeblock := freeblock s + 1\<rparr>)" and "vw s (freeblock s) = zeroes"
    and "freeblock s \<noteq> 0"
proof -
  show n: "unat (freeblock s + 1) = Suc (unat (freeblock s))" using assms(2) by (subst unat_add_small) auto
  show "img_ok (s\<lparr>freeblock := freeblock s + 1\<rparr>)" "vw s (freeblock s) = zeroes" using assms n by (auto simp: img_ok_def vw_def)
  show "freeblock s \<noteq> 0" using assms(1) by (auto simp: img_ok_def)
qed

subsection \<open>Taking blocks\<close>

definition taken :: "mkfs_st \<Rightarrow> u32 \<Rightarrow> bool" where
  "taken s b \<longleftrightarrow> nmeta \<le> unat b \<and> unat b < unat (freeblock s)"

text \<open>From \<open>s\<close> to \<open>t\<close> the file with inode \<open>d\<close> became the one with inode \<open>d'\<close>; of the blocks in use before, only its own
  may have changed, and it got blocks that were free.\<close>

definition ext :: "mkfs_st \<Rightarrow> dinode \<Rightarrow> mkfs_st \<Rightarrow> dinode \<Rightarrow> bool" where
  "ext s d t d' \<longleftrightarrow> img_ok t \<and> freeinode t = freeinode s \<and> unat (freeblock s) \<le> unat (freeblock t) \<and>
     (\<forall>b. unat b < unat (freeblock s) \<and> b \<notin> fblks d (vw s) \<longrightarrow> vw t b = vw s b) \<and>
     (\<forall>b\<in>fblks d' (vw t). b \<in> fblks d (vw s) \<or> unat (freeblock s) \<le> unat b) \<and> (\<exists>as. d' = d\<lparr>di_addrs := as\<rparr>)"

lemma extD:
  assumes "ext s d t d'"
  shows "img_ok t" "freeinode t = freeinode s" "unat (freeblock s) \<le> unat (freeblock t)"
    "unat b < unat (freeblock s) \<Longrightarrow> b \<notin> fblks d (vw s) \<Longrightarrow> vw t b = vw s b"
    "b \<in> fblks d' (vw t) \<Longrightarrow> b \<in> fblks d (vw s) \<or> unat (freeblock s) \<le> unat b" "\<exists>as. d' = d\<lparr>di_addrs := as\<rparr>"
  using assms by (simp_all add: ext_def)

lemma ext_trans:
  assumes "ext s d t d'" and "ext t d' u d''" shows "ext s d u d''"
proof -
  note a = extD [OF assms(1)] and b = extD [OF assms(2)]
  have "vw u x = vw s x" if "unat x < unat (freeblock s)" "x \<notin> fblks d (vw s)" for x
    using a(4) [OF that] b(4) [of x] a(5) [of x] that a(3) by (metis le_trans not_le)
  moreover have "x \<in> fblks d (vw s) \<or> unat (freeblock s) \<le> unat x" if "x \<in> fblks d'' (vw u)" for x
    using b(5) [OF that] a(5) [of x] a(3) by auto
  moreover have "\<exists>as. d'' = d\<lparr>di_addrs := as\<rparr>" using a(6) b(6) by auto
  moreover have "freeinode u = freeinode s" "unat (freeblock s) \<le> unat (freeblock u)" using a(2,3) b(2,3) by auto
  ultimately show ?thesis using b(1) unfolding ext_def by blast
qed

lemma ext_refl: "img_ok s \<Longrightarrow> ext s d s d"
  unfolding ext_def by (auto intro: exI [of _ "di_addrs d"])

text \<open>The file has more blocks, and the same bytes.\<close>

definition enl :: "mkfs_st \<Rightarrow> dinode \<Rightarrow> mkfs_st \<Rightarrow> dinode \<Rightarrow> bool" where
  "enl s d t d' \<longleftrightarrow> ext s d t d' \<and> file_ok (taken t) d' (vw t) \<and> (\<forall>i<MAXFILE * BSIZE. fbyte d' (vw t) i = fbyte d (vw s) i)"

lemma enl_trans: "enl s d t d' \<Longrightarrow> enl t d' u d'' \<Longrightarrow> enl s d u d''"
  unfolding enl_def using ext_trans by simp blast

end
