(* ===== verification/Mkfs_Image.thy ===== *)
theory Mkfs_Image
  imports Mkfs_Laws
begin

text \<open>
  Appending to files, the image that a run of \<^verbatim>\<open>mkfs\<close> leaves, and the kernel that mounts it.  \<open>need\<close> counts the blocks of a file
  exactly, so that success is shown under the condition that the files fit, and not assumed.
\<close>

subsection \<open>Blocks of a file\<close>

lemma fresh_block:
  assumes "file_ok (taken s) d (vw s)" shows "freeblock s \<notin> fblks d (vw s)"
  using file_okD(2) [OF assms, of "freeblock s"] by (auto simp: taken_def)

lemma fill_direct:
  assumes s: "img_ok s" "unat (freeblock s) < FSSIZE" and ok: "file_ok (taken s) d (vw s)" and z: "fbn < NDIRECT" "di_addrs d ! fbn = 0"
  shows "enl s d (s\<lparr>freeblock := freeblock s + 1\<rparr>) (set_daddr fbn (freeblock s) d)"
    and "blk_of (set_daddr fbn (freeblock s) d) (vw s) j = (if j = fbn then freeblock s else blk_of d (vw s) j)"
    and "di_addrs (set_daddr fbn (freeblock s) d) ! NDIRECT = di_addrs d ! NDIRECT"
proof -
  let ?d = "set_daddr fbn (freeblock s) d" and ?t = "s\<lparr>freeblock := freeblock s + 1\<rparr>"
  note l = file_okD(1) [OF ok] and n = take_block [OF s]
  show a: "di_addrs ?d ! NDIRECT = di_addrs d ! NDIRECT" using z(1) by (simp add: set_daddr_def)
  show b: "blk_of ?d (vw s) j = (if j = fbn then freeblock s else blk_of d (vw s) j)" for j
    using z(1) l by (auto simp: blk_of_def set_daddr_def)
  have g: "file_ok (taken ?t) ?d (vw s)" "\<And>i. i < MAXFILE * BSIZE \<Longrightarrow> fbyte ?d (vw s) i = fbyte d (vw s) i"
    "fblks ?d (vw s) = insert (freeblock s) (fblks d (vw s))"
    by (rule file_grow [OF ok n(4) fresh_block [OF ok], of "vw s" _ ?d fbn];
      use n s z l a b in \<open>auto simp: zeroes_def taken_def set_daddr_def blk_of_def img_ok_def\<close>)+
  then show "enl s d ?t ?d" using n(1,2) unfolding enl_def ext_def by (auto simp: set_daddr_def)
qed

lemma fill_indirect:
  assumes s: "img_ok s" "unat (freeblock s) < FSSIZE" and ok: "file_ok (taken s) d (vw s)" and z: "di_addrs d ! NDIRECT = 0"
  shows "enl s d (s\<lparr>freeblock := freeblock s + 1\<rparr>) (set_daddr NDIRECT (freeblock s) d)"
    and "j < MAXFILE \<Longrightarrow> blk_of (set_daddr NDIRECT (freeblock s) d) (vw s) j = blk_of d (vw s) j"
    and "di_addrs (set_daddr NDIRECT (freeblock s) d) ! NDIRECT = freeblock s"
proof -
  let ?d = "set_daddr NDIRECT (freeblock s) d" and ?t = "s\<lparr>freeblock := freeblock s + 1\<rparr>"
  note l = file_okD(1) [OF ok] and n = take_block [OF s]
  show "di_addrs ?d ! NDIRECT = freeblock s" using l by (simp add: set_daddr_def)
  have d': "di_addrs ?d = (di_addrs d)[NDIRECT := freeblock s]" by (simp add: set_daddr_def)
  have tk: "taken ?t (freeblock s)" "\<And>c. taken s c \<Longrightarrow> taken ?t c" using n(1) s by (auto simp: taken_def img_ok_def)
  note g = file_indirect [where V' = "vw s" and U' = "taken ?t", OF ok z n(4) fresh_block [OF ok] n(3) [unfolded zeroes_def] tk(1) d' refl tk(2)]
  show "j < MAXFILE \<Longrightarrow> blk_of ?d (vw s) j = blk_of d (vw s) j" using g(4) by simp
  show "enl s d ?t ?d" using g(1-3) n(1,2) unfolding enl_def ext_def by (auto simp: set_daddr_def)
qed

lemma fill_entry:
  assumes s: "img_ok s" "unat (freeblock s) < FSSIZE" and ok: "file_ok (taken s) d (vw s)" and a: "di_addrs d ! NDIRECT = a" "a \<noteq> 0"
    and z: "m < NINDIRECT" "get32 (vw s a) (4 * m) = 0"
  defines "t \<equiv> wsect a (put32 (4 * m) (freeblock s) (vw s a)) (s\<lparr>freeblock := freeblock s + 1\<rparr>)"
  shows "enl s d t d" and "j < MAXFILE \<Longrightarrow> blk_of d (vw t) j = (if j = NDIRECT + m then freeblock s else blk_of d (vw s) j)"
    and "vw t a = put32 (4 * m) (freeblock s) (vw s a)" and "freeblock t = freeblock s + 1"
proof -
  note n = take_block [OF s]
  have af: "a \<in> fblks d (vw s)" using fblks_ind [of d "vw s"] a by simp
  have at: "taken s a" by (rule file_okD(2) [OF ok af])
  then have al: "unat a < FSSIZE" "unat a < unat (freeblock s + 1)" using n(1) s(2) by (auto simp: taken_def)
  have l: "length (vw s a) = BSIZE" using img_okD(2) [OF s(1) al(1)] .
  have vt: "vw t = (vw s)(a := put32 (4 * m) (freeblock s) (vw s a))" unfolding t_def using wsect_vw [OF n(2) al(1)] by simp
  then show "vw t a = put32 (4 * m) (freeblock s) (vw s a)" by (simp add: fun_eq_iff)
  show ft: "freeblock t = freeblock s + 1" by (simp add: t_def)
  have io: "img_ok t" unfolding t_def using n(2) al(2) l z(1) by (intro wsect_img_ok) auto
  show b: "blk_of d (vw t) j = (if j = NDIRECT + m then freeblock s else blk_of d (vw s) j)" if "j < MAXFILE" for j
    unfolding vt using that a get_put_entry [OF l z(1), of "j - NDIRECT" "freeblock s"] by (auto simp: blk_of_def)
  have fz: "vw t (freeblock s) = replicate BSIZE 0" using n(3) at by (auto simp: vt zeroes_def taken_def)
  have tk: "taken t (freeblock s)" "\<And>c. taken s c \<Longrightarrow> taken t c" using n(1) ft s by (auto simp: taken_def img_ok_def)
  have bz: "blk_of d (vw s) (NDIRECT + m) = 0" using a z by (simp add: blk_of_def)
  have mM: "NDIRECT + m < MAXFILE" using z(1) by simp
  have vo: "vw t c = vw s c" if "c \<noteq> di_addrs d ! NDIRECT" for c unfolding vt using that a by simp
  note g = file_grow [where V' = "vw t" and U' = "taken t" and d' = d, OF ok n(4) fresh_block [OF ok] fz tk(1) file_okD(1) [OF ok] refl mM bz b vo tk(2)]
  have "freeinode t = freeinode s" by (simp add: t_def)
  moreover have "vw t b = vw s b" if "b \<notin> fblks d (vw s)" for b using vo [of b] a(1) af that by metis
  moreover have "\<exists>as. d = d\<lparr>di_addrs := as\<rparr>" by (rule exI [of _ "di_addrs d"]) simp
  ultimately show "enl s d t d" using g io n(1) ft by (simp add: enl_def ext_def)
qed

text \<open>The blocks that a file of \<open>n\<close> bytes takes, the indirect block included.\<close>

definition need :: "nat \<Rightarrow> nat" where
  "need n = (n + (BSIZE - 1)) div BSIZE + (if n > NDIRECT * BSIZE then 1 else 0)"

text \<open>A file of \<open>off\<close> bytes has exactly the blocks it needs.\<close>

definition mapped :: "dinode \<Rightarrow> (u32 \<Rightarrow> bytes) \<Rightarrow> nat \<Rightarrow> bool" where
  "mapped d V off \<longleftrightarrow> (\<forall>j<MAXFILE. blk_of d V j \<noteq> 0 \<longleftrightarrow> j * BSIZE < off) \<and> (di_addrs d ! NDIRECT \<noteq> 0 \<longleftrightarrow> NDIRECT * BSIZE < off)"

lemma need_mono: "m \<le> n \<Longrightarrow> need m \<le> need n"
  by (auto simp: need_def intro!: add_mono div_le_mono)

lemma need_same:
  assumes "0 < n" and "off + n \<le> (off div BSIZE + 1) * BSIZE"
  shows "need (off + n) = need (Suc off)" and "j * BSIZE < off + n \<longleftrightarrow> j * BSIZE < Suc off"
proof -
  obtain q r where qr: "off = q * BSIZE + r" "r < BSIZE" "off div BSIZE = q"
    using div_mult_mod_eq [of off BSIZE] mod_less_divisor [of BSIZE off] by (metis zero_less_numeral)
  have r: "r + n \<le> BSIZE" using assms(2) unfolding qr(3) by (simp add: qr(1))
  have d: "(off + k + (BSIZE - 1)) div BSIZE = q + 1" if "0 < k" "r + k \<le> BSIZE" for k
    by (rule div_nat_eqI) (use that qr(1) in simp_all)
  show j: "j * BSIZE < off + n \<longleftrightarrow> j * BSIZE < Suc off" for j
  proof (cases "j \<le> q")
    case True
    then have "j * BSIZE \<le> q * BSIZE" by simp
    then show ?thesis using assms(1) unfolding qr(1) by linarith
  next
    case False
    then have "Suc q * BSIZE \<le> j * BSIZE" by (intro mult_le_mono1) simp
    then show ?thesis using r qr(2) unfolding qr(1) by simp
  qed
  show "need (off + n) = need (Suc off)" unfolding need_def using d [OF assms(1) r] d [of 1] qr(2) j [of NDIRECT] by simp
qed

lemma need_Suc:
  "need (Suc off) = need off + (if off mod BSIZE = 0 then 1 else 0) + (if off = NDIRECT * BSIZE then 1 else 0)"
proof -
  have "(Suc off + (BSIZE - 1)) div BSIZE = (off + (BSIZE - 1)) div BSIZE + (if off mod BSIZE = 0 then 1 else 0)"
    using div_Suc [of "off + (BSIZE - 1)" BSIZE] by (simp add: mod_Suc)
  then show ?thesis by (auto simp: need_def)
qed

lemma enl_refl: "img_ok s \<Longrightarrow> file_ok (taken s) d (vw s) \<Longrightarrow> enl s d s d"
  by (simp add: enl_def ext_refl)

lemma enlD:
  assumes "enl s d t d'"
  shows "ext s d t d'" "img_ok t" "file_ok (taken t) d' (vw t)" "i < MAXFILE * BSIZE \<Longrightarrow> fbyte d' (vw t) i = fbyte d (vw s) i"
  using assms by (simp_all add: enl_def ext_def)

text \<open>The indirect block is there, or it is taken.\<close>

lemma indirect_law:
  assumes s: "img_ok s" and ok: "file_ok (taken s) d (vw s)" and room: "di_addrs d ! NDIRECT = 0 \<Longrightarrow> unat (freeblock s) < FSSIZE"
  shows "\<exists>d' t. fill_addr NDIRECT d s = (d', t) \<and> enl s d t d' \<and> di_addrs d' ! NDIRECT \<noteq> 0 \<and>
    (\<forall>j<MAXFILE. blk_of d' (vw t) j = blk_of d (vw s) j) \<and>
    unat (freeblock t) = unat (freeblock s) + (if di_addrs d ! NDIRECT = 0 then 1 else 0)"
proof (cases "di_addrs d ! NDIRECT = 0")
  case True
  note r = room [OF True]
  show ?thesis using True fill_indirect [OF s r ok True] take_block [OF s r] by (simp add: fill_addr_def)
next
  case False
  then show ?thesis using enl_refl [OF s ok] by (simp add: fill_addr_def)
qed

lemma iappend_block_law:
  assumes s: "img_ok s" and ok: "file_ok (taken s) d (vw s)" and m: "mapped d (vw s) off" and off: "off < MAXFILE * BSIZE"
    and room: "unat (freeblock s) + need (Suc off) \<le> FSSIZE + need off"
  shows "\<exists>x d' t. iappend_block (off div BSIZE) d s = Some (x, d', t) \<and> enl s d t d' \<and> mapped d' (vw t) (Suc off) \<and>
    blk_of d' (vw t) (off div BSIZE) = x \<and> x \<noteq> 0 \<and> unat (freeblock t) + need off = unat (freeblock s) + need (Suc off)"
proof -
  define n where "n = off div BSIZE"
  have n: "n < MAXFILE" using off by (simp add: n_def less_mult_imp_div_less)
  have mod: "n * BSIZE + off mod BSIZE = off" by (simp add: n_def)
  have below: "j * BSIZE < Suc off \<longleftrightarrow> j * BSIZE < off \<or> j = n" for j
    unfolding n_def using div_less_iff_less_mult [of BSIZE off j] less_mult_imp_div_less by fastforce
  note mp = m [unfolded mapped_def]
  have bl: "blk_of d (vw s) n = 0 \<longleftrightarrow> off mod BSIZE = 0" using mp n mod by auto
  have ind: "di_addrs d ! NDIRECT = 0 \<longleftrightarrow> off \<le> NDIRECT * BSIZE" using conjunct2 [OF mp] by linarith
  have mapI: "mapped d' (vw t) (Suc off)" if "\<forall>j<MAXFILE. blk_of d' (vw t) j \<noteq> 0 \<longleftrightarrow> blk_of d (vw s) j \<noteq> 0 \<or> j = n"
    "di_addrs d' ! NDIRECT \<noteq> 0 \<longleftrightarrow> di_addrs d ! NDIRECT \<noteq> 0 \<or> n = NDIRECT" for d' t
    using that mp below [of NDIRECT] unfolding mapped_def below by auto
  show ?thesis unfolding n_def [symmetric]
  proof (cases "n < NDIRECT")
    case True
    then have b: "blk_of d (vw s) n = di_addrs d ! n" by (simp add: blk_of_def)
    have ne: "off \<noteq> NDIRECT * BSIZE" using True by (auto simp: n_def)
    show "\<exists>x d' t. iappend_block n d s = Some (x, d', t) \<and> enl s d t d' \<and> mapped d' (vw t) (Suc off) \<and>
      blk_of d' (vw t) n = x \<and> x \<noteq> 0 \<and> unat (freeblock t) + need off = unat (freeblock s) + need (Suc off)"
    proof (cases "di_addrs d ! n = 0")
      case z: True
      have r: "unat (freeblock s) < FSSIZE" using room ne bl b z by (simp add: need_Suc)
      note f = fill_direct [OF s r ok True z] and tb = take_block [OF s r]
      have "mapped (set_daddr n (freeblock s) d) (vw (s\<lparr>freeblock := freeblock s + 1\<rparr>)) (Suc off)"
        by (rule mapI) (use f(2,3) tb(4) True in auto)
      moreover have "iappend_block n d s = Some (freeblock s, set_daddr n (freeblock s) d, s\<lparr>freeblock := freeblock s + 1\<rparr>)"
        using True z file_okD(1) [OF ok] by (simp add: iappend_block_def fill_addr_def set_daddr_def)
      moreover have "unat (freeblock s + 1) + need off = unat (freeblock s) + need (Suc off)" using tb(1) ne bl b z by (simp add: need_Suc)
      ultimately show ?thesis using f(1,2) tb(4) by auto
    next
      case z: False
      have "mapped d (vw s) (Suc off)" by (rule mapI) (use z b True in auto)
      moreover have "need (Suc off) = need off" using ne bl b z by (simp add: need_Suc)
      ultimately show ?thesis using z True b enl_refl [OF s ok] by (simp add: iappend_block_def fill_addr_def)
    qed
  next
    case False
    obtain d1 t1 where f: "fill_addr NDIRECT d s = (d1, t1)" "enl s d t1 d1" "di_addrs d1 ! NDIRECT \<noteq> 0"
      "\<And>j. j < MAXFILE \<Longrightarrow> blk_of d1 (vw t1) j = blk_of d (vw s) j"
      "unat (freeblock t1) = unat (freeblock s) + (if di_addrs d ! NDIRECT = 0 then 1 else 0)"
    proof -
      have "di_addrs d ! NDIRECT = 0 \<Longrightarrow> unat (freeblock s) < FSSIZE" using room ind mod False by (auto simp: need_Suc)
      from indirect_law [OF s ok this] show thesis using that by blast
    qed
    have i12: "di_addrs d ! NDIRECT = 0 \<longleftrightarrow> off = NDIRECT * BSIZE" using ind False mod by auto
    define a where "a = di_addrs d1 ! NDIRECT"
    have a: "a \<noteq> 0" "taken t1 a" using f(3) file_okD(2) [OF enlD(3) [OF f(2)] fblks_ind] by (simp_all add: a_def)
    then have aF: "unat a < FSSIZE" using img_okD(4) [OF enlD(2) [OF f(2)]] by (simp add: taken_def)
    note ra = rsect_ok [OF enlD(2) [OF f(2)] aF]
    have e: "get32 (vw t1 a) (4 * (n - NDIRECT)) = blk_of d (vw s) n" using f(4) [OF n] False f(3) by (simp add: blk_of_def a_def)
    have mm: "n - NDIRECT < NINDIRECT" "NDIRECT + (n - NDIRECT) = n" using n False by auto
    have aff: "di_addrs d1 ! NDIRECT \<noteq> 0 \<longleftrightarrow> di_addrs d ! NDIRECT \<noteq> 0 \<or> n = NDIRECT" using f(3) i12 mod by (auto simp: n_def)
    show "\<exists>x d' t. iappend_block n d s = Some (x, d', t) \<and> enl s d t d' \<and> mapped d' (vw t) (Suc off) \<and>
      blk_of d' (vw t) n = x \<and> x \<noteq> 0 \<and> unat (freeblock t) + need off = unat (freeblock s) + need (Suc off)"
    proof (cases "blk_of d (vw s) n = 0")
      case z: True
      have r: "unat (freeblock t1) < FSSIZE" using room bl z f(5) i12 by (simp add: need_Suc split: if_splits)
      define t where "t = wsect a (put32 (4 * (n - NDIRECT)) (freeblock t1) (vw t1 a)) (t1\<lparr>freeblock := freeblock t1 + 1\<rparr>)"
      note g = fill_entry [OF enlD(2) [OF f(2)] r enlD(3) [OF f(2)] a_def [symmetric] a(1) mm(1) e [unfolded z], folded t_def, unfolded mm(2)]
        and tb = take_block [OF enlD(2) [OF f(2)] r]
      have "mapped d1 (vw t) (Suc off)" by (rule mapI) (use g(2) f(4) tb(4) aff in auto)
      moreover have "length (vw t1 a) = BSIZE" using img_okD(2) [OF enlD(2) [OF f(2)] aF] .
      then have "iappend_block n d s = Some (freeblock t1, d1, t)"
        using False f(1) ra z e mm by (simp add: iappend_block_def t_def [symmetric] a_def [symmetric])
      moreover have "unat (freeblock t) + need off = unat (freeblock s) + need (Suc off)" using g(4) tb(1) f(5) bl z i12 by (simp add: need_Suc)
      moreover have "blk_of d1 (vw t) n = freeblock t1" using g(2) [OF n] by simp
      ultimately show ?thesis using enl_trans [OF f(2) g(1)] tb(4) by blast
    next
      case z: False
      have "mapped d1 (vw t1) (Suc off)" by (rule mapI) (use f(4) z aff in auto)
      moreover have "iappend_block n d s = Some (blk_of d (vw s) n, d1, t1)"
        using False f(1) ra z e mm by (simp add: iappend_block_def a_def [symmetric])
      moreover have "unat (freeblock t1) + need off = unat (freeblock s) + need (Suc off)" using f(5) bl z i12 by (auto simp: need_Suc)
      ultimately show ?thesis using f(2) f(4) [OF n] z by blast
    qed
  qed
qed

text \<open>Bytes are stored in a block of the file.\<close>

lemma store_block:
  assumes s: "img_ok s" and ok: "file_ok (taken s) d (vw s)" and bn: "bn < MAXFILE" "blk_of d (vw s) bn = x" "x \<noteq> 0" and j: "j + length xs \<le> BSIZE"
  defines "t \<equiv> wsect x (put_at j xs (vw s x)) s"
  shows "rsect x s = Some (vw s x)" and "ext s d t d" and "file_ok (taken t) d (vw t)" and "mapped d (vw t) off = mapped d (vw s) off"
    and "freeblock t = freeblock s"
    and "i < MAXFILE * BSIZE \<Longrightarrow> fbyte d (vw t) i = (if bn * BSIZE + j \<le> i \<and> i < bn * BSIZE + j + length xs then xs ! (i - (bn * BSIZE + j)) else fbyte d (vw s) i)"
proof -
  have xf: "x \<in> fblks d (vw s)" using fblksI [OF bn(1), of d "vw s"] bn(2,3) by simp
  have "taken s x" by (rule file_okD(2) [OF ok xf])
  then have x: "unat x < FSSIZE" "unat x < unat (freeblock s)" using img_okD(4) [OF s] by (auto simp: taken_def)
  show "rsect x s = Some (vw s x)" by (rule rsect_ok [OF s x(1)])
  have l: "length (vw s x) = BSIZE" using img_okD(2) [OF s x(1)] .
  have vt: "vw t = (vw s)(x := put_at j xs (vw s x))" unfolding t_def using wsect_vw [OF s x(1)] .
  note w = file_write [OF ok bn(1) bn(2) [symmetric] bn(3) l j, folded vt]
  show fb: "freeblock t = freeblock s" by (simp add: t_def)
  then have tk: "taken t = taken s" by (simp add: taken_def fun_eq_iff)
  show "file_ok (taken t) d (vw t)" "mapped d (vw t) off = mapped d (vw s) off" using w(1,3) tk by (simp_all add: mapped_def)
  show "i < MAXFILE * BSIZE \<Longrightarrow> fbyte d (vw t) i = (if bn * BSIZE + j \<le> i \<and> i < bn * BSIZE + j + length xs then xs ! (i - (bn * BSIZE + j)) else fbyte d (vw s) i)"
    by (rule w(4))
  have "img_ok t" unfolding t_def using s x(2) l j by (intro wsect_img_ok) auto
  moreover have "\<exists>as. d = d\<lparr>di_addrs := as\<rparr>" by (rule exI [of _ "di_addrs d"]) simp
  moreover have "freeinode t = freeinode s" by (simp add: t_def)
  moreover have "vw t b = vw s b" if "b \<notin> fblks d (vw s)" for b using that xf unfolding vt by auto
  ultimately show "ext s d t d" unfolding ext_def w(2) fb by auto
qed

lemma iappend_loop_law:
  assumes "img_ok s" and "file_ok (taken s) d (vw s)" and "mapped d (vw s) off" and "off + length xs \<le> MAXFILE * BSIZE"
    and "unat (freeblock s) + need (off + length xs) \<le> FSSIZE + need off"
  shows "\<exists>d' t. iappend_loop d off xs s = Some (d', off + length xs, t) \<and> ext s d t d' \<and> file_ok (taken t) d' (vw t) \<and>
    mapped d' (vw t) (off + length xs) \<and> unat (freeblock t) + need off = unat (freeblock s) + need (off + length xs) \<and>
    (\<forall>i<MAXFILE * BSIZE. fbyte d' (vw t) i = (if off \<le> i \<and> i < off + length xs then xs ! (i - off) else fbyte d (vw s) i))"
  using assms
proof (induction xs arbitrary: d off s rule: measure_induct_rule [where f = length])
  case (less xs)
  show ?case
  proof (cases "xs = []")
    case True
    then show ?thesis using less.prems ext_refl by (subst iappend_loop.simps) auto
  next
    case False
    define bn where "bn = off div BSIZE"
    define n where "n = min (length xs) ((bn + 1) * BSIZE - off)"
    have off: "bn * BSIZE + (off - bn * BSIZE) = off" "off < (bn + 1) * BSIZE"
      using dividend_less_div_times [of BSIZE off] unfolding bn_def by (simp_all add: add.commute)
    have n: "0 < n" "n \<le> length xs" "off + n \<le> (bn + 1) * BSIZE" "off - bn * BSIZE + n \<le> BSIZE" using False off unfolding n_def by auto
    note ns = need_same [OF n(1), of off, folded bn_def, OF n(3)]
    have lt: "off < MAXFILE * BSIZE" using less.prems(4) n by simp
    then have bnM: "bn < MAXFILE" by (simp add: bn_def less_mult_imp_div_less)
    have mo: "need off \<le> need (Suc off)" "need (Suc off) \<le> need (off + length xs)" using n by (auto intro!: need_mono)
    then have room: "unat (freeblock s) + need (Suc off) \<le> FSSIZE + need off" using less.prems(5) by linarith
    obtain x d1 t1 where b: "iappend_block bn d s = Some (x, d1, t1)" "enl s d t1 d1" "mapped d1 (vw t1) (Suc off)"
      "blk_of d1 (vw t1) bn = x" "x \<noteq> 0" "unat (freeblock t1) + need off = unat (freeblock s) + need (Suc off)"
      using iappend_block_law [OF less.prems(1-3) lt room] unfolding bn_def by blast
    have lj: "off - bn * BSIZE + length (take n xs) \<le> BSIZE" using n by simp
    define t2 where "t2 = wsect x (put_at (off - bn * BSIZE) (take n xs) (vw t1 x)) t1"
    note w = store_block [OF enlD(2,3) [OF b(2)] bnM b(4,5) lj, folded t2_def, unfolded off(1)]
    have m2: "mapped d1 (vw t2) (off + n)" using w(4) [of "Suc off"] b(3) unfolding mapped_def ns(2) by blast
    have "length (drop n xs) < length xs" "off + n + length (drop n xs) = off + length xs" using n by auto
    moreover have "unat (freeblock t2) + need (off + n + length (drop n xs)) \<le> FSSIZE + need (off + n)"
      using less.prems(5) b(6) w(5) ns(1) calculation(2) mo by simp
    ultimately obtain d' t where r: "iappend_loop d1 (off + n) (drop n xs) t2 = Some (d', off + length xs, t)" "ext t2 d1 t d'"
      "file_ok (taken t) d' (vw t)" "mapped d' (vw t) (off + length xs)"
      "unat (freeblock t) + need (off + n) = unat (freeblock t2) + need (off + length xs)"
      "\<forall>i<MAXFILE * BSIZE. fbyte d' (vw t) i = (if off + n \<le> i \<and> i < off + length xs then drop n xs ! (i - (off + n)) else fbyte d1 (vw t2) i)"
      using less.IH [of "drop n xs" t2 d1 "off + n", OF _ extD(1) [OF w(2)] w(3) m2] less.prems(4) by auto
    have "min (length xs) (BSIZE + bn * BSIZE - off) = n" by (simp add: n_def)
    then have "iappend_loop d off xs s = Some (d', off + length xs, t)"
      using False bnM b(1) w(1) r(1) by (subst iappend_loop.simps) (simp add: bn_def [symmetric] t2_def [symmetric])
    moreover have "ext s d t d'" by (rule ext_trans [OF ext_trans [OF enlD(1) [OF b(2)] w(2)] r(2)])
    moreover have "unat (freeblock t) + need off = unat (freeblock s) + need (off + length xs)" using r(5) b(6) w(5) ns(1) mo by simp
    moreover have "fbyte d' (vw t) i = (if off \<le> i \<and> i < off + length xs then xs ! (i - off) else fbyte d (vw s) i)" if i: "i < MAXFILE * BSIZE" for i
      using r(6) [rule_format, OF i] w(6) [OF i] enlD(4) [OF b(2) i] n by (auto simp: not_less)
    ultimately show ?thesis using r(3,4) by blast
  qed
qed

subsection \<open>Inodes of the image\<close>

definition ino :: "mkfs_st \<Rightarrow> u32 \<Rightarrow> dinode" where
  "ino s i = get_dinode (ioff i) (vw s (IBLOCK i mk_sb))"

lemma iblock:
  assumes "unat i < NINODES"
  shows "unat (IBLOCK i mk_sb) = unat i div IPB + 32" and "unat (IBLOCK i mk_sb) < 45" and "32 \<le> unat (IBLOCK i mk_sb)"
proof -
  have "unat (i div of_nat IPB) = unat i div IPB" by (simp add: unat_div)
  then show e: "unat (IBLOCK i mk_sb) = unat i div IPB + 32"
    unfolding IBLOCK_def using assms by (subst unat_add_small) simp_all
  show "unat (IBLOCK i mk_sb) < 45" "32 \<le> unat (IBLOCK i mk_sb)" unfolding e using assms by simp_all
qed

lemma winode_law:
  assumes s: "img_ok s" and i: "unat i < NINODES" and d: "length (di_addrs d) = NDIRECT + 1"
  shows "\<exists>t. winode i d s = Some t \<and> img_ok t \<and> freeinode t = freeinode s \<and> freeblock t = freeblock s \<and> ino t i = d \<and>
    (\<forall>j. unat j < NINODES \<and> j \<noteq> i \<longrightarrow> ino t j = ino s j) \<and> (\<forall>b. unat b < 32 \<or> 45 \<le> unat b \<longrightarrow> vw t b = vw s b)"
proof -
  let ?b = "IBLOCK i mk_sb"
  define t where "t = wsect ?b (put_dinode (ioff i) d (vw s ?b)) s"
  note ib = iblock [OF i]
  have b: "unat ?b < FSSIZE" "unat ?b < unat (freeblock s)" using ib(2) img_okD(3) [OF s] by auto
  have l: "length (vw s ?b) = BSIZE" "ioff i + 64 \<le> length (vw s ?b)" using img_okD(2) [OF s b(1)] ioff_bound [of i] by auto
  have vt: "vw t = (vw s)(?b := put_dinode (ioff i) d (vw s ?b))" unfolding t_def by (rule wsect_vw [OF s b(1)])
  have "winode i d s = Some t" using rsect_ok [OF s b(1)] by (simp add: winode_def t_def Let_def)
  moreover have "img_ok t" unfolding t_def using s b(2) l by (intro wsect_img_ok) auto
  moreover have "ino t i = d" unfolding ino_def vt using get_put_dinode [OF l(2)] d by simp
  moreover have "ino t j = ino s j" if j: "unat j < NINODES" "j \<noteq> i" for j
  proof (cases "IBLOCK j mk_sb = ?b")
    case True
    then have "unat j div IPB = unat i div IPB" using iblock(1) [OF j(1)] ib(1) by simp
    then have "unat j mod IPB \<noteq> unat i mod IPB" using j(2) by (metis div_mult_mod_eq word_unat_eq_iff)
    then have "ioff j + 64 \<le> ioff i \<or> ioff i + 64 \<le> ioff j" by (auto simp: ioff_def)
    then show ?thesis unfolding ino_def vt True using get_put_dinode_other [OF l(2), of "ioff j"] l ioff_bound [of j] by simp
  qed (simp add: ino_def vt)
  moreover have "vw t b = vw s b" if "unat b < 32 \<or> 45 \<le> unat b" for b using that ib unfolding vt by auto
  ultimately show ?thesis by (auto simp: t_def)
qed

lemma rinode_ok: "img_ok s \<Longrightarrow> unat i < NINODES \<Longrightarrow> rinode i s = Some (ino s i)"
  using rsect_ok [of s "IBLOCK i mk_sb"] iblock(2) [of i] by (simp add: rinode_def ino_def)

text \<open>The file of an inode: its blocks, and zeros behind its end.\<close>

definition good :: "mkfs_st \<Rightarrow> dinode \<Rightarrow> bool" where
  "good s d \<longleftrightarrow> file_ok (taken s) d (vw s) \<and> unat (di_size d) \<le> MAXFILE * BSIZE \<and> mapped d (vw s) (unat (di_size d)) \<and>
     (\<forall>k. unat (di_size d) \<le> k \<and> k < MAXFILE * BSIZE \<longrightarrow> fbyte d (vw s) k = 0)"

definition mbytes :: "mkfs_st \<Rightarrow> dinode \<Rightarrow> bytes" where
  "mbytes s d = map (fbyte d (vw s)) [0..<unat (di_size d)]"

abbreviation live :: "mkfs_st \<Rightarrow> u32 \<Rightarrow> bool" where
  "live s i \<equiv> 1 \<le> unat i \<and> unat i < unat (freeinode s)"

definition mk_ok :: "mkfs_st \<Rightarrow> bool" where
  "mk_ok s \<longleftrightarrow> img_ok s \<and> 1 \<le> unat (freeinode s) \<and> unat (freeinode s) \<le> NINODES \<and> decode_sb (vw s 1) = mk_sb \<and> vw s 2 = zeroes \<and>
     (\<forall>i. live s i \<longrightarrow> good s (ino s i)) \<and> (\<forall>i j. live s i \<and> live s j \<and> i \<noteq> j \<longrightarrow> fblks (ino s i) (vw s) \<inter> fblks (ino s j) (vw s) = {})"

lemma mk_okD:
  assumes "mk_ok s"
  shows "img_ok s" "1 \<le> unat (freeinode s)" "unat (freeinode s) \<le> NINODES" "decode_sb (vw s 1) = mk_sb" "vw s 2 = zeroes"
    "live s i \<Longrightarrow> good s (ino s i)" "live s i \<Longrightarrow> live s j \<Longrightarrow> i \<noteq> j \<Longrightarrow> fblks (ino s i) (vw s) \<inter> fblks (ino s j) (vw s) = {}"
  using assms unfolding mk_ok_def by blast+

lemma goodD:
  assumes "good s d"
  shows "file_ok (taken s) d (vw s)" "unat (di_size d) \<le> MAXFILE * BSIZE" "mapped d (vw s) (unat (di_size d))"
    "unat (di_size d) \<le> k \<Longrightarrow> k < MAXFILE * BSIZE \<Longrightarrow> fbyte d (vw s) k = 0"
  using assms by (simp_all add: good_def)

text \<open>A file whose blocks and inode stay is the same file.\<close>

lemma good_same:
  assumes "good s d" and "\<And>b. b \<in> fblks d (vw s) \<Longrightarrow> vw t b = vw s b" and "unat (freeblock s) \<le> unat (freeblock t)"
  shows "good t d" and "mbytes t d = mbytes s d" and "fblks d (vw t) = fblks d (vw s)"
proof -
  note g = goodD [OF assms(1)]
  note f = file_same [where d' = d and d = d, OF refl assms(2)]
  have ok: "file_ok (taken t) d (vw t)" using f(4) [where U' = "taken t", OF _ _ g(1)] assms(3) by (auto simp: taken_def)
  then show "good t d" using g f(1,3) unfolding good_def mapped_def by auto
  show "fblks d (vw t) = fblks d (vw s)" by (rule f(2))
  show "mbytes t d = mbytes s d" using f(3) g(2) by (auto simp: mbytes_def)
qed

text \<open>One inode is new or changed.\<close>

lemma mk_ok_update:
  assumes s: "mk_ok s" and t: "img_ok t" "unat (freeblock s) \<le> unat (freeblock t)" "1 \<le> unat (freeinode t)" "unat (freeinode t) \<le> NINODES"
    and live: "\<And>j. live t j \<Longrightarrow> j = i \<or> live s j" and low: "\<And>b. unat b < 32 \<Longrightarrow> vw t b = vw s b"
    and same: "\<And>j. live s j \<Longrightarrow> j \<noteq> i \<Longrightarrow> ino t j = ino s j" "\<And>j b. live s j \<Longrightarrow> j \<noteq> i \<Longrightarrow> b \<in> fblks (ino s j) (vw s) \<Longrightarrow> vw t b = vw s b"
    and new: "good t (ino t i)" "\<And>j. live s j \<Longrightarrow> j \<noteq> i \<Longrightarrow> fblks (ino t i) (vw t) \<inter> fblks (ino s j) (vw s) = {}"
  shows "mk_ok t" and "live s j \<Longrightarrow> j \<noteq> i \<Longrightarrow> mbytes t (ino t j) = mbytes s (ino s j)"
proof -
  have g: "good t (ino t j)" "mbytes t (ino t j) = mbytes s (ino s j)" "fblks (ino t j) (vw t) = fblks (ino s j) (vw s)" if "live s j" "j \<noteq> i" for j
    using good_same [OF mk_okD(6) [OF s that(1)] same(2) [OF that] t(2)] same(1) [OF that] by simp_all
  then show "live s j \<Longrightarrow> j \<noteq> i \<Longrightarrow> mbytes t (ino t j) = mbytes s (ino s j)" by blast
  have "good t (ino t j)" if "live t j" for j using that live [OF that] new(1) g(1) by (cases "j = i") auto
  moreover have "fblks (ino t j) (vw t) \<inter> fblks (ino t k) (vw t) = {}" if l: "live t j" "live t k" "j \<noteq> k" for j k
  proof (cases "j = i \<or> k = i")
    case True
    then show ?thesis using live [OF l(1)] live [OF l(2)] l(3) new(2) g(3) by (auto simp: Int_commute)
  next
    case False
    then have j: "live s j" "live s k" using live [OF l(1)] live [OF l(2)] by auto
    then show ?thesis using mk_okD(7) [OF s j l(3)] g(3) False by simp
  qed
  moreover have "vw t 1 = vw s 1" "vw t 2 = vw s 2" by (rule low, simp)+
  ultimately show "mk_ok t" using t mk_okD(4,5) [OF s] unfolding mk_ok_def by simp
qed

lemma iappend_law:
  assumes s: "mk_ok s" and i: "live s i" and n: "length (mbytes s (ino s i)) + length xs \<le> MAXFILE * BSIZE"
    and room: "unat (freeblock s) + need (length (mbytes s (ino s i)) + length xs) \<le> FSSIZE + need (length (mbytes s (ino s i)))"
  shows "\<exists>t. iappend i xs s = Some t \<and> mk_ok t \<and> freeinode t = freeinode s \<and> mbytes t (ino t i) = mbytes s (ino s i) @ xs \<and>
    di_type (ino t i) = di_type (ino s i) \<and> (\<forall>j. live s j \<and> j \<noteq> i \<longrightarrow> ino t j = ino s j \<and> mbytes t (ino t j) = mbytes s (ino s j)) \<and>
    unat (freeblock t) + need (length (mbytes s (ino s i))) = unat (freeblock s) + need (length (mbytes s (ino s i)) + length xs)"
proof -
  define d where "d = ino s i"
  define k where "k = unat (di_size d)"
  have lk: "length (mbytes s (ino s i)) = k" by (simp add: mbytes_def k_def d_def)
  note g = goodD [OF mk_okD(6) [OF s i], folded d_def] and io = mk_okD(1) [OF s]
  have iN: "unat i < NINODES" using i mk_okD(3) [OF s] by simp
  obtain d' u where u: "iappend_loop d k xs s = Some (d', k + length xs, u)" "ext s d u d'" "file_ok (taken u) d' (vw u)"
    "mapped d' (vw u) (k + length xs)" "unat (freeblock u) + need k = unat (freeblock s) + need (k + length xs)"
    "\<And>i. i < MAXFILE * BSIZE \<Longrightarrow> fbyte d' (vw u) i = (if k \<le> i \<and> i < k + length xs then xs ! (i - k) else fbyte d (vw s) i)"
    using iappend_loop_law [OF io g(1) g(3) [folded k_def], of xs] n room unfolding lk by blast
  note e = extD [OF u(2)]
  define d2 where "d2 = d'\<lparr>di_size := of_nat (k + length xs)\<rparr>"
  have a2: "di_addrs d2 = di_addrs d'" by (simp add: d2_def)
  have kx: "k + length xs \<le> MAXFILE * BSIZE" using n lk by simp
  then have sz: "unat (di_size d2) = k + length xs" by (simp add: d2_def unat_of_nat32 del: of_nat_add)
  obtain t where t: "winode i d2 u = Some t" "img_ok t" "freeinode t = freeinode u" "freeblock t = freeblock u" "ino t i = d2"
    "\<And>j. unat j < NINODES \<Longrightarrow> j \<noteq> i \<Longrightarrow> ino t j = ino u j" "\<And>b. unat b < 32 \<or> 45 \<le> unat b \<Longrightarrow> vw t b = vw u b"
    using winode_law [OF e(1) iN, of d2] file_okD(1) [OF u(3)] a2 by auto
  have tu: "taken t = taken u" using t(4) by (simp add: taken_def fun_eq_iff)
  have hi: "46 \<le> unat b" "unat b < unat (freeblock u)" if "b \<in> fblks d' (vw u)" for b using file_okD(2) [OF u(3) that] by (simp_all add: taken_def)
  note f = file_same [where d' = d2 and d = d' and V = "vw u" and V' = "vw t", OF a2 t(7)]
  have f1: "blk_of d2 (vw t) = blk_of d' (vw u)" "fblks d2 (vw t) = fblks d' (vw u)" "file_ok (taken t) d2 (vw t)"
    and f2: "\<And>i. i < MAXFILE * BSIZE \<Longrightarrow> fbyte d2 (vw t) i = fbyte d' (vw u) i"
    using f(1,2,3) f(4) [where U' = "taken t" and U = "taken u"] hi u(3) tu by (fastforce+)
  have "good t d2" unfolding good_def sz using f1 u(4,6) f2 g(4) kx a2 by (auto simp: mapped_def k_def)
  moreover have old: "46 \<le> unat b" "unat b < unat (freeblock s)" if "live s j" "b \<in> fblks (ino s j) (vw s)" for j b
    using file_okD(2) [OF goodD(1) [OF mk_okD(6) [OF s that(1)]] that(2)] by (simp_all add: taken_def)
  moreover have "fblks d2 (vw t) \<inter> fblks (ino s j) (vw s) = {}" if "live s j" "j \<noteq> i" for j
    using e(5) old(2) [OF that(1)] mk_okD(7) [OF s i that(1)] that(2) unfolding f1 d_def [symmetric] by fastforce
  moreover have vs: "vw t b = vw s b" if "unat b < unat (freeblock s)" "b \<notin> fblks d (vw s)" "unat b < 32 \<or> 45 \<le> unat b" for b
    using t(7) e(4) that by auto
  moreover have nd: "b \<notin> fblks d (vw s)" if "unat b < 46" for b using old(1) [OF i, folded d_def] that by force
  moreover have ij: "ino t j = ino s j" if j: "live s j" "j \<noteq> i" for j
  proof -
    have jN: "unat j < NINODES" using j mk_okD(3) [OF s] by simp
    have "vw u (IBLOCK j mk_sb) = vw s (IBLOCK j mk_sb)" using iblock(2) [OF jN] nd img_okD(3) [OF io] by (intro e(4)) auto
    then show ?thesis using t(6) [OF jN j(2)] by (simp add: ino_def)
  qed
  moreover have vb: "vw t b = vw s b" if "live s j" "j \<noteq> i" "b \<in> fblks (ino s j) (vw s)" for j b
    using mk_okD(7) [OF s i that(1)] that(2,3) old [OF that(1,3)] unfolding d_def [symmetric] by (intro vs) auto
  moreover have "vw t b = vw s b" if "unat b < 32" for b using that nd img_okD(3) [OF io] by (intro vs) auto
  ultimately have ok: "mk_ok t" "\<And>j. live s j \<Longrightarrow> j \<noteq> i \<Longrightarrow> mbytes t (ino t j) = mbytes s (ino s j)"
    using mk_ok_update [OF s t(2), of i] t(3-5) e(2,3) mk_okD(2,3) [OF s] by simp_all
  have "iappend i xs s = Some t" using rinode_ok [OF io iN] u(1) t(1) by (simp add: iappend_def d_def [symmetric] k_def [symmetric] d2_def [symmetric] del: of_nat_add)
  moreover have "mbytes t (ino t i) = mbytes s (ino s i) @ xs"
    by (rule nth_equalityI) (use u(6) f2 kx in \<open>auto simp: mbytes_def t(5) sz nth_append k_def d_def [symmetric]\<close>)
  moreover have "di_type (ino t i) = di_type (ino s i)" using e(6) unfolding t(5) d2_def d_def [symmetric] by auto
  ultimately show ?thesis unfolding lk using ok ij t(3,4) e(2) u(5) by auto
qed

lemma length_mbytes: "length (mbytes s d) = unat (di_size d)"
  by (simp add: mbytes_def)

lemma nth_mbytes: "k < unat (di_size d) \<Longrightarrow> mbytes s d ! k = fbyte d (vw s) k"
  by (simp add: mbytes_def)

lemma need_0 [simp]: "need 0 = 0"
  by (simp add: need_def)

lemma empty_file:
  assumes "di_addrs d = replicate (NDIRECT + 1) 0"
  shows "j < MAXFILE \<Longrightarrow> blk_of d V j = 0" and "fblks d V = {}" and "k < MAXFILE * BSIZE \<Longrightarrow> fbyte d V k = 0"
proof -
  show b: "blk_of d V j = 0" if "j < MAXFILE" for j using that assms by (simp add: blk_of_def nth_replicate del: replicate_Suc)
  show "fblks d V = {}" using b assms by (auto simp: fblks_def nth_replicate simp del: replicate_Suc)
  show "fbyte d V k = 0" if "k < MAXFILE * BSIZE" using b [of "k div BSIZE"] that by (simp add: fbyte_def less_mult_imp_div_less)
qed

lemma mk_ialloc_law:
  assumes s: "mk_ok s" and n: "unat (freeinode s) < NINODES"
  shows "\<exists>t. mk_ialloc ty s = Some (freeinode s, t) \<and> mk_ok t \<and> unat (freeinode t) = Suc (unat (freeinode s)) \<and> freeblock t = freeblock s \<and>
    di_type (ino t (freeinode s)) = ty \<and> mbytes t (ino t (freeinode s)) = [] \<and>
    (\<forall>j. live s j \<longrightarrow> ino t j = ino s j \<and> mbytes t (ino t j) = mbytes s (ino s j))"
proof -
  define d where "d = \<lparr>di_type = ty, di_major = 0, di_minor = 0, di_nlink = 1, di_size = 0, di_addrs = replicate (NDIRECT + 1) 0\<rparr>"
  let ?i = "freeinode s" and ?u = "s\<lparr>freeinode := freeinode s + 1\<rparr>"
  note D = mk_okD [OF s]
  have nx: "unat (?i + 1) = Suc (unat ?i)" using n by (subst unat_add_small) auto
  have io: "img_ok ?u" using D(1) by (simp add: img_ok_def)
  obtain t where t: "winode ?i d ?u = Some t" "img_ok t" "freeinode t = ?i + 1" "freeblock t = freeblock s" "ino t ?i = d"
    "\<And>j. unat j < NINODES \<Longrightarrow> j \<noteq> ?i \<Longrightarrow> ino t j = ino s j" "\<And>b. unat b < 32 \<or> 45 \<le> unat b \<Longrightarrow> vw t b = vw s b"
    using winode_law [OF io n, of d] by (auto simp: d_def ino_def)
  have e: "di_addrs d = replicate (NDIRECT + 1) 0" "di_size d = 0" by (simp_all add: d_def)
  note z = empty_file [OF e(1)]
  have "good t d" unfolding good_def file_ok_def mapped_def using z e by (auto simp: nth_replicate simp del: replicate_Suc)
  moreover have old: "46 \<le> unat b" if "live s j" "b \<in> fblks (ino s j) (vw s)" for j b
    using file_okD(2) [OF goodD(1) [OF D(6) [OF that(1)]] that(2)] by (simp add: taken_def)
  moreover have "vw t b = vw s b" if "live s j" "b \<in> fblks (ino s j) (vw s)" for j b using old [OF that] by (intro t(7)) simp
  moreover have ij: "ino t j = ino s j" "j \<noteq> ?i" if "live s j" for j using that D(3) t(6) [of j] by auto
  moreover have "j = ?i \<or> live s j" if "live t j" for j using that unfolding t(3) nx by (auto simp: less_Suc_eq word_unat_eq_iff)
  ultimately have ok: "mk_ok t" "\<And>j. live s j \<Longrightarrow> mbytes t (ino t j) = mbytes s (ino s j)"
    using mk_ok_update [OF s t(2), of ?i] t(3-5,7) D(2) n nx z(2) by simp_all
  have "mk_ialloc ty s = Some (?i, t)" using t(1) by (simp add: mk_ialloc_def d_def Let_def)
  moreover have "mbytes t (ino t ?i) = []" by (simp add: mbytes_def t(5) e(2))
  ultimately show ?thesis using ok ij t(3-5) nx by (auto simp: d_def)
qed

text \<open>The pieces of a file.\<close>

lemma pieces_law:
  assumes "mk_ok s" and "live s i" and "length (mbytes s (ino s i)) + length (concat ps) \<le> MAXFILE * BSIZE"
    and "unat (freeblock s) + need (length (mbytes s (ino s i)) + length (concat ps)) \<le> FSSIZE + need (length (mbytes s (ino s i)))"
  shows "\<exists>t. for_each ps (iappend i) s = Some t \<and> mk_ok t \<and> freeinode t = freeinode s \<and> mbytes t (ino t i) = mbytes s (ino s i) @ concat ps \<and>
    di_type (ino t i) = di_type (ino s i) \<and> (\<forall>j. live s j \<and> j \<noteq> i \<longrightarrow> ino t j = ino s j \<and> mbytes t (ino t j) = mbytes s (ino s j)) \<and>
    unat (freeblock t) + need (length (mbytes s (ino s i))) = unat (freeblock s) + need (length (mbytes s (ino s i)) + length (concat ps))"
  using assms
proof (induction ps arbitrary: s)
  case Nil
  then show ?case by simp
next
  case (Cons p ps)
  let ?k = "length (mbytes s (ino s i))"
  have "need (?k + length p) \<le> need (?k + length (concat (p # ps)))" by (intro need_mono) simp
  then obtain u where u: "iappend i p s = Some u" "mk_ok u" "freeinode u = freeinode s" "mbytes u (ino u i) = mbytes s (ino s i) @ p"
    "di_type (ino u i) = di_type (ino s i)" "\<And>j. live s j \<Longrightarrow> j \<noteq> i \<Longrightarrow> ino u j = ino s j \<and> mbytes u (ino u j) = mbytes s (ino s j)"
    "unat (freeblock u) + need ?k = unat (freeblock s) + need (?k + length p)"
    using iappend_law [OF Cons.prems(1,2), of p] Cons.prems(3,4) by auto
  obtain t where t: "for_each ps (iappend i) u = Some t" "mk_ok t" "freeinode t = freeinode u" "mbytes t (ino t i) = mbytes u (ino u i) @ concat ps"
    "di_type (ino t i) = di_type (ino u i)" "\<And>j. live u j \<Longrightarrow> j \<noteq> i \<Longrightarrow> ino t j = ino u j \<and> mbytes t (ino t j) = mbytes u (ino u j)"
    "unat (freeblock t) + need (?k + length p) = unat (freeblock u) + need (?k + length p + length (concat ps))"
    using Cons.IH [OF u(2)] Cons.prems(2-4) u(3,4,7) by (auto simp: add.assoc)
  have "for_each (p # ps) (iappend i) s = Some t" using u(1) t(1) by simp
  moreover have "mbytes t (ino t i) = mbytes s (ino s i) @ concat (p # ps)" "freeinode t = freeinode s" "di_type (ino t i) = di_type (ino s i)"
    using u t by simp_all
  moreover have "ino t j = ino s j \<and> mbytes t (ino t j) = mbytes s (ino s j)" if "live s j" "j \<noteq> i" for j
    using u(6) [OF that] t(6) [OF _ that(2)] that(1) u(3) by auto
  moreover have "unat (freeblock t) + need ?k = unat (freeblock s) + need (?k + length (concat (p # ps)))" using u(7) t(7) by (simp add: add.assoc)
  ultimately show ?case using t(2) by blast
qed

text \<open>Inode numbers are given out in turn, from 2 on for the files.\<close>

definition file_no :: "nat \<Rightarrow> u32" where
  "file_no k = of_nat (k + 2)"

lemma file_no: "k < 300 \<Longrightarrow> unat (file_no k) = k + 2"
  unfolding file_no_def by (rule unat_of_nat32) simp

text \<open>The image so far: the bytes of the root directory, and the contents of the files.\<close>

definition holds :: "mkfs_st \<Rightarrow> bytes \<Rightarrow> bytes list \<Rightarrow> bool" where
  "holds s ents cs \<longleftrightarrow> mk_ok s \<and> unat (freeinode s) = 2 + length cs \<and> mbytes s (ino s 1) = ents \<and> di_type (ino s 1) = T_DIR \<and>
     (\<forall>k<length cs. mbytes s (ino s (file_no k)) = cs ! k \<and> di_type (ino s (file_no k)) = T_FILE) \<and>
     unat (freeblock s) = nmeta + need (length ents) + sum_list (map (\<lambda>c. need (length c)) cs)"

definition file_data :: "bytes \<times> bytes list option \<Rightarrow> bytes" where
  "file_data f = concat (the (snd f))"

lemma length_dirent [simp]: "length (dirent i name) = DESIZE"
  by (simp add: dirent_def)


lemma mk_file_law:
  assumes h: "holds s ents cs" and f: "f = (arg, Some ps)" "slash \<notin> set (base_name arg)" and n: "length cs < 198"
    and len: "length ents + DESIZE \<le> MAXFILE * BSIZE" "length (file_data f) \<le> MAXFILE * BSIZE"
    and room: "nmeta + need (length ents + DESIZE) + sum_list (map (\<lambda>c. need (length c)) (cs @ [file_data f])) \<le> FSSIZE"
  shows "\<exists>t. mk_file ROOTINO f s = Some t \<and> holds t (ents @ dirent (file_no (length cs)) (short_name arg)) (cs @ [file_data f])"
proof -
  note H = h [unfolded holds_def]
  let ?i = "file_no (length cs) " and ?e = "dirent (file_no (length cs)) (short_name arg)"
  have i: "freeinode s = ?i" "unat ?i = length cs + 2" using H n file_no [of "length cs"] by (simp_all add: word_unat_eq_iff)
  have fd: "file_data f = concat ps" by (simp add: file_data_def f)
  have le: "need (length ents) \<le> need (length ents + DESIZE)" by (rule need_mono) simp
  obtain u where u: "mk_ialloc T_FILE s = Some (?i, u)" "mk_ok u" "unat (freeinode u) = Suc (unat ?i)" "freeblock u = freeblock s"
    "di_type (ino u ?i) = T_FILE" "mbytes u (ino u ?i) = []" "\<And>j. live s j \<Longrightarrow> ino u j = ino s j \<and> mbytes u (ino u j) = mbytes s (ino s j)"
    using mk_ialloc_law [of s T_FILE] H n unfolding i(1) by auto
  have l1: "live s 1" "live u 1" "live u ?i" using H u(3) i(2) by auto
  have e1: "mbytes u (ino u 1) = ents" using u(7) [OF l1(1)] H by auto
  obtain v where v: "iappend 1 ?e u = Some v" "mk_ok v" "freeinode v = freeinode u" "mbytes v (ino v 1) = ents @ ?e" "di_type (ino v 1) = di_type (ino u 1)"
    "\<And>j. live u j \<Longrightarrow> j \<noteq> 1 \<Longrightarrow> ino v j = ino u j \<and> mbytes v (ino v j) = mbytes u (ino u j)"
    "unat (freeblock v) + need (length ents) = unat (freeblock s) + need (length ents + DESIZE)"
    using iappend_law [OF u(2) l1(2), of ?e] len(1) room H u(4) unfolding e1 by auto
  have i1: "?i \<noteq> 1" using i(2) by auto
  have lv: "live v ?i" and mv: "mbytes v (ino v ?i) = []" using l1(3) v(3) v(6) [OF l1(3) i1] u(6) by auto
  obtain t where t: "for_each ps (iappend ?i) v = Some t" "mk_ok t" "freeinode t = freeinode v" "mbytes t (ino t ?i) = concat ps"
    "di_type (ino t ?i) = di_type (ino v ?i)" "\<And>j. live v j \<Longrightarrow> j \<noteq> ?i \<Longrightarrow> ino t j = ino v j \<and> mbytes t (ino t j) = mbytes v (ino v j)"
    "unat (freeblock t) = unat (freeblock v) + need (length (concat ps))"
    using pieces_law [OF v(2) lv, of ps] len(2) room H v(7) le unfolding mv fd by auto
  have "mk_file ROOTINO f s = Some t" using f u(1) v(1) t(1) by (simp add: mk_file_def)
  moreover have "holds t (ents @ ?e) (cs @ [file_data f])" unfolding holds_def
  proof (intro conjI allI impI)
    show "mbytes t (ino t 1) = ents @ ?e" "di_type (ino t 1) = T_DIR" using t(6) [of 1] v(3-5) u(7) [OF l1(1)] l1(2) i1 H by auto
    show "unat (freeinode t) = 2 + length (cs @ [file_data f])" using t(3) v(3) u(3) i(2) by simp
    show "unat (freeblock t) = nmeta + need (length (ents @ ?e)) + sum_list (map (\<lambda>c. need (length c)) (cs @ [file_data f]))"
      using t(7) v(7) H le fd by simp
    fix k assume k: "k < length (cs @ [file_data f])"
    have "mbytes t (ino t (file_no k)) = (cs @ [file_data f]) ! k \<and> di_type (ino t (file_no k)) = T_FILE"
    proof (cases "k = length cs")
      case True
      then show ?thesis using t(4,5) v(6) [OF l1(3) i1] u(5) fd by simp
    next
      case False
      define j where "j = file_no k"
      have j: "unat j = k + 2" "k < length cs" using k False n file_no [of k] by (auto simp: j_def)
      have ls: "live s j" "live u j" "live v j" "j \<noteq> 1" "j \<noteq> ?i" using j H u(3) v(3) i(2) by auto
      have "ino t j = ino s j" "mbytes t (ino t j) = mbytes s (ino s j)" using t(6) [OF ls(3,5)] v(6) [OF ls(2,4)] u(7) [OF ls(1)] by auto
      then show ?thesis using H j(2) by (simp add: nth_append j_def)
    qed
    then show "mbytes t (ino t (file_no k)) = (cs @ [file_data f]) ! k" "di_type (ino t (file_no k)) = T_FILE" by blast+
  qed (use t(2) in auto)
  ultimately show ?thesis by blast
qed

text \<open>The entries of the directory for files with the numbers from \<open>k\<close> on.\<close>

primrec entries :: "nat \<Rightarrow> (bytes \<times> bytes list option) list \<Rightarrow> bytes" where
  "entries k [] = []"
| "entries k (f # fs) = dirent (file_no k) (short_name (fst f)) @ entries (Suc k) fs"

lemma length_entries [simp]: "length (entries k fs) = DESIZE * length fs"
  by (induction fs arbitrary: k) auto

text \<open>An argument that \<^verbatim>\<open>mkfs\<close> accepts.\<close>

definition arg_ok :: "bytes \<times> bytes list option \<Rightarrow> bool" where
  "arg_ok f \<longleftrightarrow> slash \<notin> set (base_name (fst f)) \<and> snd f \<noteq> None \<and> length (file_data f) \<le> MAXFILE * BSIZE"

abbreviation blocks_needed :: "bytes list \<Rightarrow> nat" where
  "blocks_needed cs \<equiv> sum_list (map (\<lambda>c. need (length c)) cs)"

lemma mk_files_law:
  assumes "holds s ents cs" and "\<forall>f\<in>set fs. arg_ok f" and "length cs + length fs \<le> 198" and "length ents + DESIZE * length fs \<le> MAXFILE * BSIZE"
    and "nmeta + need (length ents + DESIZE * length fs) + blocks_needed cs + blocks_needed (map file_data fs) \<le> FSSIZE"
  shows "\<exists>t. for_each fs (mk_file ROOTINO) s = Some t \<and> holds t (ents @ entries (length cs) fs) (cs @ map file_data fs)"
  using assms
proof (induction fs arbitrary: s ents cs)
  case Nil
  then show ?case by simp
next
  case (Cons f fs)
  obtain arg ps where f: "f = (arg, Some ps)" "slash \<notin> set (base_name arg)" "length (file_data f) \<le> MAXFILE * BSIZE"
    using Cons.prems(2) by (cases f) (auto simp: arg_ok_def)
  have "need (length ents + DESIZE) \<le> need (length ents + DESIZE * length (f # fs))" by (rule need_mono) simp
  then obtain u where u: "mk_file ROOTINO f s = Some u" "holds u (ents @ dirent (file_no (length cs)) (short_name arg)) (cs @ [file_data f])"
    using mk_file_law [OF Cons.prems(1) f(1,2) _ _ f(3)] Cons.prems(3-5) by auto
  then obtain t where "for_each fs (mk_file ROOTINO) u = Some t"
    "holds t ((ents @ dirent (file_no (length cs)) (short_name arg)) @ entries (length (cs @ [file_data f])) fs) ((cs @ [file_data f]) @ map file_data fs)"
    using Cons.IH [OF u(2)] Cons.prems(2-5) by (auto simp: algebra_simps)
  then show ?case using u(1) f(1) by simp
qed

subsection \<open>The beginning and the end\<close>

lemma zero_image:
  "n \<le> FSSIZE \<Longrightarrow> fold (\<lambda>i. wsect (of_nat i) zeroes) [0..<n] (s\<lparr>img := []\<rparr>) = s\<lparr>img := replicate n zeroes\<rparr>"
proof (induction n)
  case (Suc n)
  have "unat (of_nat n :: u32) = n" using Suc.prems by (intro unat_of_nat32) simp
  then have "sector (of_nat n) = n" using sector_small [of "of_nat n"] Suc.prems by simp
  then show ?case using Suc by (simp add: wsect_def replicate_append_same)
qed simp

lemma start_law:
  assumes "s = wsect 1 (encode_sb mk_sb zeroes) (fold (\<lambda>i. wsect (of_nat i) zeroes) [0..<FSSIZE] \<lparr>img = [], freeinode = 1, freeblock = of_nat nmeta\<rparr>)"
  shows "mk_ok s" and "freeinode s = 1" and "unat (freeblock s) = nmeta"
proof -
  define z where "z = \<lparr>img = replicate FSSIZE zeroes, freeinode = 1, freeblock = of_nat nmeta\<rparr>"
  have "fold (\<lambda>i. wsect (of_nat i) zeroes) [0..<FSSIZE] \<lparr>img = [], freeinode = 1, freeblock = of_nat nmeta\<rparr> = z"
    using zero_image [of FSSIZE z] by (simp add: z_def)
  then have s: "s = wsect 1 (encode_sb mk_sb zeroes) z" using assms by simp
  have z: "img_ok z" by (simp add: img_ok_def z_def)
  have l: "length (encode_sb mk_sb zeroes) = BSIZE" by (simp add: encode_sb_def)
  have v: "vw s = (vw z)(1 := encode_sb mk_sb zeroes)" unfolding s using wsect_vw [OF z] by simp
  show f: "freeinode s = 1" "unat (freeblock s) = nmeta" by (simp_all add: s z_def)
  have "img_ok s" unfolding s using z l by (intro wsect_img_ok) (simp_all add: z_def)
  then show "mk_ok s" unfolding mk_ok_def f v using decode_encode_sb [of zeroes mk_sb] by (auto simp: vw_def z_def)
qed

lemma bitmap_law: "n \<le> BPB \<Longrightarrow> length (fold bm_set [0..<n] zeroes) = BSIZE \<and> (\<forall>j<BPB. bm_bit (fold bm_set [0..<n] zeroes) j \<longleftrightarrow> j < n)"
proof (induction n)
  case 0
  then show ?case by (auto simp: bm_bit_def)
next
  case (Suc n)
  then show ?case using bm_bit_set [of n "fold bm_set [0..<n] zeroes"] by (auto simp: less_Suc_eq)
qed

lemma holds_start:
  assumes "mk_ok s" and "freeinode s = 1" and "unat (freeblock s) = nmeta"
  shows "\<exists>t. mk_ialloc T_DIR s = Some (ROOTINO, t) \<and> holds t [] []"
  using mk_ialloc_law [OF assms(1), of T_DIR] assms by (auto simp: holds_def)

lemma holds_append:
  assumes h: "holds s ents cs" and n: "length ents + length xs \<le> MAXFILE * BSIZE" "length cs < 199"
    and room: "nmeta + need (length ents + length xs) + blocks_needed cs \<le> FSSIZE"
  shows "\<exists>t. iappend ROOTINO xs s = Some t \<and> holds t (ents @ xs) cs"
proof -
  note H = h [unfolded holds_def]
  obtain t where t: "iappend 1 xs s = Some t" "mk_ok t" "freeinode t = freeinode s" "mbytes t (ino t 1) = ents @ xs" "di_type (ino t 1) = T_DIR"
    "\<And>j. live s j \<Longrightarrow> j \<noteq> 1 \<Longrightarrow> ino t j = ino s j \<and> mbytes t (ino t j) = mbytes s (ino s j)"
    "unat (freeblock t) + need (length ents) = unat (freeblock s) + need (length ents + length xs)"
    using iappend_law [of s 1 xs] H n room by auto
  have "mbytes t (ino t (file_no k)) = cs ! k \<and> di_type (ino t (file_no k)) = T_FILE" if "k < length cs" for k
  proof -
    have "unat (file_no k) = k + 2" using that n(2) by (intro file_no) simp
    then have "live s (file_no k)" "file_no k \<noteq> 1" using that H by auto
    then show ?thesis using t(6) [of "file_no k"] that H by auto
  qed
  then show ?thesis using t H by (auto simp: holds_def)
qed

definition root_dir :: "(bytes \<times> bytes list option) list \<Rightarrow> bytes" where
  "root_dir files = dirent ROOTINO [46] @ dirent ROOTINO [46, 46] @ entries 0 files"

lemma length_root_dir [simp]: "length (root_dir files) = DESIZE * (2 + length files)"
  by (simp add: root_dir_def)

text \<open>The last steps: the size of the root directory and the free map.\<close>

lemma finish_law:
  assumes h: "holds s ents cs" and n: "length ents < MAXFILE * BSIZE" and cs: "length cs \<le> 198"
  shows "\<exists>t. do { din \<leftarrow> rinode ROOTINO s;
      let off = (xint (di_size din) div of_nat BSIZE + 1) * of_nat BSIZE;
      s \<leftarrow> winode ROOTINO (din\<lparr>di_size := xint off\<rparr>) s;
      mk_balloc (freeblock s) s } = Some t \<and> img_ok t \<and>
    ino t 1 = (ino s 1)\<lparr>di_size := of_nat ((length ents div BSIZE + 1) * BSIZE)\<rparr> \<and> (\<forall>j. unat j < NINODES \<and> j \<noteq> 1 \<longrightarrow> ino t j = ino s j) \<and>
    (\<forall>b. unat b < 32 \<or> 46 \<le> unat b \<longrightarrow> vw t b = vw s b) \<and> (\<forall>j<BPB. bm_bit (vw t 45) j \<longleftrightarrow> j < unat (freeblock s))"
proof -
  note H = h [unfolded holds_def] and io = mk_okD(1) [OF conjunct1 [OF h [unfolded holds_def]]]
  let ?d = "ino s 1" and ?r = "of_nat ((length ents div BSIZE + 1) * BSIZE) :: u32"
  have sz: "di_size ?d = of_nat (length ents)" using H by (auto simp: mbytes_def)
  have ln: "unat (of_nat (length ents) :: u32) = length ents" using n by (intro unat_of_nat32) simp
  have "of_nat (length ents) div of_nat BSIZE = (of_nat (length ents div BSIZE) :: u32)"
    by (rule word_unat_eq_iff [THEN iffD2]) (use n ln in \<open>simp add: unat_div unat_of_nat32\<close>)
  then have r: "(xint (di_size ?d) div of_nat BSIZE + 1) * of_nat BSIZE = ?r" by (simp add: sz)
  have l13: "length (di_addrs ?d) = NDIRECT + 1" using file_okD(1) [OF goodD(1) [OF mk_okD(6)], of s 1] H by auto
  obtain u where u: "winode 1 (?d\<lparr>di_size := ?r\<rparr>) s = Some u" "img_ok u" "freeblock u = freeblock s" "ino u 1 = ?d\<lparr>di_size := ?r\<rparr>"
    "\<And>j. unat j < NINODES \<Longrightarrow> j \<noteq> 1 \<Longrightarrow> ino u j = ino s j" "\<And>b. unat b < 32 \<or> 45 \<le> unat b \<Longrightarrow> vw u b = vw s b"
    using winode_law [OF io, of 1 "?d\<lparr>di_size := ?r\<rparr>"] l13 by (auto simp del: of_nat_add of_nat_mult)
  let ?m = "fold bm_set [0..<unat (freeblock s)] zeroes"
  have fb: "unat (freeblock s) \<le> FSSIZE" "46 \<le> unat (freeblock s)" using img_okD(3,4) [OF io] by auto
  have si: "sint (freeblock s) < int (BSIZE * 8)" "nat (sint (freeblock s)) = unat (freeblock s)"
  proof -
    define k where "k = unat (freeblock s)"
    have u: "uint (freeblock s) = int k" by (simp add: k_def)
    have k: "k \<le> FSSIZE" using fb(1) by (simp add: k_def)
    then have "sint (freeblock s) = int k" unfolding sint_uint u by (intro signed_take_bit_int_eq_self) simp_all
    then show "sint (freeblock s) < int (BSIZE * 8)" "nat (sint (freeblock s)) = unat (freeblock s)"
      unfolding k_def [symmetric] using k by simp_all
  qed
  note bm = bitmap_law [of "unat (freeblock s)"]
  define t where "t = wsect 45 ?m u"
  have vt: "vw t = (vw u)(45 := ?m)" unfolding t_def by (rule wsect_vw [OF u(2)]) simp
  have "mk_balloc (freeblock u) u = Some t" using si by (simp add: mk_balloc_def t_def u(3))
  moreover have "img_ok t" unfolding t_def using u(2,3) fb bm by (intro wsect_img_ok) auto
  moreover have "ino t j = ino u j" if "unat j < NINODES" for j using iblock(2) [OF that] unfolding ino_def vt by (auto simp: word_unat_eq_iff)
  moreover have "rinode 1 s = Some ?d" using rinode_ok [OF io, of 1] by simp
  ultimately show ?thesis using u bm fb
    by (intro exI [of _ t]) (simp only: Let_def bind.bind_lunit r, simp only: xint_id bind.bind_lunit, auto simp: vt)
qed

text \<open>The image that a successful run leaves, \<open>n\<close> blocks of it in use.\<close>

definition image_ok :: "(bytes \<times> bytes list option) list \<Rightarrow> nat \<Rightarrow> mkfs_st \<Rightarrow> bool" where
  "image_ok files n s \<longleftrightarrow> (\<exists>u. holds u (root_dir files) (map file_data files) \<and> img_ok s \<and> n = unat (freeblock u) \<and>
     ino s 1 = (ino u 1)\<lparr>di_size := of_nat ((length (root_dir files) div BSIZE + 1) * BSIZE)\<rparr> \<and>
     (\<forall>j. unat j < NINODES \<and> j \<noteq> 1 \<longrightarrow> ino s j = ino u j) \<and> (\<forall>b. unat b < 32 \<or> 46 \<le> unat b \<longrightarrow> vw s b = vw u b) \<and>
     (\<forall>j<BPB. bm_bit (vw s 45) j \<longleftrightarrow> j < n))"

lemma mkfs_law:
  assumes "\<forall>f\<in>set files. arg_ok f" and "length files \<le> 198"
    and room: "nmeta + need (length (root_dir files)) + blocks_needed (map file_data files) \<le> FSSIZE"
  shows "\<exists>s. mkfs_main files = Some s \<and> image_ok files (nmeta + need (length (root_dir files)) + blocks_needed (map file_data files)) s"
proof -
  have le: "need 16 \<le> need (length (root_dir files))" "need 32 \<le> need (length (root_dir files))" by (auto intro!: need_mono)
  define s0 where "s0 = wsect 1 (encode_sb mk_sb zeroes) (fold (\<lambda>i. wsect (of_nat i) zeroes) [0..<FSSIZE] \<lparr>img = [], freeinode = 1, freeblock = of_nat nmeta\<rparr>)"
  obtain s1 where s1: "mk_ialloc T_DIR s0 = Some (ROOTINO, s1)" "holds s1 [] []" using holds_start [OF start_law [OF s0_def]] by blast
  obtain s2 where s2: "iappend ROOTINO (dirent ROOTINO [46]) s1 = Some s2" "holds s2 (dirent ROOTINO [46]) []"
    using holds_append [OF s1(2), of "dirent ROOTINO [46]"] room le by auto
  obtain s3 where s3: "iappend ROOTINO (dirent ROOTINO [46, 46]) s2 = Some s3" "holds s3 (dirent ROOTINO [46] @ dirent ROOTINO [46, 46]) []"
    using holds_append [OF s2(2), of "dirent ROOTINO [46, 46]"] room le by auto
  obtain u where u: "for_each files (mk_file ROOTINO) s3 = Some u" "holds u (root_dir files) (map file_data files)"
    using mk_files_law [OF s3(2) assms(1)] assms(2) room by (auto simp: root_dir_def algebra_simps)
  have n: "length (root_dir files) < MAXFILE * BSIZE" "length (map file_data files) \<le> 198" using assms(2) by auto
  from finish_law [OF u(2) n] obtain t where t: "do { din \<leftarrow> rinode ROOTINO u;
      let off = (xint (di_size din) div of_nat BSIZE + 1) * of_nat BSIZE;
      s \<leftarrow> winode ROOTINO (din\<lparr>di_size := xint off\<rparr>) u;
      mk_balloc (freeblock s) s } = Some t" and r: "image_ok files (unat (freeblock u)) t"
    using u(2) unfolding image_ok_def by blast
  have "mkfs_main files = Some t"
    unfolding mkfs_main_def s0_def [symmetric] Let_def using s1(1) s2(1) s3(1) u(1) t by (simp add: Let_def)
  moreover have "unat (freeblock u) = nmeta + need (length (root_dir files)) + blocks_needed (map file_data files)" using u(2) by (simp add: holds_def)
  ultimately show ?thesis using r by metis
qed

subsection \<open>The kernel starts on the image\<close>

lemma upd_sb_bio [simp]:
  fixes s :: "'a fs_st_scheme"
  shows "ready k (s\<lparr>sb := B\<rparr>) = ready k s" "store_of (s\<lparr>sb := B\<rparr>) = store_of s" "buf_of (s\<lparr>sb := B\<rparr>) i n = buf_of s i n"
  by (simp_all add: ready_def buf_of_def bio_ok_def calm_def store_of_def view_def rc_def lk_def fun_eq_iff cong: option.case_cong if_cong)

lemma readsb_law:
  fixes s :: "'a fs_st_scheme"
  assumes c: "cold k s"
  shows "\<exists>t. readsb ROOTDEV s = Some t \<and> cold k t \<and> store_of t = store_of s \<and> sb t = decode_sb (disk s 1)"
proof -
  have ok: "ready k s" "rc s = pins {}" "\<And>m. lk s m = None" using c by (auto simp: cold_def)
  obtain b u where u: "bread ROOTDEV 1 s = Some (b, u)" "b_data (bufs u b) = view s 1" "ready k u" "store_of u = a_read k 1 (store_of s)" "buf_of u b 1"
    using bc.peek [OF ok(1) cold_readable [OF c], of 1] by auto
  have vd: "view s 1 = disk s 1" using cold_view [OF c] .
  let ?v = "u\<lparr>sb := decode_sb (disk s 1)\<rparr>"
  have v: "ready k ?v" "buf_of ?v b 1" "store_of ?v = a_read k 1 (store_of s)" using u by simp_all
  have "st_lk (store_of ?v) 1 = Some k" "0 < st_rc (store_of ?v) 1" "st_view (store_of ?v) 1 = st_disk (store_of ?v) 1"
    unfolding v(3) using vd by (simp_all add: a_read_def)
  then obtain t where t: "brelse b ?v = Some t" "ready k t" "bio_only ?v t" "store_of t = a_release 1 (store_of ?v)"
    using bc.rls_law [OF v(1,2)] by blast
  have st: "store_of t = store_of s" unfolding t(4) v(3) using ok(3) by (simp add: a_release_def a_read_def fun_upd_idem)
  have "cold k t" unfolding cold_def using t(2) store_eq [OF st] ok by simp
  moreover have "readsb ROOTDEV s = Some t" using u(1,2) t(1) vd by (simp add: readsb_def)
  ultimately show ?thesis using st bio_only_fs(1) [OF t(3)] by simp
qed

lemma fsinit_law:
  fixes s :: "'a fs_st_scheme"
  assumes c: "cold k s" and B: "decode_sb (disk s 1) = B" "sb_magic B = FSMAGIC" and h: "hdr_n (disk s (sb_logstart B)) = 0"
  shows "\<exists>t. fsinit ROOTDEV s = Some t \<and> cold k t \<and> sb t = B \<and> lg_start (klog t) = sb_logstart B \<and>
    view t = (disk s)(sb_logstart B := put32 0 0 (disk s (sb_logstart B)))"
proof -
  obtain u where u: "readsb ROOTDEV s = Some u" "cold k u" "store_of u = store_of s" "sb u = B" using readsb_law [OF c] B(1) by auto
  note su = store_eq [OF u(3)]
  obtain t f where t: "initlog ROOTDEV B u = Some t" "cold k t" "store_of t = copies [(sb_logstart B, put32 0 0 (disk u (sb_logstart B)))] (store_of u)"
    "lg_start (klog t) = sb_logstart B" "bio_only (upd_log f u) t"
    using initlog_frame [OF u(2) refl, of B 0] h su by auto
  have "disk t = (disk s)(sb_logstart B := put32 0 0 (disk s (sb_logstart B)))" using store_eq [OF t(3)] su by simp
  then have "view t = (disk s)(sb_logstart B := put32 0 0 (disk s (sb_logstart B)))" using cold_view [OF t(2)] by (simp add: fun_eq_iff)
  moreover have "sb t = B" using bio_only_fs(1) [OF t(5)] u(4) by (simp add: upd_log_def)
  moreover have "fsinit ROOTDEV s = Some t" using u(1,4) t(1) B(2) by (simp add: fsinit_def)
  ultimately show ?thesis using t(2,4) by blast
qed

lemma fsinit_image:
  fixes K :: "'a fs_st_scheme"
  assumes i: "image_ok files n s" and c: "cold k K" and d: "\<And>b. unat b < FSSIZE \<Longrightarrow> disk K b = img s ! unat b"
  shows "\<exists>t. fsinit ROOTDEV K = Some t \<and> cold k t \<and> sb t = mk_sb \<and> lg_start (klog t) = 2 \<and> (\<forall>b. unat b < FSSIZE \<longrightarrow> view t b = vw s b)"
proof -
  obtain u where u: "mk_ok u" "vw s 1 = vw u 1" "vw s 2 = vw u 2" using i by (auto simp: image_ok_def holds_def)
  have b: "decode_sb (disk K 1) = mk_sb" "disk K 2 = zeroes" using d [of 1] d [of 2] u(2,3) mk_okD(4,5) [OF u(1)] by (simp_all add: vw_def)
  have z: "hdr_n zeroes = 0" "put32 0 0 zeroes = zeroes"
    by (simp_all add: hdr_n_def zeroes_def get32_def get_at_def put32_def put_at_def to_le_def numeral_eq_Suc)
  from fsinit_law [OF c b(1)] b(2) z obtain t where t: "fsinit ROOTDEV K = Some t" "cold k t" "sb t = mk_sb" "lg_start (klog t) = 2" "view t = (disk K)(2 := zeroes)"
    by auto
  then show ?thesis using d b(2) by (auto simp: vw_def fun_upd_idem)
qed

text \<open>What the kernel finds under an inode number: type, well-formed block map and contents.\<close>

definition file_at :: "'a fs_st_scheme \<Rightarrow> u32 \<Rightarrow> u16 \<Rightarrow> bytes \<Rightarrow> bool" where
  "file_at K i ty xs \<longleftrightarrow> di_type (disk_inode K i) = ty \<and> file_ok (data_used K) (disk_inode K i) (view K) \<and>
     map (fbyte (disk_inode K i) (view K)) [0..<unat (di_size (disk_inode K i))] = xs"

text \<open>Every block below the size is there.\<close>

definition solid :: "'a fs_st_scheme \<Rightarrow> u32 \<Rightarrow> bool" where
  "solid K i \<longleftrightarrow> (\<forall>j. j * BSIZE < unat (di_size (disk_inode K i)) \<longrightarrow> blk_of (disk_inode K i) (view K) j \<noteq> 0)"

lemma kernel_file:
  assumes g: "good u d" and a: "di_addrs d' = di_addrs d" and v: "\<And>b. taken u b \<Longrightarrow> V b = vw u b" and U: "\<And>b. taken u b \<Longrightarrow> U b"
  shows "file_ok U d' V" and "k < MAXFILE * BSIZE \<Longrightarrow> fbyte d' V k = fbyte d (vw u) k" and "blk_of d' V = blk_of d (vw u)" and "fblks d' V = fblks d (vw u)"
proof -
  note ok = goodD(1) [OF g]
  have V: "V b = vw u b" if "b \<in> fblks d (vw u)" for b using v file_okD(2) [OF ok that] .
  note f = file_same [where V = "vw u" and V' = V, OF a V]
  show "file_ok U d' V" using f(4) [where U = "taken u" and U' = U] U ok by blast
  show "k < MAXFILE * BSIZE \<Longrightarrow> fbyte d' V k = fbyte d (vw u) k" "blk_of d' V = blk_of d (vw u)" "fblks d' V = fblks d (vw u)" using f(1-3) by auto
qed

text \<open>A state of the kernel that shows the image, with the super block read and the log at its place.\<close>

definition shows_image :: "'a fs_st_scheme \<Rightarrow> mkfs_st \<Rightarrow> bool" where
  "shows_image K s \<longleftrightarrow> sb K = mk_sb \<and> lg_start (klog K) = 2 \<and> (\<forall>b. unat b < FSSIZE \<longrightarrow> view K b = vw s b)"

lemma image_map:
  assumes i: "image_ok files n s" and K: "shows_image K s"
  shows "layout K" and "meta_used K" and "free_blocks K = {b. n \<le> unat b \<and> unat b < FSSIZE}" and "data_used K b \<longleftrightarrow> nmeta \<le> unat b \<and> unat b < n"
proof -
  obtain u where u: "img_ok u" "n = unat (freeblock u)" "\<And>j. j < BPB \<Longrightarrow> bm_bit (vw s 45) j \<longleftrightarrow> j < n"
    using i by (auto simp: image_ok_def holds_def mk_ok_def)
  have n: "46 \<le> n" "n \<le> FSSIZE" using img_okD(3,4) [OF u(1)] u(2) by auto
  have sb: "sb K = mk_sb" and lg: "lg_start (klog K) = 2" and v: "\<And>b. unat b < FSSIZE \<Longrightarrow> view K b = vw s b" using K by (auto simp: shows_image_def)
  have us: "used K b \<longleftrightarrow> unat b < n" if "unat b < FSSIZE" for b
  proof -
    have "unat (b div of_nat BPB) = 0" using that by (simp add: unat_div)
    then have "BBLOCK b mk_sb = 45" by (simp add: BBLOCK_def unat_eq_0)
    then show ?thesis using u(3) [of "unat b"] v [of 45] that by (simp add: used_def sb)
  qed
  show "layout K" by (simp add: layout_def data_start_def sb lg)
  show "meta_used K" using us n by (simp add: meta_used_def data_start_def sb)
  show "free_blocks K = {b. n \<le> unat b \<and> unat b < FSSIZE}" using us by (auto simp: free_blocks_def sb)
  show "data_used K b \<longleftrightarrow> nmeta \<le> unat b \<and> unat b < n" using us n by (auto simp: data_used_def data_start_def sb)
qed

lemma image_inodes:
  fixes K :: "'a fs_st_scheme"
  assumes i: "image_ok files n s" and K: "shows_image K s"
  obtains u where "holds u (root_dir files) (map file_data files)"
    "\<And>j. live u j \<Longrightarrow> disk_inode K j = (if j = 1 then (ino u 1)\<lparr>di_size := of_nat ((length (root_dir files) div BSIZE + 1) * BSIZE)\<rparr> else ino u j)"
    "\<And>j. live u j \<Longrightarrow> file_ok (data_used K) (disk_inode K j) (view K)"
    "\<And>j k. live u j \<Longrightarrow> k < MAXFILE * BSIZE \<Longrightarrow> fbyte (disk_inode K j) (view K) k = fbyte (ino u j) (vw u) k"
    "\<And>j. live u j \<Longrightarrow> blk_of (disk_inode K j) (view K) = blk_of (ino u j) (vw u)"
    "\<And>j. live u j \<Longrightarrow> fblks (disk_inode K j) (view K) = fblks (ino u j) (vw u)"
proof -
  let ?r = "(length (root_dir files) div BSIZE + 1) * BSIZE"
  obtain u where u: "holds u (root_dir files) (map file_data files)" "n = unat (freeblock u)" "ino s 1 = (ino u 1)\<lparr>di_size := of_nat ?r\<rparr>"
    "\<And>j. unat j < NINODES \<Longrightarrow> j \<noteq> 1 \<Longrightarrow> ino s j = ino u j" "\<And>b. 46 \<le> unat b \<Longrightarrow> vw s b = vw u b"
    using i unfolding image_ok_def by auto
  have mk: "mk_ok u" using u(1) by (simp add: holds_def)
  have lv: "unat j < NINODES" if "live u j" for j using mk_okD(3) [OF mk] that by simp
  have di: "disk_inode K j = ino s j" if "live u j" for j
    using K iblock(2) [OF lv [OF that]] by (simp add: disk_inode_def ino_def shows_image_def)
  have d: "disk_inode K j = (if j = 1 then (ino u 1)\<lparr>di_size := of_nat ?r\<rparr> else ino u j)" if "live u j" for j
    using di [OF that] u(3,4) lv [OF that] by (simp del: of_nat_add of_nat_mult)
  have tk: "view K b = vw u b" "data_used K b" if "taken u b" for b
    using that K u(2,5) img_okD(4) [OF mk_okD(1) [OF mk]] image_map(4) [OF i K] by (auto simp: taken_def shows_image_def)
  have "di_addrs (disk_inode K j) = di_addrs (ino u j)" if "live u j" for j using d [OF that] by simp
  note kf = kernel_file [where V = "view K" and U = "data_used K", OF mk_okD(6) [OF mk] this tk]
  show thesis by (rule that [OF u(1) d]) (use kf in auto)
qed

lemma round_up:
  fixes L :: nat
  shows "(L div BSIZE + 1) * BSIZE = L + (BSIZE - L mod BSIZE)" (is "?r = _")
    and "(\<forall>j. j * BSIZE < (L div BSIZE + 1) * BSIZE \<longrightarrow> j * BSIZE < L) \<longleftrightarrow> L mod BSIZE \<noteq> 0"
proof -
  obtain q r where L: "L = q * BSIZE + r" "L div BSIZE = q" "L mod BSIZE = r" "r < BSIZE"
    using div_mult_mod_eq [of L BSIZE] mod_less_divisor [of BSIZE L] by (metis zero_less_numeral)
  show "?r = L + (BSIZE - L mod BSIZE)" unfolding L(2,3) using L(1,4) by simp
  have "j * BSIZE < q * BSIZE + r" if "j * BSIZE < (q + 1) * BSIZE" "r \<noteq> 0" for j
  proof -
    have "j * BSIZE \<le> q * BSIZE" using that(1) by simp
    then show ?thesis using that(2) by linarith
  qed
  moreover have "q * BSIZE < (q + 1) * BSIZE" by simp
  ultimately show "(\<forall>j. j * BSIZE < (L div BSIZE + 1) * BSIZE \<longrightarrow> j * BSIZE < L) \<longleftrightarrow> L mod BSIZE \<noteq> 0"
    unfolding L(2,3) unfolding L(1) by fastforce
qed

lemma image_root:
  fixes K :: "'a fs_st_scheme"
  assumes i: "image_ok files n s" and K: "shows_image K s" and few: "length files \<le> 198"
  shows "file_at K 1 T_DIR (root_dir files @ replicate (BSIZE - length (root_dir files) mod BSIZE) 0)"
    and "solid K 1 \<longleftrightarrow> length (root_dir files) mod BSIZE \<noteq> 0"
proof -
  define R where "R = root_dir files"
  define r where "r = (length R div BSIZE + 1) * BSIZE"
  have "length R \<le> 3200" using few by (simp add: R_def)
  then have r: "length R \<le> 3200" "r \<le> 4096" using div_le_mono [of "length R" 3200 BSIZE] by (auto simp: r_def)
  obtain u where u: "holds u R (map file_data files)" "disk_inode K 1 = (ino u 1)\<lparr>di_size := of_nat r\<rparr>" "file_ok (data_used K) (disk_inode K 1) (view K)"
    "\<And>k. k < MAXFILE * BSIZE \<Longrightarrow> fbyte (disk_inode K 1) (view K) k = fbyte (ino u 1) (vw u) k" "blk_of (disk_inode K 1) (view K) = blk_of (ino u 1) (vw u)"
  proof (rule image_inodes [OF i K])
    fix u assume h: "holds u (root_dir files) (map file_data files)"
      and d: "\<And>j. live u j \<Longrightarrow> disk_inode K j = (if j = 1 then (ino u 1)\<lparr>di_size := of_nat ((length (root_dir files) div BSIZE + 1) * BSIZE)\<rparr> else ino u j)"
      and k: "\<And>j. live u j \<Longrightarrow> file_ok (data_used K) (disk_inode K j) (view K)"
        "\<And>j k. live u j \<Longrightarrow> k < MAXFILE * BSIZE \<Longrightarrow> fbyte (disk_inode K j) (view K) k = fbyte (ino u j) (vw u) k"
        "\<And>j. live u j \<Longrightarrow> blk_of (disk_inode K j) (view K) = blk_of (ino u j) (vw u)"
    have l: "live u 1" using h by (simp add: holds_def)
    have "disk_inode K 1 = (ino u 1)\<lparr>di_size := of_nat r\<rparr>" unfolding r_def R_def using d [OF l] by (simp only: simp_thms if_True)
    then show thesis using that h k [OF l] unfolding R_def by blast
  qed
  have g: "good u (ino u 1)" "mbytes u (ino u 1) = R" "di_type (ino u 1) = T_DIR" using u(1) mk_okD(6) [of u 1] by (auto simp: holds_def)
  then have sz: "unat (di_size (ino u 1)) = length R" using length_mbytes [of u "ino u 1"] by simp
  have d: "di_type (disk_inode K 1) = T_DIR" "unat (di_size (disk_inode K 1)) = r"
    using u(2) g(3) r(2) unat_of_nat32 [of r] by auto
  have rl: "r = length R + (BSIZE - length R mod BSIZE)" unfolding r_def by (rule round_up(1))
  have "map (fbyte (disk_inode K 1) (view K)) [0..<r] = R @ replicate (BSIZE - length R mod BSIZE) 0"
  proof (rule nth_equalityI)
    fix k assume "k < length (map (fbyte (disk_inode K 1) (view K)) [0..<r])"
    then have k: "k < r" by simp
    have "fbyte (ino u 1) (vw u) k = (R @ replicate (BSIZE - length R mod BSIZE) 0) ! k"
      using nth_mbytes [of k "ino u 1" u] goodD(4) [OF g(1), of k] k r(2) rl sz g(2) by (cases "k < length R") (auto simp: nth_append)
    then show "map (fbyte (disk_inode K 1) (view K)) [0..<r] ! k = (R @ replicate (BSIZE - length R mod BSIZE) 0) ! k"
      using u(4) [of k] k r(2) by simp
  qed (simp add: rl)
  then show "file_at K 1 T_DIR (root_dir files @ replicate (BSIZE - length (root_dir files) mod BSIZE) 0)"
    unfolding file_at_def d R_def [symmetric] using u(3) by blast
  have "blk_of (disk_inode K 1) (view K) j \<noteq> 0 \<longleftrightarrow> j * BSIZE < length R" if "j * BSIZE < r" for j
    using goodD(3) [OF g(1)] u(5) that r(2) sz by (simp add: mapped_def)
  then show "solid K 1 \<longleftrightarrow> length (root_dir files) mod BSIZE \<noteq> 0"
    unfolding solid_def d(2) R_def [symmetric] using round_up(2) [of "length R", folded r_def] by blast
qed

lemma image_file:
  fixes K :: "'a fs_st_scheme"
  assumes i: "image_ok files n s" and K: "shows_image K s" and few: "length files \<le> 198" and j: "j < length files"
  shows "file_at K (file_no j) T_FILE (file_data (files ! j))" and "solid K (file_no j)"
proof -
  define m where "m = file_no j"
  have m: "unat m = j + 2" unfolding m_def by (rule file_no) (use j few in simp)
  obtain u where u: "holds u (root_dir files) (map file_data files)" "disk_inode K m = ino u m" "file_ok (data_used K) (ino u m) (view K)"
    "\<And>k. k < MAXFILE * BSIZE \<Longrightarrow> fbyte (ino u m) (view K) k = fbyte (ino u m) (vw u) k" "blk_of (ino u m) (view K) = blk_of (ino u m) (vw u)" "live u m"
  proof (rule image_inodes [OF i K])
    fix u assume h: "holds u (root_dir files) (map file_data files)"
      "\<And>j. live u j \<Longrightarrow> disk_inode K j = (if j = 1 then (ino u 1)\<lparr>di_size := of_nat ((length (root_dir files) div BSIZE + 1) * BSIZE)\<rparr> else ino u j)"
      and k: "\<And>j. live u j \<Longrightarrow> file_ok (data_used K) (disk_inode K j) (view K)"
        "\<And>j k. live u j \<Longrightarrow> k < MAXFILE * BSIZE \<Longrightarrow> fbyte (disk_inode K j) (view K) k = fbyte (ino u j) (vw u) k"
        "\<And>j. live u j \<Longrightarrow> blk_of (disk_inode K j) (view K) = blk_of (ino u j) (vw u)"
    have l: "live u m" "m \<noteq> 1" using m j h(1) by (auto simp: holds_def)
    have d: "disk_inode K m = ino u m" using h(2) [OF l(1)] l(2) by simp
    show thesis using that [OF h(1) d] k [OF l(1), unfolded d] l(1) by blast
  qed
  note g = goodD [OF mk_okD(6) [OF _ u(6)]] and H = u(1) [unfolded holds_def]
  have "mbytes u (ino u m) = file_data (files ! j)" "di_type (ino u m) = T_FILE" using H j by (auto simp: m_def)
  moreover have "map (fbyte (ino u m) (view K)) [0..<unat (di_size (ino u m))] = mbytes u (ino u m)" using u(4) g(2) H by (auto simp: mbytes_def)
  ultimately show "file_at K (file_no j) T_FILE (file_data (files ! j))" unfolding file_at_def m_def [symmetric] u(2) using u(3) by simp
  show "solid K (file_no j)" unfolding solid_def m_def [symmetric] u(2,5) using g(2,3) H by (auto simp: mapped_def)
qed

lemma image_disjoint:
  fixes K :: "'a fs_st_scheme"
  assumes i: "image_ok files n s" and K: "shows_image K s" and ab: "1 \<le> unat a" "unat a < 2 + length files" "1 \<le> unat b" "unat b < 2 + length files" "a \<noteq> b"
  shows "fblks (disk_inode K a) (view K) \<inter> fblks (disk_inode K b) (view K) = {}"
proof (rule image_inodes [OF i K])
  fix u assume h: "holds u (root_dir files) (map file_data files)"
    and f: "\<And>j. live u j \<Longrightarrow> fblks (disk_inode K j) (view K) = fblks (ino u j) (vw u)"
  then have "live u a" "live u b" using ab by (auto simp: holds_def)
  then show ?thesis using f mk_okD(7) [of u a b] h ab(5) by (simp add: holds_def)
qed

text \<open>C9: From the image builder to the running kernel.  If the files given to \<^verbatim>\<open>mkfs\<close> can be opened, have no slash in their names,
  are not longer than a file can be, are at most 198 and fit on the disk together with the directory, then \<^verbatim>\<open>mkfs\<close> succeeds,
  and a kernel that starts with a cold cache on a disk with this image mounts it: \<^verbatim>\<open>fsinit\<close> returns, the layout is the one the laws of
  the file system assume, exactly the blocks behind the last one taken are free, the root directory consists of its two own entries and one for
  each file in turn, padded with zeros, and every file holds exactly the bytes that were read, in blocks of its own.  The root directory has a block
  for all of its size unless its entries fill their blocks exactly: then \<^verbatim>\<open>mkfs\<close> makes it one block larger than it is.\<close>

theorem mkfs_mounts:
  assumes "\<forall>f\<in>set files. arg_ok f" and "length files \<le> 198"
    and "nmeta + need (length (root_dir files)) + blocks_needed (map file_data files) \<le> FSSIZE"
  shows "\<exists>s. mkfs_main files = Some s \<and> length (img s) = FSSIZE \<and> (\<forall>i<FSSIZE. length (img s ! i) = BSIZE) \<and>
    (\<forall>(K :: 'a fs_st_scheme) k. cold k K \<and> (\<forall>b. unat b < FSSIZE \<longrightarrow> disk K b = img s ! unat b) \<longrightarrow>
      (\<exists>t. fsinit ROOTDEV K = Some t \<and> cold k t \<and> layout t \<and> meta_used t \<and>
        free_blocks t = {b. nmeta + need (length (root_dir files)) + blocks_needed (map file_data files) \<le> unat b \<and> unat b < FSSIZE} \<and>
        file_at t ROOTINO T_DIR (root_dir files @ replicate (BSIZE - length (root_dir files) mod BSIZE) 0) \<and>
        (solid t ROOTINO \<longleftrightarrow> length (root_dir files) mod BSIZE \<noteq> 0) \<and>
        (\<forall>j<length files. file_at t (file_no j) T_FILE (file_data (files ! j)) \<and> solid t (file_no j)) \<and>
        (\<forall>a b. 1 \<le> unat a \<and> unat a < 2 + length files \<and> 1 \<le> unat b \<and> unat b < 2 + length files \<and> a \<noteq> b \<longrightarrow>
          fblks (disk_inode t a) (view t) \<inter> fblks (disk_inode t b) (view t) = {})))"
proof -
  let ?n = "nmeta + need (length (root_dir files)) + blocks_needed (map file_data files)"
  obtain s where s: "mkfs_main files = Some s" "image_ok files ?n s" using mkfs_law [OF assms] by blast
  have len: "length (img s) = FSSIZE" "\<forall>i<FSSIZE. length (img s ! i) = BSIZE" using s(2) by (auto simp: image_ok_def img_ok_def)
  show ?thesis
  proof (intro exI [of _ s] conjI allI impI, goal_cases)
    case (4 K k)
    obtain t where t: "fsinit ROOTDEV K = Some t" "cold k t" "shows_image t s"
      using fsinit_image [OF s(2), of k K] 4 unfolding shows_image_def by blast
    then show ?case using image_map [OF s(2) t(3)] image_root [OF s(2) t(3) assms(2)] image_file [OF s(2) t(3) assms(2)]
        image_disjoint [OF s(2) t(3)] by (intro exI [of _ t] conjI allI impI) blast+
  qed (use s(1) len in auto)
qed

text \<open>A machine that starts on a given disk.\<close>

definition demo_boot :: "(u32 \<Rightarrow> bytes) \<Rightarrow> fs_st" where
  "demo_boot D = binit (log_st.extend (demo_log\<lparr>disk := D\<rparr>) (fs_st.fields demo_sb demo_inodes))"

lemma demo_boot_cold:
  assumes "\<And>b. length (D b) = BSIZE"
  shows "cold 1 (demo_boot D)" and "disk (demo_boot D) = D"
proof -
  let ?s = "log_st.extend (demo_log\<lparr>disk := D\<rparr>) (fs_st.fields demo_sb demo_inodes) :: fs_st"
  have blank: "blank_cache ?s"
    using assms by (simp add: demo_log_def blank_cache_def demo_bio_def sl_st.defs bio_st.defs log_st.defs fs_st.defs)
  have f: "disk ?s = D" "held ?s = {}" "procs ?s = demo_procs" "cur ?s = Some 0"
    by (simp_all add: demo_log_def demo_bio_def demo_sl_def demo_st_def proc_st.defs sl_st.defs bio_st.defs log_st.defs fs_st.defs)
  have calm: "calm ?s 0" "pid (procs ?s 0) = 1" by (simp_all add: calm_def f demo_procs_def demo_proc_def)
  note b = binit_cold [OF blank calm(1)]
  note se = store_eq [OF b(4)]
  show "cold 1 (demo_boot D)" "disk (demo_boot D) = D"
    using b(2) se calm(2) f(1) by (simp_all add: cold_def demo_boot_def pins_def fun_eq_iff)
qed

theorem mkfs_mounts_witness:
  "\<exists>s t. mkfs_main [([117, 115, 101, 114, 47, 95, 97], Some [[1, 2, 3]])] = Some s \<and>
     fsinit ROOTDEV (demo_boot (\<lambda>b. if unat b < FSSIZE then img s ! unat b else zeroes)) = Some t \<and> layout t \<and> meta_used t \<and> file_at t 2 T_FILE [1, 2, 3]"
proof -
  let ?f = "[([117, 115, 101, 114, 47, 95, 97], Some [[1, 2, 3]])] :: (bytes \<times> bytes list option) list"
  have a: "\<forall>f\<in>set ?f. arg_ok f" by (simp add: arg_ok_def base_name_def file_data_def)
  have "nmeta + need (length (root_dir ?f)) + blocks_needed (map file_data ?f) \<le> FSSIZE" by (simp add: need_def file_data_def)
  from mkfs_mounts [OF a _ this] obtain s where s: "mkfs_main ?f = Some s" "\<forall>i<FSSIZE. length (img s ! i) = BSIZE"
    and m: "\<And>(K :: fs_st) k. cold k K \<and> (\<forall>b. unat b < FSSIZE \<longrightarrow> disk K b = img s ! unat b) \<Longrightarrow>
      (\<exists>t. fsinit ROOTDEV K = Some t \<and> layout t \<and> meta_used t \<and> (\<forall>j<length ?f. file_at t (file_no j) T_FILE (file_data (?f ! j))))"
    by fastforce
  let ?D = "\<lambda>b :: u32. if unat b < FSSIZE then img s ! unat b else zeroes"
  have "cold 1 (demo_boot ?D)" "disk (demo_boot ?D) = ?D" using demo_boot_cold [of ?D] s(2) by auto
  then show ?thesis using m [of 1 "demo_boot ?D"] s(1) by (auto simp: file_data_def file_no_def)
qed

end
