(* ===== verification/Fs_Table.thy ===== *)
theory Fs_Table
  imports Fs_Inode
begin

text \<open>
  The table of inodes in use: an inode is in the table at most once, and its reference count is the number
  of pointers handed out.  \<^verbatim>\<open>ilock\<close> loads what \<^verbatim>\<open>iupdate\<close> stored.
\<close>

subsection \<open>Loading and storing\<close>

lemma inodes_frame [simp]: "view (s\<lparr>inodes := I\<rparr>) = view s" "rc (s\<lparr>inodes := I\<rparr>) = rc s" "lk (s\<lparr>inodes := I\<rparr>) = lk s" "buf_of (s\<lparr>inodes := I\<rparr>) = buf_of s"
  by (simp_all add: view_def rc_def lk_def buf_of_def fun_eq_iff cong: option.case_cong if_cong)

lemma inodes_tx [simp]: "in_tx k H S (s\<lparr>inodes := I\<rparr>) = in_tx k H S s" "disk_inode (s\<lparr>inodes := I\<rparr>) = disk_inode s"
  by (simp_all add: in_tx_def ready_def bio_ok_def calm_def home_def disk_inode_def fun_eq_iff)

lemma slock_frame [simp]:
  "view (s\<lparr>slocks := (slocks s)(InodeLock ip := x)\<rparr>) = view s" "rc (s\<lparr>slocks := (slocks s)(InodeLock ip := x)\<rparr>) = rc s"
  "lk (s\<lparr>slocks := (slocks s)(InodeLock ip := x)\<rparr>) = lk s" "buf_of (s\<lparr>slocks := K\<rparr>) = buf_of s"
  by (simp_all add: view_def rc_def lk_def buf_of_def fun_eq_iff cong: option.case_cong if_cong)

lemma slock_tx [simp]: "in_tx k H S (s\<lparr>slocks := (slocks s)(InodeLock ip := x)\<rparr>) = in_tx k H S s"
  by (simp add: in_tx_def ready_def bio_ok_def calm_def home_def bufs_ok_def)

lemma ilock_law:
  fixes s :: "'a fs_st_scheme"
  assumes tx: "in_tx k H S s" and ref: "1 \<le> i_ref (inodes s ip)" and free: "sl_locked (slocks s (InodeLock ip)) = 0"
    and ip: "i_dev (inodes s ip) = ROOTDEV" "\<not> i_valid (inodes s ip)" "IBLOCK (i_inum (inodes s ip)) (sb s) \<notin> H" and room: "card (S \<union> H) < NBUF"
  defines "d \<equiv> disk_inode s (i_inum (inodes s ip))"
  shows "if di_type d = 0 then ilock ip s = None
    else \<exists>t. ilock ip s = Some t \<and> inodes t = (inodes s)(ip := (inodes s ip)\<lparr>i_d := d, i_valid := True\<rparr>) \<and> in_tx k H S t \<and> view t = view s \<and> disk t = disk s"
proof -
  let ?B = "IBLOCK (i_inum (inodes s ip)) (sb s)"
  obtain p where p: "cur s = Some p" "SleepLk (InodeLock ip) \<notin> held s" using in_txD(1) [OF tx] by (auto simp: ready_def calm_def)
  let ?s = "s\<lparr>slocks := (slocks s)(InodeLock ip := (slocks s (InodeLock ip))\<lparr>sl_locked := 1, sl_pid := pid (procs s p)\<rparr>)\<rparr>"
  have a: "acquiresleep (InodeLock ip) s = Some (Returns (), ?s)" by (rule acquiresleep_free [OF p(2) free p(1)])
  have tx': "in_tx k H S ?s" using tx by simp
  obtain i u where u: "bread ROOTDEV ?B ?s = Some (i, u)" "in_tx k (insert ?B H) S u" "bio_only ?s u" "buf_of u i ?B" "b_data (bufs u i) = view s ?B"
    "view u = view s" "disk u = disk s" using tx_bread [OF tx' ip(3)] room by auto
  have iu: "inodes u = inodes s" "sb u = sb s" using bio_only_fs [OF u(3)] by auto
  have clean: "?B \<in> S \<or> view u ?B = disk u ?B" using store_wf(3) [OF in_txD(1) [OF tx], of ?B] in_txD(11) [OF tx, of ?B] ip(3) u(6,7)
    by (cases "?B \<in> S") (simp_all add: pins_def)
  let ?u = "upd_d ip (\<lambda>_. d) u"
  have ud: "?u = u\<lparr>inodes := (inodes s)(ip := (inodes s ip)\<lparr>i_d := d\<rparr>)\<rparr>" by (simp add: upd_d_def upd_inode_def iu)
  obtain t where t: "brelse i ?u = Some t" "in_tx k H S t" "bio_only ?u t" "view t = view s" "disk t = disk s"
    using tx_brelse [of k "insert ?B H" S ?u i ?B] u(2,4,6,7) clean ip(3) unfolding ud by auto
  have it: "inodes t = (inodes s)(ip := (inodes s ip)\<lparr>i_d := d\<rparr>)" using bio_only_fs(2) [OF t(3)] by (simp add: ud)
  have d: "get_dinode (ioff (i_inum (inodes s ip))) (view s ?B) = d" by (simp add: d_def disk_inode_def)
  have "ilock ip s = (if di_type d = 0 then None else Some (upd_inode ip (\<lambda>n. n\<lparr>i_valid := True\<rparr>) t))"
    using ref a ip u(1,5) t(1) by (simp add: ilock_def iu d it upd_inode_def panic_if_def)
  then show ?thesis using t(2,4,5) by (auto simp: upd_inode_def it)
qed

text \<open>C27: an inode survives the disk.  \<^verbatim>\<open>iupdate\<close> changes no inode but the one it stores, and whenever later the same
  inode number is in some slot of the table and not loaded, \<^verbatim>\<open>ilock\<close> on that slot loads exactly
  what was stored.\<close>

theorem inode_roundtrip:
  fixes s :: "'a fs_st_scheme"
  assumes "fs_tx k H S s" and "i_dev (inodes s ip) = ROOTDEV" and "i_inum (inodes s ip) = n" and "unat n < unat (sb_ninodes (sb s))"
    and "length (di_addrs (i_d (inodes s ip))) = 13" and "di_type (i_d (inodes s ip)) \<noteq> 0" and "IBLOCK n (sb s) \<notin> H" and "card (S \<union> H) < 29"
    and "i_dev (J jp) = ROOTDEV" and "i_inum (J jp) = n" and "\<not> i_valid (J jp)" and "1 \<le> i_ref (J jp)" and "sl_locked (slocks s (InodeLock jp)) = 0"
  shows "\<exists>t u. iupdate ip s = Some t \<and> (\<forall>j. j \<noteq> n \<and> unat j < unat (sb_ninodes (sb s)) \<longrightarrow> disk_inode t j = disk_inode s j) \<and>
    ilock jp (t\<lparr>inodes := J\<rparr>) = Some u \<and> i_d (inodes u jp) = i_d (inodes s ip) \<and> i_valid (inodes u jp)"
proof -
  have d: "in_tx k H S s" "layout s" using assms(1) by (simp_all add: fs_tx_def)
  obtain t where t: "iupdate ip s = Some t" "in_tx k H (insert (IBLOCK n (sb s)) S) t" "tx_only s t"
    "view t = (view s)(IBLOCK n (sb s) := put_dinode (ioff n) (i_d (inodes s ip)) (view s (IBLOCK n (sb s))))"
    using iupdate_law [OF d assms(2), unfolded assms(3), OF assms(4,7,8)] by blast
  have sbt: "sb t = sb s" using tx_only_fs [OF t(3)] by simp
  have di: "disk_inode t j = (if j = n then i_d (inodes s ip) else disk_inode s j)" if "unat j < unat (sb_ninodes (sb s))" for j
    by (rule iupdate_disk_inode [OF d assms(4) that sbt assms(5) t(4)])
  let ?t = "t\<lparr>inodes := J\<rparr>"
  have "card (insert (IBLOCK n (sb s)) S \<union> H) < NBUF" using assms(8) by (simp add: card_insert_if)
  moreover have "sl_locked (slocks ?t (InodeLock jp)) = 0" using tx_only_fields(4) [OF t(3)] assms(13) by simp
  ultimately obtain u where u: "ilock jp ?t = Some u" "inodes u = J(jp := (J jp)\<lparr>i_d := disk_inode t n, i_valid := True\<rparr>)"
    using ilock_law [of k H "insert (IBLOCK n (sb s)) S" ?t jp] t(2) assms(6,7,9-12) sbt di [OF assms(4)] by (auto simp: fun_upd_def split: if_splits)
  then show ?thesis using t(1) di assms(4) by (intro exI [of _ t] exI [of _ u]) simp
qed

subsection \<open>The table\<close>

definition itable_ok :: "(nat \<Rightarrow> inode) \<Rightarrow> bool" where
  "itable_ok I \<longleftrightarrow> (\<forall>i<NINODE. 0 \<le> i_ref (I i)) \<and>
     (\<forall>i<NINODE. \<forall>j<NINODE. 0 < i_ref (I i) \<and> 0 < i_ref (I j) \<and> i_dev (I i) = i_dev (I j) \<and> i_inum (I i) = i_inum (I j) \<longrightarrow> i = j)"

lemma itable_okD:
  assumes "itable_ok I"
  shows "i < NINODE \<Longrightarrow> 0 \<le> i_ref (I i)"
    "i < NINODE \<Longrightarrow> j < NINODE \<Longrightarrow> 0 < i_ref (I i) \<Longrightarrow> 0 < i_ref (I j) \<Longrightarrow> i_dev (I i) = i_dev (I j) \<Longrightarrow> i_inum (I i) = i_inum (I j) \<Longrightarrow> i = j"
  using assms by (auto simp: itable_ok_def)

lemma itable_upd:
  assumes ok: "itable_ok I" and n: "0 \<le> i_ref n"
    and u: "\<And>j. j < NINODE \<Longrightarrow> j \<noteq> ip \<Longrightarrow> 0 < i_ref (I j) \<Longrightarrow> 0 < i_ref n \<Longrightarrow> \<not> (i_dev (I j) = i_dev n \<and> i_inum (I j) = i_inum n)"
  shows "itable_ok (I(ip := n))"
proof -
  note I = itable_okD [OF ok]
  have "i = j" if "i < NINODE" "j < NINODE" "0 < i_ref ((I(ip := n)) i)" "0 < i_ref ((I(ip := n)) j)"
    "i_dev ((I(ip := n)) i) = i_dev ((I(ip := n)) j)" "i_inum ((I(ip := n)) i) = i_inum ((I(ip := n)) j)" for i j
    using that I(2) [of i j] u [of i] u [of j] by (cases "i = ip"; cases "j = ip") auto
  then show ?thesis using I(1) n unfolding itable_ok_def by simp
qed

text \<open>The references to an inode, wherever in the table it is.\<close>

definition refs :: "(nat \<Rightarrow> inode) \<Rightarrow> u32 \<Rightarrow> u32 \<Rightarrow> int" where
  "refs I dev inum = (\<Sum>i<NINODE. if i_dev (I i) = dev \<and> i_inum (I i) = inum then i_ref (I i) else 0)"

lemma refs_upd:
  assumes "ip < NINODE"
  shows "refs (I(ip := n)) dev inum = refs I dev inum - (if i_dev (I ip) = dev \<and> i_inum (I ip) = inum then i_ref (I ip) else 0) +
    (if i_dev n = dev \<and> i_inum n = inum then i_ref n else 0)"
proof -
  let ?r = "\<lambda>J i. if i_dev (J i) = dev \<and> i_inum (J i) = inum then i_ref (J i) else 0"
  have r: "refs J dev inum = ?r J ip + sum (?r J) ({..<NINODE} - {ip})" for J
    unfolding refs_def using assms by (subst sum.remove [of _ ip]) auto
  have "sum (?r (I(ip := n))) ({..<NINODE} - {ip}) = sum (?r I) ({..<NINODE} - {ip})" by (rule sum.cong) auto
  then show ?thesis unfolding r [of I] r [of "I(ip := n)"] by simp
qed

text \<open>C26: the inode table keeps one entry per inode and counts references.  \<^verbatim>\<open>iget\<close> returns a slot that holds the
  wanted inode and adds one reference to that inode and to no other; it panics only when the inode is
  not in the table and no slot is free.  The table never holds an inode twice.\<close>

theorem iget_counts_references:
  fixes s :: "'a fs_st_scheme"
  assumes "itable_ok (inodes s)" and "ItableLock \<notin> held s"
  shows "case iget dev inum s of
      None \<Rightarrow> refs (inodes s) dev inum = 0 \<and> (\<forall>i<NINODE. 0 < i_ref (inodes s i))
    | Some (ip, t) \<Rightarrow> ip < NINODE \<and> i_dev (inodes t ip) = dev \<and> i_inum (inodes t ip) = inum \<and> itable_ok (inodes t) \<and> t = s\<lparr>inodes := inodes t\<rparr> \<and>
        (\<forall>d n. refs (inodes t) d n = refs (inodes s) d n + (if d = dev \<and> n = inum then 1 else 0)) \<and>
        (\<forall>i. i_ref (inodes s i) > 0 \<longrightarrow> i_d (inodes t i) = i_d (inodes s i) \<and> i_valid (inodes t i) = i_valid (inodes s i))"
proof -
  let ?I = "inodes s"
  let ?hit = "\<lambda>i. i_ref (?I i) > 0 \<and> i_dev (?I i) = dev \<and> i_inum (?I i) = inum"
  show ?thesis
  proof (cases "List.find ?hit [0..<NINODE]")
    case (Some ip)
    then have ip: "ip < NINODE" "?hit ip" by (auto simp: find_upt)
    let ?n = "(?I ip)\<lparr>i_ref := i_ref (?I ip) + 1\<rparr>"
    have e: "iget dev inum s = Some (ip, s\<lparr>inodes := ?I(ip := ?n)\<rparr>)"
      using Some assms(2) by (simp add: iget_def upd_inode_def lock_simps)
    have uniq: "\<not> (i_dev (?I j) = dev \<and> i_inum (?I j) = inum)" if "j < NINODE" "j \<noteq> ip" "0 < i_ref (?I j)" for j
      using itable_okD(2) [OF assms(1) that(1) ip(1) that(3)] ip(2) that(2) by auto
    have "itable_ok (?I(ip := ?n))" by (rule itable_upd [OF assms(1)]) (use ip uniq in auto)
    then show ?thesis unfolding e using ip by (auto simp: refs_upd)
  next
    case None
    then have no: "\<And>i. i < NINODE \<Longrightarrow> \<not> ?hit i" by (auto simp: find_upt_None)
    have nn: "0 \<le> i_ref (?I i)" if "i < NINODE" for i using assms(1) that by (simp add: itable_ok_def)
    have zero: "refs ?I dev inum = 0" unfolding refs_def by (rule sum.neutral) (use no nn in force)
    show ?thesis
    proof (cases "List.find (\<lambda>i. i_ref (?I i) = 0) [0..<NINODE]")
      case free: None
      then have "iget dev inum s = None" using None assms(2) by (simp add: iget_def lock_simps)
      moreover have "0 < i_ref (?I i)" if "i < NINODE" for i using free that nn [OF that] by (force simp: find_upt_None)
      ultimately show ?thesis using zero by simp
    next
      case (Some ip)
      then have ip: "ip < NINODE" "i_ref (?I ip) = 0" by (auto simp: find_upt)
      let ?n = "(?I ip)\<lparr>i_dev := dev, i_inum := inum, i_ref := 1, i_valid := False\<rparr>"
      have e: "iget dev inum s = Some (ip, s\<lparr>inodes := ?I(ip := ?n)\<rparr>)"
        using None Some assms(2) by (simp add: iget_def upd_inode_def lock_simps)
      have "itable_ok (?I(ip := ?n))" by (rule itable_upd [OF assms(1)]) (use no in auto)
      then show ?thesis unfolding e using ip by (auto simp: refs_upd)
    qed
  qed
qed

lemma demo_itable: "itable_ok demo_inodes" and demo_refs: "refs demo_inodes 1 5 = 1"
proof -
  show "itable_ok demo_inodes" by (simp add: itable_ok_def demo_inodes_def)
  have "refs demo_inodes 1 5 = (\<Sum>i<NINODE. if i = 0 then 1 else 0)" unfolding refs_def by (rule sum.cong) (auto simp: demo_inodes_def)
  then show "refs demo_inodes 1 5 = 1" by simp
qed

theorem iget_counts_references_witness:
  "case iget 1 5 (demo_fs demo_inodes) of None \<Rightarrow> False | Some (ip, t) \<Rightarrow> i_inum (inodes t ip) = 5 \<and> refs (inodes t) 1 5 = 2"
proof -
  have s: "inodes (demo_fs demo_inodes) = demo_inodes" "held (demo_fs demo_inodes) = {}"
    by (simp_all add: demo_fs_def demo_log_def demo_bio_def demo_sl_def demo_st_def proc_st.defs sl_st.defs bio_st.defs log_st.defs fs_st.defs)
  show ?thesis using iget_counts_references [of "demo_fs demo_inodes" 1 5] demo_itable demo_refs by (auto simp: s split: option.splits)
qed

theorem inode_roundtrip_witness:
  "\<exists>t u. iupdate 0 (binit (demo_fs demo_inodes)) = Some t \<and>
     ilock 3 (t\<lparr>inodes := demo_inodes(3 := (demo_inodes 3)\<lparr>i_dev := 1, i_inum := 5, i_ref := 1\<rparr>)\<rparr>) = Some u \<and> i_d (inodes u 3) = i_d (demo_inodes 0)"
proof -
  have "sl_locked (slocks (binit (demo_fs demo_inodes)) (InodeLock 3)) = 0"
    unfolding bio_only_fields(5) [where k = 3, OF demo_fs_binit(2)]
    by (simp add: demo_fs_def demo_log_def demo_bio_def demo_sl_def demo_st_def proc_st.defs sl_st.defs bio_st.defs log_st.defs fs_st.defs)
  then show ?thesis
    using inode_roundtrip [where ip = 0 and n = 5 and J = "demo_inodes(3 := (demo_inodes 3)\<lparr>i_dev := 1, i_inum := 5, i_ref := 1\<rparr>)" and jp = 3,
        OF demo_fs_tx(1) [of demo_inodes]]
    by (auto simp: demo_fs_tx demo_inodes_def demo_sb_def)
qed

end
