(* ===== verification/Fs_Types.thy ===== *)
theory Fs_Types
  imports Fs_Bmap
begin

text \<open>
  The sizes the C types fix and the model has to keep: every block, on the disk and in a buffer, is
  \<^verbatim>\<open>BSIZE\<close> bytes, and every inode has \<^verbatim>\<open>NDIRECT + 1\<close> addresses.  Each operation of \<^verbatim>\<open>kernel/fs.c\<close>
  keeps them on every path on which it returns, whatever is on the disk and whatever its arguments are.
\<close>

definition typed :: "'a fs_st_scheme \<Rightarrow> bool" where
  "typed s \<longleftrightarrow> (\<forall>i. length (b_data (bufs s i)) = BSIZE) \<and> (\<forall>b. length (disk s b) = BSIZE) \<and>
     (\<forall>ip. length (di_addrs (i_d (inodes s ip))) = NDIRECT + 1)"

lemma typedD:
  assumes "typed s"
  shows "length (b_data (bufs s i)) = BSIZE" "length (disk s b) = BSIZE" "length (di_addrs (i_d (inodes s ip))) = 13"
  using assms by (simp_all add: typed_def)

subsection \<open>Partial correctness\<close>

definition post :: "('x \<Rightarrow> bool) \<Rightarrow> 'x option \<Rightarrow> bool" where
  "post Q m \<longleftrightarrow> (\<forall>x. m = Some x \<longrightarrow> Q x)"

abbreviation typed2 :: "'r \<times> 'a fs_st_scheme \<Rightarrow> bool" where "typed2 \<equiv> \<lambda>(r, s). typed s"
abbreviation typed3 :: "'r \<times> 'q \<times> 'a fs_st_scheme \<Rightarrow> bool" where "typed3 \<equiv> \<lambda>(r, q, s). typed s"

named_theorems hoare

lemma post_Some [hoare]: "Q x \<Longrightarrow> post Q (Some x)" and post_None [hoare]: "post Q None"
  by (simp_all add: post_def)

lemma post_let [hoare]: "post Q (f e) \<Longrightarrow> post Q (Let e f)"
  by simp

lemma post_if [hoare]: "(c \<Longrightarrow> post Q a) \<Longrightarrow> (\<not> c \<Longrightarrow> post Q b) \<Longrightarrow> post Q (if c then a else b)"
  by simp

lemma post_option [hoare]: "(m = None \<Longrightarrow> post Q a) \<Longrightarrow> (\<And>x. m = Some x \<Longrightarrow> post Q (b x)) \<Longrightarrow> post Q (case m of None \<Rightarrow> a | Some x \<Rightarrow> b x)"
  by (cases m) auto

lemma post_prod [hoare]: "(\<And>x y. p = (x, y) \<Longrightarrow> post Q (f x y)) \<Longrightarrow> post Q (case p of (x, y) \<Rightarrow> f x y)"
  by (cases p) auto

text \<open>Binding a state, a result with a state, and a result alone; the types keep them apart.\<close>

lemma post_bind_typed [hoare]: "post typed m \<Longrightarrow> (\<And>s. typed s \<Longrightarrow> post Q (f s)) \<Longrightarrow> post Q (m \<bind> f)"
  by (cases m) (auto simp: post_def)

lemma post_bind_typed2 [hoare]: "post typed2 m \<Longrightarrow> (\<And>r s. typed s \<Longrightarrow> post Q (f r s)) \<Longrightarrow> post Q (m \<bind> (\<lambda>(r, s). f r s))"
  by (cases m) (auto simp: post_def)

lemma post_bind_typed3 [hoare]: "post typed3 m \<Longrightarrow> (\<And>r q s. typed s \<Longrightarrow> post Q (f r q s)) \<Longrightarrow> post Q (m \<bind> (\<lambda>(r, q, s). f r q s))"
  by (cases m) (auto simp: post_def)

lemma post_bind_value: "(\<And>x. m = Some x \<Longrightarrow> post Q (f x)) \<Longrightarrow> post Q (m \<bind> f)"
  by (cases m) (auto simp: post_def)

lemmas post_bind_unit [hoare] = post_bind_value [where 'a = unit]
lemmas post_bind_nat [hoare] = post_bind_value [where 'a = nat]

lemma post_for [hoare]: "(\<And>i s. typed s \<Longrightarrow> post typed (body i s)) \<Longrightarrow> typed s \<Longrightarrow> post typed (for_each is body s)"
proof (induction "is" arbitrary: s)
  case (Cons i "is")
  show ?case unfolding for_each.simps by (rule post_bind_typed) (use Cons in simp_all)
qed (simp add: post_def)

subsection \<open>Locks and buffers\<close>

lemma typed_frame [simp]:
  "typed (s\<lparr>held := H\<rparr>) = typed s" "typed (s\<lparr>procs := P\<rparr>) = typed s" "typed (s\<lparr>slocks := K\<rparr>) = typed s" "typed (s\<lparr>mem := m\<rparr>) = typed s"
  "typed (s\<lparr>sb := B\<rparr>) = typed s" "typed (upd_log f s) = typed s"
  by (simp_all add: typed_def upd_log_def)

lemma typed_set_data [simp]: "typed s \<Longrightarrow> length x = BSIZE \<Longrightarrow> typed (set_data i x s)"
  by (simp add: typed_def set_data_def upd_buf_def)

lemma set_data_same [simp]: "b_data (bufs (set_data i x s) i) = x"
  by (simp add: set_data_def upd_buf_def)

lemma typed_upd_buf: "typed s \<Longrightarrow> b_data (f (bufs s i)) = b_data (bufs s i) \<Longrightarrow> typed (upd_buf i f s)"
  by (simp add: typed_def upd_buf_def)

lemma typed_upd_d [simp]: "typed s \<Longrightarrow> length (di_addrs (f (i_d (inodes s ip)))) = 13 \<Longrightarrow> typed (upd_d ip f s)"
  by (simp add: typed_def)

lemma typed_upd_inode: "typed s \<Longrightarrow> i_d (f (inodes s ip)) = i_d (inodes s ip) \<Longrightarrow> typed (upd_inode ip f s)"
  by (simp add: typed_def upd_inode_def)

lemma typed_lru [simp]: "typed s \<Longrightarrow> typed (lru_insert b s)" "typed s \<Longrightarrow> typed (lru_remove b s)"
  by (simp_all add: lru_insert_def lru_remove_def Let_def typed_upd_buf)

lemma acq_typed [hoare]: "typed s \<Longrightarrow> post typed (acq l s)" and rel_typed [hoare]: "typed s \<Longrightarrow> post typed (rel l s)"
  by (auto simp: post_def acq_eq_Some rel_eq_Some)

lemma wakeup_typed [hoare]: "typed s \<Longrightarrow> post typed (wakeup ch s)"
  unfolding wakeup_def by (intro hoare) (auto simp: upd_proc_def)

lemma acquiresleep_typed [hoare]: "typed s \<Longrightarrow> post typed2 (returned (acquiresleep l s))"
  by (auto simp: post_def returned_eq_Some acquiresleep_def acquiresleep_loop_def bind_eq_Some_conv acq_eq_Some rel_eq_Some upd_sl_def Let_def split: if_splits)

lemma releasesleep_typed [hoare]: "typed s \<Longrightarrow> post typed (releasesleep l s)"
  unfolding releasesleep_def by (intro hoare) (auto simp: upd_sl_def)

lemma holdingsleep_typed [hoare]: "typed s \<Longrightarrow> post typed2 (holdingsleep l s)"
  unfolding holdingsleep_def by (intro hoare) auto

lemma bget_typed [hoare]: "typed s \<Longrightarrow> post typed2 (bget dev n s)"
  unfolding bget_def by (intro hoare post_bind_value) (auto simp: typed_upd_buf)

lemma bread_typed [hoare]: "typed s \<Longrightarrow> post typed2 (bread dev n s)"
  unfolding bread_def disk_rw_def by (intro hoare) (auto simp: typed_upd_buf typedD)

lemma brelse_typed [hoare]: "typed s \<Longrightarrow> post typed (brelse b s)"
  unfolding brelse_def by (intro hoare) (auto simp: typed_upd_buf)

lemma bpin_typed [hoare]: "typed s \<Longrightarrow> post typed (bpin b s)"
  unfolding bpin_def by (intro hoare) (auto simp: typed_upd_buf)

lemma log_write_typed [hoare]: "typed s \<Longrightarrow> post typed (log_write b s)"
  unfolding log_write_def by (intro hoare) auto

subsection \<open>Blocks and inodes\<close>

lemma readsb_typed [hoare]: "typed s \<Longrightarrow> post typed (readsb dev s)"
  unfolding readsb_def by (intro hoare) auto

lemma bzero_typed [hoare]: "typed s \<Longrightarrow> post typed (bzero dev n s)"
  unfolding bzero_def by (intro hoare) auto

lemma balloc_scan_typed: "typed s \<Longrightarrow> post typed2 (balloc_scan dev bs s)"
proof (induction bs arbitrary: s)
  case (Cons b bs)
  then show ?case unfolding balloc_scan.simps by (intro hoare) (auto simp: typedD)
qed (simp add: hoare)

lemma balloc_typed [hoare]: "typed s \<Longrightarrow> post typed2 (balloc dev s)"
  unfolding balloc_def by (rule balloc_scan_typed)

lemma bfree_typed [hoare]: "typed s \<Longrightarrow> post typed (bfree dev b s)"
  unfolding bfree_def by (intro hoare) (auto simp: typedD)

lemma iget_typed [hoare]: "typed s \<Longrightarrow> post typed2 (iget dev inum s)"
  unfolding iget_def by (intro hoare) (auto simp: typed_upd_inode)

lemma idup_typed [hoare]: "typed s \<Longrightarrow> post typed (idup ip s)"
  unfolding idup_def by (intro hoare) (auto simp: typed_upd_inode)

lemma ialloc_scan_typed: "typed s \<Longrightarrow> post typed2 (ialloc_scan dev ty ns s)"
proof (induction ns arbitrary: s)
  case (Cons n ns)
  have "ioff (of_nat n) + 2 \<le> BSIZE" using ioff_bound [of "of_nat n"] by linarith
  then show ?case unfolding ialloc_scan.simps using Cons by (intro hoare) (auto simp: typedD ioff_bound)
qed (simp add: hoare)

lemma ialloc_typed [hoare]: "typed s \<Longrightarrow> post typed2 (ialloc dev ty s)"
  unfolding ialloc_def by (rule ialloc_scan_typed)

lemma iupdate_typed [hoare]: "typed s \<Longrightarrow> post typed (iupdate ip s)"
  unfolding iupdate_def by (intro hoare) (auto simp: typedD ioff_bound)

lemma ilock_typed [hoare]: "typed s \<Longrightarrow> post typed (ilock ip s)"
  unfolding ilock_def by (intro hoare) (auto simp: typed_upd_inode get_dinode_def)

lemma iunlock_typed [hoare]: "typed s \<Longrightarrow> post typed (iunlock ip s)"
  unfolding iunlock_def by (intro hoare) auto

lemma typed_set_addr [simp]: "typed s \<Longrightarrow> typed (set_addr ip k a s)"
  by (simp add: set_addr_def typedD)

lemma bmap_slot_typed [hoare]: "typed s \<Longrightarrow> post typed2 (bmap_slot ip k s)"
  unfolding bmap_slot_def by (intro hoare) auto

lemma bmap_typed [hoare]: "typed s \<Longrightarrow> post typed2 (bmap ip bn s)"
  unfolding bmap_def by (intro hoare) (auto simp: typedD)

lemma itrunc_typed [hoare]: "typed s \<Longrightarrow> post typed (itrunc ip s)"
  unfolding itrunc_def by (intro hoare) (auto simp: typedD)

lemma iput_typed [hoare]: "typed s \<Longrightarrow> post typed (iput ip s)"
  unfolding iput_def by (intro hoare) (auto simp: typedD typed_upd_inode)

lemma iunlockput_typed [hoare]: "typed s \<Longrightarrow> post typed (iunlockput ip s)"
  unfolding iunlockput_def by (intro hoare) auto

subsection \<open>Contents, directories and paths\<close>

lemma copyout_typed: "typed s \<Longrightarrow> post typed2 (copyout pt va xs s)"
proof (induction pt va xs s rule: copyout.induct)
  case (1 pt va xs s)
  then show ?case by (subst copyout.simps) (auto simp: Let_def intro!: hoare post_bind_value)
qed

lemma either_copyout_typed [hoare]: "typed s \<Longrightarrow> post typed2 (either_copyout u dst xs s)"
  unfolding either_copyout_def by (intro hoare copyout_typed) auto

lemma readi_loop_typed: "typed s \<Longrightarrow> post typed2 (readi_loop ip u dst off k s)"
proof (induction k arbitrary: dst off s rule: less_induct)
  case (less k)
  have "k \<noteq> 0 \<Longrightarrow> k - min k (BSIZE - off mod BSIZE) < k" by simp
  then show ?case using less by (subst readi_loop.simps) (intro hoare, auto)
qed

lemma readi_typed [hoare]: "typed s \<Longrightarrow> post typed2 (readi ip u dst off n s)"
  unfolding readi_def by (intro hoare readi_loop_typed) auto

lemma copyin_length: "copyin pt va n s = Some (r, xs) \<Longrightarrow> length xs \<le> n"
proof (induction pt va n s arbitrary: r xs rule: copyin.induct)
  case (1 pt va n s)
  show ?case
  proof (cases "n = 0")
    case False
    from "1.prems" False obtain p where p: "walkaddr pt (PGROUNDDOWN va) s = Some p" by (subst (asm) copyin.simps) (auto simp: bind_eq_Some_conv Let_def)
    show ?thesis
    proof (cases "p = 0")
      case True
      then show ?thesis using "1.prems" False p by (subst (asm) copyin.simps) simp
    next
      case p0: False
      define k where "k = (if page_room va > n then n else page_room va)"
      obtain ys where ys: "copyin pt (PGROUNDDOWN va + PGSIZE) (n - k) s = Some (r, ys)"
        "xs = bytes_at (mem s) (p + (va - PGROUNDDOWN va)) k @ ys"
        using "1.prems" False p p0 by (subst (asm) copyin.simps) (auto simp: Let_def bind_eq_Some_conv k_def split: if_splits)
      have "length ys \<le> n - k" using "1.IH" [OF False refl p p0 refl refl, of r ys] ys(1) by (simp add: k_def)
      moreover have "k \<le> n" by (simp add: k_def)
      ultimately show ?thesis using ys(2) by simp
    qed
  qed (use "1.prems" in \<open>subst (asm) copyin.simps, simp\<close>)
qed

lemma either_copyin_length: "either_copyin u src n s = Some (r, xs) \<Longrightarrow> length xs \<le> n"
  by (auto simp: either_copyin_def bind_eq_Some_conv dest: copyin_length split: if_splits)

lemma post_bind_bytes [hoare]:
  "(\<And>r xs. m = Some (r, xs) \<Longrightarrow> post Q (f r xs)) \<Longrightarrow> post Q (m \<bind> (\<lambda>(r :: int, xs :: bytes). f r xs))"
  by (cases m) (auto simp: post_def)

lemma writei_loop_typed [hoare]: "typed s \<Longrightarrow> post typed2 (writei_loop ip u src off k s)"
proof (induction k arbitrary: src off s rule: less_induct)
  case (less k)
  have k: "k \<noteq> 0 \<Longrightarrow> k - min k (BSIZE - off mod BSIZE) < k" by simp
  have len: "off mod BSIZE + length xs \<le> BSIZE" if "either_copyin u src (min k (BSIZE - off mod BSIZE)) t = Some (r, xs)"
    for t :: "'a fs_st_scheme" and r xs
    using either_copyin_length [OF that] mod_less_divisor [of BSIZE off] by linarith
  show ?case using less k by (subst writei_loop.simps) (intro hoare, auto simp: typedD dest!: len)
qed

lemma writei_typed [hoare]: "typed s \<Longrightarrow> post typed2 (writei ip u src off n s)"
  unfolding writei_def by (intro hoare) (auto simp: typedD)

lemma dirlookup_scan_typed [hoare]: "typed s \<Longrightarrow> post typed2 (dirlookup_scan dp name offs s)"
proof (induction offs arbitrary: s)
  case (Cons off offs)
  then show ?case unfolding dirlookup_scan.simps by (intro hoare) auto
qed (simp add: hoare)

lemma dirlookup_typed [hoare]: "typed s \<Longrightarrow> post typed2 (dirlookup dp name s)"
  unfolding dirlookup_def by (intro hoare) auto

lemma dirlink_scan_typed [hoare]: "typed s \<Longrightarrow> post typed2 (dirlink_scan dp offs s)"
proof (induction offs arbitrary: s)
  case (Cons off offs)
  then show ?case unfolding dirlink_scan.simps by (intro hoare) auto
qed (simp add: hoare)

lemma dirlink_typed [hoare]: "typed s \<Longrightarrow> post typed2 (dirlink dp name inum s)"
  unfolding dirlink_def by (intro hoare) auto

lemma namex_loop_typed [hoare]: "typed s \<Longrightarrow> post typed3 (namex_loop ip path np name s)"
proof (induction path arbitrary: ip name s rule: length_induct)
  case (1 path)
  have IH: "typed t \<Longrightarrow> post typed3 (namex_loop jp q np nm' t)" if "skipelem path nm = Some (q, nm')" for jp q nm nm' and t :: "'a fs_st_scheme"
    using 1 skipelem_shorter [OF that] by blast
  show ?case using "1.prems" by (subst namex_loop.simps) (intro hoare, auto intro: IH)
qed

lemma namex_typed [hoare]: "typed s \<Longrightarrow> post typed3 (namex path np name s)"
  unfolding namex_def by (intro hoare) auto


lemma binit_typed: "typed s \<Longrightarrow> typed (binit s)"
  unfolding binit_def Let_def
  by (rule fold_invariant [where Q = "\<lambda>_. True"]) (auto simp: typed_upd_buf initsleeplock_def upd_sl_def)


end
