(* ===== verification/Spec2Isabelle.thy ===== *)
theory Spec2Isabelle
  imports Vm_User Log_Tx Trap_Laws Boot Grep Sh_Run Mkfs_Image Fs_Table Fs_Types
begin

text \<open>
  A verification development of xv6 for RISC-V, in a version with a priority scheduler and a limit of memory per process: the
  kernel \<^verbatim>\<open>src/kernel\<close>, the image builder \<^verbatim>\<open>src/mkfs\<close> and the larger programs of \<^verbatim>\<open>src/user\<close>.

  \<^bold>\<open>The program.\<close>  The kernel boots on every hart (\<^verbatim>\<open>entry.S\<close>, \<^verbatim>\<open>start.c\<close>, \<^verbatim>\<open>main.c\<close>), frees the memory behind it
  (\<^verbatim>\<open>kalloc.c\<close>), builds page tables (\<^verbatim>\<open>vm.c\<close>) and makes the first process (\<^verbatim>\<open>proc.c\<close>).  A process enters the kernel
  through \<^verbatim>\<open>trampoline.S\<close> and \<^verbatim>\<open>trap.c\<close>, which dispatches system calls (\<^verbatim>\<open>syscall.c\<close>, \<^verbatim>\<open>sysproc.c\<close>,
  \<^verbatim>\<open>sysfile.c\<close>) and interrupts (\<^verbatim>\<open>plic.c\<close>, \<^verbatim>\<open>uart.c\<close>, \<^verbatim>\<open>virtio_disk.c\<close>).  Files are descriptors (\<^verbatim>\<open>file.c\<close>)
  of pipes (\<^verbatim>\<open>pipe.c\<close>), of the console (\<^verbatim>\<open>console.c\<close>) or of inodes (\<^verbatim>\<open>fs.c\<close>), whose blocks go through the log
  (\<^verbatim>\<open>log.c\<close>) and the buffer cache (\<^verbatim>\<open>bio.c\<close>) to the disk.  Spin locks and sleep locks (\<^verbatim>\<open>spinlock.c\<close>,
  \<^verbatim>\<open>sleeplock.c\<close>) guard all of it.

  \<^bold>\<open>Conventions.\<close>  A C function is a function on an explicit state, in the option monad where it may not come back: \<^const>\<open>None\<close>
  is a panic, an endless spin, a failed assertion or an access the C language leaves undefined.  Error codes are ordinary values.
  Machine integers are words of their width; \<^verbatim>\<open>int\<close> values that the code keeps small are integers.  The state is a chain of
  extensible records, one per component, so that an operation is polymorphic in what the upper layers add:
  locks, memory and free list, processes, sleep locks, buffers and disk, log, inodes, serial port and console, open files and pipes,
  trap registers.  Loops are recursion on lists of indices, \<^verbatim>\<open>function\<close>s with a measure, or \<^verbatim>\<open>partial_function\<close>s where the end is
  what has to be shown.  A call that blocks ends in the context switch, and the rest of it is a second definition whose name ends in
  \<open>_resume\<close> or \<open>_exit\<close>.

  \<^bold>\<open>Theories and what they show.\<close>

  \<^item> \<open>Xv6_Prelude\<close>, \<open>Bytes\<close>, \<open>Cstring\<close>, \<open>Ring\<close>: types, loop combinators, little-endian fields; \<^verbatim>\<open>string.c\<close>
    on byte-addressed memory (\<^verbatim>\<open>memmove\<close> for every overlap); ring buffers with wrapping counters, which implement the locale
    \<open>bounded_queue\<close>.
  \<^item> \<open>Spinlock\<close>: \<^verbatim>\<open>spinlock.c\<close> with the nesting of disabled interrupts; mutual exclusion over all interleavings of harts, and the
    locale \<open>lock_discipline\<close>, the set of held locks that the sequential components work with.
  \<^item> \<open>Kalloc\<close>: the free list inside the free pages; the locale \<open>page_allocator\<close>.
  \<^item> \<open>Vm\<close>, \<open>Vm_Frame\<close>, \<open>Vm_Laws\<close>, \<open>Vm_User\<close>: page tables in memory, the mapping they represent, what \<^verbatim>\<open>mappages\<close> and
    \<^verbatim>\<open>uvmunmap\<close> do to it; \<^verbatim>\<open>copyin\<close>, \<^verbatim>\<open>copyout\<close> and \<^verbatim>\<open>copyinstr\<close> as transfers through it.
  \<^item> \<open>Proc\<close>, \<open>Proc_Laws\<close>: the process table and the modified scheduler (\<^verbatim>\<open>elegir\<close>, \<^verbatim>\<open>update_time\<close>, \<^verbatim>\<open>setpriority\<close>,
    \<^verbatim>\<open>waitx\<close>, the limit in \<^verbatim>\<open>growproc\<close>); the choice of the scheduler, unique identifiers, reaping, the limit.
  \<^item> \<open>Sleeplock\<close>: sleep locks, and that no wakeup is lost under any interleaving with the scheduler.
  \<^item> \<open>Bio\<close>, \<open>Bio_Laws\<close>: the cache as an abstract store of blocks (locale \<open>block_store\<close>).  \<open>Virtio\<close>, \<open>Virtio_Laws\<close>: the disk
    driver and a device that serves its requests do the transfer the cache relies on.
  \<^item> \<open>Log\<close>, \<open>Log_Laws\<close>, \<open>Log_Tx\<close>: commit, recovery and transactions; atomicity of a commit under a crash at any disk write.
  \<^item> \<open>Fs\<close>, \<open>Fs_Laws\<close>, \<open>Fs_Inode\<close>, \<open>Fs_Bmap\<close>, \<open>Fs_Data\<close>, \<open>Fs_Table\<close>, \<open>Fs_Types\<close>: blocks, inodes, block maps, contents and
    directories; files as byte strings under \<^verbatim>\<open>readi\<close> and \<^verbatim>\<open>writei\<close>, the table of inodes, the sizes that every operation keeps.
  \<^item> \<open>Uart\<close>, \<open>Uart_Laws\<close>: serial port, console and \<^verbatim>\<open>printf.c\<close>.  \<open>File\<close>, \<open>Pipe_Laws\<close>: open files and pipes; a pipe is a
    queue of bytes.
  \<^item> \<open>Life\<close>, \<open>Sysfile\<close>, \<open>Syscall\<close>, \<open>Trap\<close>: \<^verbatim>\<open>fork\<close>, \<^verbatim>\<open>exit\<close>, \<^verbatim>\<open>exec\<close>, the system calls, the dispatcher, traps and \<^verbatim>\<open>main\<close>.
  \<^item> \<open>Riscv\<close>, \<open>Boot\<close>, \<open>Trap_Laws\<close>: the assembly files as lists of instructions on a machine with Sv39 translation; boot, context
    switch, kernel interrupts, and the way from \<^verbatim>\<open>usertrapret\<close> to user mode and back to \<^verbatim>\<open>usertrap\<close>.
  \<^item> \<open>Mkfs\<close>, \<open>Mkfs_Laws\<close>, \<open>Mkfs_Image\<close>: the image builder, when it succeeds, and that the kernel mounts the image with
    \<^verbatim>\<open>fsinit\<close> and finds every file in it.
  \<^item> \<open>Ulib\<close>, \<open>Grep\<close>, \<open>Sh\<close>, \<open>Sh_Laws\<close>, \<open>Sh_Run\<close>: the user library, pattern search, and the shell from a line of text to the processes
    it starts.

  Every locale is interpreted on the definitions that model the code: \<open>held_set\<close> and \<open>spin_impl\<close> for the locks, \<open>kmem\<close> for the
  allocator, \<open>bc\<close> for the cache, \<open>tq\<close> and \<open>pq\<close> for the transmit buffer and the pipe.

  \<^bold>\<open>Bounds and fuel.\<close>  The only fuel is that of the shell's parser, \<open>4 * length + 4\<close> for a line: at most four calls of the recursion
  happen without reading a character, and the parser is shown never to run out.  The sizes (64 processes, 30 buffers, 30 log blocks,
  50 inodes in use, 1024-byte blocks) are those of \<^verbatim>\<open>param.h\<close> and \<^verbatim>\<open>fs.h\<close>.

  \<^bold>\<open>Environment.\<close>  Devices are arguments: what the serial port, the interrupt controller and the disk device show, and for the disk
  the promise of the VIRTIO standard, as hypotheses.  In the shell an argument says which system calls succeed; its \<^verbatim>\<open>malloc\<close> never fails.
  The addresses that the linker chooses are parameters.

  \<^bold>\<open>Not modelled.\<close>  Interleaving of harts is modelled for the locks and for sleep and wakeup; the other components are sequential
  between two context switches, as the locks make them.  The programs that only make a few system calls and print (\<^verbatim>\<open>cat\<close>,
  \<^verbatim>\<open>echo\<close>, \<^verbatim>\<open>ls\<close> and others, the demonstrations of the scheduler and of the memory limit), the user allocator and user
  \<^verbatim>\<open>printf\<close>, and the test programs (\<^verbatim>\<open>usertests.c\<close>, \<^verbatim>\<open>grind.c\<close>, \<^verbatim>\<open>forktest.c\<close>, \<^verbatim>\<open>stressfs.c\<close>) are not translated.
  \<^verbatim>\<open>ramdisk.c\<close> and \<^verbatim>\<open>kernel/memtest.c\<close> are not part of the kernel that the build makes.
\<close>

end
